(* ===== verification/Rust_Prelude.thy ===== *)
theory Rust_Prelude
  imports Main "HOL-Library.Word"
begin

text \<open>
  The vocabulary the component theories share: Rust results with an explicit panic, the
  checked and overflow-checked integer operations, and the lemmas that carry word arithmetic
  over to natural numbers.

  The workspace is built with \<open>overflow-checks = true\<close> (\<open>src/Cargo.toml\<close>, profile
  \<open>release\<close>), so an arithmetic operation that leaves its range panics; it never wraps. The
  models use \<open>add_p\<close> and \<open>sub_p\<close> wherever the source's own guards do not exclude that.
\<close>

section \<open>Machine integers\<close>

type_synonym u8 = "8 word"
type_synonym u16 = "16 word"
type_synonym u32 = "32 word"
type_synonym u64 = "64 word"
type_synonym u128 = "128 word"

section \<open>Results\<close>

text \<open>
  \<open>Result<T, E>\<close> with a third outcome: \<open>Panic\<close> stands for every way the Rust code can
  unwind (an arithmetic overflow, \<open>unwrap\<close>/\<open>expect\<close> on the wrong variant,
  \<open>assert!\<close>, \<open>unreachable!\<close>, an index out of range).
\<close>

datatype ('a, 'e) result = Ok 'a | Err 'e | Panic

primrec and_then :: "('a, 'e) result \<Rightarrow> ('a \<Rightarrow> ('b, 'e) result) \<Rightarrow> ('b, 'e) result" where
  "and_then (Ok x) f = f x"
| "and_then (Err e) f = Err e"
| "and_then Panic f = Panic"

primrec map_ok :: "('a \<Rightarrow> 'b) \<Rightarrow> ('a, 'e) result \<Rightarrow> ('b, 'e) result" where
  "map_ok f (Ok x) = Ok (f x)"
| "map_ok f (Err e) = Err e"
| "map_ok f Panic = Panic"

primrec map_err :: "('e \<Rightarrow> 'f) \<Rightarrow> ('a, 'e) result \<Rightarrow> ('a, 'f) result" where
  "map_err f (Ok x) = Ok x"
| "map_err f (Err e) = Err (f e)"
| "map_err f Panic = Panic"

primrec is_ok :: "('a, 'e) result \<Rightarrow> bool" where
  "is_ok (Ok x) = True"
| "is_ok (Err e) = False"
| "is_ok Panic = False"

primrec is_err :: "('a, 'e) result \<Rightarrow> bool" where
  "is_err (Ok x) = False"
| "is_err (Err e) = True"
| "is_err Panic = False"

text \<open>\<open>Result::ok\<close>: the value, with the error forgotten.\<close>

primrec ok_opt :: "('a, 'e) result \<Rightarrow> 'a option" where
  "ok_opt (Ok x) = Some x"
| "ok_opt (Err e) = None"
| "ok_opt Panic = None"

text \<open>\<open>unwrap\<close> and \<open>expect\<close>: an error becomes a panic.\<close>

primrec unwrap_ok :: "('a, 'e) result \<Rightarrow> ('a, 'f) result" where
  "unwrap_ok (Ok x) = Ok x"
| "unwrap_ok (Err e) = Panic"
| "unwrap_ok Panic = Panic"

primrec ok_or :: "'e \<Rightarrow> 'a option \<Rightarrow> ('a, 'e) result" where
  "ok_or e None = Err e"
| "ok_or e (Some x) = Ok x"

primrec unwrap_some :: "'a option \<Rightarrow> ('a, 'e) result" where
  "unwrap_some None = Panic"
| "unwrap_some (Some x) = Ok x"

definition ensure :: "bool \<Rightarrow> 'e \<Rightarrow> (unit, 'e) result" where
  "ensure b e = (if b then Ok () else Err e)"

definition assert_p :: "bool \<Rightarrow> (unit, 'e) result" where
  "assert_p b = (if b then Ok () else Panic)"

lemma and_then_cong: "r = r' \<Longrightarrow> (\<And>x. r' = Ok x \<Longrightarrow> f x = g x) \<Longrightarrow> and_then r f = and_then r' g"
  by (cases r') simp_all

named_theorems result_simps \<open>characterisations of a result by its outcome\<close>

lemma and_then_eq_Ok [result_simps]: "and_then r f = Ok y \<longleftrightarrow> (\<exists>x. r = Ok x \<and> f x = Ok y)"
  by (cases r) auto

lemma and_then_eq_Err [result_simps]:
  "and_then r f = Err e \<longleftrightarrow> r = Err e \<or> (\<exists>x. r = Ok x \<and> f x = Err e)"
  by (cases r) auto

lemma and_then_eq_Panic [result_simps]:
  "and_then r f = Panic \<longleftrightarrow> r = Panic \<or> (\<exists>x. r = Ok x \<and> f x = Panic)"
  by (cases r) auto

lemma map_ok_eq_Ok [result_simps]: "map_ok f r = Ok y \<longleftrightarrow> (\<exists>x. r = Ok x \<and> y = f x)"
  by (cases r) auto

lemma map_ok_eq_Err [result_simps]: "map_ok f r = Err e \<longleftrightarrow> r = Err e"
  by (cases r) auto

lemma map_ok_eq_Panic [result_simps]: "map_ok f r = Panic \<longleftrightarrow> r = Panic"
  by (cases r) auto

lemma map_err_eq_Ok [result_simps]: "map_err f r = Ok y \<longleftrightarrow> r = Ok y"
  by (cases r) auto

lemma map_err_eq_Err [result_simps]: "map_err f r = Err e \<longleftrightarrow> (\<exists>e'. r = Err e' \<and> e = f e')"
  by (cases r) auto

lemma map_err_eq_Panic [result_simps]: "map_err f r = Panic \<longleftrightarrow> r = Panic"
  by (cases r) auto

lemma unwrap_ok_eq_Ok [result_simps]: "unwrap_ok r = Ok y \<longleftrightarrow> r = Ok y"
  by (cases r) auto

lemma unwrap_ok_not_Err [result_simps]: "unwrap_ok r = Err e \<longleftrightarrow> False"
  by (cases r) auto

lemma ok_or_eq_Ok [result_simps]: "ok_or e v = Ok y \<longleftrightarrow> v = Some y"
  by (cases v) auto

lemma ok_or_eq_Err [result_simps]: "ok_or e v = Err e' \<longleftrightarrow> v = None \<and> e' = e"
  by (cases v) auto

lemma ok_or_not_Panic [result_simps]: "ok_or e v = Panic \<longleftrightarrow> False"
  by (cases v) auto

lemma unwrap_some_eq_Ok [result_simps]: "unwrap_some v = Ok y \<longleftrightarrow> v = Some y"
  by (cases v) auto

lemma unwrap_some_not_Err [result_simps]: "unwrap_some v = Err e \<longleftrightarrow> False"
  by (cases v) auto

lemma unwrap_some_eq_Panic [result_simps]: "unwrap_some v = Panic \<longleftrightarrow> v = None"
  by (cases v) auto

lemma ensure_eq_Ok [result_simps]: "ensure b e = Ok u \<longleftrightarrow> b"
  by (auto simp: ensure_def)

lemma ensure_eq_Err [result_simps]: "ensure b e = Err e' \<longleftrightarrow> \<not> b \<and> e' = e"
  by (auto simp: ensure_def)

lemma ensure_not_Panic [result_simps]: "ensure b e = Panic \<longleftrightarrow> False"
  by (simp add: ensure_def)

lemma assert_p_eq_Ok [result_simps]: "assert_p b = Ok u \<longleftrightarrow> b"
  by (auto simp: assert_p_def)

lemma assert_p_not_Err [result_simps]: "assert_p b = Err e \<longleftrightarrow> False"
  by (simp add: assert_p_def)

lemma assert_p_eq_Panic [result_simps]: "assert_p b = Panic \<longleftrightarrow> \<not> b"
  by (simp add: assert_p_def)

lemma is_ok_iff [result_simps]: "is_ok r \<longleftrightarrow> (\<exists>x. r = Ok x)"
  by (cases r) auto

lemma is_err_iff [result_simps]: "is_err r \<longleftrightarrow> (\<exists>e. r = Err e)"
  by (cases r) auto

lemma ok_opt_eq_Some [result_simps]: "ok_opt r = Some x \<longleftrightarrow> r = Ok x"
  by (cases r) auto

lemma ok_opt_eq_None [result_simps]: "ok_opt r = None \<longleftrightarrow> (\<forall>x. r \<noteq> Ok x)"
  by (cases r) auto

lemma ensure_True [simp]: "ensure True e = Ok ()"
  by (simp add: ensure_def)

lemma ensure_False [simp]: "ensure False e = Err e"
  by (simp add: ensure_def)

lemma and_then_assoc: "and_then (and_then r f) g = and_then r (\<lambda>x. and_then (f x) g)"
  by (cases r) auto

section \<open>Checked arithmetic\<close>

definition checked_add :: "'a::len word \<Rightarrow> 'a word \<Rightarrow> 'a word option" where
  "checked_add x y = (if unat x + unat y < 2 ^ LENGTH('a) then Some (x + y) else None)"

definition checked_sub :: "'a::len word \<Rightarrow> 'a word \<Rightarrow> 'a word option" where
  "checked_sub x y = (if y \<le> x then Some (x - y) else None)"

definition saturating_add :: "'a::len word \<Rightarrow> 'a word \<Rightarrow> 'a word" where
  "saturating_add x y = (if unat x + unat y < 2 ^ LENGTH('a) then x + y else - 1)"

text \<open>The overflow-checked operators \<open>+\<close>, \<open>-\<close> and \<open>*\<close> of the release profile.\<close>

definition add_p :: "'a::len word \<Rightarrow> 'a word \<Rightarrow> ('a word, 'e) result" where
  "add_p x y = unwrap_some (checked_add x y)"

definition sub_p :: "'a::len word \<Rightarrow> 'a word \<Rightarrow> ('a word, 'e) result" where
  "sub_p x y = unwrap_some (checked_sub x y)"

definition mul_p :: "'a::len word \<Rightarrow> 'a word \<Rightarrow> ('a word, 'e) result" where
  "mul_p x y = (if unat x * unat y < 2 ^ LENGTH('a) then Ok (x * y) else Panic)"

lemma unat_add_if:
  "unat x + unat y < 2 ^ LENGTH('a) \<Longrightarrow> unat (x + y :: 'a::len word) = unat x + unat y"
  by (simp add: unat_word_ariths)

lemma unat_mult_if:
  "unat x * unat y < 2 ^ LENGTH('a) \<Longrightarrow> unat (x * y :: 'a::len word) = unat x * unat y"
  by (simp add: unat_word_ariths)

lemma checked_add_Some:
  "checked_add x y = Some z \<longleftrightarrow> unat z = unat x + unat y" for x :: "'a::len word"
  by (auto simp: checked_add_def unat_add_if word_unat_eq_iff) (metis unsigned_less)

lemma checked_add_None:
  "checked_add x y = None \<longleftrightarrow> 2 ^ LENGTH('a) \<le> unat x + unat y" for x :: "'a::len word"
  by (auto simp: checked_add_def)

lemma checked_sub_Some:
  "checked_sub x y = Some z \<longleftrightarrow> unat x = unat y + unat z" for x :: "'a::len word"
  by (auto simp: checked_sub_def word_le_nat_alt unat_sub word_unat_eq_iff)

lemma checked_sub_None: "checked_sub x y = None \<longleftrightarrow> x < y"
  by (auto simp: checked_sub_def)

lemma add_p_Ok [result_simps]: "add_p x y = Ok z \<longleftrightarrow> unat z = unat x + unat y"
  by (simp add: add_p_def result_simps checked_add_Some)

lemma add_p_not_Err [result_simps]: "add_p x y = Err e \<longleftrightarrow> False"
  by (simp add: add_p_def result_simps)

lemma sub_p_Ok [result_simps]: "sub_p x y = Ok z \<longleftrightarrow> unat x = unat y + unat z"
  by (simp add: sub_p_def result_simps checked_sub_Some)

lemma sub_p_not_Err [result_simps]: "sub_p x y = Err e \<longleftrightarrow> False"
  by (simp add: sub_p_def result_simps)

lemma sub_p_Panic [result_simps]: "sub_p x y = Panic \<longleftrightarrow> x < y"
  by (simp add: sub_p_def result_simps checked_sub_None)

lemma sub_p_eval: "sub_p x y = (if y \<le> x then Ok (x - y) else Panic)"
  by (simp add: sub_p_def checked_sub_def)

lemma mul_p_Ok: "mul_p x y = Ok z \<longleftrightarrow> unat z = unat x * unat y" for x :: "'a::len word"
  by (auto simp: mul_p_def unat_mult_if word_unat_eq_iff) (metis unsigned_less)

lemma word_eq_unat: "x = y \<longleftrightarrow> unat x = unat y" for x y :: "'a::len word"
  by (rule word_unat_eq_iff)

lemma int_unat_eqD: "int (unat x) = z \<Longrightarrow> int (unat y) = z \<Longrightarrow> x = y" for x y :: "'a::len word"
  by (simp add: word_eq_unat flip: of_nat_eq_iff [where 'a = int])

text \<open>
  Bounds are stated over \<open>unat\<close>, and signed quantities over \<open>int (unat x)\<close>, whose
  sign linear arithmetic knows; the library's rule that folds it into \<open>uint\<close> is switched off.
\<close>

declare of_nat_unat [simp del]

lemma add_p_Panic [result_simps]: "add_p x y = Panic \<longleftrightarrow> 2 ^ LENGTH('a) \<le> unat x + unat y"
  for x :: "'a::len word"
  by (simp add: add_p_def result_simps checked_add_None)

lemma unat_bound [simp]: "unat x \<le> 2 ^ LENGTH('a) - 1" for x :: "'a::len word"
  using unsigned_less [where 'a = nat, of x] by (simp del: unsigned_less)

lemmas word_unat_order = word_le_nat_alt word_less_nat_alt

lemma unat_max [simp]: "unat (max x y) = max (unat x) (unat y)" for x y :: "'a::len word"
  by (simp add: max_def word_le_nat_alt)

lemma unat_min [simp]: "unat (min x y) = min (unat x) (unat y)" for x y :: "'a::len word"
  by (simp add: min_def word_le_nat_alt)

section \<open>Ordered maps\<close>

text \<open>
  A \<open>BTreeMap\<close> is an association list in strictly ascending key order; \<open>btree_insert\<close> is
  \<open>insert\<close>, which replaces the value of a key already present.
\<close>

fun btree_insert :: "'k::linorder \<Rightarrow> 'v \<Rightarrow> ('k \<times> 'v) list \<Rightarrow> ('k \<times> 'v) list" where
  "btree_insert k v [] = [(k, v)]"
| "btree_insert k v ((k', v') # rest) =
     (if k = k' then (k, v) # rest
      else if k < k' then (k, v) # (k', v') # rest
      else (k', v') # btree_insert k v rest)"

definition btree :: "('k::linorder \<times> 'v) list \<Rightarrow> bool" where
  "btree m \<longleftrightarrow> sorted_wrt (<) (map fst m)"

lemma btree_empty [simp]: "btree []"
  by (simp add: btree_def)

lemma keys_btree_insert [simp]: "fst ` set (btree_insert k v m) = insert k (fst ` set m)"
  by (induction k v m rule: btree_insert.induct) auto

lemma btree_btree_insert [simp]: "btree m \<Longrightarrow> btree (btree_insert k v m)"
proof (induction k v m rule: btree_insert.induct)
  case (2 k v k' v' rest)
  show ?case
  proof (cases "k' < k")
    case True
    with 2 have "btree (btree_insert k v rest)" "\<forall>x \<in> fst ` set rest. k' < x" by (simp_all add: btree_def)
    then have "\<forall>x \<in> fst ` set (btree_insert k v rest). k' < x" using True by simp
    with True \<open>btree (btree_insert k v rest)\<close> show ?thesis by (auto simp: btree_def)
  next
    case False
    with 2(2) show ?thesis by (auto simp: btree_def)
  qed
qed (simp add: btree_def)

lemma map_of_btree_insert: "btree m \<Longrightarrow> map_of (btree_insert k v m) = (map_of m)(k \<mapsto> v)"
proof (induction k v m rule: btree_insert.induct)
  case (2 k v k' v' rest)
  then have "btree rest" by (simp add: btree_def)
  with 2 show ?case by (auto simp: fun_eq_iff)
qed auto

lemma distinct_btree: "btree m \<Longrightarrow> distinct (map fst m)"
  by (auto simp: btree_def strict_sorted_iff)

lemma btree_map_of: "btree m \<Longrightarrow> map_of m k = Some v \<longleftrightarrow> (k, v) \<in> set m"
  using distinct_btree [of m] by (simp add: map_of_eq_Some_iff)

end
