(* ===== verification/Bounded_Math.thy ===== *)
theory Bounded_Math
  imports Rust_Prelude
begin

text \<open>
  \<open>src/aptos-move/aptos-aggregator/src/bounded_math.rs\<close>: unsigned arithmetic on
  \<open>[0, max_value]\<close> and signed arithmetic on sign-and-magnitude \<open>SignedU128\<close> values.
  The lemmas state every operation over the integers the machine words denote; the signed
  reading of a delta is \<open>delta_int\<close>.
\<close>

section \<open>Model\<close>

datatype bounded_math_error = Overflow | Underflow

datatype signed_u128 = Positive u128 | Negative u128

type_synonym 'a bm_result = "('a, bounded_math_error) result"

record bounded_math =
  bm_max_value :: u128

definition ok_overflow :: "'a bm_result \<Rightarrow> 'a option bm_result" where
  "ok_overflow value =
     (case value of
        Ok v \<Rightarrow> Ok (Some v)
      | Err Overflow \<Rightarrow> Ok None
      | Err Underflow \<Rightarrow> Err Underflow
      | Panic \<Rightarrow> Panic)"

definition ok_underflow :: "'a bm_result \<Rightarrow> 'a option bm_result" where
  "ok_underflow value =
     (case value of
        Ok v \<Rightarrow> Ok (Some v)
      | Err Overflow \<Rightarrow> Err Overflow
      | Err Underflow \<Rightarrow> Ok None
      | Panic \<Rightarrow> Panic)"

definition negate_error :: "'a bm_result \<Rightarrow> 'a bm_result" where
  "negate_error r =
     map_err (\<lambda>err. case err of Overflow \<Rightarrow> Underflow | Underflow \<Rightarrow> Overflow) r"

definition bm_new :: "u128 \<Rightarrow> bounded_math" where
  "bm_new max_value = \<lparr>bm_max_value = max_value\<rparr>"

definition get_max_value :: "bounded_math \<Rightarrow> u128" where
  "get_max_value self = bm_max_value self"

definition unsigned_add :: "bounded_math \<Rightarrow> u128 \<Rightarrow> u128 \<Rightarrow> u128 bm_result" where
  "unsigned_add self base value =
     (if bm_max_value self < base \<or> value > bm_max_value self - base
      then Err Overflow
      else add_p base value)"

definition unsigned_subtract :: "bounded_math \<Rightarrow> u128 \<Rightarrow> u128 \<Rightarrow> u128 bm_result" where
  "unsigned_subtract self base value =
     (if value > base then Err Underflow else sub_p base value)"

definition unsigned_add_delta :: "bounded_math \<Rightarrow> u128 \<Rightarrow> signed_u128 \<Rightarrow> u128 bm_result" where
  "unsigned_add_delta self base delta =
     (case delta of
        Positive value \<Rightarrow> unsigned_add self base value
      | Negative value \<Rightarrow> unsigned_subtract self base value)"

text \<open>The macro \<open>update_different_sign!\<close> of \<open>signed_add\<close>.\<close>

definition update_different_sign :: "bounded_math \<Rightarrow> u128 \<Rightarrow> u128 \<Rightarrow> signed_u128 bm_result" where
  "update_different_sign self a b =
     (if a \<ge> b then map_ok Positive (unsigned_subtract self a b)
      else map_ok Negative (unsigned_subtract self b a))"

fun signed_add :: "bounded_math \<Rightarrow> signed_u128 \<Rightarrow> signed_u128 \<Rightarrow> signed_u128 bm_result" where
  "signed_add self (Positive v1) (Positive v2) = map_ok Positive (unsigned_add self v1 v2)"
| "signed_add self (Positive v1) (Negative v2) = update_different_sign self v1 v2"
| "signed_add self (Negative v1) (Positive v2) = update_different_sign self v2 v1"
| "signed_add self (Negative v1) (Negative v2) =
     map_ok Negative (negate_error (unsigned_add self v1 v2))"

fun signed_eq :: "signed_u128 \<Rightarrow> signed_u128 \<Rightarrow> bool" where
  "signed_eq (Positive v1) (Positive v2) = (v1 = v2)"
| "signed_eq (Negative v1) (Negative v2) = (v1 = v2)"
| "signed_eq (Positive v1) (Negative v2) = (v1 = 0 \<and> v2 = 0)"
| "signed_eq (Negative v1) (Positive v2) = (v1 = 0 \<and> v2 = 0)"

fun signed_is_zero :: "signed_u128 \<Rightarrow> bool" where
  "signed_is_zero (Positive v) = (v = 0)"
| "signed_is_zero (Negative v) = (v = 0)"

definition signed_delta :: "u128 \<Rightarrow> u128 \<Rightarrow> signed_u128" where
  "signed_delta positive negative =
     (if positive \<ge> negative then Positive (positive - negative)
      else Negative (negative - positive))"

fun signed_minus :: "signed_u128 \<Rightarrow> signed_u128" where
  "signed_minus (Positive v) = Negative v"
| "signed_minus (Negative v) = Positive v"

fun signed_abs :: "signed_u128 \<Rightarrow> u128" where
  "signed_abs (Positive v) = v"
| "signed_abs (Negative v) = v"

section \<open>What the words denote\<close>

fun delta_int :: "signed_u128 \<Rightarrow> int" where
  "delta_int (Positive v) = int (unat v)"
| "delta_int (Negative v) = - int (unat v)"

named_theorems bm_simps \<open>bounded arithmetic over the denoted integers\<close>

lemma bm_new_max [simp]: "bm_max_value (bm_new m) = m"
  by (simp add: bm_new_def)

lemma get_max_value_new [simp]: "get_max_value (bm_new m) = m"
  by (simp add: get_max_value_def)

lemma unsigned_add_guard:
  "(m < b \<or> v > m - b) \<longleftrightarrow> unat m < unat b + unat v" for m b v :: u128
proof (cases "m < b")
  case True
  then show ?thesis by (simp add: word_less_nat_alt)
next
  case False
  then have "unat (m - b) = unat m - unat b"
    by (simp add: unat_sub not_less)
  with False show ?thesis by (auto simp: word_less_nat_alt)
qed

text \<open>
  The guards of the source exclude every panic, so both unsigned operations have a closed
  form.
\<close>

lemma unsigned_add_eval:
  "unsigned_add M b v =
     (if unat b + unat v \<le> unat (bm_max_value M) then Ok (b + v) else Err Overflow)"
  using unat_bound [of "bm_max_value M"]
  unfolding unsigned_add_def unsigned_add_guard
  by (auto simp: add_p_def checked_add_def simp del: unat_bound)

lemma unat_unsigned_add:
  "unat b + unat v \<le> unat m \<Longrightarrow> unat (b + v) = unat b + unat v" for m b v :: u128
  using unat_bound [of m] by (intro unat_add_if) (simp del: unat_bound)

lemma unsigned_subtract_eval:
  "unsigned_subtract M b v = (if unat v \<le> unat b then Ok (b - v) else Err Underflow)"
  by (auto simp: unsigned_subtract_def sub_p_def checked_sub_def word_less_nat_alt word_le_nat_alt)

lemma unat_unsigned_subtract:
  "unat v \<le> unat b \<Longrightarrow> unat (b - v) = unat b - unat v" for b v :: u128
  by (simp add: unat_sub word_le_nat_alt)

lemma unsigned_add_Ok [bm_simps]:
  "unsigned_add M b v = Ok r \<longleftrightarrow>
     unat r = unat b + unat v \<and> unat b + unat v \<le> unat (bm_max_value M)"
  using unat_unsigned_add [of b v "bm_max_value M"]
  by (auto simp: unsigned_add_eval word_eq_unat)

lemma unsigned_add_Err [bm_simps]:
  "unsigned_add M b v = Err e \<longleftrightarrow> e = Overflow \<and> unat (bm_max_value M) < unat b + unat v"
  by (auto simp: unsigned_add_eval)

lemma unsigned_add_no_panic [bm_simps]: "unsigned_add M b v = Panic \<longleftrightarrow> False"
  by (simp add: unsigned_add_eval)

lemma unsigned_subtract_Ok [bm_simps]:
  "unsigned_subtract M b v = Ok r \<longleftrightarrow> unat b = unat v + unat r"
  by (auto simp: unsigned_subtract_eval unat_unsigned_subtract word_eq_unat)

lemma unsigned_subtract_Err [bm_simps]:
  "unsigned_subtract M b v = Err e \<longleftrightarrow> e = Underflow \<and> unat b < unat v"
  by (auto simp: unsigned_subtract_eval)

lemma unsigned_subtract_no_panic [bm_simps]: "unsigned_subtract M b v = Panic \<longleftrightarrow> False"
  by (simp add: unsigned_subtract_eval)

lemma unsigned_add_delta_no_panic [bm_simps]: "unsigned_add_delta M b d = Panic \<longleftrightarrow> False"
  by (cases d) (auto simp: unsigned_add_delta_def bm_simps)

text \<open>
  On a base inside the range, adding a delta succeeds exactly when the integer sum is in
  \<open>[0, max_value]\<close>, and the error names the side on which it leaves the range.
\<close>

lemma unsigned_add_delta_Ok:
  assumes "unat b \<le> unat (bm_max_value M)"
  shows "unsigned_add_delta M b d = Ok r \<longleftrightarrow>
    int (unat r) = int (unat b) + delta_int d \<and>
    int (unat b) + delta_int d \<le> int (unat (bm_max_value M))"
  using assms by (cases d) (auto simp: unsigned_add_delta_def bm_simps)

lemma unsigned_add_delta_Err:
  assumes "unat b \<le> unat (bm_max_value M)"
  shows "unsigned_add_delta M b d = Err e \<longleftrightarrow>
    (e = Overflow \<and> int (unat (bm_max_value M)) < int (unat b) + delta_int d) \<or>
    (e = Underflow \<and> int (unat b) + delta_int d < 0)"
  using assms by (cases d) (auto simp: unsigned_add_delta_def bm_simps)

lemma unsigned_add_delta_succeeds:
  assumes "unat b \<le> unat (bm_max_value M)"
  shows "(\<exists>r. unsigned_add_delta M b d = Ok r) \<longleftrightarrow>
    0 \<le> int (unat b) + delta_int d \<and> int (unat b) + delta_int d \<le> int (unat (bm_max_value M))"
  (is "_ \<longleftrightarrow> ?in_range")
proof (cases "unsigned_add_delta M b d")
  case (Ok r)
  with unsigned_add_delta_Ok [OF assms, of d r] show ?thesis by auto
next
  case (Err e)
  with unsigned_add_delta_Err [OF assms, of d e] show ?thesis by auto
next
  case Panic
  then show ?thesis by (simp add: bm_simps)
qed

lemma unsigned_add_delta_is_err:
  assumes "unat b \<le> unat (bm_max_value M)"
  shows "is_err (unsigned_add_delta M b d) \<longleftrightarrow>
    int (unat b) + delta_int d < 0 \<or> int (unat (bm_max_value M)) < int (unat b) + delta_int d"
  using assms by (auto simp: is_err_iff unsigned_add_delta_Err)

lemma unsigned_add_delta_cases:
  assumes "unat b \<le> unat m"
  obtains (Exact) r where "unsigned_add_delta (bm_new m) b d = Ok r"
      and "int (unat r) = int (unat b) + delta_int d" and "int (unat r) \<le> int (unat m)"
  | (Over) "unsigned_add_delta (bm_new m) b d = Err Overflow"
      and "int (unat m) < int (unat b) + delta_int d"
  | (Under) "unsigned_add_delta (bm_new m) b d = Err Underflow" and "int (unat b) + delta_int d < 0"
proof (cases "unsigned_add_delta (bm_new m) b d")
  case (Ok r)
  with assms show ?thesis using Exact by (auto simp: unsigned_add_delta_Ok)
next
  case (Err e)
  with assms show ?thesis using Over Under by (auto simp: unsigned_add_delta_Err)
next
  case Panic
  then show ?thesis by (simp add: bm_simps)
qed

text \<open>
  \<open>ok_overflow\<close> and \<open>ok_underflow\<close> absorb one side: on a range check they give
  \<open>Some\<close> inside the range, \<open>None\<close> beyond the absorbed side.
\<close>

lemma ok_overflow_Ok:
  "ok_overflow r = Ok v \<longleftrightarrow> (\<exists>x. r = Ok x \<and> v = Some x) \<or> (r = Err Overflow \<and> v = None)"
  by (auto simp: ok_overflow_def split: result.splits bounded_math_error.splits)

lemma ok_overflow_Err: "ok_overflow r = Err e \<longleftrightarrow> r = Err Underflow \<and> e = Underflow"
  by (auto simp: ok_overflow_def split: result.splits bounded_math_error.splits)

lemma ok_overflow_Panic: "ok_overflow r = Panic \<longleftrightarrow> r = Panic"
  by (auto simp: ok_overflow_def split: result.splits bounded_math_error.splits)

lemma ok_underflow_Ok:
  "ok_underflow r = Ok v \<longleftrightarrow> (\<exists>x. r = Ok x \<and> v = Some x) \<or> (r = Err Underflow \<and> v = None)"
  by (auto simp: ok_underflow_def split: result.splits bounded_math_error.splits)

lemma ok_underflow_Err: "ok_underflow r = Err e \<longleftrightarrow> r = Err Overflow \<and> e = Overflow"
  by (auto simp: ok_underflow_def split: result.splits bounded_math_error.splits)

lemma ok_underflow_Panic: "ok_underflow r = Panic \<longleftrightarrow> r = Panic"
  by (auto simp: ok_underflow_def split: result.splits bounded_math_error.splits)

lemmas absorb_simps =
  ok_overflow_Ok ok_overflow_Err ok_overflow_Panic
  ok_underflow_Ok ok_underflow_Err ok_underflow_Panic

section \<open>Signed addition\<close>

lemma delta_int_minus [simp]: "delta_int (signed_minus d) = - delta_int d"
  by (cases d) auto

lemma delta_int_abs: "int (unat (signed_abs d)) = \<bar>delta_int d\<bar>"
  by (cases d) auto

lemma signed_is_zero_iff: "signed_is_zero d \<longleftrightarrow> delta_int d = 0"
  by (cases d) (auto simp: unat_eq_zero)

lemma int_unat_opposite: "int (unat x) = - int (unat y) \<longleftrightarrow> x = 0 \<and> y = 0"
  for x y :: "'a::len word"
proof -
  have "int (unat x) = - int (unat y) \<longleftrightarrow> unat x = 0 \<and> unat y = 0" by linarith
  then show ?thesis by (simp add: unat_eq_zero)
qed

lemma signed_eq_iff: "signed_eq a b \<longleftrightarrow> delta_int a = delta_int b"
  by (cases a; cases b)
    (auto simp: int_unat_opposite intro: iffD2 [OF word_eq_unat])

lemma delta_int_signed_delta: "delta_int (signed_delta p n) = int (unat p) - int (unat n)"
  by (auto simp: signed_delta_def unat_sub word_le_nat_alt)

lemma update_different_sign_eval:
  "update_different_sign M a b =
     Ok (if unat b \<le> unat a then Positive (a - b) else Negative (b - a))"
  by (simp add: update_different_sign_def unsigned_subtract_eval word_le_nat_alt)

lemma signed_add_Ok: "signed_add M l r = Ok s \<Longrightarrow> delta_int s = delta_int l + delta_int r"
  by (cases l; cases r)
    (auto simp: result_simps bm_simps negate_error_def update_different_sign_eval
      unat_unsigned_subtract)

text \<open>
  Signed addition refines integer addition: on operands in
  \<open>[-max_value, max_value]\<close> it never panics; it returns the exact sum when the sum is in
  that range, overflows when the sum is above it and underflows when the sum is below it.
\<close>

theorem signed_add_spec:
  assumes "unat (signed_abs l) \<le> unat (bm_max_value M)"
    and "unat (signed_abs r) \<le> unat (bm_max_value M)"
  shows "case signed_add M l r of
      Ok s \<Rightarrow> delta_int s = delta_int l + delta_int r \<and>
              \<bar>delta_int l + delta_int r\<bar> \<le> int (unat (bm_max_value M))
    | Err Overflow \<Rightarrow> int (unat (bm_max_value M)) < delta_int l + delta_int r
    | Err Underflow \<Rightarrow> delta_int l + delta_int r < - int (unat (bm_max_value M))
    | Panic \<Rightarrow> False"
proof (cases "unat (signed_abs l) + unat (signed_abs r) \<le> unat (bm_max_value M)")
  case True
  then show ?thesis
    using assms unat_unsigned_add [OF True]
    by (cases l; cases r) (auto simp: unsigned_add_eval negate_error_def
      update_different_sign_eval unat_unsigned_subtract)
next
  case False
  then show ?thesis
    using assms
    by (cases l; cases r) (auto simp: unsigned_add_eval negate_error_def
      update_different_sign_eval unat_unsigned_subtract)
qed

theorem signed_add_spec_witness:
  "delta_int (Negative 30) = -30 \<and>
   (case signed_add (bm_new 100) (Positive 10) (Negative 40) of
      Ok s \<Rightarrow> delta_int s = delta_int (Positive 10) + delta_int (Negative 40)
    | Err e \<Rightarrow> False
    | Panic \<Rightarrow> False)"
  using signed_add_spec [of "Positive 10" "bm_new 100" "Negative 40"]
  by (auto split: result.splits bounded_math_error.splits)

end
