(* ===== verification/Agg_Types.thy ===== *)
theory Agg_Types
  imports Bounded_Math
begin

text \<open>
  \<open>src/aptos-move/aptos-aggregator/src/types.rs\<close> with the identifier and formula types it
  uses (\<open>DelayedFieldID\<close>, \<open>SnapshotToStringFormula\<close>): the errors of delta application
  and merging, the values of delayed fields, and the conversions between error types. The text of
  an error message that the source renders with \<open>{:?}\<close> is not modelled; the variant and its
  fields are.
\<close>

section \<open>Identifiers and formulas\<close>

record delayed_field_id =
  unique_index :: u32
  id_width :: u32

definition id_as_u64 :: "delayed_field_id \<Rightarrow> u64" where
  "id_as_u64 self = or (push_bit 32 (ucast (unique_index self))) (ucast (id_width self))"

definition id_from_u64 :: "u64 \<Rightarrow> delayed_field_id" where
  "id_from_u64 value =
     \<lparr>unique_index = ucast (drop_bit 32 value), id_width = ucast (and value (push_bit 32 1 - 1))\<rparr>"

type_synonym bytes = "u8 list"

text \<open>The decimal digits \<open>u128::to_string\<close> writes, as ASCII bytes.\<close>

fun decimal_bytes :: "nat \<Rightarrow> bytes" where
  "decimal_bytes n =
     (if n < 10 then [of_nat (48 + n)] else decimal_bytes (n div 10) @ [of_nat (48 + n mod 10)])"

declare decimal_bytes.simps [simp del]

datatype snapshot_to_string_formula = Concat bytes bytes

fun formula_apply_to :: "snapshot_to_string_formula \<Rightarrow> u128 \<Rightarrow> bytes" where
  "formula_apply_to (Concat prefix suffix) base = prefix @ decimal_bytes (unat base) @ suffix"

text \<open>
  Serialized sizes. Lengths (\<open>usize\<close>) are natural numbers: a Rust vector holds fewer than
  \<open>2 ^ 63\<close> bytes, so the sums below stay within \<open>usize\<close>.
\<close>

fun size_u32_as_uleb128 :: "nat \<Rightarrow> nat" where
  "size_u32_as_uleb128 value = (if value \<ge> 128 then Suc (size_u32_as_uleb128 (value div 128)) else 1)"

declare size_u32_as_uleb128.simps [simp del]

definition bcs_size_of_byte_array :: "nat \<Rightarrow> nat" where
  "bcs_size_of_byte_array len = size_u32_as_uleb128 len + len"

definition U64_MAX_DIGITS :: nat where
  "U64_MAX_DIGITS = length (decimal_bytes (2 ^ 64 - 1))"

definition U128_MAX_DIGITS :: nat where
  "U128_MAX_DIGITS = length (decimal_bytes (2 ^ 128 - 1))"

definition calculate_width_for_constant_string :: "nat \<Rightarrow> nat" where
  "calculate_width_for_constant_string byte_len =
     max (bcs_size_of_byte_array byte_len + 1) (U64_MAX_DIGITS + 2)"

section \<open>Errors\<close>

datatype delta_application_failure_reason =
  DA_Overflow | DA_Underflow | ExpectedOverflow | ExpectedUnderflow

datatype delta_history_merge_offset_failure_reason =
  AchievedExceedsBounds | FailureNotExceedingBoundsAnyMore

datatype delayed_fields_speculative_error =
  NotFound delayed_field_id
| DeltaApplication u128 u128 signed_u128 delta_application_failure_reason
| DeltaMerge signed_u128 signed_u128 u128
| DeltaHistoryMergeOffset u128 signed_u128 u128 delta_history_merge_offset_failure_reason
| DeltaHistoryMergeAchievedAndFailureOverlap signed_u128 signed_u128
| InconsistentRead

datatype panic_error = PE_CodeInvariantError string

datatype 'e panic_or = CodeInvariantError string | Or 'e

fun map_non_panic :: "('e \<Rightarrow> 'f) \<Rightarrow> 'e panic_or \<Rightarrow> 'f panic_or" where
  "map_non_panic f (CodeInvariantError msg) = CodeInvariantError msg"
| "map_non_panic f (Or e) = Or (f e)"

definition code_invariant_error :: "string \<Rightarrow> panic_error" where
  "code_invariant_error message = PE_CodeInvariantError message"

fun panic_or_from :: "panic_error \<Rightarrow> 'e panic_or" where
  "panic_or_from (PE_CodeInvariantError e) = CodeInvariantError e"

definition expect_ok :: "('a, 'e) result \<Rightarrow> ('a, panic_error) result" where
  "expect_ok value = map_err (\<lambda>_. code_invariant_error ''Expected Ok, got Err'') value"

text \<open>The two uses of \<open>?\<close> that convert into \<open>PanicOr\<close>.\<close>

abbreviation lift_panic :: "('a, panic_error) result \<Rightarrow> ('a, 'e panic_or) result" where
  "lift_panic \<equiv> map_err panic_or_from"

abbreviation lift_spec :: "('a, 'e) result \<Rightarrow> ('a, 'e panic_or) result" where
  "lift_spec \<equiv> map_err Or"

datatype status_code =
  ABORTED
| VM_EXTENSION_ERROR
| DELAYED_MATERIALIZATION_CODE_INVARIANT_ERROR
| SPECULATIVE_EXECUTION_ABORT_ERROR
| STORAGE_ERROR
| UNEXPECTED_DESERIALIZATION_ERROR

record partial_vm_error =
  major_status :: status_code
  sub_status :: "u64 option"

definition vm_error :: "status_code \<Rightarrow> partial_vm_error" where
  "vm_error c = \<lparr>major_status = c, sub_status = None\<rparr>"

fun vm_error_from_panic_or :: "'e panic_or \<Rightarrow> partial_vm_error" where
  "vm_error_from_panic_or (CodeInvariantError msg) =
     vm_error DELAYED_MATERIALIZATION_CODE_INVARIANT_ERROR"
| "vm_error_from_panic_or (Or e) = vm_error SPECULATIVE_EXECUTION_ABORT_ERROR"

fun vm_error_from_panic_error :: "panic_error \<Rightarrow> partial_vm_error" where
  "vm_error_from_panic_error (PE_CodeInvariantError msg) =
     vm_error DELAYED_MATERIALIZATION_CODE_INVARIANT_ERROR"

definition calculate_width_for_integer_embedded_string ::
  "nat \<Rightarrow> delayed_field_id \<Rightarrow> (nat, partial_vm_error) result" where
  "calculate_width_for_integer_embedded_string rest_byte_len snapshot_id =
     and_then
       (if id_width snapshot_id = 8 then Ok U64_MAX_DIGITS
        else if id_width snapshot_id = 16 then Ok U128_MAX_DIGITS
        else Err (vm_error DELAYED_MATERIALIZATION_CODE_INVARIANT_ERROR))
       (\<lambda>max_snapshot_string_width.
          Ok (bcs_size_of_byte_array (rest_byte_len + max_snapshot_string_width) + 1))"

section \<open>Values of delayed fields\<close>

datatype delayed_field_value = Aggregator u128 | Snapshot u128 | Derived bytes

fun into_aggregator_value :: "delayed_field_value \<Rightarrow> (u128, panic_error) result" where
  "into_aggregator_value (Aggregator value) = Ok value"
| "into_aggregator_value (Snapshot _) =
     Err (code_invariant_error ''Tried calling into_aggregator_value on Snapshot value'')"
| "into_aggregator_value (Derived _) =
     Err (code_invariant_error ''Tried calling into_aggregator_value on String SnapshotValue'')"

fun into_snapshot_value :: "delayed_field_value \<Rightarrow> (u128, panic_error) result" where
  "into_snapshot_value (Snapshot value) = Ok value"
| "into_snapshot_value (Aggregator _) =
     Err (code_invariant_error ''Tried calling into_snapshot_value on Aggregator value'')"
| "into_snapshot_value (Derived _) =
     Err (code_invariant_error ''Tried calling into_snapshot_value on String SnapshotValue'')"

fun into_derived_value :: "delayed_field_value \<Rightarrow> (bytes, panic_error) result" where
  "into_derived_value (Derived value) = Ok value"
| "into_derived_value (Aggregator _) =
     Err (code_invariant_error ''Tried calling into_derived_value on Aggregator value'')"
| "into_derived_value (Snapshot _) =
     Err (code_invariant_error ''Tried calling into_derived_value on Snapshot value'')"

datatype read_position = BeforeCurrentTxn | AfterCurrentTxn

section \<open>Facts about error conversion\<close>

lemma expect_ok_eq_Ok [result_simps]: "expect_ok r = Ok x \<longleftrightarrow> r = Ok x"
  by (simp add: expect_ok_def result_simps)

lemma expect_ok_Ok [simp]: "expect_ok (Ok x) = Ok x"
  by (simp add: expect_ok_def)

lemma expect_ok_Panic [result_simps]: "expect_ok r = Panic \<longleftrightarrow> r = Panic"
  by (simp add: expect_ok_def result_simps)

lemma into_aggregator_value_Ok [result_simps]: "into_aggregator_value v = Ok n \<longleftrightarrow> v = Aggregator n"
  by (cases v) auto

lemma into_snapshot_value_Ok [result_simps]: "into_snapshot_value v = Ok n \<longleftrightarrow> v = Snapshot n"
  by (cases v) auto

lemma into_derived_value_Ok [result_simps]: "into_derived_value v = Ok n \<longleftrightarrow> v = Derived n"
  by (cases v) auto

section \<open>Identifiers and widths\<close>

text \<open>
  The packing of an identifier into a \<open>u64\<close> is a bijection: unpacking recovers the
  index and the width, and packing an unpacked word gives the word back.
\<close>

theorem id_u64_roundtrip:
  "id_from_u64 (id_as_u64 i) = i \<and> id_as_u64 (id_from_u64 w) = w"
proof -
  have mask: "(push_bit 32 1 - 1 :: u64) = mask 32" by (simp add: mask_eq_decr_exp)
  have width: "bit x (32 + n) \<longleftrightarrow> False" for x :: u32 and n
    using bit_imp_le_length [of x "32 + n"] by auto
  have "id_from_u64 (id_as_u64 i) = i"
    unfolding id_from_u64_def id_as_u64_def mask
    by (cases i) (auto intro!: bit_word_eqI simp: bit_simps width)
  moreover have "id_as_u64 (id_from_u64 w) = w"
    unfolding id_from_u64_def id_as_u64_def mask
    by (auto intro!: bit_word_eqI simp: bit_simps)
  ultimately show ?thesis ..
qed

lemma decimal_length_mono: "m \<le> n \<Longrightarrow> length (decimal_bytes m) \<le> length (decimal_bytes n)"
proof (induction n arbitrary: m rule: less_induct)
  case (less n)
  show ?case
  proof (cases "m < 10")
    case True
    then show ?thesis by (subst decimal_bytes.simps, subst (2) decimal_bytes.simps) simp
  next
    case False
    with less.prems have "\<not> n < 10" "m div 10 \<le> n div 10" "n div 10 < n" by (auto intro: div_le_mono)
    with False less.IH [of "n div 10" "m div 10"] show ?thesis
      by (subst decimal_bytes.simps, subst (2) decimal_bytes.simps) simp
  qed
qed

lemma uleb128_mono: "m \<le> n \<Longrightarrow> size_u32_as_uleb128 m \<le> size_u32_as_uleb128 n"
proof (induction n arbitrary: m rule: less_induct)
  case (less n)
  show ?case
  proof (cases "128 \<le> m")
    case True
    with less.prems less.IH [of "n div 128" "m div 128"] show ?thesis
      by (subst size_u32_as_uleb128.simps, subst (2) size_u32_as_uleb128.simps) (simp add: div_le_mono)
  next
    case False
    then show ?thesis
      by (subst size_u32_as_uleb128.simps, subst (2) size_u32_as_uleb128.simps) simp
  qed
qed

lemma bcs_size_mono: "m \<le> n \<Longrightarrow> bcs_size_of_byte_array m \<le> bcs_size_of_byte_array n"
  unfolding bcs_size_of_byte_array_def using uleb128_mono [of m n] by linarith

text \<open>
  \<^bold>\<open>C21.\<close> The width computed for a derived string is large enough: the string that
  \<open>SnapshotToStringFormula::Concat\<close> produces from any value that fits the snapshot's integer
  type, together with one byte of padding length, serializes into at most that many bytes.
\<close>

theorem derived_width_sufficient:
  assumes "calculate_width_for_integer_embedded_string (length prefix + length suffix) snapshot_id = Ok w"
    and "unat value < 2 ^ (8 * unat (id_width snapshot_id))"
  shows "bcs_size_of_byte_array (length (formula_apply_to (Concat prefix suffix) value)) + 1 \<le> w"
proof -
  let ?n = "length prefix + length suffix + length (decimal_bytes (unat value))"
  from assms obtain digits where w: "w = bcs_size_of_byte_array (length prefix + length suffix + digits) + 1"
    and "digits = U64_MAX_DIGITS \<and> id_width snapshot_id = 8 \<or> digits = U128_MAX_DIGITS \<and> id_width snapshot_id = 16"
    by (auto simp: calculate_width_for_integer_embedded_string_def result_simps split: if_splits)
  then have "length (decimal_bytes (unat value)) \<le> digits"
    using assms(2) by (auto simp: U64_MAX_DIGITS_def U128_MAX_DIGITS_def intro!: decimal_length_mono)
  then have "bcs_size_of_byte_array ?n \<le> bcs_size_of_byte_array (length prefix + length suffix + digits)"
    by (intro bcs_size_mono) simp
  then show ?thesis by (simp add: w algebra_simps)
qed

theorem derived_width_sufficient_witness:
  "bcs_size_of_byte_array (length (formula_apply_to (Concat [97] [98]) 2024)) + 1 \<le> 24"
proof -
  have "calculate_width_for_integer_embedded_string (length [97 :: u8] + length [98 :: u8])
      \<lparr>unique_index = 1, id_width = 8\<rparr> = Ok 24"
    by (simp add: calculate_width_for_integer_embedded_string_def U64_MAX_DIGITS_def
        bcs_size_of_byte_array_def size_u32_as_uleb128.simps decimal_bytes.simps)
  then show ?thesis by (rule derived_width_sufficient) simp
qed

end
