(* ===== verification/Delta_Math.thy ===== *)
theory Delta_Math
  imports Agg_Types
begin

text \<open>
  \<open>src/aptos-move/aptos-aggregator/src/delta_math.rs\<close>: the history an aggregator keeps of the
  deltas it saw, its validation against a base value, and the merge of two deltas with their
  histories. \<open>admits\<close> is the meaning of a history: the base values for which every recorded
  outcome would be the same. Validation decides it, and merging composes it.
\<close>

section \<open>Model\<close>

record delta_history =
  max_achieved_positive_delta :: u128
  min_achieved_negative_delta :: u128
  min_overflow_positive_delta :: "u128 option"
  max_underflow_negative_delta :: "u128 option"

definition dh_new :: delta_history where
  "dh_new =
     \<lparr>max_achieved_positive_delta = 0, min_achieved_negative_delta = 0,
      min_overflow_positive_delta = None, max_underflow_negative_delta = None\<rparr>"

definition dh_is_empty :: "delta_history \<Rightarrow> bool" where
  "dh_is_empty self \<longleftrightarrow>
     max_achieved_positive_delta self = 0 \<and> min_achieved_negative_delta self = 0 \<and>
     min_overflow_positive_delta self = None \<and> max_underflow_negative_delta self = None"

fun record_success :: "delta_history \<Rightarrow> signed_u128 \<Rightarrow> delta_history" where
  "record_success self (Positive value) =
     self\<lparr>max_achieved_positive_delta := max (max_achieved_positive_delta self) value\<rparr>"
| "record_success self (Negative value) =
     self\<lparr>min_achieved_negative_delta := max (min_achieved_negative_delta self) value\<rparr>"

definition record_failure :: "u128 option \<Rightarrow> u128 \<Rightarrow> u128 option" where
  "record_failure field delta =
     (case field of None \<Rightarrow> Some delta | Some mi \<Rightarrow> Some (min mi delta))"

definition record_overflow :: "delta_history \<Rightarrow> u128 \<Rightarrow> delta_history" where
  "record_overflow self delta =
     self\<lparr>min_overflow_positive_delta := record_failure (min_overflow_positive_delta self) delta\<rparr>"

definition record_underflow :: "delta_history \<Rightarrow> u128 \<Rightarrow> delta_history" where
  "record_underflow self delta =
     self\<lparr>max_underflow_negative_delta := record_failure (max_underflow_negative_delta self) delta\<rparr>"

definition validate_against_base_value ::
  "delta_history \<Rightarrow> u128 \<Rightarrow> u128 \<Rightarrow> (unit, delayed_fields_speculative_error) result" where
  "validate_against_base_value self base_value max_value =
     (let math = bm_new max_value;
          failure = (\<lambda>delta reason. DeltaApplication base_value max_value delta reason)
      in and_then
           (map_err (\<lambda>_. failure (Positive (max_achieved_positive_delta self)) DA_Overflow)
             (unsigned_add math base_value (max_achieved_positive_delta self))) (\<lambda>_.
         and_then
           (map_err (\<lambda>_. failure (Negative (min_achieved_negative_delta self)) DA_Underflow)
             (unsigned_subtract math base_value (min_achieved_negative_delta self))) (\<lambda>_.
         and_then
           (case min_overflow_positive_delta self of
              None \<Rightarrow> Ok ()
            | Some min_overflow \<Rightarrow>
                and_then (sub_p max_value min_overflow) (\<lambda>bound.
                if base_value \<le> bound
                then Err (failure (Positive min_overflow) ExpectedOverflow) else Ok ())) (\<lambda>_.
           case max_underflow_negative_delta self of
             None \<Rightarrow> Ok ()
           | Some max_underflow \<Rightarrow>
               if base_value \<ge> max_underflow
               then Err (failure (Negative max_underflow) ExpectedUnderflow) else Ok ()))))"

definition offset_and_merge_min_overflow ::
  "u128 option \<Rightarrow> signed_u128 \<Rightarrow> u128 option \<Rightarrow> bounded_math \<Rightarrow>
   (u128 option, delayed_fields_speculative_error) result" where
  "offset_and_merge_min_overflow min_overflow prev_delta prev_min_overflow math =
     and_then
       (case min_overflow of
          None \<Rightarrow> Ok None
        | Some min_overflow \<Rightarrow>
            map_err (\<lambda>_. DeltaHistoryMergeOffset min_overflow prev_delta (get_max_value math)
                           FailureNotExceedingBoundsAnyMore)
              (ok_overflow (unsigned_add_delta math min_overflow prev_delta)))
       (\<lambda>adjusted_min_overflow.
          Ok (case (adjusted_min_overflow, prev_min_overflow) of
                (Some a, Some b) \<Rightarrow> Some (min a b)
              | (Some a, None) \<Rightarrow> Some a
              | (None, b) \<Rightarrow> b))"

definition offset_and_merge_max_achieved ::
  "u128 \<Rightarrow> signed_u128 \<Rightarrow> u128 \<Rightarrow> bounded_math \<Rightarrow>
   (u128, delayed_fields_speculative_error) result" where
  "offset_and_merge_max_achieved max_achieved prev_delta prev_max_achieved math =
     map_ok (\<lambda>adjusted. case adjusted of None \<Rightarrow> prev_max_achieved
                                       | Some value \<Rightarrow> max prev_max_achieved value)
       (map_err (\<lambda>_. DeltaHistoryMergeOffset max_achieved prev_delta (get_max_value math)
                       AchievedExceedsBounds)
         (ok_underflow (unsigned_add_delta math max_achieved prev_delta)))"

definition offset_and_merge_history ::
  "delta_history \<Rightarrow> signed_u128 \<Rightarrow> delta_history \<Rightarrow> u128 \<Rightarrow>
   (delta_history, delayed_fields_speculative_error) result" where
  "offset_and_merge_history self prev_delta prev_history max_value =
     (let math = bm_new max_value in
      and_then (offset_and_merge_min_overflow (min_overflow_positive_delta self) prev_delta
                  (min_overflow_positive_delta prev_history) math) (\<lambda>new_min_overflow.
      and_then (offset_and_merge_min_overflow (max_underflow_negative_delta self)
                  (signed_minus prev_delta)
                  (max_underflow_negative_delta prev_history) math) (\<lambda>new_max_underflow.
      and_then (offset_and_merge_max_achieved (max_achieved_positive_delta self) prev_delta
                  (max_achieved_positive_delta prev_history) math) (\<lambda>new_max_achieved.
      and_then (offset_and_merge_max_achieved (min_achieved_negative_delta self)
                  (signed_minus prev_delta)
                  (min_achieved_negative_delta prev_history) math) (\<lambda>new_min_achieved.
      and_then
        (case new_min_overflow of
           None \<Rightarrow> Ok ()
         | Some v \<Rightarrow>
             if v \<le> new_max_achieved
             then Err (DeltaHistoryMergeAchievedAndFailureOverlap
                         (Positive new_max_achieved) (Positive v))
             else Ok ()) (\<lambda>_.
      and_then
        (case new_max_underflow of
           None \<Rightarrow> Ok ()
         | Some v \<Rightarrow>
             if v \<le> new_min_achieved
             then Err (DeltaHistoryMergeAchievedAndFailureOverlap
                         (Negative new_min_achieved) (Negative v))
             else Ok ()) (\<lambda>_.
      Ok \<lparr>max_achieved_positive_delta = new_max_achieved,
          min_achieved_negative_delta = new_min_achieved,
          min_overflow_positive_delta = new_min_overflow,
          max_underflow_negative_delta = new_max_underflow\<rparr>)))))))"

definition stricter_limit :: "u128 option \<Rightarrow> u128 option \<Rightarrow> bool" where
  "stricter_limit self other =
     (case other of None \<Rightarrow> True
      | Some other_v \<Rightarrow> (case self of None \<Rightarrow> False | Some self_v \<Rightarrow> self_v \<le> other_v))"

definition stricter_than :: "delta_history \<Rightarrow> delta_history \<Rightarrow> bool" where
  "stricter_than self other \<longleftrightarrow>
     max_achieved_positive_delta self \<ge> max_achieved_positive_delta other \<and>
     min_achieved_negative_delta self \<ge> min_achieved_negative_delta other \<and>
     stricter_limit (min_overflow_positive_delta self) (min_overflow_positive_delta other) \<and>
     stricter_limit (max_underflow_negative_delta self) (max_underflow_negative_delta other)"

definition merge_data_and_delta ::
  "u128 \<Rightarrow> signed_u128 \<Rightarrow> delta_history \<Rightarrow> u128 \<Rightarrow>
   (u128, delayed_fields_speculative_error panic_or) result" where
  "merge_data_and_delta prev_value delta history max_value =
     and_then (lift_spec (validate_against_base_value history prev_value max_value)) (\<lambda>_.
     lift_panic (expect_ok (unsigned_add_delta (bm_new max_value) prev_value delta)))"

definition merge_two_deltas ::
  "signed_u128 \<Rightarrow> delta_history \<Rightarrow> signed_u128 \<Rightarrow> delta_history \<Rightarrow> u128 \<Rightarrow>
   (signed_u128 \<times> delta_history, delayed_fields_speculative_error panic_or) result" where
  "merge_two_deltas prev_delta prev_history next_delta next_history max_value =
     and_then (lift_spec (offset_and_merge_history next_history prev_delta prev_history max_value))
       (\<lambda>new_history.
     and_then (lift_panic (expect_ok (signed_add (bm_new max_value) prev_delta next_delta)))
       (\<lambda>new_delta. Ok (new_delta, new_history)))"

lemmas delta_eval =
  dh_new_def record_overflow_def record_underflow_def record_failure_def bm_new_def
  offset_and_merge_history_def offset_and_merge_min_overflow_def offset_and_merge_max_achieved_def
  Let_def unsigned_add_delta_def unsigned_add_eval unsigned_subtract_eval get_max_value_def
  update_different_sign_eval ok_overflow_def ok_underflow_def max_def min_def

section \<open>The meaning of a history\<close>

text \<open>
  \<open>holds_at a m b\<close>: adding \<open>a\<close> to \<open>b\<close> stays within \<open>m\<close>;
  \<open>fails_at o m b\<close>: the recorded failure, if any, still exceeds \<open>m\<close>. The negative
  direction is the same condition read from the other end of the range, at \<open>m - b\<close>.
\<close>

definition holds_at :: "u128 \<Rightarrow> u128 \<Rightarrow> int \<Rightarrow> bool" where
  "holds_at a m b \<longleftrightarrow> b + int (unat a) \<le> int (unat m)"

definition fails_at :: "u128 option \<Rightarrow> u128 \<Rightarrow> int \<Rightarrow> bool" where
  "fails_at limit m b \<longleftrightarrow> (case limit of None \<Rightarrow> True | Some x \<Rightarrow> int (unat m) < b + int (unat x))"

definition admits :: "delta_history \<Rightarrow> u128 \<Rightarrow> int \<Rightarrow> bool" where
  "admits h m b \<longleftrightarrow>
     holds_at (max_achieved_positive_delta h) m b \<and>
     holds_at (min_achieved_negative_delta h) m (int (unat m) - b) \<and>
     fails_at (min_overflow_positive_delta h) m b \<and>
     fails_at (max_underflow_negative_delta h) m (int (unat m) - b)"

definition opt_within :: "u128 option \<Rightarrow> u128 \<Rightarrow> bool" where
  "opt_within limit m = (case limit of None \<Rightarrow> True | Some x \<Rightarrow> x \<le> m)"

definition wf_history :: "delta_history \<Rightarrow> u128 \<Rightarrow> bool" where
  "wf_history h m \<longleftrightarrow>
     max_achieved_positive_delta h \<le> m \<and> min_achieved_negative_delta h \<le> m \<and>
     opt_within (min_overflow_positive_delta h) m \<and> opt_within (max_underflow_negative_delta h) m"

text \<open>The net delta lies between the extremes the history says were achieved.\<close>

definition achieved :: "signed_u128 \<Rightarrow> delta_history \<Rightarrow> bool" where
  "achieved d h \<longleftrightarrow>
     - int (unat (min_achieved_negative_delta h)) \<le> delta_int d \<and>
     delta_int d \<le> int (unat (max_achieved_positive_delta h))"

lemma admits_range: "admits h m b \<Longrightarrow> 0 \<le> b \<and> b \<le> int (unat m)"
  unfolding admits_def holds_at_def by linarith

lemma admits_achieved:
  "admits h m b \<Longrightarrow> achieved d h \<Longrightarrow> 0 \<le> b + delta_int d \<and> b + delta_int d \<le> int (unat m)"
  unfolding admits_def holds_at_def achieved_def by linarith

lemma wf_dh_new [simp]: "wf_history dh_new m"
  by (simp add: wf_history_def dh_new_def opt_within_def)

lemma admits_dh_new: "admits dh_new m b \<longleftrightarrow> 0 \<le> b \<and> b \<le> int (unat m)"
  by (auto simp: admits_def holds_at_def fails_at_def dh_new_def)

lemma achieved_dh_new: "achieved d dh_new \<longleftrightarrow> delta_int d = 0"
  by (auto simp: achieved_def dh_new_def)

lemma opt_within_simps [simp]:
  "opt_within None m" "opt_within (Some x) m \<longleftrightarrow> unat x \<le> unat m"
  by (simp_all add: opt_within_def word_le_nat_alt)

lemma fails_at_simps [simp]:
  "fails_at None m b" "fails_at (Some x) m b \<longleftrightarrow> int (unat m) < b + int (unat x)"
  by (simp_all add: fails_at_def)

section \<open>Validation decides the meaning\<close>

text \<open>The four checks in the order the source makes them.\<close>

lemma validate_eval:
  assumes "wf_history h m"
  shows "validate_against_base_value h v m =
    (if \<not> holds_at (max_achieved_positive_delta h) m (int (unat v)) then
       Err (DeltaApplication v m (Positive (max_achieved_positive_delta h)) DA_Overflow)
     else if \<not> holds_at (min_achieved_negative_delta h) m (int (unat m) - int (unat v)) then
       Err (DeltaApplication v m (Negative (min_achieved_negative_delta h)) DA_Underflow)
     else if \<not> fails_at (min_overflow_positive_delta h) m (int (unat v)) then
       Err (DeltaApplication v m (Positive (the (min_overflow_positive_delta h))) ExpectedOverflow)
     else if \<not> fails_at (max_underflow_negative_delta h) m (int (unat m) - int (unat v)) then
       Err (DeltaApplication v m (Negative (the (max_underflow_negative_delta h))) ExpectedUnderflow)
     else Ok ())"
proof -
  have limit: "(v \<le> m - lim) = (\<not> fails_at (Some lim) m (int (unat v)))" if "lim \<le> m" for lim
    using that by (auto simp: word_le_nat_alt unat_sub)
  show ?thesis
    using assms limit
    by (auto simp: validate_against_base_value_def Let_def wf_history_def unsigned_add_eval
        unsigned_subtract_eval sub_p_eval opt_within_def holds_at_def fails_at_def word_unat_order
        split: option.splits)
qed

lemma validate_Ok_iff:
  assumes "wf_history h m"
  shows "validate_against_base_value h v m = Ok () \<longleftrightarrow> admits h m (int (unat v))"
  using assms by (auto simp: validate_eval admits_def)

lemma validate_no_panic:
  assumes "wf_history h m" shows "validate_against_base_value h v m \<noteq> Panic"
  using assms by (auto simp: validate_eval)

section \<open>Merging composes the meaning\<close>

text \<open>
  Shifting a failure limit by the previous delta: the merged limit fails exactly where both do,
  and an error means no base of the range satisfies the shifted one.
\<close>

lemma offset_min_overflow_Ok:
  assumes "offset_and_merge_min_overflow limit d prev (bm_new m) = Ok limit'"
    and "opt_within limit m" and "opt_within prev m"
  shows "opt_within limit' m"
    and "0 \<le> b \<Longrightarrow> fails_at limit' m b \<longleftrightarrow> fails_at prev m b \<and> fails_at limit m (b + delta_int d)"
proof -
  have "opt_within limit' m \<and>
    (0 \<le> b \<longrightarrow> (fails_at limit' m b \<longleftrightarrow> fails_at prev m b \<and> fails_at limit m (b + delta_int d)))"
  proof (cases limit)
    case None
    with assms show ?thesis by (auto simp: offset_and_merge_min_overflow_def)
  next
    case (Some x)
    with assms have "unat x \<le> unat m" by simp
    then show ?thesis
      using assms Some
      by (cases rule: unsigned_add_delta_cases [where d = d])
        (auto simp: offset_and_merge_min_overflow_def ok_overflow_def min_def word_unat_order
          split: option.splits if_splits)
  qed
  then show "opt_within limit' m"
    and "0 \<le> b \<Longrightarrow> fails_at limit' m b \<longleftrightarrow> fails_at prev m b \<and> fails_at limit m (b + delta_int d)"
    by auto
qed

lemma offset_min_overflow_Err:
  assumes "offset_and_merge_min_overflow limit d prev (bm_new m) = Err e"
    and "opt_within limit m"
  shows "b \<le> int (unat m) \<Longrightarrow> \<not> fails_at limit m (b + delta_int d)"
  using assms
  by (auto simp: offset_and_merge_min_overflow_def result_simps absorb_simps
      unsigned_add_delta_Err split: option.splits)

lemma offset_min_overflow_no_panic:
  "offset_and_merge_min_overflow limit d prev (bm_new m) \<noteq> Panic"
  by (auto simp: offset_and_merge_min_overflow_def result_simps absorb_simps bm_simps
      split: option.splits)

lemma offset_max_achieved_Ok:
  assumes "offset_and_merge_max_achieved a d prev (bm_new m) = Ok a'"
    and "unat a \<le> unat m" and "unat prev \<le> unat m"
  shows "unat a' \<le> unat m"
    and "int (unat a) + delta_int d \<le> int (unat a')" and "unat prev \<le> unat a'"
    and "b \<le> int (unat m) \<Longrightarrow> holds_at a' m b \<longleftrightarrow> holds_at prev m b \<and> holds_at a m (b + delta_int d)"
  using assms(2) assms(1,3)
  by (cases rule: unsigned_add_delta_cases [where d = d];
      auto simp: offset_and_merge_max_achieved_def ok_underflow_def holds_at_def)+

lemma offset_max_achieved_Err:
  assumes "offset_and_merge_max_achieved a d prev (bm_new m) = Err e" and "unat a \<le> unat m"
  shows "0 \<le> b \<Longrightarrow> \<not> holds_at a m (b + delta_int d)"
  using assms
  by (auto simp: offset_and_merge_max_achieved_def result_simps absorb_simps holds_at_def
      unsigned_add_delta_Err)

lemma offset_max_achieved_no_panic:
  "offset_and_merge_max_achieved a d prev (bm_new m) \<noteq> Panic"
  by (auto simp: offset_and_merge_max_achieved_def result_simps absorb_simps bm_simps)

lemma offset_and_merge_history_OkE:
  assumes "offset_and_merge_history h2 d h1 m = Ok h"
  obtains ov un ac mi where
    "offset_and_merge_min_overflow (min_overflow_positive_delta h2) d
       (min_overflow_positive_delta h1) (bm_new m) = Ok ov"
    "offset_and_merge_min_overflow (max_underflow_negative_delta h2) (signed_minus d)
       (max_underflow_negative_delta h1) (bm_new m) = Ok un"
    "offset_and_merge_max_achieved (max_achieved_positive_delta h2) d
       (max_achieved_positive_delta h1) (bm_new m) = Ok ac"
    "offset_and_merge_max_achieved (min_achieved_negative_delta h2) (signed_minus d)
       (min_achieved_negative_delta h1) (bm_new m) = Ok mi"
    "h = \<lparr>max_achieved_positive_delta = ac, min_achieved_negative_delta = mi,
          min_overflow_positive_delta = ov, max_underflow_negative_delta = un\<rparr>"
  using assms by (auto simp: offset_and_merge_history_def Let_def result_simps)

lemma admits_outside: "b < 0 \<or> int (unat m) < b \<Longrightarrow> \<not> admits h m b"
  using admits_range by fastforce

lemma offset_and_merge_history_Ok:
  assumes "offset_and_merge_history h2 d h1 m = Ok h" and "wf_history h1 m" and "wf_history h2 m"
  shows offset_and_merge_wf: "wf_history h m"
    and offset_and_merge_admits: "admits h m b \<longleftrightarrow> admits h1 m b \<and> admits h2 m (b + delta_int d)"
    and offset_and_merge_achieved: "achieved d2 h2 \<Longrightarrow>
      - int (unat (min_achieved_negative_delta h)) \<le> delta_int d + delta_int d2 \<and>
      delta_int d + delta_int d2 \<le> int (unat (max_achieved_positive_delta h))"
proof -
  from assms(1) obtain ov un ac mi where parts:
    "offset_and_merge_min_overflow (min_overflow_positive_delta h2) d
       (min_overflow_positive_delta h1) (bm_new m) = Ok ov"
    "offset_and_merge_min_overflow (max_underflow_negative_delta h2) (signed_minus d)
       (max_underflow_negative_delta h1) (bm_new m) = Ok un"
    "offset_and_merge_max_achieved (max_achieved_positive_delta h2) d
       (max_achieved_positive_delta h1) (bm_new m) = Ok ac"
    "offset_and_merge_max_achieved (min_achieved_negative_delta h2) (signed_minus d)
       (min_achieved_negative_delta h1) (bm_new m) = Ok mi"
    and h: "h = \<lparr>max_achieved_positive_delta = ac, min_achieved_negative_delta = mi,
          min_overflow_positive_delta = ov, max_underflow_negative_delta = un\<rparr>"
    by (rule offset_and_merge_history_OkE)
  note bounds = assms(2,3) [unfolded wf_history_def word_le_nat_alt]
  note ov = offset_min_overflow_Ok [OF parts(1)] and un = offset_min_overflow_Ok [OF parts(2)]
    and ac = offset_max_achieved_Ok [OF parts(3)] and mi = offset_max_achieved_Ok [OF parts(4)]
  show "wf_history h m"
    using bounds ov(1) un(1) ac(1) mi(1) by (simp add: wf_history_def h word_le_nat_alt)
  show "- int (unat (min_achieved_negative_delta h)) \<le> delta_int d + delta_int d2 \<and>
      delta_int d + delta_int d2 \<le> int (unat (max_achieved_positive_delta h))" if "achieved d2 h2"
  proof -
    have "int (unat (max_achieved_positive_delta h2)) + delta_int d \<le> int (unat ac)"
      and "int (unat (min_achieved_negative_delta h2)) - delta_int d \<le> int (unat mi)"
      using bounds ac(2) mi(2) by simp_all
    with that show ?thesis unfolding achieved_def h by simp
  qed
  show "admits h m b \<longleftrightarrow> admits h1 m b \<and> admits h2 m (b + delta_int d)"
  proof (cases "0 \<le> b \<and> b \<le> int (unat m)")
    case True
    then show ?thesis
      using bounds ov(2) [of b] un(2) [of "int (unat m) - b"] ac(4) [of b] mi(4) [of "int (unat m) - b"]
      by (auto simp: admits_def h diff_diff_eq)
  next
    case False
    then show ?thesis using admits_outside [of b m] by auto
  qed
qed

lemma offset_and_merge_history_Err:
  assumes "offset_and_merge_history h2 d h1 m = Err e" and "wf_history h1 m" and "wf_history h2 m"
  shows "\<not> (admits h1 m b \<and> admits h2 m (b + delta_int d))"
proof
  assume both: "admits h1 m b \<and> admits h2 m (b + delta_int d)"
  let ?c = "int (unat m) - b"
  note bounds = assms(2,3) [unfolded wf_history_def word_le_nat_alt]
  from both have range: "0 \<le> b" "b \<le> int (unat m)" "0 \<le> ?c" "?c \<le> int (unat m)"
    using admits_range by fastforce+
  have opp: "int (unat m) - (b + delta_int d) = ?c + delta_int (signed_minus d)" by simp
  note both = both [unfolded admits_def opp]
  have over: "(\<exists>ov. offset_and_merge_min_overflow (min_overflow_positive_delta h2) d
      (min_overflow_positive_delta h1) (bm_new m) = Ok ov \<and> fails_at ov m b)"
    using offset_min_overflow_Err [OF _ _ range(2)] offset_min_overflow_Ok(2) [OF _ _ _ range(1)]
      offset_min_overflow_no_panic bounds both by (metis result.exhaust)
  have under: "(\<exists>un. offset_and_merge_min_overflow (max_underflow_negative_delta h2) (signed_minus d)
      (max_underflow_negative_delta h1) (bm_new m) = Ok un \<and> fails_at un m ?c)"
    using offset_min_overflow_Err [OF _ _ range(4)] offset_min_overflow_Ok(2) [OF _ _ _ range(3)]
      offset_min_overflow_no_panic bounds both by (metis result.exhaust)
  have high: "(\<exists>ac. offset_and_merge_max_achieved (max_achieved_positive_delta h2) d
      (max_achieved_positive_delta h1) (bm_new m) = Ok ac \<and> holds_at ac m b)"
    using offset_max_achieved_Err [OF _ _ range(1)] offset_max_achieved_Ok(4) [OF _ _ _ range(2)]
      offset_max_achieved_no_panic bounds both by (metis result.exhaust)
  have low: "(\<exists>mi. offset_and_merge_max_achieved (min_achieved_negative_delta h2) (signed_minus d)
      (min_achieved_negative_delta h1) (bm_new m) = Ok mi \<and> holds_at mi m ?c)"
    using offset_max_achieved_Err [OF _ _ range(3)] offset_max_achieved_Ok(4) [OF _ _ _ range(4)]
      offset_max_achieved_no_panic bounds both by (metis result.exhaust)
  from assms(1) over under high low show False
    by (auto simp: offset_and_merge_history_def Let_def holds_at_def word_le_nat_alt
        split: option.splits if_splits)
qed

lemma offset_and_merge_history_no_panic: "offset_and_merge_history h2 d h1 m \<noteq> Panic"
  by (auto simp: offset_and_merge_history_def Let_def result_simps offset_min_overflow_no_panic
      offset_max_achieved_no_panic split: option.splits)

text \<open>
  Once the histories merge, the sum of the two deltas is within the range, so the internal
  addition never fails.
\<close>

lemma signed_add_total:
  assumes "\<bar>delta_int l + delta_int r\<bar> \<le> int (unat m)"
  obtains s where "signed_add (bm_new m) l r = Ok s" and "delta_int s = delta_int l + delta_int r"
proof -
  have "\<exists>s. signed_add (bm_new m) l r = Ok s"
    using assms
    by (cases l; cases r) (auto simp: unsigned_add_eval negate_error_def update_different_sign_eval)
  with signed_add_Ok that show ?thesis by blast
qed

lemma merge_two_deltas_cases:
  assumes "wf_history h1 m" and "wf_history h2 m" and "achieved d2 h2"
  obtains (Merged) d h where "merge_two_deltas d1 h1 d2 h2 m = Ok (d, h)"
      and "delta_int d = delta_int d1 + delta_int d2" and "wf_history h m" and "achieved d h"
      and "\<And>b. admits h m b \<longleftrightarrow> admits h1 m b \<and> admits h2 m (b + delta_int d1)"
  | (Rejected) e where "merge_two_deltas d1 h1 d2 h2 m = Err (Or e)"
      and "\<And>b. \<not> (admits h1 m b \<and> admits h2 m (b + delta_int d1))"
proof (cases "offset_and_merge_history h2 d1 h1 m")
  case (Ok h)
  note merged = offset_and_merge_history_Ok [OF Ok assms(1,2)]
  have "\<bar>delta_int d1 + delta_int d2\<bar> \<le> int (unat m)"
    using merged(1) merged(3) [OF assms(3)] unfolding wf_history_def word_le_nat_alt by linarith
  then obtain d where "signed_add (bm_new m) d1 d2 = Ok d"
    and "delta_int d = delta_int d1 + delta_int d2" by (rule signed_add_total)
  then show ?thesis
    using Merged [of d h] Ok merged assms by (simp add: merge_two_deltas_def achieved_def)
next
  case (Err e)
  then show ?thesis
    using Rejected [of e] offset_and_merge_history_Err [OF Err assms(1,2)]
    by (simp add: merge_two_deltas_def)
next
  case Panic
  then show ?thesis using offset_and_merge_history_no_panic by blast
qed

lemma merge_data_and_delta_cases:
  assumes "wf_history h m" and "achieved d h"
  obtains (Applied) r where "merge_data_and_delta v d h m = Ok r" and "admits h m (int (unat v))"
      and "int (unat r) = int (unat v) + delta_int d"
  | (Refused) e where "merge_data_and_delta v d h m = Err (Or e)" and "\<not> admits h m (int (unat v))"
proof (cases "admits h m (int (unat v))")
  case True
  from admits_range [OF True] have "unat v \<le> unat m" by simp
  then show ?thesis
    using admits_achieved [OF True assms(2)] True Applied
      validate_Ok_iff [OF assms(1), THEN iffD2, OF True]
    by (cases rule: unsigned_add_delta_cases [where d = d]) (auto simp: merge_data_and_delta_def)
next
  case False
  with validate_Ok_iff [OF assms(1), of v] validate_no_panic [OF assms(1), of v]
  obtain e where "validate_against_base_value h v m = Err e"
    by (cases "validate_against_base_value h v m") auto
  with False Refused show ?thesis by (simp add: merge_data_and_delta_def)
qed

text \<open>
  \<^bold>\<open>C15.\<close> Merging two deltas composes their meaning. For well-formed histories whose net
  deltas they achieved, a successful merge has the sum of the deltas, a well-formed history that
  achieved it, and admits exactly the bases from which the first history and then, after the first
  delta, the second are admitted. A failed merge is always speculative and means that no base admits
  both. The merge never panics and never reports a code invariant error.
\<close>

theorem merge_two_deltas_spec:
  assumes "wf_history h1 m" and "wf_history h2 m" and "achieved d1 h1" and "achieved d2 h2"
  shows "case merge_two_deltas d1 h1 d2 h2 m of
      Ok (d, h) \<Rightarrow> delta_int d = delta_int d1 + delta_int d2 \<and> wf_history h m \<and> achieved d h \<and>
        (\<forall>b. admits h m b = (admits h1 m b \<and> admits h2 m (b + delta_int d1)))
    | Err (Or e) \<Rightarrow> \<not> (\<exists>b. admits h1 m b \<and> admits h2 m (b + delta_int d1))
    | Err (CodeInvariantError msg) \<Rightarrow> False
    | Panic \<Rightarrow> False"
  using assms(1,2,4) by (cases rule: merge_two_deltas_cases [where ?d1.0 = d1]) simp_all

theorem merge_two_deltas_spec_witness:
  "\<exists>d h. merge_two_deltas (Positive 30) (record_success dh_new (Positive 30))
            (Negative 50) (record_overflow (record_success dh_new (Negative 50)) 45) 100 = Ok (d, h)
     \<and> delta_int d = -20 \<and> admits h 100 40 \<and> \<not> admits h 100 15"
proof -
  let ?h1 = "record_success dh_new (Positive 30)"
  let ?h2 = "record_overflow (record_success dh_new (Negative 50)) 45"
  have "wf_history ?h1 100" "wf_history ?h2 100" "achieved (Positive 30) ?h1" "achieved (Negative 50) ?h2"
    by (simp_all add: wf_history_def achieved_def dh_new_def record_overflow_def record_failure_def)
  note spec = merge_two_deltas_spec [OF this]
  have "merge_two_deltas (Positive 30) ?h1 (Negative 50) ?h2 100 =
    Ok (Negative 20, \<lparr>max_achieved_positive_delta = 30, min_achieved_negative_delta = 20,
      min_overflow_positive_delta = Some 75, max_underflow_negative_delta = None\<rparr>)"
    by (simp add: delta_eval merge_two_deltas_def)
  with spec show ?thesis
    by (simp add: admits_def holds_at_def)
qed

end
