(* ===== verification/Delta_Change_Set.thy ===== *)
theory Delta_Change_Set
  imports Delta_Math
begin

text \<open>
  \<open>src/aptos-move/aptos-aggregator/src/delta_change_set.rs\<close>: a delta with its limit
  (\<open>DeltaWithMax\<close>) and a delta with its limit and history (\<open>DeltaOp\<close>). Both implement one
  contract, the locale \<open>delta_algebra\<close>: merging is complete for sequential application. A
  \<open>DeltaOp\<close> moreover implements \<open>exact_delta\<close>: the merged operation succeeds on a base exactly
  when the two operations in sequence do.
\<close>

section \<open>Model\<close>

record delta_with_max =
  dwm_update :: signed_u128
  dwm_max_value :: u128

definition dwm_new :: "signed_u128 \<Rightarrow> u128 \<Rightarrow> delta_with_max" where
  "dwm_new update max_value = \<lparr>dwm_update = update, dwm_max_value = max_value\<rparr>"

definition dwm_apply_to ::
  "delta_with_max \<Rightarrow> u128 \<Rightarrow> (u128, delayed_fields_speculative_error) result" where
  "dwm_apply_to self base =
     (let math = bm_new (dwm_max_value self) in
      case dwm_update self of
        Positive value \<Rightarrow>
          map_err (\<lambda>_. DeltaApplication base (dwm_max_value self) (dwm_update self) DA_Overflow)
            (unsigned_add math base value)
      | Negative value \<Rightarrow>
          map_err (\<lambda>_. DeltaApplication base (dwm_max_value self) (dwm_update self) DA_Underflow)
            (unsigned_subtract math base value))"

definition dwm_create_merged_delta ::
  "delta_with_max \<Rightarrow> delta_with_max \<Rightarrow>
   (delta_with_max, delayed_fields_speculative_error panic_or) result" where
  "dwm_create_merged_delta prev_delta next_delta =
     and_then
       (if dwm_max_value prev_delta \<noteq> dwm_max_value next_delta
        then Err (panic_or_from (code_invariant_error ''Cannot merge deltas with different limits''))
        else Ok ()) (\<lambda>_.
     and_then
       (map_err (\<lambda>_. Or (DeltaMerge (dwm_update prev_delta) (dwm_update next_delta)
                           (dwm_max_value prev_delta)))
         (signed_add (bm_new (dwm_max_value prev_delta)) (dwm_update prev_delta)
           (dwm_update next_delta))) (\<lambda>new_delta.
     Ok (dwm_new new_delta (dwm_max_value prev_delta))))"

record delta_op =
  op_history :: delta_history
  op_max_value :: u128
  op_update :: signed_u128

definition op_new :: "signed_u128 \<Rightarrow> u128 \<Rightarrow> delta_history \<Rightarrow> delta_op" where
  "op_new update max_value history =
     \<lparr>op_history = history, op_max_value = max_value, op_update = update\<rparr>"

definition into_op_no_additional_history :: "delta_with_max \<Rightarrow> delta_op" where
  "into_op_no_additional_history self =
     op_new (dwm_update self) (dwm_max_value self) (record_success dh_new (dwm_update self))"

definition op_apply_to ::
  "delta_op \<Rightarrow> u128 \<Rightarrow> (u128, delayed_fields_speculative_error panic_or) result" where
  "op_apply_to self base =
     merge_data_and_delta base (op_update self) (op_history self) (op_max_value self)"

definition op_create_merged_delta ::
  "delta_op \<Rightarrow> delta_op \<Rightarrow> (delta_op, delayed_fields_speculative_error panic_or) result" where
  "op_create_merged_delta prev_delta next_delta =
     and_then
       (if op_max_value prev_delta \<noteq> op_max_value next_delta
        then Err (panic_or_from (code_invariant_error ''Cannot merge deltas with different limits''))
        else Ok ()) (\<lambda>_.
     and_then
       (merge_two_deltas (op_update prev_delta) (op_history prev_delta)
          (op_update next_delta) (op_history next_delta) (op_max_value next_delta))
       (\<lambda>(new_update, new_history). Ok (op_new new_update (op_max_value next_delta) new_history)))"

text \<open>The two in-place merges; on an error \<open>self\<close> is unchanged.\<close>

definition merge_with_previous_delta ::
  "delta_op \<Rightarrow> delta_op \<Rightarrow> delta_op \<times> (unit, delayed_fields_speculative_error panic_or) result" where
  "merge_with_previous_delta self previous_delta =
     (case op_create_merged_delta previous_delta self of
        Ok d \<Rightarrow> (d, Ok ())
      | Err e \<Rightarrow> (self, Err e)
      | Panic \<Rightarrow> (self, Panic))"

definition merge_with_next_delta ::
  "delta_op \<Rightarrow> delta_op \<Rightarrow> delta_op \<times> (unit, delayed_fields_speculative_error panic_or) result" where
  "merge_with_next_delta self next_delta =
     (case op_create_merged_delta self next_delta of
        Ok d \<Rightarrow> (d, Ok ())
      | Err e \<Rightarrow> (self, Err e)
      | Panic \<Rightarrow> (self, Panic))"

definition op_into_inner :: "delta_op \<Rightarrow> signed_u128 \<times> delta_history \<times> u128" where
  "op_into_inner self = (op_update self, op_history self, op_max_value self)"

section \<open>The contract of mergeable deltas\<close>

text \<open>
  \<open>apply_seq\<close> applies deltas one after the other, oldest first. \<open>merge_down\<close> accumulates them
  from the newest one backwards, the way a read walks down the versions of an aggregator.
\<close>

fun apply_seq :: "('d \<Rightarrow> u128 \<Rightarrow> (u128, 'e) result) \<Rightarrow> 'd list \<Rightarrow> u128 \<Rightarrow> (u128, 'e) result" where
  "apply_seq app [] base = Ok base"
| "apply_seq app (d # ds) base = and_then (app d base) (apply_seq app ds)"

fun merge_down :: "('d \<Rightarrow> 'd \<Rightarrow> ('d, 'f) result) \<Rightarrow> 'd \<Rightarrow> 'd list \<Rightarrow> ('d, 'f) result" where
  "merge_down mrg acc [] = Ok acc"
| "merge_down mrg acc (p # ps) = and_then (mrg p acc) (\<lambda>d. merge_down mrg d ps)"

lemma apply_seq_append:
  "apply_seq app (ds @ es) b = and_then (apply_seq app ds b) (apply_seq app es)"
proof (induction ds arbitrary: b)
  case (Cons d ds)
  then show ?case by (cases "app d b") simp_all
qed simp

locale delta_algebra =
  fixes app :: "'d \<Rightarrow> u128 \<Rightarrow> (u128, 'e) result"
    and mrg :: "'d \<Rightarrow> 'd \<Rightarrow> ('d, 'f) result"
    and wf :: "u128 \<Rightarrow> 'd \<Rightarrow> bool"
  assumes merge_wf: "wf m p \<Longrightarrow> wf m n \<Longrightarrow> mrg p n = Ok d \<Longrightarrow> wf m d"
    and merge_complete: "wf m p \<Longrightarrow> wf m n \<Longrightarrow> unat b \<le> unat m \<Longrightarrow> app p b = Ok v \<Longrightarrow> app n v = Ok w \<Longrightarrow>
      \<exists>d. mrg p n = Ok d \<and> app d b = Ok w"
    and app_range: "wf m p \<Longrightarrow> unat b \<le> unat m \<Longrightarrow> app p b = Ok v \<Longrightarrow> unat v \<le> unat m"
begin

lemma apply_seq_range:
  "(\<And>d. d \<in> set ds \<Longrightarrow> wf m d) \<Longrightarrow> unat b \<le> unat m \<Longrightarrow> apply_seq app ds b = Ok v \<Longrightarrow>
   unat v \<le> unat m"
  by (induction ds arbitrary: b) (auto simp: result_simps dest: app_range)

lemma merge_down_complete:
  assumes "\<And>d. d \<in> set (acc # ps) \<Longrightarrow> wf m d" and "unat b \<le> unat m"
    and "apply_seq app (rev ps @ [acc]) b = Ok w"
  shows "\<exists>d. merge_down mrg acc ps = Ok d \<and> app d b = Ok w"
  using assms
proof (induction ps arbitrary: acc)
  case Nil
  then show ?case by (auto simp: result_simps)
next
  case (Cons p ps)
  from Cons.prems(3) obtain u v where u: "apply_seq app (rev ps) b = Ok u"
    and pv: "app p u = Ok v" "app acc v = Ok w"
    by (auto simp: apply_seq_append result_simps)
  have "unat u \<le> unat m" using apply_seq_range [OF _ Cons.prems(2) u] Cons.prems(1) by auto
  then obtain d where d: "mrg p acc = Ok d" "app d u = Ok w"
    using merge_complete [OF _ _ _ pv, of m] Cons.prems(1) by auto
  with Cons.prems have "wf m d" using merge_wf [of m p acc d] by auto
  with Cons.prems d u Cons.IH [of d] show ?case
    by (auto simp: apply_seq_append)
qed

end

locale exact_delta = delta_algebra +
  assumes merge_sound: "wf m p \<Longrightarrow> wf m n \<Longrightarrow> mrg p n = Ok d \<Longrightarrow> app d b = Ok w \<Longrightarrow>
      \<exists>v. app p b = Ok v \<and> app n v = Ok w"
begin

lemma merge_down_sound:
  assumes "\<And>d. d \<in> set (acc # ps) \<Longrightarrow> wf m d" and "merge_down mrg acc ps = Ok d"
    and "app d b = Ok w"
  shows "apply_seq app (rev ps @ [acc]) b = Ok w"
  using assms
proof (induction ps arbitrary: acc)
  case Nil
  then show ?case by (simp add: result_simps)
next
  case (Cons p ps)
  then obtain a where a: "mrg p acc = Ok a" "merge_down mrg a ps = Ok d"
    by (auto simp: result_simps)
  with Cons.prems have "wf m a" using merge_wf [of m p acc a] by auto
  with Cons a have "apply_seq app (rev ps @ [a]) b = Ok w" by auto
  then obtain u where "apply_seq app (rev ps) b = Ok u" "app a u = Ok w"
    by (auto simp: apply_seq_append result_simps)
  with merge_sound [of m p acc a u w] a Cons.prems show ?case
    by (auto simp: apply_seq_append)
qed

lemma merge_down_exact:
  assumes "\<And>d. d \<in> set (acc # ps) \<Longrightarrow> wf m d" and "unat b \<le> unat m"
  shows "ok_opt (and_then (map_err (\<lambda>_. ()) (merge_down mrg acc ps)) (\<lambda>d. map_err (\<lambda>_. ()) (app d b))) =
    ok_opt (apply_seq app (rev ps @ [acc]) b)"
proof (cases "apply_seq app (rev ps @ [acc]) b")
  case (Ok w)
  with merge_down_complete [OF assms Ok] show ?thesis by (auto simp: result_simps)
next
  case Err
  have "ok_opt (and_then (map_err (\<lambda>_. ()) (merge_down mrg acc ps)) (\<lambda>d. map_err (\<lambda>_. ()) (app d b))) = None"
    using merge_down_sound [OF assms(1)] Err by (fastforce simp: result_simps)
  with Err show ?thesis by simp
next
  case Panic
  have "ok_opt (and_then (map_err (\<lambda>_. ()) (merge_down mrg acc ps)) (\<lambda>d. map_err (\<lambda>_. ()) (app d b))) = None"
    using merge_down_sound [OF assms(1)] Panic by (fastforce simp: result_simps)
  with Panic show ?thesis by simp
qed

end

section \<open>Both deltas implement it\<close>

definition wf_dwm :: "u128 \<Rightarrow> delta_with_max \<Rightarrow> bool" where
  "wf_dwm m d \<longleftrightarrow> dwm_max_value d = m"

definition wf_op :: "u128 \<Rightarrow> delta_op \<Rightarrow> bool" where
  "wf_op m d \<longleftrightarrow> op_max_value d = m \<and> wf_history (op_history d) m \<and> achieved (op_update d) (op_history d)"

lemma dwm_apply_to_Ok:
  assumes "unat b \<le> unat (dwm_max_value d)"
  shows "dwm_apply_to d b = Ok v \<longleftrightarrow>
    int (unat v) = int (unat b) + delta_int (dwm_update d) \<and> unat v \<le> unat (dwm_max_value d)"
  using assms by (cases "dwm_update d") (auto simp: dwm_apply_to_def result_simps bm_simps)

lemma dwm_create_merged_delta_Ok:
  "dwm_create_merged_delta p n = Ok d \<longleftrightarrow> dwm_max_value p = dwm_max_value n \<and>
     (\<exists>s. signed_add (bm_new (dwm_max_value p)) (dwm_update p) (dwm_update n) = Ok s \<and>
          d = dwm_new s (dwm_max_value p))"
  by (auto simp: dwm_create_merged_delta_def result_simps)

interpretation dwm: delta_algebra dwm_apply_to dwm_create_merged_delta wf_dwm
proof
  fix m p n b v w
  assume wf: "wf_dwm m p" "wf_dwm m n" and b: "unat b \<le> unat m"
    and "dwm_apply_to p b = Ok v" "dwm_apply_to n v = Ok w"
  then have v: "int (unat v) = int (unat b) + delta_int (dwm_update p)" "unat v \<le> unat m"
    and w: "int (unat w) = int (unat v) + delta_int (dwm_update n)" "unat w \<le> unat m"
    by (auto simp: dwm_apply_to_Ok wf_dwm_def)
  from v w b have "\<bar>delta_int (dwm_update p) + delta_int (dwm_update n)\<bar> \<le> int (unat m)" by linarith
  then obtain s where "signed_add (bm_new m) (dwm_update p) (dwm_update n) = Ok s"
    and "delta_int s = delta_int (dwm_update p) + delta_int (dwm_update n)" by (rule signed_add_total)
  with wf b v w show "\<exists>d. dwm_create_merged_delta p n = Ok d \<and> dwm_apply_to d b = Ok w"
    by (intro exI [of _ "dwm_new s m"]) (auto simp: dwm_create_merged_delta_Ok wf_dwm_def
      dwm_apply_to_Ok dwm_new_def)
qed (auto simp: dwm_create_merged_delta_Ok wf_dwm_def dwm_new_def dwm_apply_to_Ok)

lemma op_apply_to_Ok:
  assumes "wf_op m d"
  shows "op_apply_to d b = Ok v \<longleftrightarrow>
    admits (op_history d) m (int (unat b)) \<and> int (unat v) = int (unat b) + delta_int (op_update d)"
proof -
  from assms have wf: "wf_history (op_history d) m" "achieved (op_update d) (op_history d)"
    and "op_max_value d = m" by (auto simp: wf_op_def)
  then show ?thesis
    by (cases rule: merge_data_and_delta_cases [OF wf, of b])
      (auto simp: op_apply_to_def dest: int_unat_eqD)
qed

lemma op_apply_to_total:
  assumes "wf_op m d" and "admits (op_history d) m (int (unat b))"
  shows "\<exists>v. op_apply_to d b = Ok v"
proof -
  from assms have wf: "wf_history (op_history d) m" "achieved (op_update d) (op_history d)"
    and "op_max_value d = m" by (auto simp: wf_op_def)
  with assms(2) show ?thesis
    by (cases rule: merge_data_and_delta_cases [OF wf, of b]) (auto simp: op_apply_to_def)
qed

lemma op_create_merged_delta_cases:
  assumes "wf_op m p" and "wf_op m n"
  obtains (Merged) d where "op_create_merged_delta p n = Ok d" and "wf_op m d"
      and "delta_int (op_update d) = delta_int (op_update p) + delta_int (op_update n)"
      and "\<And>b. admits (op_history d) m b \<longleftrightarrow>
        admits (op_history p) m b \<and> admits (op_history n) m (b + delta_int (op_update p))"
  | (Rejected) e where "op_create_merged_delta p n = Err (Or e)"
      and "\<And>b. \<not> (admits (op_history p) m b \<and> admits (op_history n) m (b + delta_int (op_update p)))"
proof -
  from assms have wf: "wf_history (op_history p) m" "wf_history (op_history n) m"
    "achieved (op_update n) (op_history n)" and m: "op_max_value p = m" "op_max_value n = m"
    by (auto simp: wf_op_def)
  show ?thesis
    using wf
  proof (cases rule: merge_two_deltas_cases [where ?d1.0 = "op_update p"])
    case (Merged d h)
    then show ?thesis
      using that(1) [of "op_new d m h"] m by (simp add: op_create_merged_delta_def op_new_def wf_op_def)
  next
    case (Rejected e)
    then show ?thesis using that(2) m by (simp add: op_create_merged_delta_def)
  qed
qed

interpretation dop: exact_delta op_apply_to op_create_merged_delta wf_op
proof
  fix m p n b v w
  assume wf: "wf_op m p" "wf_op m n" and "op_apply_to p b = Ok v" "op_apply_to n v = Ok w"
  then have "admits (op_history p) m (int (unat b))" and v: "int (unat v) = int (unat b) + delta_int (op_update p)"
    and "admits (op_history n) m (int (unat v))" and w: "int (unat w) = int (unat v) + delta_int (op_update n)"
    by (simp_all add: op_apply_to_Ok)
  with wf show "\<exists>d. op_create_merged_delta p n = Ok d \<and> op_apply_to d b = Ok w"
    by (cases rule: op_create_merged_delta_cases [of m p n]) (simp_all add: op_apply_to_Ok [of m])
next
  fix m p n d b w
  assume wf: "wf_op m p" "wf_op m n" and d: "op_create_merged_delta p n = Ok d" "op_apply_to d b = Ok w"
  then have ad: "admits (op_history p) m (int (unat b))"
    "admits (op_history n) m (int (unat b) + delta_int (op_update p))"
    "int (unat w) = int (unat b) + delta_int (op_update p) + delta_int (op_update n)"
    by (cases rule: op_create_merged_delta_cases [of m p n]; simp add: op_apply_to_Ok [of m])+
  with wf(1) obtain v where "op_apply_to p b = Ok v" using op_apply_to_total by blast
  with wf ad show "\<exists>v. op_apply_to p b = Ok v \<and> op_apply_to n v = Ok w"
    by (intro exI [of _ v]) (simp add: op_apply_to_Ok [of m])
next
  fix m p n d
  assume "wf_op m p" "wf_op m n" "op_create_merged_delta p n = Ok d"
  then show "wf_op m d"
    by (cases rule: op_create_merged_delta_cases [of m p n]) auto
next
  fix m p b v
  assume wf: "wf_op m p" and "op_apply_to p b = Ok v"
  then have "admits (op_history p) m (int (unat b))" "int (unat v) = int (unat b) + delta_int (op_update p)"
    by (simp_all add: op_apply_to_Ok [of m])
  with wf admits_achieved show "unat v \<le> unat m" by (fastforce simp: wf_op_def)
qed

text \<open>
  \<^bold>\<open>C16.\<close> Reading through a chain of delta operations is exact. Accumulating a list of
  well-formed operations from the newest backwards with \<open>create_merged_delta\<close> and applying the
  result to a base succeeds exactly when applying them one by one from the oldest succeeds, with
  the same value.
\<close>

theorem delta_op_chain_exact:
  assumes "\<And>d. d \<in> set (newest # older) \<Longrightarrow> wf_op m d" and "unat base \<le> unat m"
  shows "ok_opt (and_then (map_err (\<lambda>_. ()) (merge_down op_create_merged_delta newest older))
                   (\<lambda>d. map_err (\<lambda>_. ()) (op_apply_to d base))) =
         ok_opt (apply_seq op_apply_to (rev older @ [newest]) base)"
  using assms by (rule dop.merge_down_exact)

theorem delta_op_chain_exact_witness:
  "ok_opt (apply_seq op_apply_to
     (rev [into_op_no_additional_history (dwm_new (Positive 30) 100)] @
      [into_op_no_additional_history (dwm_new (Negative 50) 100)]) 40) = Some 20"
proof -
  have "merge_down op_create_merged_delta (into_op_no_additional_history (dwm_new (Negative 50) 100))
      [into_op_no_additional_history (dwm_new (Positive 30) 100)] =
    Ok (op_new (Negative 20) 100 \<lparr>max_achieved_positive_delta = 30, min_achieved_negative_delta = 20,
      min_overflow_positive_delta = None, max_underflow_negative_delta = None\<rparr>)"
    by (simp add: op_create_merged_delta_def merge_two_deltas_def into_op_no_additional_history_def
        op_new_def dwm_new_def delta_eval)
  moreover have "op_apply_to (op_new (Negative 20) 100 \<lparr>max_achieved_positive_delta = 30,
      min_achieved_negative_delta = 20, min_overflow_positive_delta = None,
      max_underflow_negative_delta = None\<rparr>) 40 = Ok 20"
    by (simp add: op_apply_to_def merge_data_and_delta_def validate_against_base_value_def op_new_def
        delta_eval)
  moreover have "wf_op 100 d" if "d \<in> set [into_op_no_additional_history (dwm_new (Negative 50) 100),
      into_op_no_additional_history (dwm_new (Positive 30) 100)]" for d
    using that by (auto simp: wf_op_def into_op_no_additional_history_def op_new_def dwm_new_def
      wf_history_def achieved_def dh_new_def)
  ultimately show ?thesis
    by (subst delta_op_chain_exact [where m = 100, symmetric]) simp_all
qed

text \<open>
  \<^bold>\<open>C20.\<close> A chain of deltas without history is complete: whenever applying the deltas one by
  one succeeds, accumulating them with \<open>DeltaWithMax::create_merged_delta\<close> succeeds and the merged
  delta gives the same value.
\<close>

theorem delta_with_max_chain_complete:
  assumes "\<And>d. d \<in> set (newest # older) \<Longrightarrow> wf_dwm m d" and "unat base \<le> unat m"
    and "apply_seq dwm_apply_to (rev older @ [newest]) base = Ok w"
  shows "\<exists>d. merge_down dwm_create_merged_delta newest older = Ok d \<and> dwm_apply_to d base = Ok w"
  using assms by (rule dwm.merge_down_complete)

theorem delta_with_max_chain_complete_witness:
  "\<exists>d. merge_down dwm_create_merged_delta (dwm_new (Negative 50) 100) [dwm_new (Positive 30) 100] = Ok d
     \<and> dwm_apply_to d 40 = Ok 20"
  by (rule delta_with_max_chain_complete [where m = 100])
    (auto simp: wf_dwm_def dwm_new_def dwm_apply_to_def delta_eval)

end
