(* ===== verification/Versioned_Data.thy ===== *)
theory Versioned_Data
  imports Delta_Change_Set
begin

text \<open>
  \<open>src/aptos-move/mvhashmap/src/versioned_data.rs\<close> and the types it uses from \<open>types.rs\<close>: the multi-version
  map that transactions of a block read and write during parallel execution. A key holds the entries of the
  transactions that wrote it, by shifted transaction index; the value of the storage is the entry of index 0. A read
  walks down the entries below the reader and accumulates the deltas it meets.

  \<open>replay\<close> is the sequential meaning of the entries: they take effect one by one, the oldest first. A
  \<open>TransactionWrite\<close> enters with the bytes of a value; \<open>bcs_u128\<close> stands for \<open>bcs::from_bytes\<close>.
\<close>

section \<open>Model\<close>

type_synonym txn_index = u32
type_synonym incarnation = u32

text \<open>\<open>Version\<close>; \<open>None\<close> is \<open>Err(StorageVersion)\<close>.\<close>

type_synonym mv_version = "(txn_index \<times> incarnation) option"

datatype entry_flag = Done | Estimate

datatype ('v, 'l) value_with_layout = RawFromStorage 'v | Exchanged 'v "'l option"

datatype ('v, 'l) entry_cell = Write incarnation "('v, 'l) value_with_layout" | Delta delta_op "u128 option"

record ('v, 'l) mv_entry =
  cell :: "('v, 'l) entry_cell"
  flag :: entry_flag

datatype mv_data_error = Uninitialized | Unresolved delta_op | Dependency txn_index | DeltaApplicationFailure

datatype ('v, 'l) mv_data_output = Resolved u128 | Versioned mv_version "('v, 'l) value_with_layout"

record 'v transaction_write =
  bytes :: "'v \<Rightarrow> u8 list option"
  bcs_u128 :: "u8 list \<Rightarrow> u128 option"

definition as_u128 :: "'v transaction_write \<Rightarrow> 'v \<Rightarrow> (u128 option, unit) result" where
  "as_u128 W v =
     (case bytes W v of
        Some bs \<Rightarrow> map_ok Some (ok_or () (bcs_u128 W bs))
      | None \<Rightarrow> Ok None)"

definition shifted_new :: "txn_index \<Rightarrow> (u32, 'e) result" where
  "shifted_new real_idx = add_p real_idx 1"

definition shifted_idx :: "u32 \<Rightarrow> txn_index option" where
  "shifted_idx i = (if i > 0 then Some (i - 1) else None)"

fun value_of :: "('v, 'l) value_with_layout \<Rightarrow> 'v" where
  "value_of (RawFromStorage v) = v"
| "value_of (Exchanged v _) = v"

definition bytes_len :: "'v transaction_write \<Rightarrow> ('v, 'l) value_with_layout \<Rightarrow> nat option" where
  "bytes_len W self = map_option length (bytes W (value_of self))"

fun extract_value_no_layout :: "('v, 'l) value_with_layout \<Rightarrow> ('v, 'e) result" where
  "extract_value_no_layout (RawFromStorage v) = Ok v"
| "extract_value_no_layout (Exchanged v None) = Ok v"
| "extract_value_no_layout (Exchanged v (Some l)) = Panic"

definition new_write_from :: "incarnation \<Rightarrow> ('v, 'l) value_with_layout \<Rightarrow> ('v, 'l) mv_entry" where
  "new_write_from i v = \<lparr>cell = Write i v, flag = Done\<rparr>"

definition new_delta_from :: "delta_op \<Rightarrow> ('v, 'l) mv_entry" where
  "new_delta_from d = \<lparr>cell = Delta d None, flag = Done\<rparr>"

definition entry_mark_estimate :: "('v, 'l) mv_entry \<Rightarrow> ('v, 'l) mv_entry" where
  "entry_mark_estimate self = self\<lparr>flag := Estimate\<rparr>"

definition record_delta_shortcut :: "('v, 'l) mv_entry \<Rightarrow> u128 \<Rightarrow> (('v, 'l) mv_entry, 'e) result" where
  "record_delta_shortcut self value =
     (case cell self of
        Delta d maybe_shortcut \<Rightarrow>
          and_then (case maybe_shortcut of Some prev_value \<Rightarrow> assert_p (value = prev_value) | None \<Rightarrow> Ok ()) (\<lambda>_.
          Ok (self\<lparr>cell := Delta d (Some value)\<rparr>))
      | Write _ _ \<Rightarrow> Panic)"

text \<open>\<open>VersionedValue\<close>: the entries of a key, by ascending shifted index.\<close>

type_synonym ('v, 'l) versioned_value = "(u32 \<times> ('v, 'l) mv_entry) list"

text \<open>The accumulated deltas are applied to a value; a failed accumulation has become \<open>Err ()\<close>.\<close>

definition apply_accumulator ::
  "(delta_op, unit) result \<Rightarrow> u128 \<Rightarrow> (('v, 'l) mv_data_output, mv_data_error) result" where
  "apply_accumulator accumulator value =
     and_then (map_err (\<lambda>_. DeltaApplicationFailure) accumulator) (\<lambda>a.
     map_err (\<lambda>_. DeltaApplicationFailure) (map_ok Resolved (op_apply_to a value)))"

text \<open>The loop of \<open>VersionedValue::read\<close> over the entries below the reader, the newest first.\<close>

fun read_loop ::
  "'v transaction_write \<Rightarrow> ('v, 'l) versioned_value \<Rightarrow> (delta_op, unit) result option \<Rightarrow>
   (('v, 'l) mv_data_output, mv_data_error) result" where
  "read_loop W [] accumulator =
     (case accumulator of
        Some (Ok a) \<Rightarrow> Err (Unresolved a)
      | Some (Err _) \<Rightarrow> Err DeltaApplicationFailure
      | Some Panic \<Rightarrow> Panic
      | None \<Rightarrow> Err Uninitialized)"
| "read_loop W ((idx, entry) # rest) accumulator =
     (if flag entry = Estimate then
        (case shifted_idx idx of Some i \<Rightarrow> Err (Dependency i) | None \<Rightarrow> Panic)
      else
        (case (cell entry, accumulator) of
           (Write i data, None) \<Rightarrow> Ok (Versioned (map_option (\<lambda>idx. (idx, i)) (shifted_idx idx)) data)
         | (Write i data, Some acc) \<Rightarrow>
             and_then (extract_value_no_layout data) (\<lambda>value.
             and_then (unwrap_ok (as_u128 W value)) (\<lambda>maybe.
             (case maybe of
                None \<Rightarrow> Ok (Versioned (map_option (\<lambda>idx. (idx, i)) (shifted_idx idx)) data)
              | Some value \<Rightarrow> apply_accumulator acc value)))
         | (Delta d (Some shortcut_value), Some acc) \<Rightarrow> apply_accumulator acc shortcut_value
         | (Delta d None, Some acc) \<Rightarrow>
             read_loop W rest (Some (and_then acc (\<lambda>a.
               case merge_with_previous_delta a d of
                 (_, Err _) \<Rightarrow> Err ()
               | (a', Ok _) \<Rightarrow> Ok a'
               | (_, Panic) \<Rightarrow> Panic)))
         | (Delta d (Some shortcut_value), None) \<Rightarrow> Ok (Resolved shortcut_value)
         | (Delta d None, None) \<Rightarrow> read_loop W rest (Some (Ok d))))"

definition mvv_read ::
  "'v transaction_write \<Rightarrow> ('v, 'l) versioned_value \<Rightarrow> txn_index \<Rightarrow> (('v, 'l) mv_data_output, mv_data_error) result" where
  "mvv_read W self txn_idx =
     and_then (shifted_new txn_idx) (\<lambda>upper.
     read_loop W (rev (filter (\<lambda>(idx, _). idx < upper) self)) None)"

record ('k, 'v, 'l) versioned_data =
  mv_values :: "'k \<rightharpoonup> ('v, 'l) versioned_value"
  total_base_value_size :: u64

definition mvd_new :: "('k, 'v, 'l) versioned_data" where
  "mvd_new = \<lparr>mv_values = Map.empty, total_base_value_size = 0\<rparr>"

text \<open>\<open>entry(key).or_default()\<close>\<close>

definition entry_or_default :: "('k, 'v, 'l) versioned_data \<Rightarrow> 'k \<Rightarrow> ('v, 'l) versioned_value" where
  "entry_or_default self key = (case mv_values self key of Some v \<Rightarrow> v | None \<Rightarrow> [])"

definition put_value ::
  "('k, 'v, 'l) versioned_data \<Rightarrow> 'k \<Rightarrow> ('v, 'l) versioned_value \<Rightarrow> ('k, 'v, 'l) versioned_data" where
  "put_value self key v = self\<lparr>mv_values := (mv_values self)(key \<mapsto> v)\<rparr>"

definition mvd_add_delta ::
  "('k, 'v, 'l) versioned_data \<Rightarrow> 'k \<Rightarrow> txn_index \<Rightarrow> delta_op \<Rightarrow> (('k, 'v, 'l) versioned_data, 'e) result" where
  "mvd_add_delta self key txn_idx d =
     and_then (shifted_new txn_idx) (\<lambda>i.
     Ok (put_value self key (btree_insert i (new_delta_from d) (entry_or_default self key))))"

definition mvd_mark_estimate ::
  "('k, 'v, 'l) versioned_data \<Rightarrow> 'k \<Rightarrow> txn_index \<Rightarrow> (('k, 'v, 'l) versioned_data, 'e) result" where
  "mvd_mark_estimate self key txn_idx =
     and_then (unwrap_some (mv_values self key)) (\<lambda>v.
     and_then (shifted_new txn_idx) (\<lambda>i.
     and_then (unwrap_some (map_of v i)) (\<lambda>entry.
     Ok (put_value self key (btree_insert i (entry_mark_estimate entry) v)))))"

definition mvd_remove ::
  "('k, 'v, 'l) versioned_data \<Rightarrow> 'k \<Rightarrow> txn_index \<Rightarrow> (('k, 'v, 'l) versioned_data, 'e) result" where
  "mvd_remove self key txn_idx =
     and_then (unwrap_some (mv_values self key)) (\<lambda>v.
     and_then (shifted_new txn_idx) (\<lambda>i.
     and_then (assert_p (map_of v i \<noteq> None)) (\<lambda>_.
     Ok (put_value self key (filter (\<lambda>(idx, _). idx \<noteq> i) v)))))"

definition fetch_data ::
  "'v transaction_write \<Rightarrow> ('k, 'v, 'l) versioned_data \<Rightarrow> 'k \<Rightarrow> txn_index \<Rightarrow>
   (('v, 'l) mv_data_output, mv_data_error) result" where
  "fetch_data W self key txn_idx =
     (case mv_values self key of Some v \<Rightarrow> mvv_read W v txn_idx | None \<Rightarrow> Err Uninitialized)"

definition fetch_exchanged_data ::
  "'v transaction_write \<Rightarrow> ('k, 'v, 'l) versioned_data \<Rightarrow> 'k \<Rightarrow> txn_index \<Rightarrow> (('v \<times> 'l) option, 'e) result" where
  "fetch_exchanged_data W self key txn_idx =
     (case fetch_data W self key txn_idx of
        Ok (Versioned _ (Exchanged value (Some layout))) \<Rightarrow> Ok (Some (value, layout))
      | Panic \<Rightarrow> Panic
      | _ \<Rightarrow> Ok None)"

text \<open>\<open>fetch_add\<close> of the atomic size wraps around.\<close>

definition set_base_value ::
  "'v transaction_write \<Rightarrow> ('k, 'v, 'l) versioned_data \<Rightarrow> 'k \<Rightarrow> ('v, 'l) value_with_layout \<Rightarrow>
   (('k, 'v, 'l) versioned_data, 'e) result" where
  "set_base_value W self key value =
     (let v = entry_or_default self key in
      case map_of v 0 of
        None \<Rightarrow>
          Ok (put_value
            (self\<lparr>total_base_value_size :=
               total_base_value_size self + (case bytes_len W value of Some n \<Rightarrow> of_nat n | None \<Rightarrow> 0)\<rparr>)
            key (btree_insert 0 (new_write_from 0 value) v))
      | Some entry \<Rightarrow>
          (case cell entry of
             Write i existing_value \<Rightarrow>
               and_then (assert_p (i = 0)) (\<lambda>_.
               (case (existing_value, value) of
                  (RawFromStorage ev, RawFromStorage nv) \<Rightarrow>
                    and_then (assert_p (map_option length (bytes W nv) = map_option length (bytes W ev))) (\<lambda>_.
                    Ok (put_value self key v))
                | (Exchanged _ _, RawFromStorage _) \<Rightarrow> Ok (put_value self key v)
                | (RawFromStorage _, Exchanged _ _) \<Rightarrow>
                    Ok (put_value self key (btree_insert 0 (new_write_from 0 value) v))
                | (Exchanged ev e_layout, Exchanged nv layout) \<Rightarrow>
                    and_then (assert_p ((e_layout \<noteq> None) = (layout \<noteq> None))) (\<lambda>_.
                    and_then (if layout = None
                              then assert_p (map_option length (bytes W nv) = map_option length (bytes W ev))
                              else Ok ()) (\<lambda>_.
                    Ok (put_value self key v)))))
           | Delta _ _ \<Rightarrow> Ok (put_value self key v)))"

definition mvd_write ::
  "('k, 'v, 'l) versioned_data \<Rightarrow> 'k \<Rightarrow> txn_index \<Rightarrow> incarnation \<Rightarrow> 'v \<Rightarrow> 'l option \<Rightarrow>
   (('k, 'v, 'l) versioned_data, 'e) result" where
  "mvd_write self key txn_idx i data maybe_layout =
     (let v = entry_or_default self key in
      and_then (shifted_new txn_idx) (\<lambda>idx.
      and_then (assert_p (case map_of v idx of
          Some prev \<Rightarrow> (case cell prev of Write prev_i _ \<Rightarrow> prev_i < i | Delta _ _ \<Rightarrow> True)
        | None \<Rightarrow> True)) (\<lambda>_.
      Ok (put_value self key (btree_insert idx (new_write_from i (Exchanged data maybe_layout)) v)))))"

definition materialize_delta ::
  "'v transaction_write \<Rightarrow> ('k, 'v, 'l) versioned_data \<Rightarrow> 'k \<Rightarrow> txn_index \<Rightarrow>
   ((u128, delta_op) result \<times> ('k, 'v, 'l) versioned_data, 'e) result" where
  "materialize_delta W self key txn_idx =
     and_then (unwrap_some (mv_values self key)) (\<lambda>v.
     and_then (add_p txn_idx 1) (\<lambda>after.
     (case mvv_read W v after of
        Ok (Resolved value) \<Rightarrow>
          and_then (shifted_new txn_idx) (\<lambda>i.
          and_then (unwrap_some (map_of v i)) (\<lambda>entry.
          and_then (record_delta_shortcut entry value) (\<lambda>entry.
          Ok (Ok value, put_value self key (btree_insert i entry v)))))
      | Err (Unresolved op) \<Rightarrow> Ok (Err op, self)
      | _ \<Rightarrow> Panic)))"

section \<open>The sequential meaning\<close>

text \<open>What a location holds for a sequential execution. \<open>Pending\<close> are deltas on a storage value not known yet.\<close>

datatype ('v, 'l) location =
  Nothing | Holds mv_version "('v, 'l) value_with_layout" | Number u128 | Failed | Pending "delta_op list"

fun change_number :: "delta_op \<Rightarrow> u128 \<Rightarrow> ('v, 'l) location" where
  "change_number d b = (case op_apply_to d b of Ok v \<Rightarrow> Number v | _ \<Rightarrow> Failed)"

fun apply_delta :: "'v transaction_write \<Rightarrow> delta_op \<Rightarrow> ('v, 'l) location \<Rightarrow> ('v, 'l) location" where
  "apply_delta W d Nothing = Pending [d]"
| "apply_delta W d (Pending ds) = Pending (ds @ [d])"
| "apply_delta W d Failed = Failed"
| "apply_delta W d (Number b) = change_number d b"
| "apply_delta W d (Holds ver data) =
     (case as_u128 W (value_of data) of
        Ok None \<Rightarrow> Holds ver data
      | Ok (Some b) \<Rightarrow> change_number d b
      | _ \<Rightarrow> Failed)"

fun take_effect :: "'v transaction_write \<Rightarrow> u32 \<times> ('v, 'l) mv_entry \<Rightarrow> ('v, 'l) location \<Rightarrow> ('v, 'l) location" where
  "take_effect W (idx, entry) loc =
     (case cell entry of
        Write i data \<Rightarrow> Holds (map_option (\<lambda>idx. (idx, i)) (shifted_idx idx)) data
      | Delta d _ \<Rightarrow> apply_delta W d loc)"

definition replay :: "'v transaction_write \<Rightarrow> ('v, 'l) versioned_value \<Rightarrow> ('v, 'l) location" where
  "replay W es = fold (take_effect W) es Nothing"

text \<open>A read reports what the location holds; \<open>Unresolved\<close> is the sum of the pending deltas.\<close>

definition observed :: "u128 \<Rightarrow> ('v, 'l) location \<Rightarrow> (('v, 'l) mv_data_output, mv_data_error) result \<Rightarrow> bool" where
  "observed m loc r \<longleftrightarrow>
     (case loc of
        Nothing \<Rightarrow> r = Err Uninitialized
      | Holds ver data \<Rightarrow> r = Ok (Versioned ver data)
      | Number v \<Rightarrow> r = Ok (Resolved v)
      | Failed \<Rightarrow> r = Err DeltaApplicationFailure
      | Pending ds \<Rightarrow>
          (case r of
             Err (Unresolved d) \<Rightarrow> \<forall>b. unat b \<le> unat m \<longrightarrow> ok_opt (op_apply_to d b) = ok_opt (apply_seq op_apply_to ds b)
           | Err DeltaApplicationFailure \<Rightarrow> \<forall>b. unat b \<le> unat m \<longrightarrow> ok_opt (apply_seq op_apply_to ds b) = None
           | _ \<Rightarrow> False))"

text \<open>
  Deltas have the limit \<open>m\<close> and are well formed. Where there are deltas, the values written are numbers within the
  limit, without a layout, or deletions.
\<close>

definition number_ok :: "'v transaction_write \<Rightarrow> u128 \<Rightarrow> ('v, 'l) value_with_layout \<Rightarrow> bool" where
  "number_ok W m data \<longleftrightarrow> (extract_value_no_layout data = (Ok (value_of data) :: (_, unit) result)) \<and>
     (as_u128 W (value_of data) = Ok None \<or> (\<exists>b. as_u128 W (value_of data) = Ok (Some b) \<and> unat b \<le> unat m))"

definition entry_ok :: "'v transaction_write \<Rightarrow> u128 \<Rightarrow> ('v, 'l) mv_entry \<Rightarrow> bool" where
  "entry_ok W m entry \<longleftrightarrow> (case cell entry of Write _ data \<Rightarrow> number_ok W m data | Delta d _ \<Rightarrow> wf_op m d)"

definition no_deltas :: "('v, 'l) versioned_value \<Rightarrow> bool" where
  "no_deltas es \<longleftrightarrow> (\<forall>(idx, entry) \<in> set es. \<exists>i data. cell entry = Write i data)"

definition entries_ok :: "'v transaction_write \<Rightarrow> u128 \<Rightarrow> ('v, 'l) versioned_value \<Rightarrow> bool" where
  "entries_ok W m es \<longleftrightarrow> no_deltas es \<or> (\<forall>(idx, entry) \<in> set es. entry_ok W m entry)"

definition settled :: "('v, 'l) versioned_value \<Rightarrow> bool" where
  "settled es \<longleftrightarrow> (\<forall>(idx, entry) \<in> set es. flag entry = Done)"

text \<open>A shortcut is the number the location holds after its delta.\<close>

definition shortcuts_ok :: "'v transaction_write \<Rightarrow> ('v, 'l) versioned_value \<Rightarrow> bool" where
  "shortcuts_ok W es \<longleftrightarrow>
     (\<forall>older idx entry newer d v. es = older @ (idx, entry) # newer \<and> cell entry = Delta d (Some v) \<longrightarrow>
        replay W (older @ [(idx, entry)]) = Number v)"

section \<open>Reads\<close>

text \<open>The accumulator of the loop after the deltas \<open>ds\<close>, the oldest first.\<close>

definition acc_for :: "delta_op list \<Rightarrow> (delta_op, unit) result option" where
  "acc_for ds =
     (case rev ds of
        [] \<Rightarrow> None
      | newest # older \<Rightarrow> Some (map_err (\<lambda>_. ()) (merge_down op_create_merged_delta newest older)))"

lemma ok_opt_map_err [simp]: "ok_opt (map_err f r) = ok_opt r"
  by (cases r) simp_all

lemma merge_down_snoc: "merge_down mrg acc (ps @ [p]) = and_then (merge_down mrg acc ps) (mrg p)"
  by (induction ps arbitrary: acc) (simp_all add: and_then_assoc, metis and_then_assoc result.exhaust and_then.simps)

lemma acc_for_Nil [simp]: "acc_for [] = None"
  by (simp add: acc_for_def)

lemma acc_for_Cons:
  "acc_for (d # ds) =
     Some (case acc_for ds of
        None \<Rightarrow> Ok d
      | Some acc \<Rightarrow> and_then acc (\<lambda>a.
          case merge_with_previous_delta a d of (_, Err _) \<Rightarrow> Err () | (a', Ok _) \<Rightarrow> Ok a' | (_, Panic) \<Rightarrow> Panic))"
proof (cases "rev ds")
  case (Cons newest older)
  show ?thesis
  proof (cases "merge_down op_create_merged_delta newest older")
    case (Ok a)
    with Cons show ?thesis
      by (cases "op_create_merged_delta d a") (simp_all add: acc_for_def merge_down_snoc merge_with_previous_delta_def)
  qed (use Cons in \<open>simp_all add: acc_for_def merge_down_snoc\<close>)
qed (simp add: acc_for_def)

lemma merge_down_no_panic:
  assumes "\<And>d. d \<in> set (newest # older) \<Longrightarrow> wf_op m d"
  shows "merge_down op_create_merged_delta newest older \<noteq> Panic"
  using assms
proof (induction older arbitrary: newest)
  case (Cons p ps)
  have "wf_op m p" "wf_op m newest" using Cons.prems by simp_all
  then show ?case
  proof (cases rule: op_create_merged_delta_cases)
    case (Merged d)
    have "merge_down op_create_merged_delta d ps \<noteq> Panic"
      by (rule Cons.IH) (use Merged(2) Cons.prems in auto)
    with Merged show ?thesis by simp
  qed simp
qed simp

lemma op_apply_to_no_panic:
  assumes "wf_op m d" shows "op_apply_to d b \<noteq> Panic"
proof -
  from assms have wf: "wf_history (op_history d) m" "achieved (op_update d) (op_history d)"
    and "op_max_value d = m" by (auto simp: wf_op_def)
  then show ?thesis
    by (cases rule: merge_data_and_delta_cases [OF wf, of b]) (auto simp: op_apply_to_def)
qed

lemma accumulator_exact:
  assumes "acc_for ds = Some acc" and "\<forall>d \<in> set ds. wf_op m d"
  shows "acc \<noteq> Panic" and "acc = Ok d \<Longrightarrow> wf_op m d"
    and "unat b \<le> unat m \<Longrightarrow>
      ok_opt (and_then acc (\<lambda>d. map_err (\<lambda>_. ()) (op_apply_to d b))) = ok_opt (apply_seq op_apply_to ds b)"
proof -
  from assms(1) obtain newest older where ds: "rev ds = newest # older"
    and acc: "acc = map_err (\<lambda>_. ()) (merge_down op_create_merged_delta newest older)"
    by (cases "rev ds") (auto simp: acc_for_def)
  from ds have ds': "ds = rev older @ [newest]" by (metis rev.simps(2) rev_rev_ident)
  have wf: "wf_op m d" if "d \<in> set (newest # older)" for d using that assms(2) ds' by auto
  show "acc \<noteq> Panic" using merge_down_no_panic [of newest older m, OF wf] by (simp add: acc result_simps)
  show "wf_op m d" if "acc = Ok d"
  proof -
    from that have "merge_down op_create_merged_delta newest older = Ok d" by (simp add: acc result_simps)
    then show ?thesis
      using wf
    proof (induction older arbitrary: newest)
      case (Cons p ps)
      then obtain a where a: "op_create_merged_delta p newest = Ok a" "merge_down op_create_merged_delta a ps = Ok d"
        by (auto simp: result_simps)
      moreover have "wf_op m a" using dop.merge_wf [of m p newest a] a(1) Cons.prems(2) by simp
      ultimately show ?case using Cons by auto
    qed simp
  qed
  show "ok_opt (and_then acc (\<lambda>d. map_err (\<lambda>_. ()) (op_apply_to d b))) = ok_opt (apply_seq op_apply_to ds b)"
    if "unat b \<le> unat m"
    unfolding acc ds' by (rule dop.merge_down_exact [OF wf that])
qed

lemma apply_accumulator_exact:
  assumes "acc_for ds = Some acc" and "\<forall>d \<in> set ds. wf_op m d" and "unat b \<le> unat m"
  shows "apply_accumulator acc b =
    (case ok_opt (apply_seq op_apply_to ds b) of Some v \<Rightarrow> Ok (Resolved v) | None \<Rightarrow> Err DeltaApplicationFailure)"
proof -
  note exact = accumulator_exact(3) [OF assms]
  show ?thesis
  proof (cases acc)
    case (Ok d)
    then have wf: "wf_op m d" by (rule accumulator_exact(2) [OF assms(1,2)])
    with Ok exact op_apply_to_no_panic [OF wf, of b] show ?thesis
      by (cases "op_apply_to d b") (auto simp: apply_accumulator_def simp flip: exact)
  next
    case (Err e)
    with exact show ?thesis by (simp add: apply_accumulator_def flip: exact)
  next
    case Panic
    with accumulator_exact(1) [OF assms(1,2)] show ?thesis by simp
  qed
qed

lemma fold_number:
  "\<forall>d \<in> set ds. wf_op m d \<Longrightarrow>
   fold (apply_delta W) ds (Number b) = (case ok_opt (apply_seq op_apply_to ds b) of Some v \<Rightarrow> Number v | None \<Rightarrow> Failed)"
proof (induction ds arbitrary: b)
  case (Cons d ds)
  have failed: "fold (apply_delta W) ds Failed = Failed" by (induction ds) simp_all
  from Cons show ?case by (cases "op_apply_to d b") (simp_all add: failed)
qed simp

lemma fold_pending: "fold (apply_delta W) ds (Pending es) = Pending (es @ ds)"
  by (induction ds arbitrary: es) simp_all

lemma fold_deleted: "as_u128 W (value_of data) = Ok None \<Longrightarrow> fold (apply_delta W) ds (Holds ver data) = Holds ver data"
  by (induction ds) simp_all

lemma fold_held:
  "as_u128 W (value_of data) = Ok (Some b) \<Longrightarrow> ds \<noteq> [] \<Longrightarrow> fold (apply_delta W) ds (Holds ver data) = fold (apply_delta W) ds (Number b)"
  by (cases ds) simp_all

lemma replay_snoc [simp]: "replay W (es @ [e]) = take_effect W e (replay W es)"
  by (simp add: replay_def)

lemma shortcuts_prefix: "shortcuts_ok W (es @ [e]) \<Longrightarrow> shortcuts_ok W es"
  unfolding shortcuts_ok_def by (metis append.assoc append_Cons)

lemma shortcut_last: "shortcuts_ok W (es @ [(idx, entry)]) \<Longrightarrow> cell entry = Delta d (Some v) \<Longrightarrow> replay W (es @ [(idx, entry)]) = Number v"
  unfolding shortcuts_ok_def by blast

lemma replay_number_le:
  assumes "\<forall>(idx, entry) \<in> set es. entry_ok W m entry" and "replay W es = Number v"
  shows "unat v \<le> unat m"
  using assms
proof (induction es arbitrary: v rule: rev_induct)
  case Nil
  then show ?case by (simp add: replay_def)
next
  case (snoc e es)
  obtain idx entry where e: "e = (idx, entry)" by (cases e)
  show ?case
  proof (cases "cell entry")
    case (Write i data)
    with snoc.prems(2) show ?thesis by (simp add: e)
  next
    case (Delta d sc)
    then have wf: "wf_op m d" using snoc.prems(1) by (simp add: e entry_ok_def)
    have held: "number_ok W m data" if "replay W es = Holds ver data" for ver data
      using that snoc.prems(1)
    proof (induction es rule: rev_induct)
      case (snoc e' es')
      obtain idx' entry' where e': "e' = (idx', entry')" by (cases e')
      from snoc show ?case
        by (cases "cell entry'"; cases "replay W es'")
          (auto simp: e' entry_ok_def split: result.splits option.splits)
    qed (simp add: replay_def)
    have step: "unat v \<le> unat m" if "op_apply_to d b = Ok v" "unat b \<le> unat m" for b
      using dop.app_range [OF wf that(2,1)] .
    have "\<forall>(idx, entry) \<in> set es. entry_ok W m entry" using snoc.prems(1) by simp
    note bound = snoc.IH [OF this]
    show ?thesis
    proof (cases "replay W es")
      case (Holds ver data)
      with held [OF Holds] snoc.prems(2) Delta step show ?thesis
        by (auto simp: e number_ok_def split: result.splits option.splits)
    next
      case (Number b)
      with bound [OF Number] snoc.prems(2) Delta step show ?thesis
        by (auto simp: e split: result.splits)
    qed (use snoc.prems(2) Delta in \<open>simp_all add: e\<close>)
  qed
qed

lemma read_loop_observed:
  assumes "\<forall>(idx, entry) \<in> set rs. entry_ok W m entry" and "settled rs" and "shortcuts_ok W (rev rs)"
    and "\<forall>d \<in> set ds. wf_op m d"
  shows "observed m (fold (apply_delta W) ds (replay W (rev rs))) (read_loop W rs (acc_for ds))"
  using assms
proof (induction rs arbitrary: ds)
  case Nil
  show ?case (is "observed m ?loc _")
  proof (cases "acc_for ds")
    case None
    then have "ds = []" by (cases ds) (simp_all add: acc_for_Cons)
    then show ?thesis by (simp add: replay_def observed_def)
  next
    case (Some acc)
    then obtain d0 ds0 where "ds = d0 # ds0" by (cases ds) simp_all
    then have "?loc = Pending ds" by (simp add: replay_def fold_pending)
    moreover note exact = accumulator_exact [OF Some Nil.prems(4)]
    ultimately show ?thesis using Some exact(1) exact(3)
      by (cases acc) (auto simp: observed_def)
  qed
next
  case (Cons e rs)
  obtain idx entry where e: "e = (idx, entry)" by (cases e)
  have ok: "entry_ok W m entry" "flag entry = Done" using Cons.prems(1,2) by (simp_all add: e settled_def)
  have rest: "\<forall>(idx, entry) \<in> set rs. entry_ok W m entry" "settled rs" "shortcuts_ok W (rev rs)"
    using Cons.prems(1-3) shortcuts_prefix by (auto simp: settled_def)
  show ?case
  proof (cases "cell entry")
    case (Write i data)
    let ?ver = "map_option (\<lambda>idx. (idx, i)) (shifted_idx idx)"
    from ok(1) Write have num: "number_ok W m data" by (simp add: entry_ok_def)
    show ?thesis
    proof (cases "acc_for ds")
      case None
      then have "ds = []" by (cases ds) (simp_all add: acc_for_Cons)
      with Write ok(2) show ?thesis by (simp add: e observed_def)
    next
      case (Some acc)
      then have ne: "ds \<noteq> []" by auto
      have ex: "extract_value_no_layout data = (Ok (value_of data) :: (_, mv_data_error) result)"
        using num by (cases data rule: extract_value_no_layout.cases) (simp_all add: number_ok_def)
      from num consider "as_u128 W (value_of data) = Ok None"
        | b where "as_u128 W (value_of data) = Ok (Some b)" "unat b \<le> unat m" by (auto simp: number_ok_def)
      then show ?thesis
      proof cases
        case 1
        with Write ok(2) Some ex show ?thesis by (simp add: e observed_def fold_deleted)
      next
        case 2
        with Write ok(2) Some ex ne show ?thesis
          by (simp add: e fold_held fold_number [OF Cons.prems(4)] apply_accumulator_exact [OF Some Cons.prems(4)]
              observed_def split: option.split)
      qed
    qed
  next
    case (Delta d sc)
    with ok(1) have wf: "wf_op m d" by (simp add: entry_ok_def)
    show ?thesis
    proof (cases sc)
      case None
      have "\<forall>d' \<in> set (d # ds). wf_op m d'" using wf Cons.prems(4) by simp
      from Cons.IH [OF rest this] show ?thesis
        using Delta None ok(2) by (cases "acc_for ds") (simp_all add: e acc_for_Cons)
    next
      case (Some v)
      have loc: "replay W (rev rs @ [(idx, entry)]) = Number v"
        by (rule shortcut_last [of W "rev rs" idx entry d v]) (use Cons.prems(3) Delta Some in \<open>simp_all add: e\<close>)
      have "unat v \<le> unat m"
        by (rule replay_number_le [of "rev rs @ [(idx, entry)]" W m v]) (use Cons.prems(1) loc in \<open>auto simp: e\<close>)
      note exact = apply_accumulator_exact [OF _ Cons.prems(4) this]
      have loc': "fold (apply_delta W) ds (replay W (rev (e # rs))) = fold (apply_delta W) ds (Number v)"
        using loc by (simp add: e)
      show ?thesis
      proof (cases "acc_for ds")
        case None
        then have "ds = []" by (cases ds) (simp_all add: acc_for_Cons)
        with Delta Some ok(2) loc' show ?thesis by (simp add: e observed_def)
      next
        case (Some acc)
        with Delta \<open>sc = Some v\<close> ok(2) show ?thesis
          unfolding loc' fold_number [OF Cons.prems(4)]
          by (simp add: e observed_def exact [OF Some] split: option.split)
      qed
    qed
  qed
qed

text \<open>The entries a reader of index \<open>txn_idx\<close> looks at: those of the transactions before it and of the storage.\<close>

definition below :: "txn_index \<Rightarrow> ('v, 'l) versioned_value \<Rightarrow> ('v, 'l) versioned_value" where
  "below txn_idx es = filter (\<lambda>(idx, _). idx \<le> txn_idx) es"

definition last_index :: txn_index where
  "last_index = - 1"

lemma unat_last_index: "unat last_index = 2 ^ 32 - 1"
  by (simp add: last_index_def unsigned_minus_1_eq_mask mask_eq_exp_minus_1)

lemma below_last: "txn_idx \<noteq> last_index \<Longrightarrow> unat txn_idx + 1 < 2 ^ 32"
proof -
  assume "txn_idx \<noteq> last_index"
  then have "unat txn_idx \<noteq> unat last_index" using unsigned_word_eqI by blast
  moreover have "unat last_index = 2 ^ 32 - 1" by (rule unat_last_index)
  moreover have "unat txn_idx < 2 ^ 32" using unsigned_less [of txn_idx] by simp
  ultimately show ?thesis by linarith
qed

lemma shifted_new_Ok: "txn_idx \<noteq> last_index \<Longrightarrow> shifted_new txn_idx = Ok (txn_idx + 1)"
  using below_last [of txn_idx] by (simp add: shifted_new_def add_p_def checked_add_def)

lemma shifted_new_last: "shifted_new last_index = Panic"
  by (simp add: shifted_new_def add_p_def checked_add_def unat_last_index)

lemma less_suc: "txn_idx \<noteq> last_index \<Longrightarrow> idx < txn_idx + 1 \<longleftrightarrow> idx \<le> txn_idx" for idx :: u32
proof -
  assume "txn_idx \<noteq> last_index"
  from below_last [OF this] have "unat (txn_idx + 1) = unat txn_idx + 1"
    using unat_add_lem [of txn_idx 1] by simp
  then show ?thesis by (auto simp: word_less_nat_alt word_le_nat_alt)
qed

lemma mvv_read_below:
  "txn_idx \<noteq> last_index \<Longrightarrow> mvv_read W v txn_idx = read_loop W (rev (below txn_idx v)) None"
  by (simp add: mvv_read_def shifted_new_Ok below_def less_suc)

lemma read_plain:
  assumes "no_deltas es" and "settled es"
  shows "observed m (replay W es) (read_loop W (rev es) None)"
proof (cases es rule: rev_cases)
  case Nil
  then show ?thesis by (simp add: replay_def observed_def)
next
  case (snoc es' e)
  with assms show ?thesis by (cases e) (auto simp: no_deltas_def settled_def observed_def)
qed

text \<open>
  \<^bold>\<open>C32.\<close> A read in parallel execution observes the sequential result. For a transaction whose predecessors'
  entries carry no estimate, fetching a key returns what the location holds after the writes and deltas of the storage
  and of the predecessors took effect one after the other: the last write with its version, the number the deltas add
  up to, a failure if one of the deltas fails, or, while the storage value is missing, one delta that acts like all of
  them. Values recorded as shortcuts do not change that.
\<close>

theorem read_is_sequential:
  assumes "mv_values self key = Some v" and "txn_idx \<noteq> last_index" and "settled (below txn_idx v)"
    and "entries_ok W m (below txn_idx v)" and "shortcuts_ok W (below txn_idx v)"
  shows "observed m (replay W (below txn_idx v)) (fetch_data W self key txn_idx)"
proof -
  have "observed m (replay W (below txn_idx v)) (read_loop W (rev (below txn_idx v)) None)"
  proof (cases "no_deltas (below txn_idx v)")
    case True
    then show ?thesis using assms(3) by (rule read_plain)
  next
    case False
    with assms(3-5) show ?thesis
      using read_loop_observed [of "rev (below txn_idx v)" W m "[]"] by (simp add: entries_ok_def settled_def)
  qed
  with assms(1,2) show ?thesis by (simp add: fetch_data_def mvv_read_below)
qed

section \<open>Shortcuts\<close>

lemma replay_append: "replay W (es @ fs) = fold (take_effect W) fs (replay W es)"
  by (simp add: replay_def)

text \<open>An entry takes effect the same way whatever its shortcut.\<close>

lemma take_effect_shortcut: "cell e = Delta d sc \<Longrightarrow> cell e' = Delta d sc' \<Longrightarrow> take_effect W (idx, e) = take_effect W (idx, e')"
  by (rule ext) simp

lemma observed_unique:
  "observed m loc r \<Longrightarrow> observed m loc r' \<Longrightarrow> (\<And>ds. loc \<noteq> Pending ds) \<Longrightarrow> r = r'"
  by (cases loc) (auto simp: observed_def)

lemma fold_number_not_pending: "\<forall>d \<in> set ds. wf_op m d \<Longrightarrow> fold (apply_delta W) ds (Number v) \<noteq> Pending es"
  by (simp add: fold_number split: option.split)

lemma read_loop_shortcut:
  assumes "\<forall>(idx, entry) \<in> set ((idx, e) # rs). entry_ok W m entry" and "settled ((idx, e) # rs)"
    and "shortcuts_ok W (rev rs @ [(idx, e)])"
    and "cell e = Delta d sc" and "replay W (rev rs @ [(idx, e)]) = Number v" and "e' = e\<lparr>cell := Delta d (Some v)\<rparr>"
    and "\<forall>(idx, entry) \<in> set ups. entry_ok W m entry" and "\<forall>d \<in> set ds. wf_op m d"
  shows "read_loop W (ups @ (idx, e') # rs) (acc_for ds) = read_loop W (ups @ (idx, e) # rs) (acc_for ds)"
  using assms(7,8)
proof (induction ups arbitrary: ds)
  case Nil
  have e': "cell e' = Delta d (Some v)" "flag e' = flag e" using assms(6) by simp_all
  have same: "replay W (rev rs @ [(idx, e')]) = Number v"
    using assms(5) take_effect_shortcut [OF e'(1) assms(4)] by simp
  have sc: "shortcuts_ok W (rev ((idx, e') # rs))"
    unfolding shortcuts_ok_def
  proof (intro allI impI, elim conjE)
    fix older idx0 entry newer d0 v0
    assume split: "rev ((idx, e') # rs) = older @ (idx0, entry) # newer" and cell: "cell entry = Delta d0 (Some v0)"
    show "replay W (older @ [(idx0, entry)]) = Number v0"
    proof (cases newer rule: rev_cases)
      case Nil
      with split cell e'(1) same show ?thesis by simp
    next
      case (snoc newer' last)
      with split have "rev rs @ [(idx, e)] = older @ (idx0, entry) # (newer' @ [(idx, e)])" by simp
      with assms(3) cell show ?thesis unfolding shortcuts_ok_def by blast
    qed
  qed
  have "observed m (fold (apply_delta W) ds (replay W (rev ((idx, e') # rs)))) (read_loop W ((idx, e') # rs) (acc_for ds))"
    by (rule read_loop_observed [OF _ _ sc Nil.prems(2)]) (use assms(1,2,4) e' in \<open>auto simp: entry_ok_def settled_def\<close>)
  moreover have "observed m (fold (apply_delta W) ds (replay W (rev ((idx, e) # rs)))) (read_loop W ((idx, e) # rs) (acc_for ds))"
    by (rule read_loop_observed [OF assms(1,2) _ Nil.prems(2)]) (use assms(3) in simp)
  ultimately have "observed m (fold (apply_delta W) ds (Number v)) (read_loop W ((idx, e') # rs) (acc_for ds))"
    "observed m (fold (apply_delta W) ds (Number v)) (read_loop W ((idx, e) # rs) (acc_for ds))"
    using same assms(5) by simp_all
  then have "read_loop W ((idx, e') # rs) (acc_for ds) = read_loop W ((idx, e) # rs) (acc_for ds)"
    by (rule observed_unique) (rule fold_number_not_pending [OF Nil.prems(2)])
  then show ?case by (simp only: append_Nil)
next
  case (Cons a ups)
  obtain i0 e0 where a: "a = (i0, e0)" by (cases a)
  have rest: "\<forall>(idx, entry) \<in> set ups. entry_ok W m entry" using Cons.prems(1) by simp
  show ?case
  proof (cases "cell e0")
    case (Write i data)
    then show ?thesis by (simp add: a split: option.split)
  next
    case (Delta d0 sc0)
    then have wf: "\<forall>d \<in> set (d0 # ds). wf_op m d" using Cons.prems by (simp add: a entry_ok_def)
    from Cons.IH [OF rest wf] Delta show ?thesis
      by (cases sc0; cases "acc_for ds") (simp_all add: a acc_for_Cons)
  qed
qed

lemma btree_insert_replace: "btree (xs @ (k, e) # ys) \<Longrightarrow> btree_insert k e' (xs @ (k, e) # ys) = xs @ (k, e') # ys"
proof (induction xs)
  case (Cons x xs)
  obtain k0 e0 where x: "x = (k0, e0)" by (cases x)
  have "k0 < k" "btree (xs @ (k, e) # ys)" using Cons.prems by (auto simp: x btree_def)
  with Cons.IH show ?case by (auto simp: x)
qed simp

lemma btree_middle:
  assumes "btree (xs @ (k, e) # ys)"
  shows "(idx, entry) \<in> set xs \<Longrightarrow> idx < k" and "(idx, entry) \<in> set ys \<Longrightarrow> k < idx"
  using assms by (force simp: btree_def sorted_wrt_append)+

lemma materialize_delta_Ok:
  assumes "materialize_delta W self key txn_idx = (Ok (Ok value, self') :: (_, unit) result)" and "mv_values self key = Some v"
  obtains e d sc old ups where "txn_idx + 1 \<noteq> last_index" and "mvv_read W v (txn_idx + 1) = Ok (Resolved value)"
    and "v = old @ (txn_idx + 1, e) # ups" and "cell e = Delta d sc"
    and "self' = put_value self key (btree_insert (txn_idx + 1) (e\<lparr>cell := Delta d (Some value)\<rparr>) v)"
proof -
  have idx: "txn_idx \<noteq> last_index"
  proof
    assume "txn_idx = last_index"
    moreover have "(add_p last_index 1 :: (_, unit) result) = Panic" using shifted_new_last by (simp add: shifted_new_def)
    ultimately show False using assms by (simp add: materialize_delta_def)
  qed
  then have run: "(case mvv_read W v (txn_idx + 1) of
      Ok (Resolved value) \<Rightarrow>
        and_then (unwrap_some (map_of v (txn_idx + 1))) (\<lambda>entry.
        and_then (record_delta_shortcut entry value) (\<lambda>entry.
        Ok (Ok value, put_value self key (btree_insert (txn_idx + 1) entry v))))
    | Err (Unresolved op) \<Rightarrow> Ok (Err op, self)
    | _ \<Rightarrow> Panic) = (Ok (Ok value, self') :: (_, unit) result)"
    using assms shifted_new_Ok [OF idx, where 'a = unit] by (simp add: materialize_delta_def shifted_new_def cong: result.case_cong mv_data_output.case_cong)
  then obtain e e' where read: "mvv_read W v (txn_idx + 1) = Ok (Resolved value)" and e: "map_of v (txn_idx + 1) = Some e"
    and e': "record_delta_shortcut e value = (Ok e' :: (_, unit) result)"
    and self': "self' = put_value self key (btree_insert (txn_idx + 1) e' v)"
    by (cases "mvv_read W v (txn_idx + 1)")
      (auto simp: result_simps split: mv_data_output.splits mv_data_error.splits)
  from e' obtain d sc where cell: "cell e = Delta d sc" "e' = e\<lparr>cell := Delta d (Some value)\<rparr>"
    by (auto simp: record_delta_shortcut_def result_simps split: entry_cell.splits)
  have "txn_idx + 1 \<noteq> last_index" using read by (auto simp: mvv_read_def shifted_new_last)
  moreover obtain old ups where "v = old @ (txn_idx + 1, e) # ups" using e by (metis map_of_SomeD split_list)
  ultimately show thesis using that read cell self' by blast
qed

lemma below_middle:
  assumes "btree (old @ (i, e) # ups)"
  shows "i \<le> j \<Longrightarrow> below j (old @ (i, e') # ups) = old @ (i, e') # below j ups"
    and "j < i \<Longrightarrow> below j (old @ (i, e') # ups) = below j old" and "below i ups = []"
proof -
  note order = btree_middle [OF assms]
  show "below j (old @ (i, e') # ups) = old @ (i, e') # below j ups" if "i \<le> j"
    using that order(1) by (auto simp: below_def filter_id_conv dest!: order(1))
  show "below j (old @ (i, e') # ups) = below j old" if "j < i"
    using that by (auto simp: below_def filter_empty_conv dest!: order(2))
  show "below i ups = []" by (auto simp: below_def filter_empty_conv dest!: order(2))
qed

lemma shortcut_keeps_reads:
  assumes "btree v" and "v = old @ (i, e) # ups" and "\<forall>(idx, entry) \<in> set v. entry_ok W m entry"
    and "settled (old @ [(i, e)])" and "shortcuts_ok W (old @ [(i, e)])" and "cell e = Delta d sc"
    and "replay W (old @ [(i, e)]) = Number value"
  shows "mvv_read W (btree_insert i (e\<lparr>cell := Delta d (Some value)\<rparr>) v) j = mvv_read W v j"
proof (cases "j = last_index")
  case True
  then show ?thesis by (simp add: mvv_read_def shifted_new_last)
next
  case False
  let ?e' = "e\<lparr>cell := Delta d (Some value)\<rparr>"
  note mid = below_middle [OF assms(1) [unfolded assms(2)]]
  have v': "btree_insert i ?e' v = old @ (i, ?e') # ups"
    unfolding assms(2) by (rule btree_insert_replace) (use assms(1,2) in simp)
  show ?thesis
  proof (cases "i \<le> j")
    case True
    have "read_loop W (rev (below j ups) @ (i, ?e') # rev old) (acc_for []) =
      read_loop W (rev (below j ups) @ (i, e) # rev old) (acc_for [])"
      by (rule read_loop_shortcut [OF _ _ _ assms(6) _ refl])
        (use assms(2-5,7) in \<open>auto simp: below_def settled_def\<close>)
    with True False show ?thesis
      unfolding v' by (simp add: mvv_read_below mid(1) assms(2))
  next
    case j: False
    with False show ?thesis unfolding v' by (simp add: mvv_read_below mid(2) assms(2))
  qed
qed

text \<open>
  \<^bold>\<open>C33.\<close> Recording a shortcut at commit does not change what transactions read. When \<open>materialize_delta\<close> returns a
  value for the delta of a transaction whose predecessors are settled, that value is what the next transaction reads,
  and every transaction reads from the map as it would have before, the later ones included, whether or not their
  predecessors have finished.
\<close>

theorem materialize_delta_transparent:
  assumes "materialize_delta W self key txn_idx = (Ok (Ok value, self') :: (_, unit) result)"
    and "mv_values self key = Some v" and "btree v" and "\<forall>(idx, entry) \<in> set v. entry_ok W m entry"
    and "settled (below (txn_idx + 1) v)" and "shortcuts_ok W (below (txn_idx + 1) v)"
  shows "fetch_data W self' key (txn_idx + 1) = Ok (Resolved value) \<and> fetch_data W self' k j = fetch_data W self k j"
proof -
  from assms(1,2) obtain e d sc old ups where idx: "txn_idx + 1 \<noteq> last_index"
    and read: "mvv_read W v (txn_idx + 1) = Ok (Resolved value)"
    and v: "v = old @ (txn_idx + 1, e) # ups" and cell: "cell e = Delta d sc"
    and self': "self' = put_value self key (btree_insert (txn_idx + 1) (e\<lparr>cell := Delta d (Some value)\<rparr>) v)"
    by (rule materialize_delta_Ok)
  have at: "below (txn_idx + 1) v = old @ [(txn_idx + 1, e)]"
    using below_middle(1) [OF assms(3) [unfolded v], of "txn_idx + 1"] below_middle(3) [OF assms(3) [unfolded v]] by (simp add: v)
  have "observed m (replay W (below (txn_idx + 1) v)) (read_loop W (rev (below (txn_idx + 1) v)) None)"
    using read_loop_observed [of "rev (below (txn_idx + 1) v)" W m "[]"] assms(4-6)
    by (auto simp: settled_def below_def)
  then have now: "replay W (old @ [(txn_idx + 1, e)]) = Number value"
    using read idx by (cases "replay W (old @ [(txn_idx + 1, e)])")
      (auto simp: at mvv_read_below observed_def split: result.splits)
  have "mvv_read W (btree_insert (txn_idx + 1) (e\<lparr>cell := Delta d (Some value)\<rparr>) v) j = mvv_read W v j" for j
    by (rule shortcut_keeps_reads [OF assms(3) v assms(4) _ _ cell now]) (use assms(5,6) at in simp_all)
  then have same: "fetch_data W self' k j = fetch_data W self k j" for k j
    using assms(2) by (simp add: fetch_data_def self' put_value_def)
  then show ?thesis using read assms(2) by (simp add: fetch_data_def)
qed

section \<open>Estimates\<close>

text \<open>
  An estimate marks a write of an aborted incarnation: the next one may write the key again or leave it out. \<open>revised\<close>
  relates the entries of a key, the newest first, to those after such a re-execution.
\<close>

inductive revised :: "('v, 'l) versioned_value \<Rightarrow> ('v, 'l) versioned_value \<Rightarrow> bool" where
  none: "revised [] []"
| keep: "revised rs rs' \<Longrightarrow> revised (e # rs) (e # rs')"
| drop: "flag e = Estimate \<Longrightarrow> revised rs rs' \<Longrightarrow> revised ((idx, e) # rs) rs'"
| rewrite: "flag e = Estimate \<Longrightarrow> revised rs rs' \<Longrightarrow> revised ((idx, e) # rs) ((idx, e') # rs')"

definition found_dependency :: "(('v, 'l) mv_data_output, mv_data_error) result \<Rightarrow> bool" where
  "found_dependency r \<longleftrightarrow> (\<exists>i. r = Err (Dependency i)) \<or> r = Panic"

lemma read_loop_revised:
  "revised rs rs' \<Longrightarrow> \<not> found_dependency (read_loop W rs acc) \<Longrightarrow> read_loop W rs' acc = read_loop W rs acc"
proof (induction arbitrary: acc rule: revised.induct)
  case (keep rs rs' e)
  obtain idx entry where e: "e = (idx, entry)" by (cases e)
  from keep show ?case
    by (auto simp: e split: entry_cell.splits option.splits)
qed (auto simp: found_dependency_def split: option.splits)

definition revision :: "('v, 'l) versioned_value \<Rightarrow> ('v, 'l) versioned_value \<Rightarrow> bool" where
  "revision v v' \<longleftrightarrow> (\<forall>idx. (map_of v idx = None \<longrightarrow> map_of v' idx = None) \<and>
     (\<forall>e. map_of v idx = Some e \<and> flag e = Done \<longrightarrow> map_of v' idx = Some e))"

lemma revision_tail:
  assumes "revision ((i, e) # rs) rs'" and "map_of rs i = None" and "map_of rest i = None"
    and "\<And>k. k \<noteq> i \<Longrightarrow> map_of rest k = map_of rs' k"
  shows "revision rs rest"
  unfolding revision_def
proof (intro allI)
  fix k
  show "(map_of rs k = None \<longrightarrow> map_of rest k = None) \<and>
    (\<forall>e. map_of rs k = Some e \<and> flag e = Done \<longrightarrow> map_of rest k = Some e)"
    using assms by (cases "k = i") (simp_all add: revision_def)
qed

lemma revised_descending:
  assumes "sorted_wrt (>) (map fst rs)" and "sorted_wrt (>) (map fst rs')" and "revision rs rs'"
  shows "revised rs rs'"
  using assms
proof (induction rs arbitrary: rs')
  case Nil
  then have "map_of rs' idx = None" for idx by (simp add: revision_def)
  then have "fst ` set rs' = {}" by (metis all_not_in_conv map_of_eq_None_iff)
  then show ?case by (simp add: revised.none)
next
  case (Cons x rs)
  obtain i e where x: "x = (i, e)" by (cases x)
  have below: "\<forall>k \<in> fst ` set rs. k < i" and sorted: "sorted_wrt (>) (map fst rs)" using Cons.prems(1) by (auto simp: x)
  have keys: "k = i \<or> k < i" if "k \<in> fst ` set rs'" for k
  proof -
    have "map_of (x # rs) k \<noteq> None" using that Cons.prems(3) by (metis map_of_eq_None_iff revision_def)
    then show ?thesis using below by (auto simp: x split: if_splits dest!: map_of_SomeD)
  qed
  have absent: "map_of rs i = None" using below by (auto simp: map_of_eq_None_iff)
  show ?case
  proof (cases "map_of rs' i")
    case None
    then have "flag e = Estimate" using Cons.prems(3) by (cases "flag e") (auto simp: revision_def x)
    moreover have "revision rs rs'" by (rule revision_tail [OF Cons.prems(3) [unfolded x] absent None refl])
    ultimately show ?thesis using Cons.IH [OF sorted Cons.prems(2)] by (simp add: x revised.drop)
  next
    case (Some e')
    then obtain y rest where rs': "rs' = y # rest" by (cases rs') auto
    have rest: "\<forall>k \<in> fst ` set rest. k < fst y" "sorted_wrt (>) (map fst rest)" using Cons.prems(2) by (auto simp: rs')
    have "i \<in> fst ` set rs'" using Some by (force dest: map_of_SomeD)
    then have "fst y = i" using keys [of "fst y"] rest(1) by (auto simp: rs')
    then have y: "y = (i, e')" using Some by (cases y) (simp add: rs')
    have none: "map_of rest i = None" using rest(1) by (auto simp: y map_of_eq_None_iff)
    have "revision rs rest" by (rule revision_tail [OF Cons.prems(3) [unfolded x] absent none]) (simp add: rs' y)
    from Cons.IH [OF sorted rest(2) this] have IH: "revised rs rest" .
    show ?thesis
    proof (cases "flag e")
      case Done
      with Cons.prems(3) Some have "e' = e" by (auto simp: revision_def x)
      with IH show ?thesis by (simp add: x rs' y revised.keep)
    next
      case Estimate
      with IH show ?thesis by (simp add: x rs' y revised.rewrite)
    qed
  qed
qed

text \<open>
  \<^bold>\<open>C34.\<close> A read that meets no estimate does not depend on the transactions that are to be executed again. If a
  key is revised, so that finished entries stay, marked entries are replaced or removed and no other entry appears, a
  read that found no dependency returns the same result after the revision.
\<close>

theorem read_ignores_estimates:
  assumes "mv_values self key = Some v" and "mv_values self' key = Some v'" and "btree v" and "btree v'"
    and "revision v v'" and "\<not> found_dependency (fetch_data W self key txn_idx)"
  shows "fetch_data W self' key txn_idx = fetch_data W self key txn_idx"
proof -
  have idx: "txn_idx \<noteq> last_index"
    using assms(1,6) by (auto simp: fetch_data_def mvv_read_def shifted_new_last found_dependency_def)
  have sorted: "sorted_wrt (>) (map fst (rev (below txn_idx u)))" if "btree u" for u :: "('a, 'b) versioned_value"
    using that by (simp add: btree_def below_def sorted_wrt_rev flip: rev_map) (simp add: sorted_wrt_map sorted_wrt_filter)
  have lookup: "map_of (rev (below txn_idx u)) i = (if i \<le> txn_idx then map_of u i else None)" if "btree u" for u :: "('a, 'b) versioned_value" and i
  proof -
    have "distinct (map fst (below txn_idx u))" using distinct_btree [OF that] by (simp add: below_def distinct_map_filter)
    then have "map_of (rev (below txn_idx u)) = map_of (below txn_idx u)"
      by (intro ext option.expand) (auto simp: map_of_eq_None_iff rev_map [symmetric] map_of_is_SomeI dom_map_of_conv_image_fst)
    moreover have "map_of (below txn_idx u) i = (if i \<le> txn_idx then map_of u i else None)"
      unfolding below_def by (induction u) auto
    ultimately show ?thesis by simp
  qed
  have "revision (rev (below txn_idx v)) (rev (below txn_idx v'))"
    using assms(5) by (simp add: revision_def lookup assms(3,4))
  from revised_descending [OF sorted [OF assms(3)] sorted [OF assms(4)] this]
  show ?thesis using assms(1,2,6) idx by (simp add: fetch_data_def mvv_read_below read_loop_revised)
qed

section \<open>A concrete map\<close>

text \<open>A counter of value 40 with limit 100; transaction 0 adds 30 and transaction 1 subtracts 50.\<close>

definition demo_writes :: "u8 list option transaction_write" where
  "demo_writes = \<lparr>bytes = id, bcs_u128 = \<lambda>bs. case bs of [b] \<Rightarrow> Some (ucast b) | _ \<Rightarrow> None\<rparr>"

definition demo_plus :: delta_op where
  "demo_plus = into_op_no_additional_history (dwm_new (Positive 30) 100)"

definition demo_minus :: delta_op where
  "demo_minus = into_op_no_additional_history (dwm_new (Negative 50) 100)"

definition demo_entries :: "(u8 list option, unit) versioned_value" where
  "demo_entries =
     [(0, new_write_from 0 (RawFromStorage (Some [40]))), (1, new_delta_from demo_plus), (2, new_delta_from demo_minus)]"

definition demo_map :: "(unit, u8 list option, unit) versioned_data" where
  "demo_map = put_value mvd_new () demo_entries"

lemma demo_apply: "op_apply_to demo_plus 40 = Ok 70" "op_apply_to demo_minus 70 = Ok 20"
  by (simp_all add: op_apply_to_def merge_data_and_delta_def validate_against_base_value_def demo_plus_def demo_minus_def
      into_op_no_additional_history_def op_new_def dwm_new_def delta_eval)

lemma demo_base: "as_u128 demo_writes (Some [40]) = Ok (Some 40)"
  by (simp add: as_u128_def demo_writes_def)

lemma demo_entries_ok: "\<forall>(idx, entry) \<in> set demo_entries. entry_ok demo_writes 100 entry"
proof -
  have "wf_op 100 demo_plus" "wf_op 100 demo_minus"
    by (simp_all add: demo_plus_def demo_minus_def wf_op_def into_op_no_additional_history_def op_new_def dwm_new_def
        wf_history_def achieved_def dh_new_def)
  then show ?thesis
    by (simp add: demo_entries_def entry_ok_def new_write_from_def new_delta_from_def number_ok_def demo_base)
qed

lemma demo_settled: "settled demo_entries" "btree demo_entries" "below 2 demo_entries = demo_entries"
  by (simp_all add: settled_def demo_entries_def new_write_from_def new_delta_from_def btree_def below_def)

lemma demo_no_shortcuts: "set es \<subseteq> set demo_entries \<Longrightarrow> shortcuts_ok demo_writes es"
  unfolding shortcuts_ok_def
proof (intro allI impI, elim conjE)
  fix older idx entry newer d v
  assume sub: "set es \<subseteq> set demo_entries" and "es = older @ (idx, entry) # newer" and cell: "cell entry = Delta d (Some v)"
  then have "(idx, entry) \<in> set demo_entries" by auto
  with cell show "replay demo_writes (older @ [(idx, entry)]) = Number v"
    by (auto simp: demo_entries_def new_write_from_def new_delta_from_def)
qed

lemma demo_replay: "replay demo_writes demo_entries = Number 20"
  by (simp add: replay_def demo_entries_def new_write_from_def new_delta_from_def demo_base demo_apply)

theorem read_is_sequential_witness: "fetch_data demo_writes demo_map () 2 = Ok (Resolved 20)"
proof -
  have "mv_values demo_map () = Some demo_entries" by (simp add: demo_map_def put_value_def)
  moreover have "2 \<noteq> last_index" by (simp add: last_index_def)
  ultimately have "observed 100 (replay demo_writes (below 2 demo_entries)) (fetch_data demo_writes demo_map () 2)"
    by (rule read_is_sequential)
      (use demo_settled demo_entries_ok demo_no_shortcuts in \<open>simp_all add: entries_ok_def\<close>)
  then show ?thesis by (simp add: demo_settled demo_replay observed_def)
qed

theorem materialize_delta_transparent_witness:
  "\<exists>demo_map'. materialize_delta demo_writes demo_map () 0 = (Ok (Ok 70, demo_map') :: (_, unit) result) \<and>
     demo_map' \<noteq> demo_map \<and> fetch_data demo_writes demo_map' () 1 = Ok (Resolved 70) \<and>
     fetch_data demo_writes demo_map' () 2 = fetch_data demo_writes demo_map () 2"
proof -
  let ?e = "\<lparr>cell = Delta demo_plus (Some 70), flag = Done\<rparr>"
  let ?map = "put_value demo_map () (btree_insert 1 ?e demo_entries)"
  have read: "mvv_read demo_writes demo_entries 1 = Ok (Resolved 70)"
    by (simp add: mvv_read_def shifted_new_def add_p_def checked_add_def demo_entries_def new_write_from_def new_delta_from_def
        demo_base demo_apply apply_accumulator_def)
  then have mat: "materialize_delta demo_writes demo_map () 0 = (Ok (Ok 70, ?map) :: (_, unit) result)"
    by (simp add: materialize_delta_def demo_map_def put_value_def shifted_new_def add_p_def checked_add_def)
      (simp add: demo_entries_def new_delta_from_def record_delta_shortcut_def)
  have "?map \<noteq> demo_map" by (simp add: demo_map_def put_value_def demo_entries_def new_delta_from_def mvd_new_def fun_eq_iff)
  moreover have "fetch_data demo_writes ?map () (0 + 1) = Ok (Resolved 70) \<and>
    fetch_data demo_writes ?map () 2 = fetch_data demo_writes demo_map () 2"
    by (rule materialize_delta_transparent [OF mat _ demo_settled(2) demo_entries_ok])
      (use demo_settled(1) in \<open>auto simp: demo_map_def put_value_def settled_def below_def intro!: demo_no_shortcuts\<close>)
  ultimately show ?thesis using mat by auto
qed

theorem read_ignores_estimates_witness:
  "let v = [(1, entry_mark_estimate (new_delta_from demo_plus)), (2, new_write_from 0 (Exchanged (Some [7]) None))];
       v' = [(2, new_write_from 0 (Exchanged (Some [7]) None))] in
     fetch_data demo_writes (put_value mvd_new () v' :: (unit, u8 list option, unit) versioned_data) () 5 =
       fetch_data demo_writes (put_value mvd_new () v) () 5"
proof -
  let ?v = "[(1, entry_mark_estimate (new_delta_from demo_plus)), (2, new_write_from 0 (Exchanged (Some [7]) None))]
    :: (u8 list option, unit) versioned_value"
  let ?v' = "[(2, new_write_from 0 (Exchanged (Some [7]) None))] :: (u8 list option, unit) versioned_value"
  have "fetch_data demo_writes (put_value mvd_new () ?v') () 5 = fetch_data demo_writes (put_value mvd_new () ?v) () 5"
  proof (rule read_ignores_estimates)
    show "revision ?v ?v'" by (auto simp: revision_def entry_mark_estimate_def new_delta_from_def)
    show "\<not> found_dependency (fetch_data demo_writes (put_value mvd_new () ?v) () 5)"
      by (simp add: fetch_data_def put_value_def mvv_read_def shifted_new_def add_p_def checked_add_def new_write_from_def
          found_dependency_def)
  qed (simp_all add: put_value_def btree_def)
  then show ?thesis by (simp add: Let_def)
qed

end
