(* ===== verification/Delayed_Changes.thy ===== *)
theory Delayed_Changes
  imports Delta_Change_Set
begin

text \<open>
  \<open>src/aptos-move/aptos-aggregator/src/delayed_change.rs\<close>: the change a transaction makes to a
  delayed field, its application to the field's base value, and the squashing of the changes of two
  consecutive change sets.
\<close>

section \<open>Model\<close>

datatype 'i delayed_apply_change =
  AggregatorDelta delta_with_max
| SnapshotDelta 'i delta_with_max
| SnapshotDerived 'i snapshot_to_string_formula

datatype 'i delayed_change = Create delayed_field_value | Apply "'i delayed_apply_change"

datatype 'i apply_base = Previous 'i | Current 'i

fun get_apply_base_id_option :: "'i delayed_apply_change \<Rightarrow> 'i apply_base option" where
  "get_apply_base_id_option (AggregatorDelta _) = None"
| "get_apply_base_id_option (SnapshotDelta base_aggregator _) = Some (Previous base_aggregator)"
| "get_apply_base_id_option (SnapshotDerived base_snapshot _) = Some (Current base_snapshot)"

definition get_apply_base_id :: "'i delayed_apply_change \<Rightarrow> 'i \<Rightarrow> 'i apply_base" where
  "get_apply_base_id self self_id =
     (case get_apply_base_id_option self of Some b \<Rightarrow> b | None \<Rightarrow> Previous self_id)"

fun apply_to_base ::
  "'i delayed_apply_change \<Rightarrow> delayed_field_value \<Rightarrow>
   (delayed_field_value, delayed_fields_speculative_error panic_or) result" where
  "apply_to_base (AggregatorDelta delta) base_value =
     and_then (lift_panic (into_aggregator_value base_value)) (\<lambda>v.
     map_ok Aggregator (lift_spec (dwm_apply_to delta v)))"
| "apply_to_base (SnapshotDelta _ delta) base_value =
     and_then (lift_panic (into_aggregator_value base_value)) (\<lambda>v.
     map_ok Snapshot (lift_spec (dwm_apply_to delta v)))"
| "apply_to_base (SnapshotDerived _ formula) base_value =
     and_then (lift_panic (into_snapshot_value base_value)) (\<lambda>v.
     Ok (Derived (formula_apply_to formula v)))"

fun get_merge_dependent_id :: "'i delayed_change \<Rightarrow> 'i option" where
  "get_merge_dependent_id (Apply (SnapshotDelta base_aggregator _)) = Some base_aggregator"
| "get_merge_dependent_id _ = None"

fun merge_two_changes ::
  "'i delayed_change option \<Rightarrow> 'i delayed_change \<Rightarrow>
   ('i delayed_change, delayed_fields_speculative_error panic_or) result" where
  "merge_two_changes None v = Ok v"
| "merge_two_changes _ (Create _) =
     Err (panic_or_from (code_invariant_error
       ''Trying to merge Create with an older change. Create should always be the first change.''))"
| "merge_two_changes (Some (Create (Aggregator prev_value))) (Apply (AggregatorDelta next_delta)) =
     map_ok (\<lambda>new_data. Create (Aggregator new_data)) (lift_spec (dwm_apply_to next_delta prev_value))"
| "merge_two_changes (Some (Apply (AggregatorDelta prev_delta))) (Apply (AggregatorDelta next_delta)) =
     map_ok (\<lambda>new_delta. Apply (AggregatorDelta new_delta))
       (dwm_create_merged_delta prev_delta next_delta)"
| "merge_two_changes (Some (Create (Aggregator prev_value))) (Apply (SnapshotDelta _ next_delta)) =
     map_ok (\<lambda>new_data. Create (Snapshot new_data)) (lift_spec (dwm_apply_to next_delta prev_value))"
| "merge_two_changes (Some (Apply (AggregatorDelta prev_delta)))
     (Apply (SnapshotDelta base_aggregator next_delta)) =
     map_ok (\<lambda>new_delta. Apply (SnapshotDelta base_aggregator new_delta))
       (dwm_create_merged_delta prev_delta next_delta)"
| "merge_two_changes (Some (Create (Aggregator _))) (Apply (SnapshotDerived _ _)) =
     Err (panic_or_from (code_invariant_error
       ''Trying to merge SnapshotDerived with an older change. Snapshots are immutable, should only ever have one change.''))"
| "merge_two_changes (Some (Apply (AggregatorDelta _))) (Apply (SnapshotDerived _ _)) =
     Err (panic_or_from (code_invariant_error
       ''Trying to merge SnapshotDerived with an older change. Snapshots are immutable, should only ever have one change.''))"
| "merge_two_changes _ _ =
     Err (panic_or_from (code_invariant_error
       ''Snapshots are immutable, previous change cannot be any of the snapshots type''))"

datatype 'i delayed_apply_entry =
  E_AggregatorDelta delta_op
| E_SnapshotDelta 'i delta_op
| E_SnapshotDerived 'i snapshot_to_string_formula

datatype 'i delayed_entry = E_Create delayed_field_value | E_Apply "'i delayed_apply_entry"

fun into_entry_no_additional_history :: "'i delayed_change \<Rightarrow> 'i delayed_entry" where
  "into_entry_no_additional_history (Create value) = E_Create value"
| "into_entry_no_additional_history (Apply (AggregatorDelta delta)) =
     E_Apply (E_AggregatorDelta (into_op_no_additional_history delta))"
| "into_entry_no_additional_history (Apply (SnapshotDelta base_aggregator delta)) =
     E_Apply (E_SnapshotDelta base_aggregator (into_op_no_additional_history delta))"
| "into_entry_no_additional_history (Apply (SnapshotDerived base_snapshot formula)) =
     E_Apply (E_SnapshotDerived base_snapshot formula)"

fun entry_get_apply_base_id_option :: "'i delayed_apply_entry \<Rightarrow> 'i apply_base option" where
  "entry_get_apply_base_id_option (E_AggregatorDelta _) = None"
| "entry_get_apply_base_id_option (E_SnapshotDelta base_aggregator _) = Some (Previous base_aggregator)"
| "entry_get_apply_base_id_option (E_SnapshotDerived base_snapshot _) = Some (Current base_snapshot)"

definition entry_get_apply_base_id :: "'i delayed_apply_entry \<Rightarrow> 'i \<Rightarrow> 'i apply_base" where
  "entry_get_apply_base_id self self_id =
     (case entry_get_apply_base_id_option self of Some b \<Rightarrow> b | None \<Rightarrow> Previous self_id)"

fun entry_apply_to_base ::
  "'i delayed_apply_entry \<Rightarrow> delayed_field_value \<Rightarrow>
   (delayed_field_value, delayed_fields_speculative_error panic_or) result" where
  "entry_apply_to_base (E_AggregatorDelta delta) base_value =
     and_then (lift_panic (into_aggregator_value base_value)) (\<lambda>v.
     map_ok Aggregator (op_apply_to delta v))"
| "entry_apply_to_base (E_SnapshotDelta _ delta) base_value =
     and_then (lift_panic (into_aggregator_value base_value)) (\<lambda>v.
     map_ok Snapshot (op_apply_to delta v))"
| "entry_apply_to_base (E_SnapshotDerived _ formula) base_value =
     and_then (lift_panic (into_snapshot_value base_value)) (\<lambda>v.
     Ok (Derived (formula_apply_to formula v)))"

section \<open>Squashing preserves values\<close>

text \<open>
  The value a field has after a change, from the value of the field it depends on: a created value
  stands for itself, an applied change is computed from the base.
\<close>

fun change_value ::
  "'i delayed_change \<Rightarrow> delayed_field_value \<Rightarrow>
   (delayed_field_value, delayed_fields_speculative_error panic_or) result" where
  "change_value (Create v) base = Ok v"
| "change_value (Apply c) base = apply_to_base c base"

definition change_limit :: "'i delayed_change \<Rightarrow> u128 \<Rightarrow> bool" where
  "change_limit c m \<longleftrightarrow>
     (case c of Apply (AggregatorDelta d) \<Rightarrow> dwm_max_value d = m
      | Apply (SnapshotDelta _ d) \<Rightarrow> dwm_max_value d = m | _ \<Rightarrow> True)"

text \<open>
  \<^bold>\<open>C19.\<close> Squashing the changes of two consecutive change sets is faithful. Let \<open>prev\<close> be the
  first change set's change of an aggregator with value \<open>base\<close>, giving \<open>mid\<close>, and let \<open>next\<close> be
  the second change set's change of it or of a snapshot of it, giving \<open>final\<close> from \<open>mid\<close>. Then
  \<open>merge_two_changes\<close> succeeds and the merged change gives \<open>final\<close> from \<open>base\<close>.
\<close>

theorem merge_two_changes_faithful:
  assumes "change_limit prev m" and "change_limit (Apply next) m" and "unat b \<le> unat m"
    and "change_value prev (Aggregator b) = Ok (Aggregator mid)" and "unat mid \<le> unat m"
    and "apply_to_base next (Aggregator mid) = Ok final"
  shows "\<exists>c. merge_two_changes (Some prev) (Apply next) = Ok c \<and> change_value c (Aggregator b) = Ok final"
proof -
  note merge = dwm.merge_complete [of m _ _ b mid]
  consider (created) "prev = Create (Aggregator mid)"
    | (delta) d where "prev = Apply (AggregatorDelta d)" "dwm_apply_to d b = Ok mid" "dwm_max_value d = m"
    using assms(1,4) by (cases prev; cases "case prev of Apply x \<Rightarrow> x")
      (auto simp: result_simps change_limit_def)
  then show ?thesis
  proof cases
    case created
    then show ?thesis using assms(6) by (cases "next") (auto simp: result_simps)
  next
    case delta
    then show ?thesis
      using assms(2,3,6) merge [of d]
      by (cases "next") (fastforce simp: result_simps change_limit_def wf_dwm_def)+
  qed
qed

theorem merge_two_changes_faithful_witness:
  "\<exists>c. merge_two_changes (Some (Apply (AggregatorDelta (dwm_new (Positive 3) 100))))
         (Apply (SnapshotDelta (1 :: nat) (dwm_new (Positive 2) 100))) = Ok c \<and>
       change_value c (Aggregator 10) = Ok (Snapshot 15)"
  by (rule merge_two_changes_faithful [where m = 100 and mid = 13])
    (simp_all add: change_limit_def dwm_new_def dwm_apply_to_def delta_eval)

end
