(* ===== verification/Delayed_Reads.thy ===== *)
theory Delayed_Reads
  imports Delta_Math
begin

text \<open>
  How a speculative transaction reads delayed fields, and how the read is validated at commit time:
  the delayed-field part of \<open>src/aptos-move/block-executor/src/captured_reads.rs\<close> and the functions
  \<open>get_delayed_field_value_impl\<close> and \<open>delayed_field_try_add_delta_outcome_impl\<close> of
  \<open>src/aptos-move/block-executor/src/view.rs\<close>.

  The multi-version map a read consults is shared with other transactions, so each function takes
  the sequence of answers it receives: one pair per loop iteration, the result of the read and the
  result of waiting for the dependency (used only when the read reported one). A function returns
  \<open>None\<close> when the answers run out while it is still waiting.
\<close>

section \<open>Captured reads of delayed fields\<close>

datatype delayed_field_read_kind = RK_HistoryBounded | RK_Value

datatype delayed_field_read =
  RD_Value delayed_field_value
| RD_HistoryBounded (restriction: delta_history) (hb_max_value: u128) (inner_aggregator_value: u128)

datatype data_read_comparison = Contains | Inconsistent | Insufficient

text \<open>The order of the variants: \<open>HistoryBounded\<close> carries less information than \<open>Value\<close>.\<close>

instantiation delayed_field_read_kind :: linorder
begin

definition less_eq_delayed_field_read_kind :: "delayed_field_read_kind \<Rightarrow> delayed_field_read_kind \<Rightarrow> bool" where
  "less_eq_delayed_field_read_kind a b \<longleftrightarrow> a = RK_HistoryBounded \<or> b = RK_Value"

definition less_delayed_field_read_kind :: "delayed_field_read_kind \<Rightarrow> delayed_field_read_kind \<Rightarrow> bool" where
  "less_delayed_field_read_kind a b \<longleftrightarrow> a = RK_HistoryBounded \<and> b = RK_Value"

instance
proof
  fix x y z :: delayed_field_read_kind
  show "(x < y) = (x \<le> y \<and> \<not> y \<le> x)" "x \<le> y \<or> y \<le> x"
    by (cases x; cases y; simp add: less_eq_delayed_field_read_kind_def less_delayed_field_read_kind_def)+
  show "x \<le> x"
    by (cases x) (simp_all add: less_eq_delayed_field_read_kind_def)
  show "x \<le> y \<Longrightarrow> y \<le> z \<Longrightarrow> x \<le> z" "x \<le> y \<Longrightarrow> y \<le> x \<Longrightarrow> x = y"
    by (cases x; cases y; simp add: less_eq_delayed_field_read_kind_def)+
qed

end

fun rd_get_kind :: "delayed_field_read \<Rightarrow> delayed_field_read_kind" where
  "rd_get_kind (RD_Value v) = RK_Value"
| "rd_get_kind (RD_HistoryBounded h m b) = RK_HistoryBounded"

definition filter_by_kind :: "delayed_field_read \<Rightarrow> delayed_field_read_kind \<Rightarrow> delayed_field_read option" where
  "filter_by_kind self min_kind = (if rd_get_kind self \<ge> min_kind then Some self else None)"

fun rd_contains :: "delayed_field_read \<Rightarrow> delayed_field_read \<Rightarrow> data_read_comparison" where
  "rd_contains (RD_Value v1) (RD_Value v2) = (if v1 = v2 then Contains else Inconsistent)"
| "rd_contains (RD_HistoryBounded h1 m1 v1) (RD_HistoryBounded h2 m2 v2) =
     (if v1 = v2 \<and> m1 = m2 \<and> stricter_than h1 h2 then Contains else Inconsistent)"
| "rd_contains (RD_HistoryBounded h1 m1 v1) (RD_Value v2) = Insufficient"
| "rd_contains (RD_Value v1) (RD_HistoryBounded h2 m2 v2) =
     (case into_aggregator_value v1 of
        Ok a \<Rightarrow> if is_ok (validate_against_base_value h2 a m2) then Contains else Inconsistent
      | _ \<Rightarrow> Inconsistent)"

text \<open>The fields of \<open>CapturedReads\<close> that concern delayed fields.\<close>

record captured_reads =
  delayed_field_reads :: "delayed_field_id \<rightharpoonup> delayed_field_read"
  speculative_failure :: bool
  incorrect_use :: bool

definition captured_reads_new :: captured_reads where
  "captured_reads_new =
     \<lparr>delayed_field_reads = Map.empty, speculative_failure = False, incorrect_use = False\<rparr>"

definition capture_delayed_field_read ::
  "captured_reads \<Rightarrow> delayed_field_id \<Rightarrow> bool \<Rightarrow> delayed_field_read \<Rightarrow>
   captured_reads \<times> (unit, delayed_fields_speculative_error panic_or) result" where
  "capture_delayed_field_read self fid update read =
     (case delayed_field_reads self fid of
        None \<Rightarrow> (self\<lparr>delayed_field_reads := (delayed_field_reads self)(fid \<mapsto> read)\<rparr>, Ok ())
      | Some existing_read \<Rightarrow>
          let read_kind = rd_get_kind read; existing_kind = rd_get_kind existing_read in
          if read_kind < existing_kind \<or> \<not> update \<and> read_kind = existing_kind then
            (self\<lparr>incorrect_use := True\<rparr>,
             Err (panic_or_from (code_invariant_error ''Incorrect use CaptureReads'')))
          else
            (case rd_contains read existing_read of
               Contains \<Rightarrow>
                 (self\<lparr>delayed_field_reads := (delayed_field_reads self)(fid \<mapsto> read)\<rparr>, Ok ())
             | Inconsistent \<Rightarrow> (self\<lparr>speculative_failure := True\<rparr>, Err (Or InconsistentRead))
             | Insufficient \<Rightarrow> (self, Panic)))"

fun capture_delayed_field_read_error :: "captured_reads \<Rightarrow> 'e panic_or \<Rightarrow> captured_reads" where
  "capture_delayed_field_read_error self (CodeInvariantError _) = self\<lparr>incorrect_use := True\<rparr>"
| "capture_delayed_field_read_error self (Or _) = self\<lparr>speculative_failure := True\<rparr>"

definition get_delayed_field_by_kind ::
  "captured_reads \<Rightarrow> delayed_field_id \<Rightarrow> delayed_field_read_kind \<Rightarrow> delayed_field_read option" where
  "get_delayed_field_by_kind self fid min_kind =
     Option.bind (delayed_field_reads self fid) (\<lambda>r. filter_by_kind r min_kind)"

datatype mv_delayed_fields_error = MV_NotFound | MV_Dependency u32 | MV_DeltaApplicationFailure

text \<open>
  The iteration order of the hash map is the list \<open>ids\<close>; \<open>committed\<close> is
  \<open>read_latest_committed_value\<close> at the validated transaction.
\<close>

fun validate_reads_loop ::
  "(delayed_field_id \<Rightarrow> (delayed_field_value, mv_delayed_fields_error) result) \<Rightarrow>
   (delayed_field_id \<rightharpoonup> delayed_field_read) \<Rightarrow> delayed_field_id list \<Rightarrow> (bool, panic_error) result" where
  "validate_reads_loop committed reads [] = Ok True"
| "validate_reads_loop committed reads (fid # ids) =
     (case committed fid of
        Ok current_value \<Rightarrow>
          (case reads fid of
             None \<Rightarrow> validate_reads_loop committed reads ids
           | Some (RD_Value value) \<Rightarrow>
               if value \<noteq> current_value then Ok False else validate_reads_loop committed reads ids
           | Some (RD_HistoryBounded h m b) \<Rightarrow>
               and_then (into_aggregator_value current_value) (\<lambda>v.
               case validate_against_base_value h v m of
                 Ok _ \<Rightarrow> validate_reads_loop committed reads ids
               | Err _ \<Rightarrow> Ok False
               | Panic \<Rightarrow> Panic))
      | Err _ \<Rightarrow> Ok False
      | Panic \<Rightarrow> Panic)"

definition validate_delayed_field_reads ::
  "captured_reads \<Rightarrow> delayed_field_id list \<Rightarrow>
   (delayed_field_id \<Rightarrow> (delayed_field_value, mv_delayed_fields_error) result) \<Rightarrow>
   (bool, panic_error) result" where
  "validate_delayed_field_reads self ids committed =
     (if speculative_failure self then Ok False
      else validate_reads_loop committed (delayed_field_reads self) ids)"

section \<open>Reading during execution\<close>

type_synonym read_answers =
  "((delayed_field_value, mv_delayed_fields_error panic_or) result \<times> (bool, panic_error) result) list"

fun read_value_loop ::
  "captured_reads \<Rightarrow> delayed_field_id \<Rightarrow> read_answers \<Rightarrow>
   (captured_reads \<times> (delayed_field_value, delayed_fields_speculative_error panic_or) result) option" where
  "read_value_loop self fid [] = None"
| "read_value_loop self fid ((answer, waited) # rest) =
     (case answer of
        Ok value \<Rightarrow>
          (case capture_delayed_field_read self fid False (RD_Value value) of
             (self', r) \<Rightarrow> Some (self', map_ok (\<lambda>_. value) r))
      | Err (Or (MV_Dependency dep_idx)) \<Rightarrow>
          (case waited of
             Ok True \<Rightarrow> read_value_loop self fid rest
           | Ok False \<Rightarrow> Some (self, Err (Or InconsistentRead))
           | Err e \<Rightarrow> Some (self, Err (panic_or_from e))
           | Panic \<Rightarrow> Some (self, Panic))
      | Err e \<Rightarrow>
          Some (capture_delayed_field_read_error self e, Err (map_non_panic (\<lambda>_. InconsistentRead) e))
      | Panic \<Rightarrow> Some (self, Panic))"

definition get_delayed_field_value_impl ::
  "captured_reads \<Rightarrow> delayed_field_id \<Rightarrow> read_answers \<Rightarrow>
   (captured_reads \<times> (delayed_field_value, delayed_fields_speculative_error panic_or) result) option" where
  "get_delayed_field_value_impl self fid answers =
     (case get_delayed_field_by_kind self fid RK_Value of
        Some (RD_Value value) \<Rightarrow> Some (self, Ok value)
      | Some _ \<Rightarrow>
          let err = panic_or_from (code_invariant_error ''Value DelayedField read returned non-value result'')
          in Some (capture_delayed_field_read_error self (err :: delayed_fields_speculative_error panic_or),
                   Err err)
      | None \<Rightarrow> read_value_loop self fid answers)"

definition try_add_outcome_from_history ::
  "signed_u128 \<Rightarrow> signed_u128 \<Rightarrow> u128 \<Rightarrow> delta_history \<Rightarrow> u128 \<Rightarrow>
   (bool \<times> delayed_field_read, delayed_fields_speculative_error panic_or) result" where
  "try_add_outcome_from_history base_delta delta max_value history base_aggregator_value =
     (let math = bm_new max_value in
      and_then (lift_panic (expect_ok (unsigned_add_delta math base_aggregator_value base_delta)))
        (\<lambda>before_value.
      and_then
        (if is_err (unsigned_add_delta math before_value delta) then
           (case delta of
              Positive delta_value \<Rightarrow>
                map_ok (\<lambda>overflow_delta. (False,
                    case overflow_delta of None \<Rightarrow> history | Some d \<Rightarrow> record_overflow history d))
                  (lift_panic (expect_ok (ok_overflow
                    (unsigned_add_delta math delta_value base_delta))))
            | Negative delta_value \<Rightarrow>
                map_ok (\<lambda>underflow_delta. (False,
                    case underflow_delta of None \<Rightarrow> history | Some d \<Rightarrow> record_underflow history d))
                  (lift_panic (expect_ok (ok_overflow
                    (unsigned_add_delta math delta_value (signed_minus base_delta))))))
         else
           map_ok (\<lambda>new_delta. (True, record_success history new_delta))
             (lift_panic (expect_ok (signed_add math base_delta delta))))
        (\<lambda>(outcome, history').
           Ok (outcome, RD_HistoryBounded history' max_value base_aggregator_value))))"

definition try_add_outcome_first_time ::
  "signed_u128 \<Rightarrow> u128 \<Rightarrow> u128 \<Rightarrow>
   (bool \<times> delayed_field_read, delayed_fields_speculative_error panic_or) result" where
  "try_add_outcome_first_time delta max_value base_aggregator_value =
     (let math = bm_new max_value;
          (outcome, history) =
            (if is_err (unsigned_add_delta math base_aggregator_value delta) then
               (False, case delta of
                         Positive delta_value \<Rightarrow> record_overflow dh_new delta_value
                       | Negative delta_value \<Rightarrow> record_underflow dh_new delta_value)
             else (True, record_success dh_new delta))
      in Ok (outcome, RD_HistoryBounded history max_value base_aggregator_value))"

type_synonym committed_answers =
  "((delayed_field_value, mv_delayed_fields_error) result \<times> (bool, panic_error) result) list"

fun read_committed_loop ::
  "committed_answers \<Rightarrow> (delayed_field_value, delayed_fields_speculative_error panic_or) result option" where
  "read_committed_loop [] = None"
| "read_committed_loop ((answer, waited) # rest) =
     (case answer of
        Ok v \<Rightarrow> Some (Ok v)
      | Err (MV_Dependency dep_idx) \<Rightarrow>
          (case waited of
             Ok True \<Rightarrow> read_committed_loop rest
           | Ok False \<Rightarrow> Some (Err (Or InconsistentRead))
           | Err e \<Rightarrow> Some (Err (panic_or_from e))
           | Panic \<Rightarrow> Some Panic)
      | Err _ \<Rightarrow> Some (Err (Or InconsistentRead))
      | Panic \<Rightarrow> Some Panic)"

definition delayed_field_try_add_delta_outcome_impl ::
  "captured_reads \<Rightarrow> delayed_field_id \<Rightarrow> committed_answers \<Rightarrow> signed_u128 \<Rightarrow> signed_u128 \<Rightarrow> u128 \<Rightarrow>
   (captured_reads \<times> (bool, delayed_fields_speculative_error panic_or) result) option" where
  "delayed_field_try_add_delta_outcome_impl self fid answers base_delta delta max_value =
     (if signed_abs delta > max_value then Some (self, Ok False)
      else case get_delayed_field_by_kind self fid RK_HistoryBounded of
        Some (RD_Value value) \<Rightarrow>
          let math = bm_new max_value in
          Some (self,
            and_then (lift_panic (into_aggregator_value value)) (\<lambda>v.
            and_then (lift_panic (expect_ok (unsigned_add_delta math v base_delta))) (\<lambda>before.
            Ok (is_ok (unsigned_add_delta math before delta)))))
      | Some (RD_HistoryBounded history before_max_value inner) \<Rightarrow>
          if before_max_value \<noteq> max_value then
            Some (self, Err (panic_or_from
              (code_invariant_error ''Cannot merge deltas with different limits'')))
          else
            (case try_add_outcome_from_history base_delta delta max_value history inner of
               Ok (outcome, read) \<Rightarrow>
                 (case capture_delayed_field_read self fid True read of
                    (self', r) \<Rightarrow> Some (self', map_ok (\<lambda>_. outcome) r))
             | Err e \<Rightarrow> Some (self, Err e)
             | Panic \<Rightarrow> Some (self, Panic))
      | None \<Rightarrow>
          if \<not> signed_is_zero base_delta then
            Some (self, Err (panic_or_from (code_invariant_error
              ''Passed-in delta is not zero, but CapturedReads has no record'')))
          else
            map_option (\<lambda>last_committed_value.
              case and_then last_committed_value (\<lambda>v. lift_panic (into_aggregator_value v)) of
                Ok v \<Rightarrow>
                  (case try_add_outcome_first_time delta max_value v of
                     Ok (outcome, read) \<Rightarrow>
                       (case capture_delayed_field_read self fid False read of
                          (self', r) \<Rightarrow> (self', map_ok (\<lambda>_. outcome) r))
                   | Err e \<Rightarrow> (self, Err e)
                   | Panic \<Rightarrow> (self, Panic))
              | Err e \<Rightarrow> (self, Err e)
              | Panic \<Rightarrow> (self, Panic))
              (read_committed_loop answers))"

section \<open>One attempted addition\<close>

definition in_range :: "u128 \<Rightarrow> int \<Rightarrow> bool" where
  "in_range m x \<longleftrightarrow> 0 \<le> x \<and> x \<le> int (unat m)"

lemma is_err_add_delta:
  assumes "unat b \<le> unat m"
  shows "is_err (unsigned_add_delta (bm_new m) b d) \<longleftrightarrow> \<not> in_range m (int (unat b) + delta_int d)"
  using assms by (auto simp: unsigned_add_delta_is_err in_range_def)

lemma record_failure_limit:
  "fails_at (record_failure limit x) m b \<longleftrightarrow> fails_at limit m b \<and> int (unat m) < b + int (unat x)"
  "opt_within (record_failure limit x) m \<longleftrightarrow> (case limit of None \<Rightarrow> unat x \<le> unat m
     | Some y \<Rightarrow> min (unat y) (unat x) \<le> unat m)"
  "stricter_limit (record_failure limit x) limit"
  "stricter_limit limit limit"
  by (auto simp: record_failure_def stricter_limit_def split: option.splits)

lemma record_overflow_facts:
  assumes "wf_history h m" and "unat x \<le> unat m"
  shows "wf_history (record_overflow h x) m" and "stricter_than (record_overflow h x) h"
    and "admits (record_overflow h x) m c \<longleftrightarrow> admits h m c \<and> int (unat m) < c + int (unat x)"
    and "achieved d (record_overflow h x) \<longleftrightarrow> achieved d h"
  using assms
  by (auto simp: record_overflow_def wf_history_def admits_def achieved_def record_failure_limit
      stricter_than_def split: option.splits)

lemma record_underflow_facts:
  assumes "wf_history h m" and "unat x \<le> unat m"
  shows "wf_history (record_underflow h x) m" and "stricter_than (record_underflow h x) h"
    and "admits (record_underflow h x) m c \<longleftrightarrow> admits h m c \<and> c < int (unat x)"
    and "achieved d (record_underflow h x) \<longleftrightarrow> achieved d h"
  using assms
  by (auto simp: record_underflow_def wf_history_def admits_def achieved_def record_failure_limit
      stricter_than_def split: option.splits)

lemma record_success_facts:
  assumes "wf_history h m" and "\<bar>delta_int s\<bar> \<le> int (unat m)"
  shows "wf_history (record_success h s) m" and "stricter_than (record_success h s) h"
    and "admits (record_success h s) m c \<longleftrightarrow> admits h m c \<and> in_range m (c + delta_int s)"
    and "achieved s (record_success h s)"
  using assms admits_range [of h m c]
  by (cases s;
      auto simp: wf_history_def admits_def achieved_def holds_at_def in_range_def
        stricter_than_def record_failure_limit word_le_nat_alt)+

lemma stricter_than_refl [simp]: "stricter_than h h"
  by (simp add: stricter_than_def record_failure_limit)

text \<open>A failed attempt, in each direction: the limit that is recorded, if any.\<close>

lemma failed_overflow:
  assumes wf: "wf_history h m" and ach: "achieved d h" and base: "admits h m b"
    and y: "unat y \<le> unat m" and out: "\<not> in_range m (b + delta_int d + int (unat y))"
  obtains limit where "ok_overflow (unsigned_add_delta (bm_new m) y d) = Ok limit"
    and "wf_history (case limit of None \<Rightarrow> h | Some z \<Rightarrow> record_overflow h z) m"
    and "stricter_than (case limit of None \<Rightarrow> h | Some z \<Rightarrow> record_overflow h z) h"
    and "achieved d (case limit of None \<Rightarrow> h | Some z \<Rightarrow> record_overflow h z)"
    and "\<And>c. admits (case limit of None \<Rightarrow> h | Some z \<Rightarrow> record_overflow h z) m c \<longleftrightarrow>
      admits h m c \<and> \<not> in_range m (c + delta_int d + int (unat y))"
  using y
proof (cases rule: unsigned_add_delta_cases [where d = d])
  case (Exact r)
  have "admits h m c \<Longrightarrow> (int (unat m) < c + int (unat r)) = (\<not> in_range m (c + delta_int d + int (unat y)))" for c
    using admits_achieved [OF _ ach, of m c] Exact by (auto simp: in_range_def)
  then show ?thesis
    using that [of "Some r"] Exact record_overflow_facts [OF wf, of r] ach
    by (auto simp: ok_overflow_def)
next
  case Over
  have "admits h m c \<Longrightarrow> \<not> in_range m (c + delta_int d + int (unat y))" for c
    using admits_range [of h m c] Over by (auto simp: in_range_def)
  then show ?thesis using that [of None] Over wf ach by (auto simp: ok_overflow_def)
next
  case Under
  with out admits_achieved [OF base ach] admits_range [OF base] show ?thesis by (auto simp: in_range_def)
qed

lemma failed_underflow:
  assumes wf: "wf_history h m" and ach: "achieved d h" and base: "admits h m b"
    and y: "unat y \<le> unat m" and out: "\<not> in_range m (b + delta_int d - int (unat y))"
  obtains limit where "ok_overflow (unsigned_add_delta (bm_new m) y (signed_minus d)) = Ok limit"
    and "wf_history (case limit of None \<Rightarrow> h | Some z \<Rightarrow> record_underflow h z) m"
    and "stricter_than (case limit of None \<Rightarrow> h | Some z \<Rightarrow> record_underflow h z) h"
    and "achieved d (case limit of None \<Rightarrow> h | Some z \<Rightarrow> record_underflow h z)"
    and "\<And>c. admits (case limit of None \<Rightarrow> h | Some z \<Rightarrow> record_underflow h z) m c \<longleftrightarrow>
      admits h m c \<and> \<not> in_range m (c + delta_int d - int (unat y))"
  using y
proof (cases rule: unsigned_add_delta_cases [where d = "signed_minus d"])
  case (Exact r)
  have "admits h m c \<Longrightarrow> (c < int (unat r)) = (\<not> in_range m (c + delta_int d - int (unat y)))" for c
    using admits_achieved [OF _ ach, of m c] Exact by (auto simp: in_range_def)
  then show ?thesis
    using that [of "Some r"] Exact record_underflow_facts [OF wf, of r] ach
    by (auto simp: ok_overflow_def)
next
  case Over
  have "admits h m c \<Longrightarrow> \<not> in_range m (c + delta_int d - int (unat y))" for c
    using admits_range [of h m c] Over by (auto simp: in_range_def)
  then show ?thesis using that [of None] Over wf ach by (auto simp: ok_overflow_def)
next
  case Under
  with out admits_achieved [OF base ach] admits_range [OF base] show ?thesis by (auto simp: in_range_def)
qed

text \<open>
  One attempt on top of a history: it reports whether the sum is in range, and the new history
  admits exactly the bases of the old one at which the attempt has the same outcome.
\<close>

lemma try_add_from_history_step:
  assumes wf: "wf_history h m" and ach: "achieved d h" and base: "admits h m (int (unat b))"
    and delta: "unat (signed_abs x) \<le> unat m"
  obtains h' where
    "try_add_outcome_from_history d x m h b =
       Ok (in_range m (int (unat b) + delta_int d + delta_int x), RD_HistoryBounded h' m b)"
    and "wf_history h' m" and "stricter_than h' h"
    and "\<And>c. admits h' m c \<longleftrightarrow> admits h m c \<and>
      in_range m (c + delta_int d + delta_int x) = in_range m (int (unat b) + delta_int d + delta_int x)"
    and "if in_range m (int (unat b) + delta_int d + delta_int x)
      then \<exists>s. signed_add (bm_new m) d x = Ok s \<and> delta_int s = delta_int d + delta_int x \<and> achieved s h'
      else achieved d h'"
proof -
  let ?b = "int (unat b)" and ?d = "delta_int d" and ?x = "delta_int x"
  let ?out = "in_range m (?b + ?d + ?x)"
  from base have b: "unat b \<le> unat m" using admits_range by fastforce
  from b admits_achieved [OF base ach] obtain v where
    v: "unsigned_add_delta (bm_new m) b d = Ok v" "int (unat v) = ?b + ?d" "unat v \<le> unat m"
    by (cases rule: unsigned_add_delta_cases [where d = d]) auto
  have err: "is_err (unsigned_add_delta (bm_new m) v x) \<longleftrightarrow> \<not> ?out"
    using v by (simp add: is_err_add_delta)
  show ?thesis
  proof (cases ?out)
    case True
    have "\<bar>?d + ?x\<bar> \<le> int (unat m)" using True b by (auto simp: in_range_def abs_le_iff)
    then obtain s where s: "signed_add (bm_new m) d x = Ok s" "delta_int s = ?d + ?x"
      by (rule signed_add_total)
    then have "\<bar>delta_int s\<bar> \<le> int (unat m)" using \<open>\<bar>?d + ?x\<bar> \<le> int (unat m)\<close> by simp
    note facts = record_success_facts [OF wf this]
    show ?thesis
      using that [of "record_success h s"] facts s v err True
      by (simp add: try_add_outcome_from_history_def add.assoc)
  next
    case False
    show ?thesis
    proof (cases x)
      case (Positive y)
      with False delta have y: "\<not> in_range m (?b + ?d + int (unat y))" "unat y \<le> unat m" by simp_all
      show ?thesis
        by (rule failed_overflow [OF wf ach base y(2,1)])
          (rule that, use v err False Positive in \<open>auto simp: try_add_outcome_from_history_def\<close>)
    next
      case (Negative y)
      with False delta have y: "\<not> in_range m (?b + ?d - int (unat y))" "unat y \<le> unat m" by simp_all
      show ?thesis
        by (rule failed_underflow [OF wf ach base y(2,1)])
          (rule that, use v err False Negative in \<open>auto simp: try_add_outcome_from_history_def\<close>)
    qed
  qed
qed

lemma try_add_first_time_step:
  assumes b: "unat b \<le> unat m" and delta: "unat (signed_abs x) \<le> unat m"
  obtains h' where
    "try_add_outcome_first_time x m b =
       Ok (in_range m (int (unat b) + delta_int x), RD_HistoryBounded h' m b)"
    and "wf_history h' m"
    and "\<And>c. admits h' m c \<longleftrightarrow> in_range m c \<and>
      in_range m (c + delta_int x) = in_range m (int (unat b) + delta_int x)"
    and "if in_range m (int (unat b) + delta_int x) then achieved x h' else achieved (Positive 0) h'"
proof -
  let ?out = "in_range m (int (unat b) + delta_int x)"
  have err: "is_err (unsigned_add_delta (bm_new m) b x) \<longleftrightarrow> \<not> ?out"
    using b by (simp add: is_err_add_delta)
  have new: "admits dh_new m c \<longleftrightarrow> in_range m c" for c
    by (simp add: admits_dh_new in_range_def)
  have mag: "\<bar>delta_int x\<bar> \<le> int (unat m)" using delta by (cases x) auto
  show ?thesis
  proof (cases ?out)
    case True
    then show ?thesis
      using that [of "record_success dh_new x"] record_success_facts [OF wf_dh_new mag] err new
      by (simp add: try_add_outcome_first_time_def)
  next
    case False
    show ?thesis
    proof (cases x)
      case (Positive y)
      with delta have y: "unat y \<le> unat m" by simp
      show ?thesis
        by (rule that [of "record_overflow dh_new y"])
          (use record_overflow_facts [OF wf_dh_new y] err new False Positive b in
           \<open>auto simp: try_add_outcome_first_time_def achieved_dh_new in_range_def\<close>)
    next
      case (Negative y)
      with delta have y: "unat y \<le> unat m" by simp
      show ?thesis
        by (rule that [of "record_underflow dh_new y"])
          (use record_underflow_facts [OF wf_dh_new y] err new False Negative b in
           \<open>auto simp: try_add_outcome_first_time_def achieved_dh_new in_range_def\<close>)
    qed
  qed
qed

section \<open>The captured read follows the attempts\<close>

text \<open>
  \<open>tracks self fid m b d\<close>: the captured read of \<open>fid\<close>, if any, is a history over the base
  \<open>b\<close> that achieved the net delta \<open>d\<close>, or the full value \<open>b\<close>. \<open>read_admits self fid m c\<close>: the committed value
  \<open>c\<close> is consistent with what was captured.
\<close>

definition tracks :: "captured_reads \<Rightarrow> delayed_field_id \<Rightarrow> u128 \<Rightarrow> u128 \<Rightarrow> signed_u128 \<Rightarrow> bool" where
  "tracks self fid m b d \<longleftrightarrow> unat b \<le> unat m \<and>
     (case delayed_field_reads self fid of
        None \<Rightarrow> delta_int d = 0
      | Some (RD_HistoryBounded h m' b') \<Rightarrow>
          m' = m \<and> b' = b \<and> wf_history h m \<and> achieved d h \<and> admits h m (int (unat b))
      | Some (RD_Value v) \<Rightarrow> v = Aggregator b \<and> in_range m (int (unat b) + delta_int d))"

definition read_admits :: "captured_reads \<Rightarrow> delayed_field_id \<Rightarrow> u128 \<Rightarrow> int \<Rightarrow> bool" where
  "read_admits self fid m c \<longleftrightarrow>
     (case delayed_field_reads self fid of
        None \<Rightarrow> in_range m c
      | Some (RD_HistoryBounded h m' b') \<Rightarrow> admits h m c
      | Some (RD_Value v) \<Rightarrow> (case v of Aggregator w \<Rightarrow> c = int (unat w) | _ \<Rightarrow> False))"

lemma tracks_net_range:
  assumes "tracks self fid m b d" and "read_admits self fid m c"
  shows "in_range m (c + delta_int d)" and "in_range m c"
  using assms admits_achieved [of _ m c d] admits_range [of _ m c]
  by (auto simp: tracks_def read_admits_def in_range_def split: option.splits delayed_field_read.splits)

lemma tracks_base: "tracks self fid m b d \<Longrightarrow> read_admits self fid m (int (unat b))"
  by (auto simp: tracks_def read_admits_def in_range_def split: option.splits delayed_field_read.splits)

lemma kind_order_simps [simp]:
  "RK_HistoryBounded \<le> k" "k \<le> RK_Value" "\<not> RK_Value \<le> RK_HistoryBounded"
  "RK_HistoryBounded < RK_Value" "\<not> RK_Value < k" "\<not> k < RK_HistoryBounded"
  by (auto simp: less_eq_delayed_field_read_kind_def less_delayed_field_read_kind_def)

lemma get_history_bounded [simp]:
  "get_delayed_field_by_kind self fid RK_HistoryBounded = delayed_field_reads self fid"
  by (cases "delayed_field_reads self fid") (simp_all add: get_delayed_field_by_kind_def filter_by_kind_def)

abbreviation set_history :: "captured_reads \<Rightarrow> delayed_field_id \<Rightarrow> delta_history \<Rightarrow> u128 \<Rightarrow> u128 \<Rightarrow> captured_reads" where
  "set_history self fid h m b \<equiv>
     self\<lparr>delayed_field_reads := (delayed_field_reads self)(fid \<mapsto> RD_HistoryBounded h m b)\<rparr>"

lemma set_history_simps:
  "read_admits (set_history self fid h m b) fid m c \<longleftrightarrow> admits h m c"
  "tracks (set_history self fid h m b) fid m b s \<longleftrightarrow>
     unat b \<le> unat m \<and> wf_history h m \<and> achieved s h \<and> admits h m (int (unat b))"
  by (simp_all add: read_admits_def tracks_def)

lemma achieved_cong: "achieved t h \<Longrightarrow> delta_int s = delta_int t \<Longrightarrow> achieved s h"
  by (simp add: achieved_def)

text \<open>
  What one attempt does to the captured reads: it keeps exactly the committed values at which the
  outcome is the same, follows the net delta, and touches nothing else.
\<close>

definition attempt_ok ::
  "captured_reads \<Rightarrow> captured_reads \<Rightarrow> delayed_field_id \<Rightarrow> u128 \<Rightarrow> u128 \<Rightarrow> signed_u128 \<Rightarrow> signed_u128 \<Rightarrow> bool" where
  "attempt_ok self self' fid m b d x \<longleftrightarrow>
     (let out = in_range m (int (unat b) + delta_int d + delta_int x) in
      (\<forall>c. read_admits self' fid m c \<longleftrightarrow>
         read_admits self fid m c \<and> in_range m (c + delta_int d + delta_int x) = out) \<and>
      (if out then unat (signed_abs x) \<le> unat m \<and>
           (\<forall>s. delta_int s = delta_int d + delta_int x \<longrightarrow> tracks self' fid m b s)
       else tracks self' fid m b d) \<and>
      (\<forall>i. i \<noteq> fid \<longrightarrow> delayed_field_reads self' i = delayed_field_reads self i) \<and>
      speculative_failure self' = speculative_failure self \<and> incorrect_use self' = incorrect_use self)"

lemma try_add_impl_large:
  assumes tr: "tracks self fid m b d" and "signed_abs x > m"
  shows "delayed_field_try_add_delta_outcome_impl self fid answers d x m =
      Some (self, Ok (in_range m (int (unat b) + delta_int d + delta_int x)))"
    and "attempt_ok self self fid m b d x"
proof -
  have big: "int (unat m) < \<bar>delta_int x\<bar>"
    using assms(2) by (simp add: delta_int_abs [symmetric] word_less_nat_alt)
  have "\<not> in_range m (c + delta_int d + delta_int x)" if "read_admits self fid m c" for c
    using tracks_net_range [OF tr that] big by (auto simp: in_range_def)
  with tr assms(2) tracks_base [OF tr]
  show "delayed_field_try_add_delta_outcome_impl self fid answers d x m =
      Some (self, Ok (in_range m (int (unat b) + delta_int d + delta_int x)))"
    and "attempt_ok self self fid m b d x"
    by (auto simp: delayed_field_try_add_delta_outcome_impl_def attempt_ok_def Let_def)
qed

lemma try_add_impl_vacant:
  assumes tr: "tracks self fid m b d" and vacant: "delayed_field_reads self fid = None"
    and answers: "read_committed_loop answers = Some (Ok (Aggregator b))"
    and x: "unat (signed_abs x) \<le> unat m"
  shows "\<exists>self'. delayed_field_try_add_delta_outcome_impl self fid answers d x m =
      Some (self', Ok (in_range m (int (unat b) + delta_int d + delta_int x))) \<and>
      attempt_ok self self' fid m b d x"
proof -
  from tr vacant have d: "delta_int d = 0" and b: "unat b \<le> unat m" by (auto simp: tracks_def)
  obtain h' where h': "try_add_outcome_first_time x m b =
       Ok (in_range m (int (unat b) + delta_int x), RD_HistoryBounded h' m b)"
    and wf: "wf_history h' m"
    and ad: "\<And>c. admits h' m c \<longleftrightarrow> in_range m c \<and>
      in_range m (c + delta_int x) = in_range m (int (unat b) + delta_int x)"
    and ach: "if in_range m (int (unat b) + delta_int x) then achieved x h' else achieved (Positive 0) h'"
    by (rule try_add_first_time_step [OF b x]) (rule that)
  have "admits h' m (int (unat b))" using ad b by (simp add: in_range_def)
  then have "attempt_ok self (set_history self fid h' m b) fid m b d x"
    unfolding attempt_ok_def Let_def set_history_simps
    using ach wf b x d ad vacant achieved_cong [of x h'] achieved_cong [of "Positive 0" h' d]
    by (simp add: read_admits_def)
  moreover have "delayed_field_try_add_delta_outcome_impl self fid answers d x m =
      Some (set_history self fid h' m b, Ok (in_range m (int (unat b) + delta_int d + delta_int x)))"
    using vacant x d answers h' by (simp add: delayed_field_try_add_delta_outcome_impl_def
        capture_delayed_field_read_def signed_is_zero_iff word_less_nat_alt)
  ultimately show ?thesis by blast
qed

lemma try_add_impl_history:
  assumes tr: "tracks self fid m b d"
    and occupied: "delayed_field_reads self fid = Some (RD_HistoryBounded h m b)"
    and x: "unat (signed_abs x) \<le> unat m"
  shows "\<exists>self'. delayed_field_try_add_delta_outcome_impl self fid answers d x m =
      Some (self', Ok (in_range m (int (unat b) + delta_int d + delta_int x))) \<and>
      attempt_ok self self' fid m b d x"
proof -
  from tr occupied have wf: "wf_history h m" "achieved d h" "admits h m (int (unat b))"
    and b: "unat b \<le> unat m" by (auto simp: tracks_def)
  obtain h' where h': "try_add_outcome_from_history d x m h b =
       Ok (in_range m (int (unat b) + delta_int d + delta_int x), RD_HistoryBounded h' m b)"
    and wf': "wf_history h' m" and st: "stricter_than h' h"
    and ad: "\<And>c. admits h' m c \<longleftrightarrow> admits h m c \<and>
      in_range m (c + delta_int d + delta_int x) = in_range m (int (unat b) + delta_int d + delta_int x)"
    and ach: "if in_range m (int (unat b) + delta_int d + delta_int x)
      then \<exists>s. signed_add (bm_new m) d x = Ok s \<and> delta_int s = delta_int d + delta_int x \<and> achieved s h'
      else achieved d h'"
    by (rule try_add_from_history_step [OF wf x]) (rule that)
  have "attempt_ok self (set_history self fid h' m b) fid m b d x"
    unfolding attempt_ok_def Let_def set_history_simps
    using ach wf wf' b x ad occupied by (auto simp: read_admits_def achieved_def)
  moreover have "delayed_field_try_add_delta_outcome_impl self fid answers d x m =
      Some (set_history self fid h' m b, Ok (in_range m (int (unat b) + delta_int d + delta_int x)))"
    using occupied x h' st by (simp add: delayed_field_try_add_delta_outcome_impl_def
        capture_delayed_field_read_def Let_def word_less_nat_alt)
  ultimately show ?thesis by blast
qed

lemma try_add_impl_value:
  assumes tr: "tracks self fid m b d"
    and occupied: "delayed_field_reads self fid = Some (RD_Value v)"
    and x: "unat (signed_abs x) \<le> unat m"
  shows "delayed_field_try_add_delta_outcome_impl self fid answers d x m =
      Some (self, Ok (in_range m (int (unat b) + delta_int d + delta_int x)))"
    and "attempt_ok self self fid m b d x"
proof -
  let ?out = "in_range m (int (unat b) + delta_int d + delta_int x)"
  from tr occupied have v: "v = Aggregator b" and d: "in_range m (int (unat b) + delta_int d)"
    and b: "unat b \<le> unat m" by (auto simp: tracks_def)
  from b d obtain w where w: "unsigned_add_delta (bm_new m) b d = Ok w"
    "int (unat w) = int (unat b) + delta_int d" "unat w \<le> unat m"
    by (cases rule: unsigned_add_delta_cases [where d = d]) (auto simp: in_range_def)
  have "is_err (unsigned_add_delta (bm_new m) w x) \<longleftrightarrow> \<not> ?out"
    using w by (simp add: is_err_add_delta)
  then have "is_ok (unsigned_add_delta (bm_new m) w x) \<longleftrightarrow> ?out"
    using unsigned_add_delta_no_panic [of "bm_new m" w x]
    by (cases "unsigned_add_delta (bm_new m) w x") auto
  with occupied v w x show "delayed_field_try_add_delta_outcome_impl self fid answers d x m = Some (self, Ok ?out)"
    by (simp add: delayed_field_try_add_delta_outcome_impl_def Let_def word_less_nat_alt)
  show "attempt_ok self self fid m b d x"
    using tr occupied v x by (auto simp: attempt_ok_def Let_def read_admits_def tracks_def add.assoc)
qed

lemma try_add_impl_step:
  assumes tr: "tracks self fid m b d"
    and answers: "read_committed_loop answers = Some (Ok (Aggregator b))"
  shows "\<exists>self'. delayed_field_try_add_delta_outcome_impl self fid answers d x m =
      Some (self', Ok (in_range m (int (unat b) + delta_int d + delta_int x))) \<and>
      attempt_ok self self' fid m b d x"
proof (cases "signed_abs x > m")
  case True
  then show ?thesis using try_add_impl_large [OF tr] by blast
next
  case False
  then have x: "unat (signed_abs x) \<le> unat m" by (simp add: word_less_nat_alt)
  consider "delayed_field_reads self fid = None"
    | h where "delayed_field_reads self fid = Some (RD_HistoryBounded h m b)"
    | v where "delayed_field_reads self fid = Some (RD_Value v)"
    using tr by (auto simp: tracks_def split: option.splits delayed_field_read.splits)
  then show ?thesis
    using try_add_impl_vacant [OF tr _ answers x] try_add_impl_history [OF tr _ x]
      try_add_impl_value [OF tr _ x] by cases blast+
qed

text \<open>Validation of one captured read is membership in \<open>read_admits\<close>.\<close>

lemma validate_singleton:
  assumes "tracks self fid m b d" and "delayed_field_reads self fid \<noteq> None"
    and "\<not> speculative_failure self" and "committed fid = Ok (Aggregator c)"
  shows "validate_delayed_field_reads self [fid] committed = Ok (read_admits self fid m (int (unat c)))"
proof (cases "the (delayed_field_reads self fid)")
  case (RD_Value v)
  then show ?thesis
    using assms
    by (auto simp: validate_delayed_field_reads_def tracks_def read_admits_def
        dest: iffD2 [OF word_eq_unat])
next
  case (RD_HistoryBounded h m' b')
  with assms have wf: "wf_history h m" and read: "delayed_field_reads self fid = Some (RD_HistoryBounded h m b)"
    by (auto simp: tracks_def)
  show ?thesis
    using assms(3,4) read validate_Ok_iff [OF wf, of c] validate_no_panic [OF wf, of c]
    by (cases "validate_against_base_value h c m")
      (simp_all add: validate_delayed_field_reads_def read_admits_def)
qed

text \<open>
  The value a sequence of answers leads to, when every dependency it reports is resolved.
\<close>

fun final_read :: "read_answers \<Rightarrow> delayed_field_value option" where
  "final_read [] = None"
| "final_read ((answer, waited) # rest) =
     (case answer of
        Ok v \<Rightarrow> Some v
      | Err (Or (MV_Dependency _)) \<Rightarrow> if waited = Ok True then final_read rest else None
      | _ \<Rightarrow> None)"

lemma read_value_loop_final:
  "final_read answers = Some v \<Longrightarrow>
   read_value_loop self fid answers =
     (case capture_delayed_field_read self fid False (RD_Value v) of
        (self', r) \<Rightarrow> Some (self', map_ok (\<lambda>_. v) r))"
  by (induction answers rule: final_read.induct)
    (auto split: result.splits panic_or.splits mv_delayed_fields_error.splits if_splits)

text \<open>A full read on top of what was captured: it returns the value and captures it.\<close>

lemma get_value_impl_vacant:
  assumes "delayed_field_reads self fid = None" and "final_read answers = Some v"
  shows "get_delayed_field_value_impl self fid answers =
    Some (self\<lparr>delayed_field_reads := (delayed_field_reads self)(fid \<mapsto> RD_Value v)\<rparr>, Ok v)"
  using assms by (simp add: get_delayed_field_value_impl_def get_delayed_field_by_kind_def
      read_value_loop_final capture_delayed_field_read_def)

lemma get_value_impl_captured:
  assumes "delayed_field_reads self fid = Some (RD_Value v)"
  shows "get_delayed_field_value_impl self fid answers = Some (self, Ok v)"
  using assms by (simp add: get_delayed_field_value_impl_def get_delayed_field_by_kind_def
      filter_by_kind_def)

lemma get_value_impl_step:
  assumes tr: "tracks self fid m b d" and answers: "final_read answers = Some (Aggregator b)"
  shows "get_delayed_field_value_impl self fid answers =
    Some (self\<lparr>delayed_field_reads := (delayed_field_reads self)(fid \<mapsto> RD_Value (Aggregator b))\<rparr>,
          Ok (Aggregator b))"
proof (cases "delayed_field_reads self fid")
  case None
  then show ?thesis using answers by (rule get_value_impl_vacant)
next
  case (Some r)
  show ?thesis
  proof (cases r)
    case (RD_Value v)
    with tr Some show ?thesis
      by (simp add: get_value_impl_captured tracks_def map_upd_triv)
  next
    case (RD_HistoryBounded h m' b')
    with tr Some have "validate_against_base_value h b m = Ok ()" "m' = m"
      by (auto simp: tracks_def validate_Ok_iff)
    with Some RD_HistoryBounded answers show ?thesis
      by (simp add: get_delayed_field_value_impl_def get_delayed_field_by_kind_def filter_by_kind_def
          read_value_loop_final capture_delayed_field_read_def Let_def)
  qed
qed

end
