(* ===== verification/Delayed_Fields.thy ===== *)
theory Delayed_Fields
  imports Delayed_Changes Delayed_Reads
begin

text \<open>
  \<open>src/aptos-move/aptos-aggregator/src/delayed_field_extension.rs\<close>: the delayed fields of one
  transaction, and the two implementations of the view they run against
  (\<open>LatestView\<close> in \<open>src/aptos-move/block-executor/src/view.rs\<close>): the parallel one, which
  captures reads, and the sequential one.

  A view is a record of functions over its own state. Each answers \<open>None\<close> when it is still
  waiting for another transaction.
\<close>

section \<open>The view of a transaction\<close>

type_synonym spec_error = "delayed_fields_speculative_error panic_or"

record 's view_ops =
  v_get :: "'s \<Rightarrow> delayed_field_id \<Rightarrow> ('s \<times> (delayed_field_value, spec_error) result) option"
  v_try :: "'s \<Rightarrow> delayed_field_id \<Rightarrow> signed_u128 \<Rightarrow> signed_u128 \<Rightarrow> u128 \<Rightarrow>
            ('s \<times> (bool, spec_error) result) option"
  v_gen :: "'s \<Rightarrow> u32 \<Rightarrow> 's \<times> (delayed_field_id, spec_error) result"

text \<open>Sequencing: a computation over a state that may block, fail or panic.\<close>

definition bind_sr ::
  "('s \<times> ('a, 'e) result) option \<Rightarrow> ('s \<Rightarrow> 'a \<Rightarrow> ('s \<times> ('b, 'e) result) option) \<Rightarrow>
   ('s \<times> ('b, 'e) result) option" where
  "bind_sr c k =
     Option.bind c (\<lambda>(s, r). case r of Ok x \<Rightarrow> k s x | Err e \<Rightarrow> Some (s, Err e) | Panic \<Rightarrow> Some (s, Panic))"

definition map_err_sr ::
  "('e \<Rightarrow> 'f) \<Rightarrow> ('s \<times> ('a, 'e) result) option \<Rightarrow> ('s \<times> ('a, 'f) result) option" where
  "map_err_sr f c = map_option (map_prod (\<lambda>s. s) (map_err f)) c"

lemma bind_sr_simps [simp]:
  "bind_sr None k = None"
  "bind_sr (Some (s, Ok x)) k = k s x"
  "bind_sr (Some (s, Err e)) k = Some (s, Err e)"
  "bind_sr (Some (s, Panic)) k = Some (s, Panic)"
  by (simp_all add: bind_sr_def)

lemma map_err_sr_simps [simp]:
  "map_err_sr f None = None"
  "map_err_sr f (Some (s, r)) = Some (s, map_err f r)"
  by (simp_all add: map_err_sr_def)

lemma bind_sr_mono [partial_function_mono]:
  "monotone (fun_ord option_ord) option_ord F \<Longrightarrow>
   (\<And>s x. monotone (fun_ord option_ord) option_ord (\<lambda>f. G s x f)) \<Longrightarrow>
   monotone (fun_ord option_ord) option_ord (\<lambda>f. bind_sr (F f) (\<lambda>s x. G s x f))"
  unfolding bind_sr_def
  apply (rule bind_mono, assumption)
  subgoal for y by (cases y; cases "snd y") (simp_all add: option.const_mono)
  done

section \<open>DelayedFieldData\<close>

type_synonym field_map = "delayed_field_id \<rightharpoonup> delayed_field_id delayed_change"

record 's txn_state =
  view :: 's
  delayed_fields :: field_map

abbreviation vm_lift :: "('a, spec_error) result \<Rightarrow> ('a, partial_vm_error) result" where
  "vm_lift \<equiv> map_err vm_error_from_panic_or"

abbreviation vm_panic :: "string \<Rightarrow> partial_vm_error" where
  "vm_panic msg \<equiv> vm_error_from_panic_error (code_invariant_error msg)"

definition try_add_delta ::
  "'s view_ops \<Rightarrow> 's txn_state \<Rightarrow> delayed_field_id \<Rightarrow> u128 \<Rightarrow> signed_u128 \<Rightarrow>
   ('s txn_state \<times> (bool, partial_vm_error) result) option" where
  "try_add_delta V self fid max_value input =
     (if signed_abs input > max_value then Some (self, Ok False)
      else case delayed_fields self fid of
        None \<Rightarrow>
          map_option (\<lambda>(s, r).
            (self\<lparr>view := s,
               delayed_fields :=
                 (if r = Ok True
                  then (delayed_fields self)(fid \<mapsto> Apply (AggregatorDelta (dwm_new input max_value)))
                  else delayed_fields self)\<rparr>, vm_lift r))
            (v_try V (view self) fid (Positive 0) input max_value)
      | Some (Create (Aggregator value)) \<Rightarrow>
          (case unsigned_add_delta (bm_new max_value) value input of
             Ok new_value \<Rightarrow>
               Some (self\<lparr>delayed_fields := (delayed_fields self)(fid \<mapsto> Create (Aggregator new_value))\<rparr>,
                     Ok True)
           | Err _ \<Rightarrow> Some (self, Ok False)
           | Panic \<Rightarrow> Some (self, Panic))
      | Some (Apply (AggregatorDelta previous_delta)) \<Rightarrow>
          map_option (\<lambda>(s, r).
            (case r of
               Ok True \<Rightarrow>
                 (case dwm_create_merged_delta previous_delta (dwm_new input max_value) of
                    Ok d \<Rightarrow>
                      (self\<lparr>view := s,
                         delayed_fields := (delayed_fields self)(fid \<mapsto> Apply (AggregatorDelta d))\<rparr>, Ok True)
                  | Err _ \<Rightarrow> (self\<lparr>view := s\<rparr>, Err (vm_panic ''Expected Ok, got Err''))
                  | Panic \<Rightarrow> (self\<lparr>view := s\<rparr>, Panic))
             | _ \<Rightarrow> (self\<lparr>view := s\<rparr>, vm_lift r)))
            (v_try V (view self) fid (dwm_update previous_delta) input (dwm_max_value previous_delta))
      | _ \<Rightarrow> Some (self, Err (vm_panic ''Tried to add delta to a non-aggregator delayed field'')))"

definition create_new_aggregator :: "'s txn_state \<Rightarrow> delayed_field_id \<Rightarrow> 's txn_state" where
  "create_new_aggregator self fid =
     self\<lparr>delayed_fields := (delayed_fields self)(fid \<mapsto> Create (Aggregator 0))\<rparr>"

text \<open>
  The recursion follows the base of an applied change; it is not structural, so a chain that never
  reaches the storage is the value \<open>None\<close> here (the source would exhaust its stack).
\<close>

partial_function (option) read_value ::
  "'s view_ops \<Rightarrow> field_map \<Rightarrow> 's \<Rightarrow> delayed_field_id \<Rightarrow> read_position \<Rightarrow>
   ('s \<times> (delayed_field_value, spec_error) result) option" where
  "read_value V dfs s fid read_position =
     (case dfs fid of
        Some (Create value) \<Rightarrow>
          (case read_position of
             BeforeCurrentTxn \<Rightarrow>
               Some (s, Err (panic_or_from (code_invariant_error
                 ''Asking for aggregator value BeforeCurrentTxn that was created in this transaction'')))
           | AfterCurrentTxn \<Rightarrow> Some (s, Ok value))
      | Some (Apply apply) \<Rightarrow>
          bind_sr
            (case get_apply_base_id_option apply of
               None \<Rightarrow> v_get V s fid
             | Some (Previous base_id) \<Rightarrow> read_value V dfs s base_id BeforeCurrentTxn
             | Some (Current base_id) \<Rightarrow> read_value V dfs s base_id AfterCurrentTxn)
            (\<lambda>s' value.
               case read_position of
                 BeforeCurrentTxn \<Rightarrow> Some (s', Ok value)
               | AfterCurrentTxn \<Rightarrow> Some (s', lift_panic (expect_ok (apply_to_base apply value))))
      | None \<Rightarrow> v_get V s fid)"

definition read_with ::
  "(delayed_field_value \<Rightarrow> ('a, panic_error) result) \<Rightarrow> 's view_ops \<Rightarrow> 's txn_state \<Rightarrow>
   delayed_field_id \<Rightarrow> ('s txn_state \<times> ('a, partial_vm_error) result) option" where
  "read_with into V self fid =
     map_option (\<lambda>(s, r). (self\<lparr>view := s\<rparr>, and_then (vm_lift r) (\<lambda>v. map_err vm_error_from_panic_error (into v))))
       (read_value V (delayed_fields self) (view self) fid AfterCurrentTxn)"

definition read_aggregator ::
  "'s view_ops \<Rightarrow> 's txn_state \<Rightarrow> delayed_field_id \<Rightarrow>
   ('s txn_state \<times> (u128, partial_vm_error) result) option" where
  "read_aggregator V self fid = read_with into_aggregator_value V self fid"

definition read_snapshot ::
  "'s view_ops \<Rightarrow> 's txn_state \<Rightarrow> delayed_field_id \<Rightarrow>
   ('s txn_state \<times> (u128, partial_vm_error) result) option" where
  "read_snapshot V self fid = read_with into_snapshot_value V self fid"

definition read_derived ::
  "'s view_ops \<Rightarrow> 's txn_state \<Rightarrow> delayed_field_id \<Rightarrow>
   ('s txn_state \<times> (bytes, partial_vm_error) result) option" where
  "read_derived V self fid = read_with into_derived_value V self fid"

text \<open>\<open>generate_delayed_field_id\<close> followed by \<open>insert\<close>, the common end of the operations below.\<close>

definition insert_generated ::
  "'s view_ops \<Rightarrow> 's txn_state \<Rightarrow> u32 \<Rightarrow> delayed_field_id delayed_change \<Rightarrow>
   's txn_state \<times> (delayed_field_id, partial_vm_error) result" where
  "insert_generated V self width change =
     (case v_gen V (view self) width of
        (s, Ok new_id) \<Rightarrow>
          (self\<lparr>view := s, delayed_fields := (delayed_fields self)(new_id \<mapsto> change)\<rparr>, Ok new_id)
      | (s, Err e) \<Rightarrow> (self\<lparr>view := s\<rparr>, Err (vm_error_from_panic_or e))
      | (s, Panic) \<Rightarrow> (self\<lparr>view := s\<rparr>, Panic))"

definition snapshot ::
  "'s view_ops \<Rightarrow> 's txn_state \<Rightarrow> delayed_field_id \<Rightarrow> u128 \<Rightarrow> u32 \<Rightarrow>
   's txn_state \<times> (delayed_field_id, partial_vm_error) result" where
  "snapshot V self aggregator_id max_value width =
     (case delayed_fields self aggregator_id of
        Some (Create (Aggregator value)) \<Rightarrow> insert_generated V self width (Create (Snapshot value))
      | Some (Apply (AggregatorDelta delta)) \<Rightarrow>
          if max_value \<noteq> dwm_max_value delta
          then (self, Err (vm_panic ''Tried to snapshot an aggregator with a different max value''))
          else insert_generated V self width (Apply (SnapshotDelta aggregator_id delta))
      | None \<Rightarrow>
          insert_generated V self width
            (Apply (SnapshotDelta aggregator_id (dwm_new (Positive 0) max_value)))
      | _ \<Rightarrow> (self, Err (vm_panic ''Tried to snapshot a non-aggregator delayed field'')))"

definition create_new_snapshot ::
  "'s view_ops \<Rightarrow> 's txn_state \<Rightarrow> u128 \<Rightarrow> u32 \<Rightarrow>
   's txn_state \<times> (delayed_field_id, partial_vm_error) result" where
  "create_new_snapshot V self value width = insert_generated V self width (Create (Snapshot value))"

definition u32_try_from :: "nat \<Rightarrow> u32 option" where
  "u32_try_from n = (if n < 2 ^ 32 then Some (of_nat n) else None)"

definition create_new_derived ::
  "'s view_ops \<Rightarrow> 's txn_state \<Rightarrow> bytes \<Rightarrow>
   's txn_state \<times> (delayed_field_id, partial_vm_error) result" where
  "create_new_derived V self value =
     (case u32_try_from (calculate_width_for_constant_string (length value)) of
        None \<Rightarrow> (self, Err (vm_panic ''Calculated DerivedStringSnapshot width exceeds u32''))
      | Some width \<Rightarrow> insert_generated V self width (Create (Derived value)))"

definition derive_string_concat ::
  "'s view_ops \<Rightarrow> 's txn_state \<Rightarrow> delayed_field_id \<Rightarrow> bytes \<Rightarrow> bytes \<Rightarrow>
   's txn_state \<times> (delayed_field_id, partial_vm_error) result" where
  "derive_string_concat V self snapshot_id prefix suffix =
     (case and_then
             (calculate_width_for_integer_embedded_string (length prefix + length suffix) snapshot_id)
             (\<lambda>w. ok_or (vm_panic ''Calculated DerivedStringSnapshot width exceeds u32'') (u32_try_from w)) of
        Err e \<Rightarrow> (self, Err e)
      | Panic \<Rightarrow> (self, Panic)
      | Ok width \<Rightarrow>
          let formula = Concat prefix suffix in
          (case delayed_fields self snapshot_id of
             Some (Create (Snapshot value)) \<Rightarrow>
               insert_generated V self width (Create (Derived (formula_apply_to formula value)))
           | Some (Apply (SnapshotDelta _ _)) \<Rightarrow>
               insert_generated V self width (Apply (SnapshotDerived snapshot_id formula))
           | None \<Rightarrow> insert_generated V self width (Apply (SnapshotDerived snapshot_id formula))
           | _ \<Rightarrow> (self, Err (vm_panic ''Tried to string_concat a non-snapshot delayed field''))))"

section \<open>The two views\<close>

record seq_view =
  unsync_fields :: "delayed_field_id \<rightharpoonup> delayed_field_value"
  seq_counter :: u32
  seq_field_reads :: "delayed_field_id set"

definition seq_get ::
  "seq_view \<Rightarrow> delayed_field_id \<Rightarrow> (seq_view \<times> (delayed_field_value, spec_error) result) option" where
  "seq_get s fid =
     Some (s\<lparr>seq_field_reads := insert fid (seq_field_reads s)\<rparr>,
       ok_or (panic_or_from (code_invariant_error
         ''DelayedField not found in get_delayed_field_value in sequential execution''))
         (unsync_fields s fid))"

definition seq_try ::
  "seq_view \<Rightarrow> delayed_field_id \<Rightarrow> signed_u128 \<Rightarrow> signed_u128 \<Rightarrow> u128 \<Rightarrow>
   (seq_view \<times> (bool, spec_error) result) option" where
  "seq_try s fid base_delta delta max_value =
     Some (s,
       and_then (ok_or (panic_or_from (code_invariant_error
           ''DelayedField not found in delayed_field_try_add_delta_outcome in sequential execution''))
         (unsync_fields s fid)) (\<lambda>v.
       and_then (lift_panic (into_aggregator_value v)) (\<lambda>value.
       let math = bm_new max_value in
       and_then (lift_panic (expect_ok (unsigned_add_delta math value base_delta))) (\<lambda>before.
       if is_err (unsigned_add_delta math before delta) then Ok False else Ok True))))"

definition seq_gen :: "seq_view \<Rightarrow> u32 \<Rightarrow> seq_view \<times> (delayed_field_id, spec_error) result" where
  "seq_gen s width =
     (case checked_add (seq_counter s) 1 of
        Some c \<Rightarrow> (s\<lparr>seq_counter := c\<rparr>, Ok \<lparr>unique_index = seq_counter s, id_width = width\<rparr>)
      | None \<Rightarrow> (s, Panic))"

definition seq_ops :: "seq_view view_ops" where
  "seq_ops = \<lparr>v_get = seq_get, v_try = seq_try, v_gen = seq_gen\<rparr>"

text \<open>
  The parallel view. \<open>reads\<close> and \<open>committed\<close> give the answers of the multi-version map; the
  atomic counter's \<open>fetch_add\<close> wraps around.
\<close>

record par_view =
  captured :: captured_reads
  par_counter :: u32

definition par_get ::
  "(delayed_field_id \<Rightarrow> read_answers) \<Rightarrow> par_view \<Rightarrow> delayed_field_id \<Rightarrow>
   (par_view \<times> (delayed_field_value, spec_error) result) option" where
  "par_get reads s fid =
     map_option (\<lambda>(c, r). (s\<lparr>captured := c\<rparr>, r)) (get_delayed_field_value_impl (captured s) fid (reads fid))"

definition par_try ::
  "(delayed_field_id \<Rightarrow> committed_answers) \<Rightarrow> par_view \<Rightarrow> delayed_field_id \<Rightarrow> signed_u128 \<Rightarrow> signed_u128 \<Rightarrow> u128 \<Rightarrow>
   (par_view \<times> (bool, spec_error) result) option" where
  "par_try committed s fid base_delta delta max_value =
     map_option (\<lambda>(c, r). (s\<lparr>captured := c\<rparr>, r))
       (delayed_field_try_add_delta_outcome_impl (captured s) fid (committed fid) base_delta delta max_value)"

definition par_gen :: "par_view \<Rightarrow> u32 \<Rightarrow> par_view \<times> (delayed_field_id, spec_error) result" where
  "par_gen s width =
     (s\<lparr>par_counter := par_counter s + 1\<rparr>, Ok \<lparr>unique_index = par_counter s, id_width = width\<rparr>)"

definition par_ops ::
  "(delayed_field_id \<Rightarrow> read_answers) \<Rightarrow> (delayed_field_id \<Rightarrow> committed_answers) \<Rightarrow> par_view view_ops" where
  "par_ops reads committed = \<lparr>v_get = par_get reads, v_try = par_try committed, v_gen = par_gen\<rparr>"

definition validate_delayed_field_id :: "u32 \<Rightarrow> u32 \<Rightarrow> delayed_field_id \<Rightarrow> (unit, panic_error) result" where
  "validate_delayed_field_id start_counter current_counter fid =
     (if unique_index fid < start_counter \<or> unique_index fid \<ge> current_counter
      then Err (code_invariant_error ''Invalid delayed field id'') else Ok ())"

section \<open>The contract of a view\<close>

text \<open>The net delta the transaction has applied to a field, and the limits it used.\<close>

definition net :: "field_map \<Rightarrow> delayed_field_id \<Rightarrow> int" where
  "net dfs i = (case dfs i of Some (Apply (AggregatorDelta d)) \<Rightarrow> delta_int (dwm_update d) | _ \<Rightarrow> 0)"

definition limits_ok :: "(delayed_field_id \<Rightarrow> u128) \<Rightarrow> field_map \<Rightarrow> bool" where
  "limits_ok lim dfs \<longleftrightarrow> (\<forall>i d. dfs i = Some (Apply (AggregatorDelta d)) \<longrightarrow> dwm_max_value d = lim i)"

text \<open>A field an attempt may be made on: untouched so far, or an aggregator with a delta.\<close>

definition attemptable :: "field_map \<Rightarrow> delayed_field_id \<Rightarrow> bool" where
  "attemptable dfs i \<longleftrightarrow> (case dfs i of None \<Rightarrow> True | Some (Apply (AggregatorDelta _)) \<Rightarrow> True | _ \<Rightarrow> False)"

definition moved :: "(delayed_field_id \<Rightarrow> int) \<Rightarrow> delayed_field_id \<Rightarrow> int \<Rightarrow> bool \<Rightarrow> (delayed_field_id \<Rightarrow> int)" where
  "moved D i x out = (if out then D(i := D i + x) else D)"

text \<open>The effect of an attempt on the field map.\<close>

definition field_step ::
  "(delayed_field_id \<Rightarrow> u128) \<Rightarrow> field_map \<Rightarrow> field_map \<Rightarrow> delayed_field_id \<Rightarrow> int \<Rightarrow> bool \<Rightarrow> bool" where
  "field_step lim dfs dfs' i x out \<longleftrightarrow>
     limits_ok lim dfs' \<and> attemptable dfs' i \<and> net dfs' = moved (net dfs) i x out \<and>
     (\<forall>j. j \<noteq> i \<longrightarrow> dfs' j = dfs j)"

lemma field_step_refl: "limits_ok lim dfs \<Longrightarrow> attemptable dfs i \<Longrightarrow> field_step lim dfs dfs i x False"
  by (simp add: field_step_def moved_def)

lemma field_step_set:
  assumes "limits_ok lim dfs" and "dwm_max_value d = lim i" and "delta_int (dwm_update d) = net dfs i + x"
  shows "field_step lim dfs (dfs(i \<mapsto> Apply (AggregatorDelta d))) i x True"
  using assms by (auto simp: field_step_def limits_ok_def attemptable_def moved_def net_def fun_eq_iff)

lemma merged_delta_in_range:
  assumes "dwm_max_value d = m" and "in_range m b" and "in_range m (b + delta_int (dwm_update d) + delta_int x)"
  obtains s where "dwm_create_merged_delta d (dwm_new x m) = Ok (dwm_new s m)"
    and "delta_int s = delta_int (dwm_update d) + delta_int x"
proof -
  have "\<bar>delta_int (dwm_update d) + delta_int x\<bar> \<le> int (unat m)"
    using assms by (auto simp: in_range_def abs_le_iff)
  then obtain s where "signed_add (bm_new m) (dwm_update d) x = Ok s"
    "delta_int s = delta_int (dwm_update d) + delta_int x" by (rule signed_add_total)
  then show ?thesis using that assms(1) by (simp add: dwm_create_merged_delta_Ok) (simp add: dwm_new_def)
qed

lemma out_of_range_large:
  assumes "in_range m v" and "m < signed_abs x" shows "\<not> in_range m (v + delta_int x)"
proof -
  have "int (unat m) < \<bar>delta_int x\<bar>"
    using assms(2) by (simp add: delta_int_abs [symmetric] word_less_nat_alt)
  with assms(1) show ?thesis by (auto simp: in_range_def)
qed

text \<open>A sequence of attempts on one aggregator, and the outcomes arithmetic prescribes for it.\<close>

fun run_attempts ::
  "'s view_ops \<Rightarrow> 's txn_state \<Rightarrow> delayed_field_id \<Rightarrow> u128 \<Rightarrow> signed_u128 list \<Rightarrow>
   ('s txn_state \<times> (bool list, partial_vm_error) result) option" where
  "run_attempts V st i m [] = Some (st, Ok [])"
| "run_attempts V st i m (x # xs) =
     bind_sr (try_add_delta V st i m x) (\<lambda>st' out.
     bind_sr (run_attempts V st' i m xs) (\<lambda>st'' outs. Some (st'', Ok (out # outs))))"

fun direct_outcomes :: "u128 \<Rightarrow> int \<Rightarrow> signed_u128 list \<Rightarrow> bool list" where
  "direct_outcomes m v [] = []"
| "direct_outcomes m v (x # xs) =
     in_range m (v + delta_int x) #
     direct_outcomes m (if in_range m (v + delta_int x) then v + delta_int x else v) xs"

text \<open>
  The shape the operations maintain: a snapshot's base is an aggregator the transaction did not
  create, and a derived string's base is a snapshot it did not create. \<open>field_value\<close> is the value
  of a field after the transaction's changes, from the values \<open>B\<close> before it.
\<close>

definition wf_fields :: "field_map \<Rightarrow> bool" where
  "wf_fields dfs \<longleftrightarrow> (\<forall>i c. dfs i = Some (Apply c) \<longrightarrow>
     (case c of
        AggregatorDelta _ \<Rightarrow> True
      | SnapshotDelta a _ \<Rightarrow> attemptable dfs a
      | SnapshotDerived t _ \<Rightarrow>
          (case dfs t of None \<Rightarrow> True | Some (Apply (SnapshotDelta _ _)) \<Rightarrow> True | _ \<Rightarrow> False)))"

definition value_from ::
  "delayed_field_id delayed_apply_change \<Rightarrow> delayed_field_value option \<Rightarrow> delayed_field_value option" where
  "value_from c base = Option.bind base (\<lambda>v. ok_opt (apply_to_base c v))"

definition field_value ::
  "(delayed_field_id \<rightharpoonup> delayed_field_value) \<Rightarrow> field_map \<Rightarrow> delayed_field_id \<Rightarrow> delayed_field_value option" where
  "field_value B dfs i =
     (case dfs i of
        None \<Rightarrow> B i
      | Some (Create v) \<Rightarrow> Some v
      | Some (Apply c) \<Rightarrow>
          (case c of
             AggregatorDelta _ \<Rightarrow> value_from c (B i)
           | SnapshotDelta a _ \<Rightarrow> value_from c (B a)
           | SnapshotDerived t _ \<Rightarrow>
               value_from c
                 (case dfs t of
                    None \<Rightarrow> B t
                  | Some (Apply c') \<Rightarrow>
                      (case c' of SnapshotDelta a _ \<Rightarrow> value_from c' (B a) | _ \<Rightarrow> None)
                  | _ \<Rightarrow> None)))"

lemma wf_fields_snapshot: "wf_fields dfs \<Longrightarrow> dfs i = Some (Apply (SnapshotDelta a d)) \<Longrightarrow> attemptable dfs a"
  by (fastforce simp: wf_fields_def)

lemma value_from_Some: "value_from c base = Some v \<longleftrightarrow> (\<exists>u. base = Some u \<and> apply_to_base c u = Ok v)"
  by (cases base) (auto simp: value_from_def result_simps)

lemma snapshot_entry:
  assumes "snapshot V st a m width = (st', Ok sid)" and "attemptable (delayed_fields st) a"
    and "limits_ok lim (delayed_fields st)" and "m = lim a"
  obtains s d where "v_gen V (view st) width = (s, Ok sid)"
    and "st' = st\<lparr>view := s, delayed_fields := (delayed_fields st)(sid \<mapsto> Apply (SnapshotDelta a d))\<rparr>"
    and "dwm_max_value d = m" and "delta_int (dwm_update d) = net (delayed_fields st) a"
  using assms
  by (auto simp: snapshot_def insert_generated_def attemptable_def net_def dwm_new_def limits_ok_def
      split: option.splits delayed_change.splits delayed_apply_change.splits prod.splits result.splits)

lemma dwm_apply_in_range:
  assumes "dwm_max_value d = m" and "in_range m (int (unat b))"
    and "in_range m (int (unat b) + delta_int (dwm_update d))"
  obtains n where "dwm_apply_to d b = Ok n" and "int (unat n) = int (unat b) + delta_int (dwm_update d)"
proof -
  have same: "dwm_apply_to d b = Ok n \<longleftrightarrow> unsigned_add_delta (bm_new m) b (dwm_update d) = Ok n" for n
    using assms(1) by (cases "dwm_update d")
      (auto simp: dwm_apply_to_def unsigned_add_delta_def result_simps)
  from assms(2) have "unat b \<le> unat m" by (simp add: in_range_def)
  then show ?thesis
    using assms(3) that same
    by (cases rule: unsigned_add_delta_cases [where d = "dwm_update d"]) (auto simp: in_range_def)
qed

lemma net_insert_other:
  "dfs sid = None \<Longrightarrow> net (dfs(sid \<mapsto> Apply (SnapshotDelta a d))) = net dfs"
  by (auto simp: net_def fun_eq_iff)

text \<open>
  \<open>B\<close> holds the values at the beginning of the transaction. A view with invariant \<open>inv\<close>
  returns them, and answers an attempt on top of the net delta by whether the sum is in range.
\<close>

locale delayed_view =
  fixes V :: "'s view_ops" and B :: "delayed_field_id \<rightharpoonup> delayed_field_value"
    and lim :: "delayed_field_id \<Rightarrow> u128" and inv :: "'s \<Rightarrow> (delayed_field_id \<Rightarrow> int) \<Rightarrow> bool"
  assumes get_law: "inv s D \<Longrightarrow> B i = Some v \<Longrightarrow> \<exists>s'. v_get V s i = Some (s', Ok v) \<and> inv s' D"
    and try_law: "inv s D \<Longrightarrow> B i = Some (Aggregator b) \<Longrightarrow> delta_int d = D i \<Longrightarrow>
      \<exists>s'. v_try V s i d x (lim i) = Some (s', Ok (in_range (lim i) (int (unat b) + D i + delta_int x))) \<and>
        inv s' (moved D i (delta_int x) (in_range (lim i) (int (unat b) + D i + delta_int x)))"
    and base_law: "inv s D \<Longrightarrow> B i = Some (Aggregator b) \<Longrightarrow>
      in_range (lim i) (int (unat b)) \<and> in_range (lim i) (int (unat b) + D i)"
    and gen_law: "inv s D \<Longrightarrow> v_gen V s w = (s', r) \<Longrightarrow> inv s' D"
begin

lemma try_add_delta_law:
  assumes inv: "inv (view st) (net (delayed_fields st))" and lim: "limits_ok lim (delayed_fields st)"
    and B: "B i = Some (Aggregator b)" and kind: "attemptable (delayed_fields st) i"
  shows "\<exists>st'. try_add_delta V st i (lim i) x =
      Some (st', Ok (in_range (lim i) (int (unat b) + net (delayed_fields st) i + delta_int x))) \<and>
    inv (view st') (net (delayed_fields st')) \<and>
    field_step lim (delayed_fields st) (delayed_fields st') i (delta_int x)
      (in_range (lim i) (int (unat b) + net (delayed_fields st) i + delta_int x))"
    (is "\<exists>st'. _ = Some (st', Ok ?out) \<and> ?good st'")
proof -
  let ?D = "net (delayed_fields st)"
  note range = base_law [OF inv B]
  consider (large) "signed_abs x > lim i"
    | (vacant) "\<not> signed_abs x > lim i" "delayed_fields st i = None" "?D i = 0"
    | (delta) d where "\<not> signed_abs x > lim i" "delayed_fields st i = Some (Apply (AggregatorDelta d))"
        "?D i = delta_int (dwm_update d)" "dwm_max_value d = lim i"
    using kind lim by (auto simp: attemptable_def net_def limits_ok_def
        split: option.splits delayed_change.splits delayed_apply_change.splits)
  then show ?thesis
  proof cases
    case large
    then have "\<not> ?out" using out_of_range_large range by blast
    with large inv field_step_refl [OF lim kind] show ?thesis
      by (simp add: try_add_delta_def)
  next
    case vacant
    then obtain s' where s': "v_try V (view st) i (Positive 0) x (lim i) = Some (s', Ok ?out)"
      "inv s' (moved ?D i (delta_int x) ?out)" using try_law [OF inv B, of "Positive 0" x] by auto
    have "field_step lim (delayed_fields st)
      ((delayed_fields st)(i \<mapsto> Apply (AggregatorDelta (dwm_new x (lim i))))) i (delta_int x) True"
      using vacant by (intro field_step_set [OF lim]) (simp_all add: dwm_new_def)
    with s' vacant field_step_refl [OF lim kind] show ?thesis
      by (auto simp: try_add_delta_def field_step_def)
  next
    case delta
    then obtain s' where s': "v_try V (view st) i (dwm_update d) x (lim i) = Some (s', Ok ?out)"
      "inv s' (moved ?D i (delta_int x) ?out)" using try_law [OF inv B, of "dwm_update d" x] by auto
    show ?thesis
    proof (cases ?out)
      case True
      then obtain t where t: "dwm_create_merged_delta d (dwm_new x (lim i)) = Ok (dwm_new t (lim i))"
        "delta_int t = delta_int (dwm_update d) + delta_int x"
        using merged_delta_in_range [of d "lim i" "int (unat b)" x] delta range by auto
      then have "field_step lim (delayed_fields st)
        ((delayed_fields st)(i \<mapsto> Apply (AggregatorDelta (dwm_new t (lim i))))) i (delta_int x) True"
        using delta by (intro field_step_set [OF lim]) (simp_all add: dwm_new_def)
      with s' t delta True show ?thesis
        by (auto simp: try_add_delta_def field_step_def)
    next
      case False
      with s' delta field_step_refl [OF lim kind] show ?thesis
        by (auto simp: try_add_delta_def moved_def)
    qed
  qed
qed

lemma run_attempts_law:
  assumes "inv (view st) (net (delayed_fields st))" and "limits_ok lim (delayed_fields st)"
    and "B i = Some (Aggregator b)" and "attemptable (delayed_fields st) i"
  shows "\<exists>st'. run_attempts V st i (lim i) xs =
      Some (st', Ok (direct_outcomes (lim i) (int (unat b) + net (delayed_fields st) i) xs)) \<and>
    inv (view st') (net (delayed_fields st')) \<and> limits_ok lim (delayed_fields st') \<and>
    attemptable (delayed_fields st') i \<and> (\<forall>j. j \<noteq> i \<longrightarrow> delayed_fields st' j = delayed_fields st j)"
  using assms
proof (induction xs arbitrary: st)
  case (Cons x xs)
  from try_add_delta_law [OF Cons.prems, of x] obtain st' where
    step: "try_add_delta V st i (lim i) x =
      Some (st', Ok (in_range (lim i) (int (unat b) + net (delayed_fields st) i + delta_int x)))"
    and "inv (view st') (net (delayed_fields st'))"
    and fs: "field_step lim (delayed_fields st) (delayed_fields st') i (delta_int x)
      (in_range (lim i) (int (unat b) + net (delayed_fields st) i + delta_int x))" by blast
  with Cons.IH [of st'] Cons.prems(3) show ?case
    by (auto simp: field_step_def moved_def add.assoc)
qed simp

text \<open>Reading terminates: the chain of bases has at most three links.\<close>

lemma read_storage:
  assumes "inv s D" and "B i = Some v" and "attemptable dfs i"
  shows "\<exists>s'. read_value V dfs s i BeforeCurrentTxn = Some (s', Ok v) \<and> inv s' D"
  using assms get_law [OF assms(1,2)]
  by (auto simp: attemptable_def read_value.simps [of V dfs s i]
      split: option.splits delayed_change.splits delayed_apply_change.splits)

lemma read_delta:
  assumes "inv s D" and "dfs i = Some (Apply (SnapshotDelta a d))" and "attemptable dfs a"
    and "value_from (SnapshotDelta a d) (B a) = Some v"
  shows "\<exists>s'. read_value V dfs s i AfterCurrentTxn = Some (s', Ok v) \<and> inv s' D"
proof -
  from assms(4) obtain u where u: "B a = Some u" "apply_to_base (SnapshotDelta a d) u = Ok v"
    by (auto simp: value_from_Some)
  from read_storage [OF assms(1) u(1) assms(3)] u assms(2) show ?thesis
    by (auto simp: read_value.simps [of V dfs s i])
qed

lemma read_derived_base:
  assumes "inv s D" and wf: "wf_fields dfs"
    and base: "(case dfs t of None \<Rightarrow> B t | Some (Apply (SnapshotDelta a d)) \<Rightarrow>
        value_from (SnapshotDelta a d) (B a) | _ \<Rightarrow> None) = Some u"
  shows "\<exists>s'. read_value V dfs s t AfterCurrentTxn = Some (s', Ok u) \<and> inv s' D"
proof (cases "dfs t")
  case None
  with base get_law [OF assms(1)] show ?thesis by (auto simp: read_value.simps [of V dfs s t])
next
  case (Some change')
  with base obtain a d where ad: "dfs t = Some (Apply (SnapshotDelta a d))"
    "value_from (SnapshotDelta a d) (B a) = Some u"
    by (auto split: delayed_change.splits delayed_apply_change.splits)
  with wf_fields_snapshot [OF wf] read_delta [OF assms(1)] show ?thesis by blast
qed

lemma read_value_law:
  assumes "inv s D" and wf: "wf_fields dfs" and v: "field_value B dfs i = Some v"
  shows "\<exists>s'. read_value V dfs s i AfterCurrentTxn = Some (s', Ok v) \<and> inv s' D"
proof -
  consider (none) "dfs i = None" | (created) w where "dfs i = Some (Create w)"
    | (agg) d where "dfs i = Some (Apply (AggregatorDelta d))"
    | (snap) a d where "dfs i = Some (Apply (SnapshotDelta a d))"
    | (derived) t f where "dfs i = Some (Apply (SnapshotDerived t f))"
    by (metis option.exhaust delayed_change.exhaust delayed_apply_change.exhaust)
  then show ?thesis
  proof cases
    case agg
    with v obtain u where "B i = Some u" "apply_to_base (AggregatorDelta d) u = Ok v"
      by (auto simp: field_value_def value_from_Some)
    with get_law [OF assms(1)] agg show ?thesis
      by (fastforce simp: read_value.simps [of V dfs s i])
  next
    case snap
    with wf_fields_snapshot [OF wf snap] v read_delta [OF assms(1)] show ?thesis
      by (auto simp: field_value_def)
  next
    case derived
    with v obtain u where u: "apply_to_base (SnapshotDerived t f) u = Ok v"
      and base: "(case dfs t of None \<Rightarrow> B t | Some (Apply (SnapshotDelta a d)) \<Rightarrow>
          value_from (SnapshotDelta a d) (B a) | _ \<Rightarrow> None) = Some u"
      by (auto simp: field_value_def value_from_Some split: option.splits delayed_change.splits
          delayed_apply_change.splits)
    from read_derived_base [OF assms(1) wf base] u derived show ?thesis
      by (auto simp: read_value.simps [of V dfs s i])
  qed (use assms get_law in \<open>auto simp: field_value_def read_value.simps [of V dfs s i]\<close>)
qed

text \<open>A snapshot keeps its value through later attempts on its aggregator.\<close>

lemma snapshot_stable:
  assumes inv: "inv (view st) (net (delayed_fields st))" and lim: "limits_ok lim (delayed_fields st)"
    and a: "B a = Some (Aggregator b)" "attemptable (delayed_fields st) a"
    and snap: "snapshot V st a (lim a) width = (st1, Ok sid)"
    and fresh: "sid \<noteq> a" "delayed_fields st sid = None"
  shows "\<exists>st2 outs st3 n. run_attempts V st1 a (lim a) xs = Some (st2, Ok outs) \<and>
    read_snapshot V st2 sid = Some (st3, Ok n) \<and> int (unat n) = int (unat b) + net (delayed_fields st) a"
proof -
  obtain s d where gen: "v_gen V (view st) width = (s, Ok sid)"
    and st1: "st1 = st\<lparr>view := s, delayed_fields := (delayed_fields st)(sid \<mapsto> Apply (SnapshotDelta a d))\<rparr>"
    and d: "dwm_max_value d = lim a" "delta_int (dwm_update d) = net (delayed_fields st) a"
    by (rule snapshot_entry [OF snap a(2) lim refl])
  have inv1: "inv (view st1) (net (delayed_fields st1))"
    using gen_law [OF inv gen] fresh by (simp add: st1 net_insert_other)
  have lim1: "limits_ok lim (delayed_fields st1)" using lim by (auto simp: st1 limits_ok_def)
  have att1: "attemptable (delayed_fields st1) a" using a(2) fresh by (simp add: st1 attemptable_def)
  from run_attempts_law [OF inv1 lim1 a(1) att1, of xs] obtain st2 outs where
    run: "run_attempts V st1 a (lim a) xs = Some (st2, Ok outs)"
    and inv2: "inv (view st2) (net (delayed_fields st2))" and att2: "attemptable (delayed_fields st2) a"
    and entry: "delayed_fields st2 sid = Some (Apply (SnapshotDelta a d))"
    using fresh by (auto simp: st1)
  from base_law [OF inv a(1)] obtain n where n: "dwm_apply_to d b = Ok n"
    "int (unat n) = int (unat b) + net (delayed_fields st) a"
    using d dwm_apply_in_range [of d "lim a" b] by auto
  then have "value_from (SnapshotDelta a d) (B a) = Some (Snapshot n)"
    using a(1) by (simp add: value_from_def)
  from read_delta [OF inv2 entry att2 this] obtain s3 where
    "read_value V (delayed_fields st2) (view st2) sid AfterCurrentTxn = Some (s3, Ok (Snapshot n))" by blast
  with run n show ?thesis by (simp add: read_snapshot_def read_with_def)
qed

end

text \<open>An attempt that returns an outcome got it from the view.\<close>

lemma try_add_delta_vacantD:
  assumes "try_add_delta V st i m x = Some (st', Ok out)" and "\<not> signed_abs x > m" and "delayed_fields st i = None"
  shows "v_try V (view st) i (Positive 0) x m = Some (view st', Ok out)"
proof (cases "v_try V (view st) i (Positive 0) x m")
  case (Some sr)
  with assms show ?thesis by (cases sr) (auto simp: try_add_delta_def result_simps)
qed (use assms in \<open>simp add: try_add_delta_def\<close>)

lemma try_add_delta_deltaD:
  assumes "try_add_delta V st i m x = Some (st', Ok out)" and "\<not> signed_abs x > m"
    and "delayed_fields st i = Some (Apply (AggregatorDelta d))"
  shows "v_try V (view st) i (dwm_update d) x (dwm_max_value d) = Some (view st', Ok out)"
proof (cases "v_try V (view st) i (dwm_update d) x (dwm_max_value d)")
  case (Some sr)
  with assms show ?thesis
    by (cases sr; cases "snd sr") (auto simp: try_add_delta_def split: result.splits bool.splits)
qed (use assms in \<open>simp add: try_add_delta_def\<close>)

text \<open>
  A speculative view also remembers which values \<open>z\<close> of a field are consistent with what it has
  answered (\<open>adm\<close>), and an attempt leaves the rest of its state (\<open>frm\<close>) alone.
\<close>

locale speculative_view = delayed_view V B lim inv
  for V :: "'s view_ops" and B lim inv +
  fixes adm :: "'s \<Rightarrow> delayed_field_id \<Rightarrow> int \<Rightarrow> bool" and frm :: "delayed_field_id \<Rightarrow> 's \<Rightarrow> 't"
  assumes try_adm: "inv s D \<Longrightarrow> B i = Some (Aggregator b) \<Longrightarrow> delta_int d = D i \<Longrightarrow>
      v_try V s i d x (lim i) = Some (s', Ok out) \<Longrightarrow>
      (adm s' i z \<longleftrightarrow> adm s i z \<and> in_range (lim i) (z + D i + delta_int x) = out) \<and> frm i s' = frm i s"
    and adm_range: "inv s D \<Longrightarrow> B i = Some (Aggregator b) \<Longrightarrow> adm s i z \<Longrightarrow> in_range (lim i) (z + D i)"
begin

lemma try_add_delta_adm:
  assumes inv: "inv (view st) (net (delayed_fields st))" and lim: "limits_ok lim (delayed_fields st)"
    and B: "B i = Some (Aggregator b)" and kind: "attemptable (delayed_fields st) i"
    and run: "try_add_delta V st i (lim i) x = Some (st', Ok out)"
  shows "(adm (view st') i z \<longleftrightarrow> adm (view st) i z \<and>
      in_range (lim i) (z + net (delayed_fields st) i + delta_int x) = out) \<and>
    frm i (view st') = frm i (view st)"
proof -
  let ?D = "net (delayed_fields st)"
  consider (large) "signed_abs x > lim i"
    | (vacant) "\<not> signed_abs x > lim i" "delayed_fields st i = None" "?D i = delta_int (Positive 0)"
    | (delta) d where "\<not> signed_abs x > lim i" "delayed_fields st i = Some (Apply (AggregatorDelta d))"
        "?D i = delta_int (dwm_update d)" "dwm_max_value d = lim i"
    using kind lim by (auto simp: attemptable_def net_def limits_ok_def
        split: option.splits delayed_change.splits delayed_apply_change.splits)
  then show ?thesis
  proof cases
    case large
    then have "st' = st" "\<not> out" using run by (simp_all add: try_add_delta_def)
    moreover have "adm (view st) i z \<Longrightarrow> \<not> in_range (lim i) (z + ?D i + delta_int x)"
      by (rule out_of_range_large [OF adm_range [OF inv B] large])
    ultimately show ?thesis by blast
  next
    case vacant
    with try_adm [OF inv B _ try_add_delta_vacantD [OF run]] show ?thesis by simp
  next
    case delta
    with try_adm [OF inv B, of "dwm_update d"] try_add_delta_deltaD [OF run] show ?thesis by simp
  qed
qed

lemma run_attempts_adm:
  assumes "inv (view st) (net (delayed_fields st))" and "limits_ok lim (delayed_fields st)"
    and "B i = Some (Aggregator b)" and "attemptable (delayed_fields st) i"
    and "run_attempts V st i (lim i) xs = Some (st', Ok outs)"
  shows "(adm (view st') i z \<longleftrightarrow> adm (view st) i z \<and>
      direct_outcomes (lim i) (z + net (delayed_fields st) i) xs = outs) \<and>
    frm i (view st') = frm i (view st)"
  using assms
proof (induction xs arbitrary: st outs)
  case (Cons x xs)
  let ?D = "net (delayed_fields st)"
  let ?out = "in_range (lim i) (int (unat b) + ?D i + delta_int x)"
  obtain st1 where step: "try_add_delta V st i (lim i) x = Some (st1, Ok ?out)"
    and inv1: "inv (view st1) (net (delayed_fields st1))"
    and fs: "field_step lim (delayed_fields st) (delayed_fields st1) i (delta_int x) ?out"
    using try_add_delta_law [OF Cons.prems(1-4), of x] by blast
  from fs have ok1: "limits_ok lim (delayed_fields st1)" "attemptable (delayed_fields st1) i"
    and net1: "net (delayed_fields st1) i = (if ?out then ?D i + delta_int x else ?D i)"
    by (simp_all add: field_step_def moved_def)
  from Cons.prems(5) step obtain outs1 where run1: "run_attempts V st1 i (lim i) xs = Some (st', Ok outs1)"
    and outs: "outs = ?out # outs1"
    by (auto simp: bind_sr_def split: Option.bind_splits result.splits)
  note now = try_add_delta_adm [OF Cons.prems(1-4) step, of z]
    and later = Cons.IH [OF inv1 ok1(1) Cons.prems(3) ok1(2) run1]
  show ?case
    using now later net1 outs by (cases ?out) (auto simp: add.assoc)
qed simp

end

section \<open>Both views implement the contract\<close>

definition bases_ok ::
  "(delayed_field_id \<rightharpoonup> delayed_field_value) \<Rightarrow> (delayed_field_id \<Rightarrow> u128) \<Rightarrow> (delayed_field_id \<Rightarrow> int) \<Rightarrow> bool" where
  "bases_ok B lim D \<longleftrightarrow> (\<forall>i b. B i = Some (Aggregator b) \<longrightarrow>
     in_range (lim i) (int (unat b)) \<and> in_range (lim i) (int (unat b) + D i))"

lemma bases_ok_moved:
  assumes "bases_ok B lim D" and "B i = Some (Aggregator b)"
  shows "bases_ok B lim (moved D i x (in_range (lim i) (int (unat b) + D i + x)))"
  using assms by (auto simp: bases_ok_def moved_def add.assoc)

definition seq_inv ::
  "(delayed_field_id \<rightharpoonup> delayed_field_value) \<Rightarrow> (delayed_field_id \<Rightarrow> u128) \<Rightarrow> seq_view \<Rightarrow>
   (delayed_field_id \<Rightarrow> int) \<Rightarrow> bool" where
  "seq_inv B lim s D \<longleftrightarrow> unsync_fields s = B \<and> bases_ok B lim D"

lemma seq_try_step:
  assumes "unsync_fields s i = Some (Aggregator b)" and "in_range m (int (unat b))"
    and "in_range m (int (unat b) + delta_int d)"
  shows "seq_try s i d x m = Some (s, Ok (in_range m (int (unat b) + delta_int d + delta_int x)))"
proof -
  from assms(2) have "unat b \<le> unat m" by (simp add: in_range_def)
  then show ?thesis
    using assms(1,3)
    by (cases rule: unsigned_add_delta_cases [where d = d])
      (auto simp: seq_try_def Let_def is_err_add_delta in_range_def)
qed

interpretation seq: delayed_view seq_ops B lim "seq_inv B lim" for B lim
proof
  fix s D i b d x
  assume "seq_inv B lim s D" "B i = Some (Aggregator b)" "delta_int d = D i"
  then show "\<exists>s'. v_try seq_ops s i d x (lim i) =
        Some (s', Ok (in_range (lim i) (int (unat b) + D i + delta_int x))) \<and>
      seq_inv B lim s' (moved D i (delta_int x) (in_range (lim i) (int (unat b) + D i + delta_int x)))"
    using seq_try_step [of s i b "lim i" d x] bases_ok_moved [of B lim D i b "delta_int x"]
    by (auto simp: seq_inv_def seq_ops_def bases_ok_def)
qed (auto simp: seq_inv_def seq_ops_def seq_get_def seq_gen_def bases_ok_def split: option.splits)

text \<open>
  The parallel view, when the multi-version map answers with the values \<open>B\<close>: the captured read of
  every aggregator follows the net delta applied to it.
\<close>

definition par_inv ::
  "(delayed_field_id \<Rightarrow> read_answers) \<Rightarrow> (delayed_field_id \<Rightarrow> committed_answers) \<Rightarrow>
   (delayed_field_id \<rightharpoonup> delayed_field_value) \<Rightarrow> (delayed_field_id \<Rightarrow> u128) \<Rightarrow> par_view \<Rightarrow>
   (delayed_field_id \<Rightarrow> int) \<Rightarrow> bool" where
  "par_inv reads committed B lim s D \<longleftrightarrow> bases_ok B lim D \<and>
     (\<forall>i v. B i = Some v \<longrightarrow> final_read (reads i) = Some v) \<and>
     (\<forall>i b. B i = Some (Aggregator b) \<longrightarrow>
        read_committed_loop (committed i) = Some (Ok (Aggregator b)) \<and>
        (\<forall>d. delta_int d = D i \<longrightarrow> tracks (captured s) i (lim i) b d)) \<and>
     (\<forall>i v. B i = Some v \<and> \<not> (\<exists>b. v = Aggregator b) \<longrightarrow>
        delayed_field_reads (captured s) i = None \<or> delayed_field_reads (captured s) i = Some (RD_Value v))"

lemma tracks_cong:
  "delayed_field_reads c' i = delayed_field_reads c i \<Longrightarrow> tracks c' i m b d = tracks c i m b d"
  by (simp add: tracks_def)

lemma tracks_delta_cong: "tracks c i m b d \<Longrightarrow> delta_int e = delta_int d \<Longrightarrow> tracks c i m b e"
  by (simp add: tracks_def achieved_def split: option.splits delayed_field_read.splits)

lemma par_inv_counter: "par_inv reads committed B lim (s\<lparr>par_counter := n\<rparr>) D = par_inv reads committed B lim s D"
  by (simp add: par_inv_def)

lemma attempt_ok_tracks:
  assumes "attempt_ok c c' i m b d x"
    and "delta_int e = (if in_range m (int (unat b) + delta_int d + delta_int x)
      then delta_int d + delta_int x else delta_int d)"
  shows "tracks c' i m b e"
proof (cases "in_range m (int (unat b) + delta_int d + delta_int x)")
  case True
  with assms show ?thesis unfolding attempt_ok_def Let_def by presburger
next
  case False
  with assms(1) have "tracks c' i m b d" unfolding attempt_ok_def Let_def by presburger
  with assms(2) False show ?thesis by (simp add: tracks_delta_cong)
qed

lemma attempt_ok_other: "attempt_ok c c' i m b d x \<Longrightarrow> j \<noteq> i \<Longrightarrow> delayed_field_reads c' j = delayed_field_reads c j"
  unfolding attempt_ok_def Let_def by blast

lemma attempt_ok_admits:
  "attempt_ok c c' i m b d x \<Longrightarrow> read_admits c' i m z \<longleftrightarrow> read_admits c i m z \<and>
     in_range m (z + delta_int d + delta_int x) = in_range m (int (unat b) + delta_int d + delta_int x)"
  unfolding attempt_ok_def Let_def by blast

lemma par_try_step:
  assumes inv: "par_inv reads committed B lim s D" and B: "B i = Some (Aggregator b)" and d: "delta_int d = D i"
  shows "\<exists>s'. par_try committed s i d x (lim i) =
      Some (s', Ok (in_range (lim i) (int (unat b) + D i + delta_int x))) \<and>
    par_inv reads committed B lim s' (moved D i (delta_int x) (in_range (lim i) (int (unat b) + D i + delta_int x))) \<and>
    attempt_ok (captured s) (captured s') i (lim i) b d x"
proof -
  let ?out = "in_range (lim i) (int (unat b) + D i + delta_int x)"
  from inv B d have tr: "tracks (captured s) i (lim i) b d"
    and cm: "read_committed_loop (committed i) = Some (Ok (Aggregator b))" by (simp_all add: par_inv_def)
  from try_add_impl_step [OF tr cm, of x] obtain c' where
    step: "delayed_field_try_add_delta_outcome_impl (captured s) i (committed i) d x (lim i) = Some (c', Ok ?out)"
    and ok: "attempt_ok (captured s) c' i (lim i) b d x" unfolding d by blast
  have here: "tracks c' i (lim i) b e" if "delta_int e = moved D i (delta_int x) ?out i" for e
    using that by (intro attempt_ok_tracks [OF ok]) (simp add: moved_def d)
  note there = attempt_ok_other [OF ok]
  have "par_inv reads committed B lim (s\<lparr>captured := c'\<rparr>) (moved D i (delta_int x) ?out)"
    unfolding par_inv_def
  proof (intro conjI allI impI)
    fix j b' e
    assume "B j = Some (Aggregator b')" "delta_int e = moved D i (delta_int x) ?out j"
    then show "tracks (captured (s\<lparr>captured := c'\<rparr>)) j (lim j) b' e"
      using here inv B
      by (cases "j = i") (simp_all add: par_inv_def tracks_cong [OF there] moved_def split: if_splits)
  next
    fix j v
    assume "B j = Some v \<and> \<not> (\<exists>b. v = Aggregator b)"
    then show "delayed_field_reads (captured (s\<lparr>captured := c'\<rparr>)) j = None \<or>
        delayed_field_reads (captured (s\<lparr>captured := c'\<rparr>)) j = Some (RD_Value v)"
      using there [of j] inv B by (cases "j = i") (auto simp: par_inv_def)
  qed (use inv bases_ok_moved [of B lim D i b "delta_int x"] B in \<open>simp_all add: par_inv_def\<close>)
  with step ok show ?thesis by (intro exI [of _ "s\<lparr>captured := c'\<rparr>"]) (simp add: par_try_def)
qed

lemma delta_exists:
  fixes m b :: u128
  assumes "in_range m (int (unat b))" and "in_range m (int (unat b) + z)"
  shows "\<exists>d. delta_int d = z"
proof -
  have small: "\<bar>z\<bar> \<le> int (unat m)" using assms by (auto simp: in_range_def abs_le_iff)
  have "unat m < 2 ^ 128" using unsigned_less [of m, where 'a = nat] by simp
  with small obtain n where n: "\<bar>z\<bar> = int n" "n < 2 ^ 128" using zero_le_imp_eq_int [of "\<bar>z\<bar>"] by auto
  then have "unat (of_nat n :: u128) = n" by (simp add: unat_of_nat)
  with n(1) have "delta_int (if 0 \<le> z then Positive (of_nat n) else Negative (of_nat n)) = z" by auto
  then show ?thesis by blast
qed

lemma par_get_step:
  assumes inv: "par_inv reads committed B lim s D" and B: "B i = Some v"
  shows "\<exists>s'. par_get reads s i = Some (s', Ok v) \<and> par_inv reads committed B lim s' D"
proof -
  let ?c = "(captured s)\<lparr>delayed_field_reads := (delayed_field_reads (captured s))(i \<mapsto> RD_Value v)\<rparr>"
  have get: "get_delayed_field_value_impl (captured s) i (reads i) = Some (?c, Ok v)"
  proof (cases "\<exists>b. v = Aggregator b")
    case True
    then obtain b where v: "v = Aggregator b" ..
    with inv B obtain d where "delta_int d = D i"
      using delta_exists [of "lim i" b "D i"] by (auto simp: par_inv_def bases_ok_def)
    with inv B v have "tracks (captured s) i (lim i) b d" and "final_read (reads i) = Some (Aggregator b)"
      by (simp_all add: par_inv_def)
    from get_value_impl_step [OF this] v show ?thesis by simp
  next
    case False
    with inv B have "final_read (reads i) = Some v" and
      "delayed_field_reads (captured s) i = None \<or> delayed_field_reads (captured s) i = Some (RD_Value v)"
      by (simp_all add: par_inv_def)
    then show ?thesis
      using get_value_impl_vacant get_value_impl_captured by (auto simp: map_upd_triv)
  qed
  have "par_inv reads committed B lim (s\<lparr>captured := ?c\<rparr>) D"
    unfolding par_inv_def
  proof (intro conjI allI impI)
    fix j b e
    assume j: "B j = Some (Aggregator b)" "delta_int e = D j"
    then have "unat b \<le> unat (lim j)" "in_range (lim j) (int (unat b) + delta_int e)"
      using inv by (auto simp: par_inv_def bases_ok_def in_range_def)
    with j inv B show "tracks (captured (s\<lparr>captured := ?c\<rparr>)) j (lim j) b e"
      by (cases "j = i") (simp_all add: par_inv_def tracks_def)
  next
    fix j w
    assume "B j = Some w \<and> \<not> (\<exists>b. w = Aggregator b)"
    then show "delayed_field_reads (captured (s\<lparr>captured := ?c\<rparr>)) j = None \<or>
        delayed_field_reads (captured (s\<lparr>captured := ?c\<rparr>)) j = Some (RD_Value w)"
      using inv B by (cases "j = i") (simp_all add: par_inv_def)
  qed (use inv in \<open>simp_all add: par_inv_def\<close>)
  with get show ?thesis by (simp add: par_get_def)
qed

interpretation par: delayed_view "par_ops reads committed" B lim "par_inv reads committed B lim"
  for reads committed B lim
proof
  fix s D i v
  assume "par_inv reads committed B lim s D" "B i = Some v"
  then show "\<exists>s'. v_get (par_ops reads committed) s i = Some (s', Ok v) \<and> par_inv reads committed B lim s' D"
    using par_get_step by (simp add: par_ops_def)
next
  fix s D i b d x
  assume "par_inv reads committed B lim s D" "B i = Some (Aggregator b)" "delta_int d = D i"
  then show "\<exists>s'. v_try (par_ops reads committed) s i d x (lim i) =
        Some (s', Ok (in_range (lim i) (int (unat b) + D i + delta_int x))) \<and>
      par_inv reads committed B lim s' (moved D i (delta_int x) (in_range (lim i) (int (unat b) + D i + delta_int x)))"
    using par_try_step by (fastforce simp: par_ops_def)
next
  fix s D w s' r
  assume "par_inv reads committed B lim s D" "v_gen (par_ops reads committed) s w = (s', r)"
  then show "par_inv reads committed B lim s' D" by (auto simp: par_ops_def par_gen_def par_inv_counter)
qed (simp add: par_inv_def bases_ok_def)

interpretation par: speculative_view "par_ops reads committed" B lim "par_inv reads committed B lim"
    "\<lambda>s i. read_admits (captured s) i (lim i)"
    "\<lambda>i s. (speculative_failure (captured s), (delayed_field_reads (captured s))(i := None))"
  for reads committed B lim
proof
  fix s D i b d x s' out z
  assume inv: "par_inv reads committed B lim s D" "B i = Some (Aggregator b)" "delta_int d = D i"
    and run: "v_try (par_ops reads committed) s i d x (lim i) = Some (s', Ok out)"
  from par_try_step [OF inv, of x] run have out: "out = in_range (lim i) (int (unat b) + D i + delta_int x)"
    and ok: "attempt_ok (captured s) (captured s') i (lim i) b d x" by (auto simp: par_ops_def)
  have "(delayed_field_reads (captured s'))(i := None) = (delayed_field_reads (captured s))(i := None)"
    using attempt_ok_other [OF ok] by (auto simp: fun_eq_iff)
  moreover have "speculative_failure (captured s') = speculative_failure (captured s)"
    using ok unfolding attempt_ok_def Let_def by blast
  ultimately show "(read_admits (captured s') i (lim i) z \<longleftrightarrow> read_admits (captured s) i (lim i) z \<and>
      in_range (lim i) (z + D i + delta_int x) = out) \<and>
    (speculative_failure (captured s'), (delayed_field_reads (captured s'))(i := None)) =
    (speculative_failure (captured s), (delayed_field_reads (captured s))(i := None))"
    using attempt_ok_admits [OF ok, of z] inv(3) out by simp
next
  fix s D i b z
  assume inv: "par_inv reads committed B lim s D" "B i = Some (Aggregator b)"
    and adm: "read_admits (captured s) i (lim i) z"
  then obtain d where "delta_int d = D i"
    using delta_exists [of "lim i" b "D i"] by (auto simp: par_inv_def bases_ok_def)
  with inv have "tracks (captured s) i (lim i) b d" by (simp add: par_inv_def)
  from tracks_net_range(1) [OF this adm] \<open>delta_int d = D i\<close>
  show "in_range (lim i) (z + D i)" by simp
qed

section \<open>Speculative execution is serializable\<close>

definition par_start :: "u32 \<Rightarrow> par_view txn_state" where
  "par_start n = \<lparr>view = \<lparr>captured = captured_reads_new, par_counter = n\<rparr>, delayed_fields = Map.empty\<rparr>"

definition seq_start :: "(delayed_field_id \<rightharpoonup> delayed_field_value) \<Rightarrow> u32 \<Rightarrow> seq_view txn_state" where
  "seq_start B n =
     \<lparr>view = \<lparr>unsync_fields = B, seq_counter = n, seq_field_reads = {}\<rparr>, delayed_fields = Map.empty\<rparr>"

lemma net_empty [simp]: "net Map.empty = (\<lambda>_. 0)"
  by (simp add: net_def fun_eq_iff)

lemma start_simps [simp]:
  "limits_ok lim Map.empty" "attemptable Map.empty i" "delayed_fields (par_start n) = Map.empty"
  "delayed_fields (seq_start B n) = Map.empty"
  by (simp_all add: limits_ok_def attemptable_def par_start_def seq_start_def)

lemma par_start_inv:
  assumes "final_read (reads i) = Some (Aggregator b)"
    and "read_committed_loop (committed i) = Some (Ok (Aggregator b))" and "unat b \<le> unat m"
  shows "par_inv reads committed [i \<mapsto> Aggregator b] (\<lambda>_. m) (view (par_start n)) (\<lambda>_. 0)"
  using assms by (auto simp: par_inv_def bases_ok_def in_range_def par_start_def tracks_def
      captured_reads_new_def split: if_splits)

lemma seq_start_inv:
  "unat c \<le> unat m \<Longrightarrow> seq_inv [i \<mapsto> Aggregator c] (\<lambda>_. m) (view (seq_start [i \<mapsto> Aggregator c] n)) (\<lambda>_. 0)"
  by (auto simp: seq_inv_def bases_ok_def in_range_def seq_start_def split: if_splits)

lemma par_inv_tracks:
  assumes "par_inv reads committed B lim s D" and "B i = Some (Aggregator b)"
  obtains d where "delta_int d = D i" and "tracks (captured s) i (lim i) b d"
proof -
  from assms obtain d where "delta_int d = D i"
    using delta_exists [of "lim i" b "D i"] by (auto simp: par_inv_def bases_ok_def)
  with assms that show ?thesis by (simp add: par_inv_def)
qed

lemma par_run:
  assumes "final_read (reads i) = Some (Aggregator b)"
    and "read_committed_loop (committed i) = Some (Ok (Aggregator b))" and "unat b \<le> unat m"
  obtains st' d where
    "run_attempts (par_ops reads committed) (par_start n) i m xs = Some (st', Ok (direct_outcomes m (int (unat b)) xs))"
    and "tracks (captured (view st')) i m b d"
    and "\<And>z. read_admits (captured (view st')) i m z \<longleftrightarrow>
      in_range m z \<and> direct_outcomes m z xs = direct_outcomes m (int (unat b)) xs"
    and "\<not> speculative_failure (captured (view st'))"
    and "dom (delayed_field_reads (captured (view st'))) \<subseteq> {i}"
proof -
  let ?B = "[i \<mapsto> Aggregator b]"
  have inv: "par_inv reads committed ?B (\<lambda>_. m) (view (par_start n)) (net (delayed_fields (par_start n)))"
    using par_start_inv [of reads i b committed m n] assms by simp
  have "\<exists>st'. run_attempts (par_ops reads committed) (par_start n) i m xs =
      Some (st', Ok (direct_outcomes m (int (unat b)) xs)) \<and>
    par_inv reads committed ?B (\<lambda>_. m) (view st') (net (delayed_fields st'))"
    using par.run_attempts_law [OF inv, of i b xs] by auto
  then obtain st' where run: "run_attempts (par_ops reads committed) (par_start n) i m xs =
      Some (st', Ok (direct_outcomes m (int (unat b)) xs))"
    and inv': "par_inv reads committed ?B (\<lambda>_. m) (view st') (net (delayed_fields st'))" by blast
  obtain d where tr: "tracks (captured (view st')) i m b d"
    by (rule par_inv_tracks [OF inv', of i b]) simp_all
  have adm: "(read_admits (captured (view st')) i m z \<longleftrightarrow> read_admits captured_reads_new i m z \<and>
      direct_outcomes m z xs = direct_outcomes m (int (unat b)) xs) \<and>
    speculative_failure (captured (view st')) = False \<and>
    (delayed_field_reads (captured (view st')))(i := None) = Map.empty" for z
    using par.run_attempts_adm [OF inv, of i b xs st' _ z] run
    by (simp add: par_start_def captured_reads_new_def)
  have "dom ((delayed_field_reads (captured (view st')))(i := None)) = {}"
    using adm by simp
  then have "dom (delayed_field_reads (captured (view st'))) \<subseteq> {i}" by simp
  with adm show ?thesis
    by (intro that [OF run tr]) (auto simp: read_admits_def captured_reads_new_def)
qed

text \<open>Validation of a transaction that captured at most one field.\<close>

lemma validate_at_most_one:
  assumes "tracks c i m b d" and "\<not> speculative_failure c" and "dom (delayed_field_reads c) \<subseteq> {i}"
    and "distinct ids" and "set ids = dom (delayed_field_reads c)"
    and "commit i = Ok (Aggregator v)" and "unat v \<le> unat m"
  shows "validate_delayed_field_reads c ids commit = Ok (read_admits c i m (int (unat v)))"
proof (cases "delayed_field_reads c i")
  case None
  then have "i \<notin> dom (delayed_field_reads c)" by (simp add: domIff)
  with assms(3) have "dom (delayed_field_reads c) = {}" by blast
  with assms(5) have "ids = []" by simp
  with None assms(2,7) show ?thesis
    by (simp add: validate_delayed_field_reads_def read_admits_def in_range_def)
next
  case (Some r)
  with assms have "set ids = {i}" by auto
  with assms(4) have "ids = [i]" by (cases ids) (auto simp: subset_singleton_iff)
  with validate_singleton [where committed = commit and c = v, OF assms(1) _ assms(2,6)] Some show ?thesis by simp
qed

text \<open>
  \<^bold>\<open>C2.\<close> Speculation on an aggregator is validated exactly. A transaction that starts with
  no captured reads and attempts a sequence of additions to an aggregator whose value it takes to be
  \<open>b\<close> gets the outcomes arithmetic prescribes from \<open>b\<close>, without an error; and for every committed
  value \<open>c\<close>, the validation of its captured reads at commit time accepts if and only if the same
  attempts from \<open>c\<close> have the same outcomes.
\<close>

theorem speculation_exact:
  assumes "final_read (reads i) = Some (Aggregator b)"
    and "read_committed_loop (committed i) = Some (Ok (Aggregator b))" and "unat b \<le> unat m"
    and "unat c \<le> unat m" and "commit i = Ok (Aggregator c)"
  shows "\<exists>st'. run_attempts (par_ops reads committed) (par_start n) i m xs =
        Some (st', Ok (direct_outcomes m (int (unat b)) xs)) \<and>
      (\<forall>ids. distinct ids \<and> set ids = dom (delayed_field_reads (captured (view st'))) \<longrightarrow>
         validate_delayed_field_reads (captured (view st')) ids commit =
           Ok (direct_outcomes m (int (unat c)) xs = direct_outcomes m (int (unat b)) xs))"
proof (rule par_run [of reads i b committed m n xs, OF assms(1-3)])
  fix st' d
  assume run: "run_attempts (par_ops reads committed) (par_start n) i m xs =
      Some (st', Ok (direct_outcomes m (int (unat b)) xs))"
    and facts: "tracks (captured (view st')) i m b d" "\<not> speculative_failure (captured (view st'))"
      "dom (delayed_field_reads (captured (view st'))) \<subseteq> {i}"
    and "\<And>z. read_admits (captured (view st')) i m z \<longleftrightarrow>
      in_range m z \<and> direct_outcomes m z xs = direct_outcomes m (int (unat b)) xs"
  then show ?thesis
    using validate_at_most_one [where commit = commit and v = c, OF facts _ _ assms(5,4)] assms(4) by (auto simp: in_range_def)
qed

theorem speculation_exact_witness:
  "\<exists>st'. run_attempts (par_ops (\<lambda>_. [(Ok (Aggregator 40), Ok True)]) (\<lambda>_. [(Ok (Aggregator 40), Ok True)]))
       (par_start 7) \<lparr>unique_index = 1, id_width = 8\<rparr> 100 [Positive 50, Positive 30, Negative 20] =
       Some (st', Ok [True, False, True]) \<and>
     (\<forall>ids. distinct ids \<and> set ids = dom (delayed_field_reads (captured (view st'))) \<longrightarrow>
        validate_delayed_field_reads (captured (view st')) ids (\<lambda>_. Ok (Aggregator 10)) = Ok False)"
  using speculation_exact [of "\<lambda>_. [(Ok (Aggregator 40), Ok True)]" "\<lparr>unique_index = 1, id_width = 8\<rparr>" 40
    "\<lambda>_. [(Ok (Aggregator 40), Ok True)]" 100 10 "\<lambda>_. Ok (Aggregator 10)" 7 "[Positive 50, Positive 30, Negative 20]"]
  by (simp add: in_range_def)

text \<open>
  \<^bold>\<open>C7.\<close> Parallel execution that validates agrees with sequential execution. If the captured
  reads of a speculative run from \<open>b\<close> are valid for the committed value \<open>c\<close>, the sequential view
  holding \<open>c\<close> gives every attempt the same outcome, and neither run fails.
\<close>

theorem parallel_matches_sequential:
  assumes "final_read (reads i) = Some (Aggregator b)"
    and "read_committed_loop (committed i) = Some (Ok (Aggregator b))" and "unat b \<le> unat m"
    and "unat c \<le> unat m" and "commit i = Ok (Aggregator c)"
  shows "\<exists>st' outs. run_attempts (par_ops reads committed) (par_start n) i m xs = Some (st', Ok outs) \<and>
      (\<forall>ids. distinct ids \<and> set ids = dom (delayed_field_reads (captured (view st'))) \<and>
         validate_delayed_field_reads (captured (view st')) ids commit = Ok True \<longrightarrow>
         (\<exists>st''. run_attempts seq_ops (seq_start [i \<mapsto> Aggregator c] n) i m xs = Some (st'', Ok outs)))"
proof (rule par_run [of reads i b committed m n xs, OF assms(1-3)])
  fix st' d
  assume run: "run_attempts (par_ops reads committed) (par_start n) i m xs =
      Some (st', Ok (direct_outcomes m (int (unat b)) xs))"
    and facts: "tracks (captured (view st')) i m b d" "\<not> speculative_failure (captured (view st'))"
      "dom (delayed_field_reads (captured (view st'))) \<subseteq> {i}"
    and adm: "\<And>z. read_admits (captured (view st')) i m z \<longleftrightarrow>
      in_range m z \<and> direct_outcomes m z xs = direct_outcomes m (int (unat b)) xs"
  have inv: "seq_inv [i \<mapsto> Aggregator c] (\<lambda>_. m) (view (seq_start [i \<mapsto> Aggregator c] n))
      (net (delayed_fields (seq_start [i \<mapsto> Aggregator c] n)))"
    using seq_start_inv [OF assms(4)] by simp
  have "\<exists>st''. run_attempts seq_ops (seq_start [i \<mapsto> Aggregator c] n) i m xs =
      Some (st'', Ok (direct_outcomes m (int (unat c)) xs))"
    using seq.run_attempts_law [OF inv, of i c xs] by auto
  with run adm show ?thesis
    using validate_at_most_one [where commit = commit and v = c, OF facts _ _ assms(5,4)] by auto
qed

theorem parallel_matches_sequential_witness:
  "\<exists>st' outs. run_attempts (par_ops (\<lambda>_. [(Ok (Aggregator 40), Ok True)]) (\<lambda>_. [(Ok (Aggregator 40), Ok True)]))
       (par_start 7) \<lparr>unique_index = 1, id_width = 8\<rparr> 100 [Positive 50, Positive 30, Negative 20] =
       Some (st', Ok outs) \<and>
     (\<forall>ids. distinct ids \<and> set ids = dom (delayed_field_reads (captured (view st'))) \<and>
        validate_delayed_field_reads (captured (view st')) ids (\<lambda>_. Ok (Aggregator 45)) = Ok True \<longrightarrow>
        (\<exists>st''. run_attempts seq_ops (seq_start [\<lparr>unique_index = 1, id_width = 8\<rparr> \<mapsto> Aggregator 45] 7)
           \<lparr>unique_index = 1, id_width = 8\<rparr> 100 [Positive 50, Positive 30, Negative 20] = Some (st'', Ok outs)))"
  by (rule parallel_matches_sequential [where b = 40]) simp_all

text \<open>
  \<^bold>\<open>C17.\<close> A snapshot is immutable. After \<open>snapshot\<close> of an aggregator, any further attempts
  on the aggregator succeed in running, and reading the snapshot then returns the value the
  aggregator had when the snapshot was taken.
\<close>

theorem snapshot_immutable:
  assumes "par_inv reads committed B lim (view st) (net (delayed_fields st))"
    and "limits_ok lim (delayed_fields st)" and "B a = Some (Aggregator b)"
    and "attemptable (delayed_fields st) a"
    and "snapshot (par_ops reads committed) st a (lim a) width = (st1, Ok sid)"
    and "sid \<noteq> a" and "delayed_fields st sid = None"
  shows "\<exists>st2 outs st3 n. run_attempts (par_ops reads committed) st1 a (lim a) xs = Some (st2, Ok outs) \<and>
    read_snapshot (par_ops reads committed) st2 sid = Some (st3, Ok n) \<and>
    int (unat n) = int (unat b) + net (delayed_fields st) a"
  using assms by (rule par.snapshot_stable)

theorem snapshot_immutable_witness:
  "\<exists>st2 outs st3 n.
     run_attempts (par_ops (\<lambda>_. [(Ok (Aggregator 40), Ok True)]) (\<lambda>_. [(Ok (Aggregator 40), Ok True)]))
       (fst (snapshot (par_ops (\<lambda>_. [(Ok (Aggregator 40), Ok True)]) (\<lambda>_. [(Ok (Aggregator 40), Ok True)]))
          (par_start 7) \<lparr>unique_index = 1, id_width = 8\<rparr> 100 8))
       \<lparr>unique_index = 1, id_width = 8\<rparr> 100 [Positive 50] = Some (st2, Ok outs) \<and>
     read_snapshot (par_ops (\<lambda>_. [(Ok (Aggregator 40), Ok True)]) (\<lambda>_. [(Ok (Aggregator 40), Ok True)]))
       st2 \<lparr>unique_index = 7, id_width = 8\<rparr> = Some (st3, Ok n) \<and> int (unat n) = 40"
proof -
  let ?ans = "\<lambda>_. [(Ok (Aggregator 40), Ok True)]" and ?a = "\<lparr>unique_index = 1, id_width = 8\<rparr>"
  let ?s = "\<lparr>unique_index = 7, id_width = 8\<rparr>"
  obtain st1 where st1: "snapshot (par_ops ?ans ?ans) (par_start 7) ?a 100 8 = (st1, Ok ?s)"
    by (simp add: snapshot_def insert_generated_def par_ops_def par_gen_def par_start_def)
  have "par_inv ?ans ?ans [?a \<mapsto> Aggregator 40] (\<lambda>_. 100) (view (par_start 7)) (net (delayed_fields (par_start 7)))"
    using par_start_inv [of ?ans ?a 40 ?ans 100 7] by simp
  from snapshot_immutable [OF this, of ?a 40 8 st1 ?s "[Positive 50]"] st1 show ?thesis by simp
qed

text \<open>
  \<^bold>\<open>C18.\<close> Reading a delayed field terminates and is right. For every field map the operations
  can build, reading a field whose value is determined by the values before the transaction returns
  that value, following derived strings to snapshots and snapshots to aggregators.
\<close>

theorem read_value_returns:
  assumes "par_inv reads committed B lim s D" and "wf_fields dfs" and "field_value B dfs i = Some v"
  shows "\<exists>s'. read_value (par_ops reads committed) dfs s i AfterCurrentTxn = Some (s', Ok v)"
  using par.read_value_law [OF assms] by blast

theorem read_value_returns_witness:
  "\<exists>s'. read_value (par_ops (\<lambda>_. [(Ok (Aggregator 40), Ok True)]) (\<lambda>_. [(Ok (Aggregator 40), Ok True)]))
     [\<lparr>unique_index = 1, id_width = 8\<rparr> \<mapsto> Apply (AggregatorDelta (dwm_new (Positive 9) 100)),
      \<lparr>unique_index = 2, id_width = 8\<rparr> \<mapsto> Apply (SnapshotDelta \<lparr>unique_index = 1, id_width = 8\<rparr> (dwm_new (Positive 2) 100)),
      \<lparr>unique_index = 3, id_width = 24\<rparr> \<mapsto> Apply (SnapshotDerived \<lparr>unique_index = 2, id_width = 8\<rparr> (Concat [97] [98]))]
     (view (par_start 7)) \<lparr>unique_index = 3, id_width = 24\<rparr> AfterCurrentTxn = Some (s', Ok (Derived [97, 52, 50, 98]))"
proof -
  have "par_inv (\<lambda>_. [(Ok (Aggregator 40), Ok True)]) (\<lambda>_. [(Ok (Aggregator 40), Ok True)])
    [\<lparr>unique_index = 1, id_width = 8\<rparr> \<mapsto> Aggregator 40] (\<lambda>_. 100) (view (par_start 7)) (\<lambda>_. 0)"
    by (rule par_start_inv) simp_all
  then show ?thesis
    by (rule read_value_returns)
      (auto simp: wf_fields_def attemptable_def field_value_def value_from_def dwm_apply_to_def dwm_new_def
        delta_eval decimal_bytes.simps split: if_splits)
qed

end
