(* ===== verification/Bit_Vec.thy ===== *)
theory Bit_Vec
  imports Rust_Prelude
begin

text \<open>
  \<open>src/crates/aptos-bitvec/src/lib.rs\<close>: the bit mask of the validators that signed. A bit vector
  is a list of bytes; bits are numbered from the most significant bit of the first byte. The lemmas
  relate every operation to the set of positions that are set.
\<close>

section \<open>Model\<close>

definition BUCKET_SIZE :: nat where "BUCKET_SIZE = 8"

definition MAX_BUCKETS :: nat where "MAX_BUCKETS = 8192"

record bit_vec =
  inner :: "u8 list"

definition bv_default :: bit_vec where
  "bv_default = \<lparr>inner = []\<rparr>"

definition required_buckets :: "u16 \<Rightarrow> nat" where
  "required_buckets num_bits =
     (case checked_sub num_bits 1 of None \<Rightarrow> 0 | Some pos \<Rightarrow> unat pos div BUCKET_SIZE + 1)"

definition with_num_bits :: "u16 \<Rightarrow> bit_vec" where
  "with_num_bits num_bits = \<lparr>inner = replicate (required_buckets num_bits) 0\<rparr>"

definition resize :: "'a list \<Rightarrow> nat \<Rightarrow> 'a \<Rightarrow> 'a list" where
  "resize xs n v = take n xs @ replicate (n - length xs) v"

definition bv_set :: "bit_vec \<Rightarrow> u16 \<Rightarrow> bit_vec" where
  "bv_set self pos =
     (let bucket = unat pos div BUCKET_SIZE;
          buf = (if length (inner self) \<le> bucket then resize (inner self) (bucket + 1) 0 else inner self);
          bucket_pos = unat pos - bucket * BUCKET_SIZE
      in self\<lparr>inner := buf[bucket := or (buf ! bucket) (drop_bit bucket_pos 128)]\<rparr>)"

definition is_set :: "bit_vec \<Rightarrow> u16 \<Rightarrow> bool" where
  "is_set self pos =
     (let bucket = unat pos div BUCKET_SIZE in
      if length (inner self) \<le> bucket then False
      else let bucket_pos = unat pos - bucket * BUCKET_SIZE
           in and (inner self ! bucket) (drop_bit bucket_pos 128) \<noteq> 0)"

definition all_zeros :: "bit_vec \<Rightarrow> bool" where
  "all_zeros self = list_all (\<lambda>byte. byte = 0) (inner self)"

definition byte_count_ones :: "u8 \<Rightarrow> nat" where
  "byte_count_ones a = length (filter (bit a) [0..<8])"

definition count_ones :: "bit_vec \<Rightarrow> u32" where
  "count_ones self = of_nat (sum_list (map byte_count_ones (inner self)))"

text \<open>\<open>u8::trailing_zeros\<close>; 8 on zero.\<close>

definition byte_trailing_zeros :: "u8 \<Rightarrow> nat" where
  "byte_trailing_zeros a = length (takeWhile (\<lambda>n. \<not> bit a n) [0..<8])"

definition last_set_bit :: "bit_vec \<Rightarrow> u16 option" where
  "last_set_bit self =
     map_option (\<lambda>(i, byte). of_nat (8 * (length (inner self) - i) - byte_trailing_zeros byte - 1))
       (List.find (\<lambda>(i, byte). byte \<noteq> 0) (enumerate 0 (rev (inner self))))"

definition iter_ones :: "bit_vec \<Rightarrow> nat list" where
  "iter_ones self = filter (\<lambda>idx. is_set self (of_nat idx)) [0..<length (inner self) * BUCKET_SIZE]"

definition num_buckets :: "bit_vec \<Rightarrow> nat" where
  "num_buckets self = length (inner self)"

definition bv_bitand :: "bit_vec \<Rightarrow> bit_vec \<Rightarrow> bit_vec" where
  "bv_bitand self other =
     (let len = min (length (inner self)) (length (inner other))
      in \<lparr>inner = map (\<lambda>i. and (inner self ! i) (inner other ! i)) [0..<len]\<rparr>)"

definition get_or_zero :: "u8 list \<Rightarrow> nat \<Rightarrow> u8" where
  "get_or_zero xs i = (if i < length xs then xs ! i else 0)"

definition bv_bitor :: "bit_vec \<Rightarrow> bit_vec \<Rightarrow> bit_vec" where
  "bv_bitor self other =
     (let len = max (length (inner self)) (length (inner other))
      in \<lparr>inner = map (\<lambda>i. or (get_or_zero (inner self) i) (get_or_zero (inner other) i)) [0..<len]\<rparr>)"

definition bv_from_positions :: "u8 list \<Rightarrow> bit_vec" where
  "bv_from_positions positions = fold (\<lambda>bit bitvec. bv_set bitvec (ucast bit)) positions bv_default"

definition bv_from_bytes :: "u8 list \<Rightarrow> (bit_vec, 'e) result" where
  "bv_from_bytes raw_bytes =
     and_then (assert_p (length raw_bytes \<le> MAX_BUCKETS)) (\<lambda>_. Ok \<lparr>inner = raw_bytes\<rparr>)"

definition bv_into_bytes :: "bit_vec \<Rightarrow> u8 list" where
  "bv_into_bytes bitvec = inner bitvec"

fun set_bits_from :: "nat \<Rightarrow> bool list \<Rightarrow> bit_vec \<Rightarrow> bit_vec" where
  "set_bits_from index [] bitvec = bitvec"
| "set_bits_from index (b # bits) bitvec =
     set_bits_from (Suc index) bits (if b then bv_set bitvec (of_nat index) else bitvec)"

definition bv_from_bools :: "bool list \<Rightarrow> (bit_vec, 'e) result" where
  "bv_from_bools bits =
     and_then (assert_p (length bits \<le> MAX_BUCKETS * BUCKET_SIZE)) (\<lambda>_.
     Ok (set_bits_from 0 bits (with_num_bits (of_nat (length bits)))))"

definition bv_collect_bools :: "bool list \<Rightarrow> bit_vec" where
  "bv_collect_bools bits = set_bits_from 0 bits bv_default"

definition bv_deserialize :: "u8 list \<Rightarrow> (bit_vec, string) result" where
  "bv_deserialize v = (if length v > MAX_BUCKETS then Err ''BitVec too long'' else Ok \<lparr>inner = v\<rparr>)"

section \<open>The set of positions\<close>

definition set_at :: "u8 list \<Rightarrow> nat \<Rightarrow> bool" where
  "set_at xs k \<longleftrightarrow> k div 8 < length xs \<and> bit (xs ! (k div 8)) (7 - k mod 8)"

definition wf_bv :: "bit_vec \<Rightarrow> bool" where
  "wf_bv b \<longleftrightarrow> length (inner b) \<le> MAX_BUCKETS"

lemma bucket_mask: "k < 8 \<Longrightarrow> drop_bit k (128 :: u8) = push_bit (7 - k) 1"
  by (simp add: less_Suc_eq numeral_eq_Suc) (elim disjE; simp)

lemma is_set_iff: "is_set b p \<longleftrightarrow> set_at (inner b) (unat p)"
proof -
  have "unat p - unat p div 8 * 8 = unat p mod 8" by (simp add: minus_div_mult_eq_mod)
  then show ?thesis
    by (auto simp: is_set_def Let_def set_at_def BUCKET_SIZE_def bucket_mask bit_iff_and_push_bit_not_eq_0)
qed

lemma length_resize [simp]: "length (resize xs n v) = n"
  by (simp add: resize_def)

lemma set_at_resize_zero: "length xs \<le> n \<Longrightarrow> set_at (resize xs n 0) k \<longleftrightarrow> set_at xs k"
  by (auto simp: set_at_def resize_def nth_append)

lemma set_at_update:
  assumes "q div 8 < length xs"
  shows "set_at (xs[q div 8 := or (xs ! (q div 8)) (push_bit (7 - q mod 8) 1)]) k \<longleftrightarrow> k = q \<or> set_at xs k"
proof (cases "k div 8 = q div 8")
  case True
  have "(7 - k mod 8 = 7 - q mod 8) = (k = q)"
  proof
    assume "7 - k mod 8 = 7 - q mod 8"
    moreover have "k mod 8 < 8" "q mod 8 < 8" by simp_all
    ultimately have "k mod 8 = q mod 8" by linarith
    with True show "k = q" by (metis mod_div_mult_eq)
  qed simp
  with True assms show ?thesis
    by (auto simp: set_at_def bit_or_iff bit_exp_iff)
next
  case False
  then have "k \<noteq> q" by auto
  with False show ?thesis by (simp add: set_at_def)
qed

lemma bv_set_inner:
  "set_at (inner (bv_set b p)) k \<longleftrightarrow> k = unat p \<or> set_at (inner b) k"
  "length (inner (bv_set b p)) = max (length (inner b)) (unat p div 8 + 1)"
proof -
  define buf where "buf = (if length (inner b) \<le> unat p div 8 then resize (inner b) (unat p div 8 + 1) 0 else inner b)"
  have mask: "drop_bit (unat p - unat p div 8 * 8) (128 :: u8) = push_bit (7 - unat p mod 8) 1"
    by (simp add: bucket_mask minus_div_mult_eq_mod)
  have eq: "inner (bv_set b p) = buf[unat p div 8 := or (buf ! (unat p div 8)) (push_bit (7 - unat p mod 8) 1)]"
    by (simp add: bv_set_def Let_def buf_def BUCKET_SIZE_def mask)
  have len: "length buf = max (length (inner b)) (unat p div 8 + 1)" by (simp add: buf_def)
  then show "length (inner (bv_set b p)) = max (length (inner b)) (unat p div 8 + 1)" by (simp add: eq)
  have "set_at buf k \<longleftrightarrow> set_at (inner b) k" by (simp add: buf_def set_at_resize_zero)
  with set_at_update [of "unat p" buf k] len
  show "set_at (inner (bv_set b p)) k \<longleftrightarrow> k = unat p \<or> set_at (inner b) k" by (simp add: eq)
qed

lemma is_set_bv_set [simp]: "is_set (bv_set b p) q \<longleftrightarrow> q = p \<or> is_set b q"
  by (auto simp: is_set_iff bv_set_inner word_eq_unat)

lemma wf_bv_set [simp]: "wf_bv b \<Longrightarrow> wf_bv (bv_set b p)"
  using unat_bound [of p] by (auto simp: wf_bv_def bv_set_inner MAX_BUCKETS_def)

lemma is_set_empty [simp]: "\<not> is_set bv_default p" "\<not> is_set (with_num_bits n) p"
  by (auto simp: is_set_iff bv_default_def with_num_bits_def set_at_def)

lemma required_buckets_bound: "required_buckets n \<le> MAX_BUCKETS"
  using unat_bound [of "n - 1"]
  by (auto simp: required_buckets_def checked_sub_def MAX_BUCKETS_def BUCKET_SIZE_def split: option.splits)

lemma wf_bv_empty [simp]: "wf_bv bv_default" "wf_bv (with_num_bits n)"
  using required_buckets_bound [of n] by (simp_all add: wf_bv_def bv_default_def with_num_bits_def)

text \<open>The interface its users rely on: a growing set of positions.\<close>

locale position_set =
  fixes ins :: "'b \<Rightarrow> u16 \<Rightarrow> 'b" and mem :: "'b \<Rightarrow> u16 \<Rightarrow> bool" and inv :: "'b \<Rightarrow> bool"
  assumes mem_ins: "mem (ins b p) q \<longleftrightarrow> q = p \<or> mem b q"
    and inv_ins: "inv b \<Longrightarrow> inv (ins b p)"
begin

lemma mem_fold: "mem (fold (\<lambda>x b. ins b (f x)) xs b) q \<longleftrightarrow> q \<in> f ` set xs \<or> mem b q"
  by (induction xs arbitrary: b) (auto simp: mem_ins)

lemma inv_fold: "inv b \<Longrightarrow> inv (fold (\<lambda>x b. ins b (f x)) xs b)"
  by (induction xs arbitrary: b) (auto simp: inv_ins)

end

interpretation bv: position_set bv_set is_set wf_bv
  by unfold_locales simp_all

section \<open>Observers\<close>

lemma set_at_bound: "set_at xs k \<Longrightarrow> k < 8 * length xs"
  unfolding set_at_def by (simp add: div_less_iff_less_mult mult.commute)

lemma set_iter_ones:
  assumes "wf_bv b" shows "set (iter_ones b) = {k. set_at (inner b) k}"
proof -
  have "unat (of_nat k :: u16) = k" if "k < length (inner b) * 8" for k
    using that assms by (simp add: unat_of_nat wf_bv_def MAX_BUCKETS_def)
  then show ?thesis
    using set_at_bound [of "inner b"]
    by (auto simp: iter_ones_def is_set_iff BUCKET_SIZE_def mult.commute)
qed

lemma count_byte: "length (filter (\<lambda>k. bit x (7 - k)) [0..<8]) = byte_count_ones x" for x :: u8
proof -
  have "map (\<lambda>k. 7 - k) [0..<8] = rev [0..<8 :: nat]" by (simp add: upt_conv_Cons)
  then have "length (filter (bit x) (map (\<lambda>k. 7 - k) [0..<8])) = length (filter (bit x) [0..<8])"
    by (metis length_rev rev_filter)
  then show ?thesis by (simp add: filter_map o_def byte_count_ones_def)
qed

lemma count_set_at:
  "length (filter (set_at xs) [0..<8 * length xs]) = sum_list (map byte_count_ones xs)"
proof (induction xs rule: rev_induct)
  case (snoc x xs)
  let ?n = "8 * length xs"
  have "[0..<?n + 8] = [0..<?n] @ [?n..<?n + 8]" by (rule upt_add_eq_append) simp
  also have "[?n..<?n + 8] = map (\<lambda>k. k + ?n) [0..<8]" by (simp add: map_add_upt add.commute)
  finally have split: "[0..<8 * length (xs @ [x])] = [0..<?n] @ map (\<lambda>k. k + ?n) [0..<8]"
    by (simp add: add.commute)
  have low: "filter (set_at (xs @ [x])) [0..<?n] = filter (set_at xs) [0..<?n]"
    by (rule filter_cong) (auto simp: set_at_def nth_append less_mult_imp_div_less mult.commute)
  have "filter (set_at (xs @ [x]) \<circ> (\<lambda>k. k + ?n)) [0..<8] = filter (\<lambda>k. bit x (7 - k)) [0..<8]"
    by (rule filter_cong) (auto simp: set_at_def nth_append)
  then have high: "length (filter (set_at (xs @ [x])) (map (\<lambda>k. k + ?n) [0..<8])) = byte_count_ones x"
    by (simp only: filter_map length_map count_byte)
  show ?case unfolding split filter_append low using snoc high by (simp only: length_append) simp
qed (simp add: set_at_def)

lemma trailing_zeros:
  assumes "a \<noteq> 0"
  shows "byte_trailing_zeros a < 8" and "bit a (byte_trailing_zeros a)"
    and "n < byte_trailing_zeros a \<Longrightarrow> \<not> bit a n"
proof -
  let ?P = "\<lambda>n. \<not> bit a n"
  have "\<exists>n < 8. bit a n"
  proof (rule ccontr)
    assume "\<not> ?thesis"
    then have "a = 0" by (intro bit_word_eqI) simp
    with assms show False ..
  qed
  then have "takeWhile ?P [0..<8] \<noteq> [0..<8]" by (auto simp: takeWhile_eq_all_conv)
  then have less: "length (takeWhile ?P [0..<8]) < length [0..<8]"
    by (metis length_takeWhile_le nat_less_le take_all_iff takeWhile_eq_take order_refl)
  then show "byte_trailing_zeros a < 8" by (simp add: byte_trailing_zeros_def)
  from nth_length_takeWhile [OF less] less show "bit a (byte_trailing_zeros a)"
    by (simp add: byte_trailing_zeros_def)
  assume "n < byte_trailing_zeros a"
  then have "takeWhile ?P [0..<8] ! n = n" and "n < length (takeWhile ?P [0..<8])"
    using less takeWhile_nth [of n ?P "[0..<8]"] by (auto simp: byte_trailing_zeros_def)
  then show "\<not> bit a n" using nth_mem set_takeWhileD by metis
qed

lemma unat_of_nat_u16: "n < 65536 \<Longrightarrow> unat (of_nat n :: u16) = n"
  by (simp add: unat_of_nat)

text \<open>The last set bit is in the last byte that is not zero.\<close>

lemma last_set_bit_cases:
  obtains (None) "last_set_bit b = None" and "\<And>k. \<not> set_at (inner b) k"
  | (Some) j where "j < length (inner b)" and "inner b ! j \<noteq> 0"
      and "\<And>k. j < k \<Longrightarrow> k < length (inner b) \<Longrightarrow> inner b ! k = 0"
      and "last_set_bit b = Some (of_nat (8 * j + (7 - byte_trailing_zeros (inner b ! j))))"
proof (cases "List.find (\<lambda>(i, byte). byte \<noteq> 0) (enumerate 0 (rev (inner b)))")
  case None
  then have "x \<in> set (inner b) \<Longrightarrow> x = 0" for x
    by (auto simp: find_None_iff in_set_enumerate_eq in_set_conv_nth [of x]) (metis in_set_conv_nth length_rev set_rev)
  then have "\<not> set_at (inner b) k" for k by (auto simp: set_at_def) (metis bit_0_eq bot_apply nth_mem bot_bool_def)
  with None that(1) show ?thesis by (simp add: last_set_bit_def)
next
  case (Some r)
  then obtain i where i: "i < length (inner b)" and r: "r = (i, rev (inner b) ! i)"
    and nz: "rev (inner b) ! i \<noteq> 0" and before: "\<And>l. l < i \<Longrightarrow> rev (inner b) ! l = 0"
    by (auto simp: find_Some_iff nth_enumerate_eq)
  define j where "j = length (inner b) - Suc i"
  have j: "j < length (inner b)" "length (inner b) - i = Suc j" using i by (auto simp: j_def)
  have byte: "rev (inner b) ! i = inner b ! j" using i by (simp add: rev_nth j_def)
  have after: "inner b ! k = 0" if "j < k" "k < length (inner b)" for k
    using before [of "length (inner b) - Suc k"] that i by (simp add: rev_nth j_def)
  have "byte_trailing_zeros (inner b ! j) < 8" using trailing_zeros(1) nz byte by metis
  then have "8 * (length (inner b) - i) - byte_trailing_zeros (inner b ! j) - 1 =
      8 * j + (7 - byte_trailing_zeros (inner b ! j))" using j(2) by simp
  with Some r byte j(1) nz after that(2) [of j] show ?thesis
    by (simp only: last_set_bit_def option.map prod.case) simp
qed

lemma last_set_bit_Some:
  assumes "wf_bv b" and "last_set_bit b = Some p"
  shows "set_at (inner b) (unat p)" and "set_at (inner b) k \<Longrightarrow> k \<le> unat p"
proof -
  have *: "set_at (inner b) (unat p) \<and> (set_at (inner b) k \<longrightarrow> k \<le> unat p)"
  proof (cases rule: last_set_bit_cases [of b])
    case None
    with assms(2) show ?thesis by simp
  next
    case (Some j)
    let ?t = "byte_trailing_zeros (inner b ! j)"
    note t = trailing_zeros [OF Some(2)]
    have "8 * j + (7 - ?t) < 65536" using Some(1) assms(1) t(1) by (simp add: wf_bv_def MAX_BUCKETS_def)
    moreover have "p = of_nat (8 * j + (7 - ?t))" using Some(4) assms(2) by (simp only: option.inject)
    ultimately have p: "unat p = 8 * j + (7 - ?t)" by (simp only: unat_of_nat_u16)
    obtain u where u: "7 - ?t = u" "u < 8" "7 - u = ?t" using t(1) by auto
    then have "unat p div 8 = j" "unat p mod 8 = u" using p by simp_all
    with u Some(1) t(2) have "set_at (inner b) (unat p)" by (simp add: set_at_def)
    moreover have "k \<le> unat p" if "set_at (inner b) k"
    proof (rule ccontr)
      assume "\<not> k \<le> unat p"
      from that have k: "k div 8 < length (inner b)" "bit (inner b ! (k div 8)) (7 - k mod 8)"
        by (auto simp: set_at_def)
      have "\<not> j < k div 8" using Some(3) [of "k div 8"] k by auto
      moreover have "8 * j \<le> k" using \<open>\<not> k \<le> unat p\<close> p by simp
      ultimately have "k div 8 = j" by (simp add: div_nat_eqI not_less)
      moreover have "7 - k mod 8 < ?t"
        using \<open>\<not> k \<le> unat p\<close> p u mult_div_mod_eq [of 8 k] calculation by linarith
      ultimately show False using t(3) k(2) by blast
    qed
    ultimately show ?thesis by blast
  qed
  then show "set_at (inner b) (unat p)" and "set_at (inner b) k \<Longrightarrow> k \<le> unat p" by auto
qed

lemma sorted_le_last: "sorted xs \<Longrightarrow> x \<in> set xs \<Longrightarrow> x \<le> last xs" for x :: nat
  by (induction xs) auto

lemma all_zeros_iff: "all_zeros b \<longleftrightarrow> (\<forall>k. \<not> set_at (inner b) k)"
proof
  assume none: "\<forall>k. \<not> set_at (inner b) k"
  have "inner b ! j = 0" if "j < length (inner b)" for j
  proof (rule bit_word_eqI)
    fix n :: nat
    assume "n < LENGTH(8)"
    with none [THEN spec, of "8 * j + (7 - n)"] that show "bit (inner b ! j) n = bit 0 n"
      by (simp add: set_at_def)
  qed
  then show "all_zeros b" by (auto simp: all_zeros_def list_all_iff in_set_conv_nth)
qed (auto simp: all_zeros_def list_all_length set_at_def)

lemma iter_ones_filter:
  assumes "wf_bv b" shows "iter_ones b = filter (set_at (inner b)) [0..<8 * length (inner b)]"
proof -
  have "unat (of_nat k :: u16) = k" if "k < 8 * length (inner b)" for k
    using that assms by (intro unat_of_nat_u16) (simp add: wf_bv_def MAX_BUCKETS_def)
  then have "filter (\<lambda>k. is_set b (of_nat k)) [0..<8 * length (inner b)] = filter (set_at (inner b)) [0..<8 * length (inner b)]"
    by (intro filter_cong) (auto simp: is_set_iff)
  then show ?thesis by (simp add: iter_ones_def BUCKET_SIZE_def mult.commute)
qed

lemma iter_ones_order: "sorted (iter_ones b)" "distinct (iter_ones b)"
  by (simp_all add: iter_ones_def sorted_wrt_filter)

lemma set_iter_ones_is_set:
  assumes "wf_bv b" shows "set (iter_ones b) = {k. k < 65536 \<and> is_set b (of_nat k)}"
proof (rule set_eqI)
  fix k
  have "8 * length (inner b) \<le> 65536" using assms by (simp add: wf_bv_def MAX_BUCKETS_def)
  then show "k \<in> set (iter_ones b) \<longleftrightarrow> k \<in> {k. k < 65536 \<and> is_set b (of_nat k)}"
    using set_at_bound [of "inner b" k] by (auto simp: set_iter_ones [OF assms] is_set_iff unat_of_nat_u16)
qed

lemma count_ones_length:
  assumes "wf_bv b" shows "unat (count_ones b) = length (iter_ones b)"
proof -
  note ones = iter_ones_filter [OF assms]
  have "sum_list (map byte_count_ones (inner b)) = length (iter_ones b)"
    by (simp only: ones count_set_at)
  moreover have "length (iter_ones b) \<le> 8 * length (inner b)"
    using length_filter_le [of "set_at (inner b)" "[0..<8 * length (inner b)]"] by (simp add: ones)
  moreover have "8 * length (inner b) \<le> 65536" using assms by (simp add: wf_bv_def MAX_BUCKETS_def)
  ultimately show ?thesis by (simp add: count_ones_def unat_of_nat)
qed

text \<open>
  The observers of a bit vector agree with its set of positions: \<open>iter_ones\<close>
  enumerates the set positions in ascending order, \<open>count_ones\<close> is their number, and
  \<open>last_set_bit\<close> is the greatest of them, or \<open>None\<close> exactly when there is none.
\<close>

theorem bit_vec_observers:
  assumes "wf_bv b"
  shows "set (iter_ones b) = {k. k < 65536 \<and> is_set b (of_nat k)} \<and> sorted (iter_ones b) \<and>
    distinct (iter_ones b) \<and> unat (count_ones b) = length (iter_ones b) \<and>
    map_option unat (last_set_bit b) =
      (if iter_ones b = [] then None else Some (last (iter_ones b)))"
proof -
  have set: "set (iter_ones b) = {k. set_at (inner b) k}" by (rule set_iter_ones [OF assms])
  have "map_option unat (last_set_bit b) = (if iter_ones b = [] then None else Some (last (iter_ones b)))"
  proof (cases "last_set_bit b")
    case None
    then have "set (iter_ones b) = {}" using set by (cases rule: last_set_bit_cases [of b]) auto
    with None show ?thesis by simp
  next
    case (Some p)
    with last_set_bit_Some [OF assms Some] set have mem: "unat p \<in> set (iter_ones b)"
      and greatest: "\<And>k. k \<in> set (iter_ones b) \<Longrightarrow> k \<le> unat p" by auto
    then have "iter_ones b \<noteq> []" by auto
    then have "last (iter_ones b) \<le> unat p" using greatest last_in_set by blast
    moreover have "unat p \<le> last (iter_ones b)"
      using mem iter_ones_order(1) by (rule sorted_le_last [rotated])
    ultimately have "last (iter_ones b) = unat p" by simp
    with Some \<open>iter_ones b \<noteq> []\<close> show ?thesis by simp
  qed
  then show ?thesis using set_iter_ones_is_set [OF assms] iter_ones_order count_ones_length [OF assms] by blast
qed

theorem bit_vec_observers_witness:
  "set (iter_ones (bv_set (bv_set (with_num_bits 20) 2) 9)) = {k. k < 65536 \<and>
       is_set (bv_set (bv_set (with_num_bits 20) 2) 9) (of_nat k)} \<and>
   unat (count_ones (bv_set (bv_set (with_num_bits 20) 2) 9)) =
     length (iter_ones (bv_set (bv_set (with_num_bits 20) 2) 9))"
  using bit_vec_observers [of "bv_set (bv_set (with_num_bits 20) 2) 9"] by simp

lemma set_at_map: "set_at (map f [0..<n]) k \<longleftrightarrow> k div 8 < n \<and> bit (f (k div 8)) (7 - k mod 8)"
  by (auto simp: set_at_def)

lemma is_set_set_bits_from:
  "index + length bits \<le> 65536 \<Longrightarrow>
   is_set (set_bits_from index bits b) p \<longleftrightarrow>
     is_set b p \<or> (index \<le> unat p \<and> unat p < index + length bits \<and> bits ! (unat p - index))"
proof (induction bits arbitrary: index b)
  case (Cons x bits)
  have "unat (of_nat index :: u16) = index" using Cons.prems by (intro unat_of_nat_u16) simp
  then have here: "p = of_nat index \<longleftrightarrow> unat p = index" by (metis word_eq_unat)
  from Cons show ?case
    by (cases "unat p = index") (auto simp: here nth_Cons' not_less_eq_eq Suc_le_eq)
qed auto

lemma wf_set_bits_from: "wf_bv b \<Longrightarrow> wf_bv (set_bits_from index bits b)"
  by (induction bits arbitrary: index b) simp_all

text \<open>
  Bit vectors form a set algebra: \<open>set\<close> adds exactly one position, \<open>&\<close> and \<open>|\<close>
  are intersection and union even for vectors of different lengths, and a vector made from at most
  65536 booleans has exactly the true positions set.
\<close>

theorem bit_vec_set_algebra:
  "(is_set (bv_set a q) p \<longleftrightarrow> p = q \<or> is_set a p) \<and>
   (is_set (bv_bitand a b) p \<longleftrightarrow> is_set a p \<and> is_set b p) \<and>
   (is_set (bv_bitor a b) p \<longleftrightarrow> is_set a p \<or> is_set b p) \<and>
   (if length bits \<le> 65536
    then \<exists>v. bv_from_bools bits = Ok v \<and> wf_bv v \<and>
      (is_set v p \<longleftrightarrow> unat p < length bits \<and> bits ! unat p)
    else bv_from_bools bits = Panic)"
proof (intro conjI)
  show "is_set (bv_bitand a b) p \<longleftrightarrow> is_set a p \<and> is_set b p"
    by (auto simp: is_set_iff bv_bitand_def Let_def set_at_map bit_and_iff) (auto simp: set_at_def)
  show "is_set (bv_bitor a b) p \<longleftrightarrow> is_set a p \<or> is_set b p"
    by (auto simp: is_set_iff bv_bitor_def Let_def set_at_map bit_or_iff get_or_zero_def set_at_def
        split: if_splits)
  show "if length bits \<le> 65536
    then \<exists>v. bv_from_bools bits = Ok v \<and> wf_bv v \<and>
      (is_set v p \<longleftrightarrow> unat p < length bits \<and> bits ! unat p)
    else bv_from_bools bits = Panic"
    by (simp add: bv_from_bools_def assert_p_def MAX_BUCKETS_def BUCKET_SIZE_def
        is_set_set_bits_from wf_set_bits_from)
qed simp

end
