(* ===== verification/Validator_Verifier.thy ===== *)
theory Validator_Verifier
  imports Bit_Vec "HOL-Library.Multiset"
begin

text \<open>
  \<open>src/types/src/validator_verifier.rs\<close> and \<open>src/types/src/aggregate_signature.rs\<close>: the
  validators of an epoch with their voting power, the aggregation of their signatures, and the
  verification that a signature carries a quorum. The BLS operations are parameters:
  \<open>pk_aggregate\<close> and \<open>sig_aggregate\<close> combine keys and signatures, \<open>sig_verify\<close> checks one
  signature of a message, and \<open>agg_verify\<close> one aggregate over several messages.
\<close>

section \<open>Model\<close>

type_synonym account_address = "256 word"
type_synonym hash_value = "256 word"
type_synonym public_key = "384 word"
type_synonym signature = "768 word"

datatype verify_error =
  UnknownAuthor
| TooLittleVotingPower u128 u128
| EmptySignature
| InvalidMultiSignature
| InvalidAggregatedSignature
| InconsistentBlockInfo
| FailedToAggregatePubKey
| FailedToAggregateSignature
| FailedToVerifyMultiSignature
| InvalidBitVec
| FailedToVerifyAggregatedSignature

record validator_consensus_info =
  address :: account_address
  public_key :: public_key
  voting_power :: u64

definition vci_new :: "account_address \<Rightarrow> public_key \<Rightarrow> u64 \<Rightarrow> validator_consensus_info" where
  "vci_new a k w = \<lparr>address = a, public_key = k, voting_power = w\<rparr>"

record validator_verifier =
  validator_infos :: "validator_consensus_info list"
  quorum_voting_power :: u128
  total_voting_power :: u128
  address_to_validator_index :: "account_address \<rightharpoonup> nat"

record aggregate_signature =
  validator_bitmask :: bit_vec
  agg_sig :: "signature option"

definition agg_new :: "bit_vec \<Rightarrow> signature option \<Rightarrow> aggregate_signature" where
  "agg_new bitmask aggregated = \<lparr>validator_bitmask = bitmask, agg_sig = aggregated\<rparr>"

definition agg_empty :: aggregate_signature where
  "agg_empty = \<lparr>validator_bitmask = bv_default, agg_sig = None\<rparr>"

definition get_signers_addresses :: "aggregate_signature \<Rightarrow> account_address list \<Rightarrow> account_address list" where
  "get_signers_addresses self validator_addresses =
     map snd (filter (\<lambda>(index, addr). is_set (validator_bitmask self) (of_nat index))
       (enumerate 0 validator_addresses))"

definition get_num_voters :: "aggregate_signature \<Rightarrow> nat" where
  "get_num_voters self = unat (count_ones (validator_bitmask self))"

text \<open>\<open>PartialSignatures\<close>: a map ordered by address, as an association list in key order.\<close>

type_synonym partial_signatures = "(account_address \<times> signature) list"

definition ps_remove_signature :: "partial_signatures \<Rightarrow> account_address \<Rightarrow> partial_signatures" where
  "ps_remove_signature self validator = filter (\<lambda>(a, _). a \<noteq> validator) self"

fun ps_add_signature :: "partial_signatures \<Rightarrow> account_address \<Rightarrow> signature \<Rightarrow> partial_signatures" where
  "ps_add_signature [] validator sig = [(validator, sig)]"
| "ps_add_signature ((a, s) # rest) validator sig =
     (if a = validator then (a, s) # rest
      else if validator < a then (validator, sig) # (a, s) # rest
      else (a, s) # ps_add_signature rest validator sig)"

definition ps_contains_voter :: "partial_signatures \<Rightarrow> account_address \<Rightarrow> bool" where
  "ps_contains_voter self voter = (map_of self voter \<noteq> None)"

definition build_index :: "validator_consensus_info list \<Rightarrow> u128 \<Rightarrow> u128 \<Rightarrow> validator_verifier" where
  "build_index infos quorum total_power =
     \<lparr>validator_infos = infos, quorum_voting_power = quorum, total_voting_power = total_power,
      address_to_validator_index =
        fold (\<lambda>(index, info) idx. idx(address info \<mapsto> index)) (enumerate 0 infos) Map.empty\<rparr>"

definition sum_infos_voting_power :: "validator_consensus_info list \<Rightarrow> (u128, 'e) result" where
  "sum_infos_voting_power infos =
     fold (\<lambda>x acc. and_then acc (\<lambda>sum. unwrap_some (checked_add sum (ucast (voting_power x))))) infos (Ok 0)"

definition vv_new :: "validator_consensus_info list \<Rightarrow> (validator_verifier, 'e) result" where
  "vv_new infos =
     and_then (sum_infos_voting_power infos) (\<lambda>total_power.
     and_then
       (if infos = [] then Ok 0
        else and_then (mul_p total_power 2) (\<lambda>twice. add_p (twice div 3) 1)) (\<lambda>quorum.
     Ok (build_index infos quorum total_power)))"

definition new_with_quorum_voting_power ::
  "validator_consensus_info list \<Rightarrow> u128 \<Rightarrow> (validator_verifier, string) result" where
  "new_with_quorum_voting_power infos quorum =
     and_then (sum_infos_voting_power infos) (\<lambda>total_power.
     and_then (ensure (quorum \<le> total_power)
       ''Quorum voting power is greater than the sum of all voting power of authors'') (\<lambda>_.
     Ok (build_index infos quorum total_power)))"

definition vv_new_single :: "account_address \<Rightarrow> public_key \<Rightarrow> (validator_verifier, 'e) result" where
  "vv_new_single author key = vv_new [vci_new author key 1]"

definition vv_len :: "validator_verifier \<Rightarrow> nat" where
  "vv_len self = length (validator_infos self)"

definition get_public_key :: "validator_verifier \<Rightarrow> account_address \<Rightarrow> public_key option" where
  "get_public_key self author =
     map_option (\<lambda>index. public_key (validator_infos self ! index)) (address_to_validator_index self author)"

definition get_voting_power :: "validator_verifier \<Rightarrow> account_address \<Rightarrow> u64 option" where
  "get_voting_power self author =
     map_option (\<lambda>index. voting_power (validator_infos self ! index)) (address_to_validator_index self author)"

definition get_ordered_account_addresses :: "validator_verifier \<Rightarrow> account_address list" where
  "get_ordered_account_addresses self = map address (validator_infos self)"

definition vv_verify ::
  "(signature \<Rightarrow> 'm \<Rightarrow> public_key \<Rightarrow> bool) \<Rightarrow> validator_verifier \<Rightarrow> account_address \<Rightarrow> 'm \<Rightarrow> signature \<Rightarrow>
   (unit, verify_error) result" where
  "vv_verify sig_verify self author message sig =
     (case get_public_key self author of
        Some key \<Rightarrow> if sig_verify sig message key then Ok () else Err InvalidMultiSignature
      | None \<Rightarrow> Err UnknownAuthor)"

fun collect_partial ::
  "validator_verifier \<Rightarrow> partial_signatures \<Rightarrow> bit_vec \<Rightarrow> signature list \<Rightarrow>
   (bit_vec \<times> signature list, verify_error) result" where
  "collect_partial self [] masks sigs = Ok (masks, sigs)"
| "collect_partial self ((addr, sig) # rest) masks sigs =
     and_then (ok_or UnknownAuthor (address_to_validator_index self addr)) (\<lambda>index.
     collect_partial self rest (bv_set masks (of_nat index)) (sigs @ [sig]))"

definition aggregate_signatures ::
  "(signature list \<Rightarrow> signature option) \<Rightarrow> validator_verifier \<Rightarrow> partial_signatures \<Rightarrow>
   (aggregate_signature, verify_error) result" where
  "aggregate_signatures sig_aggregate self partial =
     and_then (collect_partial self partial (with_num_bits (of_nat (vv_len self))) []) (\<lambda>(masks, sigs).
     and_then (ok_or FailedToAggregateSignature (sig_aggregate sigs)) (\<lambda>aggregated.
     Ok (agg_new masks (Some aggregated))))"

definition check_num_of_voters :: "u16 \<Rightarrow> bit_vec \<Rightarrow> (unit, verify_error) result" where
  "check_num_of_voters num_validators bitvec =
     (if num_buckets bitvec \<noteq> required_buckets num_validators then Err InvalidBitVec
      else case last_set_bit bitvec of
        Some last_bit \<Rightarrow> if last_bit \<ge> num_validators then Err InvalidBitVec else Ok ()
      | None \<Rightarrow> Ok ())"

fun sum_voting_power_loop ::
  "validator_verifier \<Rightarrow> account_address list \<Rightarrow> u128 \<Rightarrow> (u128, verify_error) result" where
  "sum_voting_power_loop self [] acc = Ok acc"
| "sum_voting_power_loop self (a # rest) acc =
     (case get_voting_power self a of
        Some w \<Rightarrow> and_then (add_p acc (ucast w)) (sum_voting_power_loop self rest)
      | None \<Rightarrow> Err UnknownAuthor)"

definition sum_voting_power :: "validator_verifier \<Rightarrow> account_address list \<Rightarrow> (u128, verify_error) result" where
  "sum_voting_power self authors = sum_voting_power_loop self authors 0"

definition check_aggregated_voting_power ::
  "validator_verifier \<Rightarrow> u128 \<Rightarrow> bool \<Rightarrow> (u128, verify_error) result" where
  "check_aggregated_voting_power self aggregated check_super_majority =
     and_then
       (if check_super_majority then Ok (quorum_voting_power self)
        else and_then (sub_p (total_voting_power self) (quorum_voting_power self)) (\<lambda>d. add_p d 1))
       (\<lambda>target.
     if aggregated < target then Err (TooLittleVotingPower aggregated target) else Ok aggregated)"

definition check_voting_power ::
  "validator_verifier \<Rightarrow> account_address list \<Rightarrow> bool \<Rightarrow> (u128, verify_error) result" where
  "check_voting_power self authors check_super_majority =
     and_then (sum_voting_power self authors) (\<lambda>aggregated.
     check_aggregated_voting_power self aggregated check_super_majority)"

fun collect_signers ::
  "validator_verifier \<Rightarrow> nat list \<Rightarrow> (validator_consensus_info list, verify_error) result" where
  "collect_signers self [] = Ok []"
| "collect_signers self (index # rest) =
     (if index < length (validator_infos self)
      then map_ok (\<lambda>vs. validator_infos self ! index # vs) (collect_signers self rest)
      else Err UnknownAuthor)"

definition verify_multi_signatures ::
  "(public_key list \<Rightarrow> public_key option) \<Rightarrow> (signature \<Rightarrow> 'm \<Rightarrow> public_key \<Rightarrow> bool) \<Rightarrow>
   validator_verifier \<Rightarrow> 'm \<Rightarrow> aggregate_signature \<Rightarrow> (unit, verify_error) result" where
  "verify_multi_signatures pk_aggregate sig_verify self message multi =
     and_then (check_num_of_voters (of_nat (vv_len self)) (validator_bitmask multi)) (\<lambda>_.
     and_then (collect_signers self (iter_ones (validator_bitmask multi))) (\<lambda>signers.
     and_then (check_voting_power self (map address signers) True) (\<lambda>_.
     and_then (ok_or EmptySignature (agg_sig multi)) (\<lambda>sig.
     and_then (ok_or FailedToAggregatePubKey (pk_aggregate (map public_key signers))) (\<lambda>key.
     if sig_verify sig message key then Ok () else Err InvalidMultiSignature)))))"

definition verify_aggregate_signatures ::
  "(signature \<Rightarrow> 'm list \<Rightarrow> public_key list \<Rightarrow> bool) \<Rightarrow> validator_verifier \<Rightarrow> 'm list \<Rightarrow>
   aggregate_signature \<Rightarrow> (unit, verify_error) result" where
  "verify_aggregate_signatures agg_verify self messages aggregated =
     and_then (check_num_of_voters (of_nat (vv_len self)) (validator_bitmask aggregated)) (\<lambda>_.
     and_then (collect_signers self (iter_ones (validator_bitmask aggregated))) (\<lambda>signers.
     and_then (check_voting_power self (map address signers) True) (\<lambda>_.
     and_then (ok_or EmptySignature (agg_sig aggregated)) (\<lambda>sig.
     if agg_verify sig messages (map public_key signers) then Ok () else Err InvalidAggregatedSignature))))"

section \<open>Quorums\<close>

text \<open>The contract of a weighted quorum system; \<open>ok\<close> says when it applies.\<close>

locale weighted_quorum =
  fixes ok :: bool and members :: "'a set" and power :: "'a \<Rightarrow> nat" and quorum :: nat and all_power :: nat
  assumes finite_members: "finite members"
    and all_power: "ok \<Longrightarrow> all_power = sum power members"
    and two_thirds: "ok \<Longrightarrow> 2 * all_power < 3 * quorum"
begin

lemma overlap_power:
  assumes ok "S \<subseteq> members" "T \<subseteq> members" "quorum \<le> sum power S" "quorum \<le> sum power T"
  shows "all_power < 3 * sum power (S \<inter> T)"
proof -
  have fin: "finite S" "finite T" using assms finite_members finite_subset by auto
  have "sum power S + sum power T = sum power (S \<union> T) + sum power (S \<inter> T)"
    using sum.union_inter [OF fin, of power] by simp
  moreover have "sum power (S \<union> T) \<le> sum power members"
    using assms finite_members by (intro sum_mono2) auto
  ultimately show ?thesis using assms all_power two_thirds by linarith
qed

text \<open>Two quorums share a member outside any set with less than a third of the power.\<close>

lemma quorum_intersection:
  assumes ok "S \<subseteq> members" "T \<subseteq> members" "quorum \<le> sum power S" "quorum \<le> sum power T"
    and faulty: "3 * sum power (members \<inter> F) < all_power"
  shows "\<exists>a. a \<in> S \<and> a \<in> T \<and> a \<notin> F"
proof (rule ccontr)
  assume "\<not> ?thesis"
  then have "S \<inter> T \<subseteq> members \<inter> F" using assms by auto
  then have "sum power (S \<inter> T) \<le> sum power (members \<inter> F)" using finite_members by (intro sum_mono2) auto
  with overlap_power [OF assms(1-5)] faulty show False by linarith
qed

lemma quorum_nonempty:
  assumes ok "S \<subseteq> members" "quorum \<le> sum power S" shows "S \<noteq> {}"
  using assms two_thirds by auto

end

definition members :: "validator_verifier \<Rightarrow> account_address set" where
  "members v = set (get_ordered_account_addresses v)"

definition vpower :: "validator_verifier \<Rightarrow> account_address \<Rightarrow> nat" where
  "vpower v a = (case get_voting_power v a of None \<Rightarrow> 0 | Some w \<Rightarrow> unat w)"

text \<open>What \<open>vv_new\<close> establishes for validators with distinct addresses.\<close>

definition wf_verifier :: "validator_verifier \<Rightarrow> bool" where
  "wf_verifier v \<longleftrightarrow>
     distinct (get_ordered_account_addresses v) \<and>
     (\<forall>i < length (validator_infos v). address_to_validator_index v (address (validator_infos v ! i)) = Some i) \<and>
     dom (address_to_validator_index v) = members v \<and>
     unat (total_voting_power v) = sum_list (map (unat \<circ> voting_power) (validator_infos v)) \<and>
     unat (quorum_voting_power v) = 2 * unat (total_voting_power v) div 3 + 1"

lemma index_fold_other:
  "a \<notin> address ` set infos \<Longrightarrow>
   fold (\<lambda>(index, info) idx. idx(address info \<mapsto> index)) (enumerate n infos) m a = m a"
  by (induction infos arbitrary: n m) auto

lemma index_fold_nth:
  "distinct (map address infos) \<Longrightarrow> i < length infos \<Longrightarrow>
   fold (\<lambda>(index, info) idx. idx(address info \<mapsto> index)) (enumerate n infos) m (address (infos ! i)) =
     Some (n + i)"
proof (induction infos arbitrary: n m i)
  case (Cons x infos)
  show ?case
  proof (cases i)
    case 0
    with Cons.prems show ?thesis by (simp add: index_fold_other del: fun_upd_apply) simp
  next
    case (Suc j)
    with Cons.IH [of j "Suc n"] Cons.prems show ?thesis by simp
  qed
qed simp

lemma unat_ucast_u64 [simp]: "unat (ucast w :: u128) = unat w" for w :: u64
proof -
  have "unat w < 2 ^ 128" using unsigned_less [of w, where 'a = nat] by simp
  then show ?thesis by (simp add: unsigned_ucast_eq take_bit_nat_eq_self)
qed

lemma sum_infos_Panic [simp]:
  "fold (\<lambda>x acc. and_then acc (\<lambda>sum. unwrap_some (checked_add sum (ucast (voting_power x))))) infos Panic = Panic"
  by (induction infos) auto

lemma sum_infos_fold:
  "fold (\<lambda>x acc. and_then acc (\<lambda>sum. unwrap_some (checked_add sum (ucast (voting_power x))))) infos (Ok s) = Ok t \<Longrightarrow>
   unat t = unat s + sum_list (map (unat \<circ> voting_power) infos)" for s t :: u128
proof (induction infos arbitrary: s)
  case (Cons x infos)
  show ?case
  proof (cases "checked_add s (ucast (voting_power x))")
    case None
    with Cons.prems show ?thesis by simp
  next
    case (Some u)
    then have "unat u = unat s + unat (voting_power x)"
      by (simp add: checked_add_Some unat_ucast_u64)
    with Cons.IH [of u] Cons.prems Some show ?thesis by simp
  qed
qed simp

lemma vv_new_wf:
  assumes "vv_new infos = Ok v" and "distinct (map address infos)" and "infos \<noteq> []"
  shows "wf_verifier v" and "validator_infos v = infos"
proof -
  from assms obtain t twice q where t: "sum_infos_voting_power infos = (Ok t :: (u128, 'a) result)"
    and twice: "mul_p t 2 = (Ok twice :: (u128, 'a) result)" and q: "add_p (twice div 3) 1 = (Ok q :: (u128, 'a) result)"
    and v: "v = build_index infos q t"
    by (auto simp: vv_new_def and_then_eq_Ok)
  from v show "validator_infos v = infos" by (simp add: build_index_def)
  have sum: "unat t = sum_list (map (unat \<circ> voting_power) infos)"
    using sum_infos_fold [of infos 0 t] t by (simp add: sum_infos_voting_power_def)
  have quorum: "unat q = 2 * unat t div 3 + 1"
    using twice q by (simp add: mul_p_Ok add_p_Ok unat_div)
  have "dom (address_to_validator_index v) = members v"
  proof (intro set_eqI)
    fix a
    show "a \<in> dom (address_to_validator_index v) \<longleftrightarrow> a \<in> members v"
    proof (cases "a \<in> address ` set infos")
      case True
      then show ?thesis
        using index_fold_nth [OF assms(2), of _ 0 Map.empty]
        by (auto simp: v build_index_def members_def get_ordered_account_addresses_def in_set_conv_nth)
    next
      case False
      then show ?thesis
        using index_fold_other [of a infos 0 Map.empty]
        by (simp add: v build_index_def members_def get_ordered_account_addresses_def domIff)
    qed
  qed
  with sum quorum assms(2) index_fold_nth [OF assms(2), of _ 0 Map.empty]
  show "wf_verifier v"
    by (auto simp: wf_verifier_def v build_index_def get_ordered_account_addresses_def)
qed

lemma power_nth:
  "wf_verifier v \<Longrightarrow> i < length (validator_infos v) \<Longrightarrow>
   vpower v (address (validator_infos v ! i)) = unat (voting_power (validator_infos v ! i))"
  by (simp add: vpower_def get_voting_power_def wf_verifier_def)

lemma sum_power_members:
  assumes "wf_verifier v"
  shows "sum (vpower v) (members v) = unat (total_voting_power v)"
proof -
  have "sum (vpower v) (members v) = sum_list (map (vpower v) (get_ordered_account_addresses v))"
    unfolding members_def using assms by (intro sum_list_distinct_conv_sum_set [symmetric]) (simp add: wf_verifier_def)
  also have "\<dots> = sum_list (map (unat \<circ> voting_power) (validator_infos v))"
    unfolding get_ordered_account_addresses_def map_map
    by (rule arg_cong [where f = sum_list], rule nth_equalityI) (simp_all add: power_nth [OF assms])
  finally show ?thesis using assms by (simp add: wf_verifier_def)
qed

interpretation vq: weighted_quorum "wf_verifier v" "members v" "vpower v"
    "unat (quorum_voting_power v)" "unat (total_voting_power v)" for v
proof
  assume "wf_verifier v"
  then show "unat (total_voting_power v) = sum (vpower v) (members v)" by (simp add: sum_power_members)
  show "2 * unat (total_voting_power v) < 3 * unat (quorum_voting_power v)"
    using \<open>wf_verifier v\<close> by (simp add: wf_verifier_def)
qed (simp add: members_def)

lemma sum_voting_power_loop_Ok:
  "sum_voting_power_loop v authors acc = Ok p \<Longrightarrow>
   unat p = unat acc + sum_list (map (vpower v) authors) \<and> set authors \<subseteq> dom (address_to_validator_index v)"
proof (induction authors arbitrary: acc)
  case (Cons a authors)
  then obtain w s where w: "get_voting_power v a = Some w" and s: "unat s = unat acc + unat w"
    and rest: "sum_voting_power_loop v authors s = Ok p"
    by (auto simp: result_simps unat_ucast_u64 split: option.splits)
  from Cons.IH [OF rest] w s show ?case by (auto simp: vpower_def get_voting_power_def)
qed simp

lemma check_voting_power_quorum:
  assumes "check_voting_power v authors True = Ok p" and "wf_verifier v" and "distinct authors"
  shows "set authors \<subseteq> members v" and "unat (quorum_voting_power v) \<le> sum (vpower v) (set authors)"
proof -
  from assms(1) have p: "sum_voting_power_loop v authors 0 = Ok p" "\<not> p < quorum_voting_power v"
    by (auto simp: check_voting_power_def sum_voting_power_def check_aggregated_voting_power_def result_simps
        split: if_splits)
  from sum_voting_power_loop_Ok [OF p(1)] assms(2,3) p(2)
  show "set authors \<subseteq> members v" and "unat (quorum_voting_power v) \<le> sum (vpower v) (set authors)"
    by (simp_all add: wf_verifier_def sum_list_distinct_conv_sum_set word_less_nat_alt)
qed

section \<open>What a verified signature shows\<close>

definition signers_of :: "validator_verifier \<Rightarrow> aggregate_signature \<Rightarrow> validator_consensus_info list" where
  "signers_of v multi = map (nth (validator_infos v)) (iter_ones (validator_bitmask multi))"

lemma collect_signers_Ok:
  "collect_signers v is = Ok vs \<longleftrightarrow> (\<forall>i \<in> set is. i < length (validator_infos v)) \<and> vs = map (nth (validator_infos v)) is"
  by (induction "is" arbitrary: vs) (auto simp: result_simps)

lemma distinct_signers:
  assumes "wf_verifier v" and "\<forall>i \<in> set (iter_ones (validator_bitmask multi)). i < length (validator_infos v)"
  shows "distinct (map address (signers_of v multi))"
proof -
  have inj: "inj_on (\<lambda>i. address (validator_infos v ! i)) {..<length (validator_infos v)}"
    using assms(1) by (auto simp: wf_verifier_def inj_on_def) (metis option.inject)
  moreover have "distinct (iter_ones (validator_bitmask multi))" by (simp add: iter_ones_def)
  ultimately show ?thesis
    using assms(2) by (auto simp: signers_of_def distinct_map o_def intro: inj_on_subset)
qed

lemma verify_multi_signatures_quorum:
  assumes "verify_multi_signatures pk_aggregate sig_verify v m multi = Ok ()" and "wf_verifier v"
  shows "\<exists>sig key. agg_sig multi = Some sig \<and> pk_aggregate (map public_key (signers_of v multi)) = Some key \<and>
      sig_verify sig m key"
    and "address ` set (signers_of v multi) \<subseteq> members v"
    and "unat (quorum_voting_power v) \<le> sum (vpower v) (address ` set (signers_of v multi))"
    and "set (signers_of v multi) \<subseteq> set (validator_infos v)"
proof -
  from assms(1) obtain p where known: "\<forall>i \<in> set (iter_ones (validator_bitmask multi)). i < length (validator_infos v)"
    and check: "check_voting_power v (map address (signers_of v multi)) True = Ok p"
    and sig: "\<exists>sig key. agg_sig multi = Some sig \<and> pk_aggregate (map public_key (signers_of v multi)) = Some key \<and>
      sig_verify sig m key"
    by (auto simp: verify_multi_signatures_def result_simps collect_signers_Ok signers_of_def split: if_splits)
  from sig show "\<exists>sig key. agg_sig multi = Some sig \<and> pk_aggregate (map public_key (signers_of v multi)) = Some key \<and>
      sig_verify sig m key" .
  from check_voting_power_quorum [OF check assms(2) distinct_signers [OF assms(2) known]]
  show "address ` set (signers_of v multi) \<subseteq> members v"
    and "unat (quorum_voting_power v) \<le> sum (vpower v) (address ` set (signers_of v multi))" by simp_all
  from known show "set (signers_of v multi) \<subseteq> set (validator_infos v)" by (auto simp: signers_of_def)
qed

lemma verify_aggregate_signatures_quorum:
  assumes "verify_aggregate_signatures agg_verify v ms multi = Ok ()" and "wf_verifier v"
  shows "\<exists>sig. agg_sig multi = Some sig \<and> agg_verify sig ms (map public_key (signers_of v multi))"
    and "address ` set (signers_of v multi) \<subseteq> members v"
    and "unat (quorum_voting_power v) \<le> sum (vpower v) (address ` set (signers_of v multi))"
    and "set (signers_of v multi) \<subseteq> set (validator_infos v)"
proof -
  from assms(1) obtain p where known: "\<forall>i \<in> set (iter_ones (validator_bitmask multi)). i < length (validator_infos v)"
    and check: "check_voting_power v (map address (signers_of v multi)) True = Ok p"
    and sig: "\<exists>sig. agg_sig multi = Some sig \<and> agg_verify sig ms (map public_key (signers_of v multi))"
    by (auto simp: verify_aggregate_signatures_def result_simps collect_signers_Ok signers_of_def split: if_splits)
  from sig show "\<exists>sig. agg_sig multi = Some sig \<and> agg_verify sig ms (map public_key (signers_of v multi))" .
  from check_voting_power_quorum [OF check assms(2) distinct_signers [OF assms(2) known]]
  show "address ` set (signers_of v multi) \<subseteq> members v"
    and "unat (quorum_voting_power v) \<le> sum (vpower v) (address ` set (signers_of v multi))" by simp_all
  from known show "set (signers_of v multi) \<subseteq> set (validator_infos v)" by (auto simp: signers_of_def)
qed

text \<open>
  \<^bold>\<open>C6.\<close> Two verified multi-signatures share an honest signer. For the verifier built from
  validators with distinct addresses, if two multi-signatures verify, of whatever messages, and the
  validators in \<open>F\<close> have less than a third of the voting power, then some validator outside \<open>F\<close> is
  marked in both bit masks.
\<close>

theorem multi_signatures_share_honest_signer:
  assumes "vv_new infos = Ok v" and "distinct (map address infos)" and "infos \<noteq> []"
    and "verify_multi_signatures pk_aggregate sig_verify v m1 multi1 = Ok ()"
    and "verify_multi_signatures pk_aggregate sig_verify v m2 multi2 = Ok ()"
    and "3 * sum (vpower v) (members v \<inter> F) < unat (total_voting_power v)"
  shows "\<exists>i < length infos. address (infos ! i) \<notin> F \<and>
    i \<in> set (iter_ones (validator_bitmask multi1)) \<and> i \<in> set (iter_ones (validator_bitmask multi2))"
proof -
  note wf = vv_new_wf [OF assms(1-3)]
  note q1 = verify_multi_signatures_quorum [OF assms(4) wf(1)]
    and q2 = verify_multi_signatures_quorum [OF assms(5) wf(1)]
  from vq.quorum_intersection [OF wf(1) q1(2) q2(2) q1(3) q2(3) assms(6)]
  obtain a where a: "a \<in> address ` set (signers_of v multi1)" "a \<in> address ` set (signers_of v multi2)" "a \<notin> F"
    by blast
  from a obtain i j where i: "i \<in> set (iter_ones (validator_bitmask multi1))" "a = address (infos ! i)"
    and j: "j \<in> set (iter_ones (validator_bitmask multi2))" "a = address (infos ! j)"
    by (auto simp: signers_of_def wf(2))
  have bound: "i < length infos" "j < length infos"
    using assms(4,5) i(1) j(1) by (auto simp: verify_multi_signatures_def result_simps collect_signers_Ok wf(2))
  with i j assms(2) have "i = j" by (metis distinct_conv_nth length_map nth_map)
  with i j a(3) bound show ?thesis by blast
qed

section \<open>An aggregate of valid signatures verifies\<close>

lemma collect_partial_Ok:
  "collect_partial v ps masks sigs = Ok r \<longleftrightarrow>
     fst ` set ps \<subseteq> dom (address_to_validator_index v) \<and>
     r = (fold (\<lambda>a b. bv_set b (of_nat (the (address_to_validator_index v a)))) (map fst ps) masks,
          sigs @ map snd ps)"
proof (induction ps arbitrary: masks sigs)
  case (Cons x ps)
  then show ?case by (cases x) (auto simp: result_simps)
qed auto

lemma sum_voting_power_loop_total:
  "set authors \<subseteq> dom (address_to_validator_index v) \<Longrightarrow> unat acc + sum_list (map (vpower v) authors) < 2 ^ 128 \<Longrightarrow>
   \<exists>q. sum_voting_power_loop v authors acc = Ok q \<and> unat q = unat acc + sum_list (map (vpower v) authors)"
proof (induction authors arbitrary: acc)
  case (Cons a authors)
  then obtain w where w: "get_voting_power v a = Some w" by (auto simp: get_voting_power_def)
  then have power: "vpower v a = unat w" by (simp add: vpower_def)
  have small: "unat acc + unat w < 2 ^ 128" using Cons.prems(2) power by simp
  have sum: "unat (acc + ucast w) = unat acc + unat w"
    using unat_add_if [of acc "ucast w"] small by simp
  have "(add_p acc (ucast w) :: (u128, verify_error) result) = Ok (acc + ucast w)"
    using small by (simp add: add_p_def checked_add_def)
  with Cons.IH [of "acc + ucast w"] Cons.prems w sum power show ?case by (simp add: add.assoc)
qed simp

lemma sum_voting_power_perm:
  assumes "check_voting_power v xs True = Ok p" and "mset ys = mset xs"
  shows "check_voting_power v ys True = Ok p"
proof -
  from assms(1) have p: "sum_voting_power_loop v xs 0 = Ok p" "\<not> p < quorum_voting_power v"
    by (auto simp: check_voting_power_def sum_voting_power_def check_aggregated_voting_power_def result_simps
        split: if_splits)
  note xs = sum_voting_power_loop_Ok [OF p(1)]
  have sum: "sum_list (map (vpower v) ys) = sum_list (map (vpower v) xs)"
    using assms(2) by (metis mset_map sum_mset_sum_list)
  have "sum_list (map (vpower v) xs) < 2 ^ 128" using xs unsigned_less [of p, where 'a = nat] by simp
  moreover have "set ys \<subseteq> dom (address_to_validator_index v)" using xs mset_eq_setD [OF assms(2)] by simp
  ultimately have "sum_voting_power_loop v ys 0 = Ok p"
    using sum_voting_power_loop_total [of ys v 0] sum xs by (auto simp: word_eq_unat)
  with p(2) show ?thesis
    by (simp add: check_voting_power_def sum_voting_power_def check_aggregated_voting_power_def)
qed

lemma wf_index:
  "wf_verifier v \<Longrightarrow> a \<in> members v \<Longrightarrow>
   \<exists>i. address_to_validator_index v a = Some i \<and> i < length (validator_infos v) \<and> address (validator_infos v ! i) = a"
  by (auto simp: wf_verifier_def members_def get_ordered_account_addresses_def in_set_conv_nth)

lemma masks_buckets:
  assumes "\<forall>a \<in> set as. idx a < n" and "n < 65536"
    and "num_buckets b = required_buckets (of_nat n)"
  shows "num_buckets (fold (\<lambda>a b. bv_set b (of_nat (idx a))) as b) = required_buckets (of_nat n)"
  using assms
proof (induction as arbitrary: b)
  case (Cons a as)
  then have a: "idx a < n" "unat (of_nat (idx a) :: u16) = idx a" by (auto intro: unat_of_nat_u16)
  have n: "unat (of_nat n :: u16) = n" using Cons.prems by (intro unat_of_nat_u16) simp
  have "checked_sub (of_nat n :: u16) 1 = Some (of_nat n - 1)" "unat (of_nat n - 1 :: u16) = n - 1"
    using a(1) n by (auto simp: checked_sub_def word_le_nat_alt unat_sub)
  then have "required_buckets (of_nat n) = (n - 1) div 8 + 1"
    by (simp add: required_buckets_def BUCKET_SIZE_def)
  moreover have "idx a div 8 \<le> (n - 1) div 8" using a(1) by (intro div_le_mono) simp
  ultimately have "num_buckets (bv_set b (of_nat (idx a))) = num_buckets b"
    using Cons.prems(3) a(2) by (simp add: num_buckets_def bv_set_inner)
  with Cons show ?case by simp
qed simp

lemma masks_ones:
  assumes "\<forall>a \<in> set as. idx a < n" and "n < 65536" and "inj_on idx (set as)" and "distinct as"
  shows "mset (iter_ones (fold (\<lambda>a b. bv_set b (of_nat (idx a))) as (with_num_bits k))) = mset (map idx as)"
proof -
  let ?b = "fold (\<lambda>a b. bv_set b (of_nat (idx a))) as (with_num_bits k)"
  have wf: "wf_bv ?b" by (rule bv.inv_fold) simp
  have "is_set ?b q \<longleftrightarrow> q \<in> (\<lambda>a. of_nat (idx a)) ` set as" for q by (simp add: bv.mem_fold)
  moreover have "q \<in> (\<lambda>a. of_nat (idx a)) ` set as \<longleftrightarrow> unat q \<in> idx ` set as" for q :: u16
  proof -
    have "q = of_nat (idx a) \<longleftrightarrow> unat q = idx a" if "a \<in> set as" for a
      using unat_of_nat_u16 [of "idx a"] assms(1,2) that by (metis less_trans word_eq_unat)
    then show ?thesis by (auto simp: image_iff)
  qed
  ultimately have "set_at (inner ?b) (unat q) \<longleftrightarrow> unat q \<in> idx ` set as" for q :: u16
    by (simp add: is_set_iff [symmetric])
  then have "set_at (inner ?b) j \<longleftrightarrow> j \<in> idx ` set as" if "j < 65536" for j
    using that unat_of_nat_u16 [OF that] by metis
  moreover have "set_at (inner ?b) j \<Longrightarrow> j < 65536" for j
    using set_at_bound [of "inner ?b" j] wf by (simp add: wf_bv_def MAX_BUCKETS_def)
  moreover have "j \<in> idx ` set as \<Longrightarrow> j < 65536" for j using assms(1,2) by auto
  ultimately have "set_at (inner ?b) j \<longleftrightarrow> j \<in> idx ` set as" for j by blast
  then have "set (iter_ones ?b) = idx ` set as" using set_iter_ones [OF wf] by auto
  moreover have "distinct (iter_ones ?b)" "distinct (map idx as)"
    using assms by (simp_all add: iter_ones_def distinct_map)
  ultimately show ?thesis by (metis set_eq_iff_mset_eq_distinct list.set_map)
qed

lemma check_num_of_voters_Ok:
  assumes "num_buckets b = required_buckets n" and "wf_bv b" and "\<forall>k \<in> set (iter_ones b). k < unat n"
  shows "check_num_of_voters n b = Ok ()"
proof (cases "last_set_bit b")
  case (Some p)
  then have "unat p < unat n" using last_set_bit_Some(1) [OF assms(2)] set_iter_ones [OF assms(2)] assms(3) by auto
  with Some assms(1) show ?thesis by (simp add: check_num_of_voters_def word_le_nat_alt)
qed (use assms(1) in \<open>simp add: check_num_of_voters_def\<close>)

definition info_of :: "validator_verifier \<Rightarrow> account_address \<Rightarrow> validator_consensus_info" where
  "info_of v a = validator_infos v ! the (address_to_validator_index v a)"

lemma aggregate_signatures_Ok:
  assumes wf: "wf_verifier v" and len: "vv_len v < 65536" and "distinct (map fst partial)"
    and known: "fst ` set partial \<subseteq> members v" and sig: "sig_aggregate (map snd partial) = Some sig"
  obtains agg where "aggregate_signatures sig_aggregate v partial = Ok agg" and "agg_sig agg = Some sig"
    and "check_num_of_voters (of_nat (vv_len v)) (validator_bitmask agg) = Ok ()"
    and "collect_signers v (iter_ones (validator_bitmask agg)) = Ok (signers_of v agg)"
    and "mset (signers_of v agg) = mset (map (info_of v) (map fst partial))" and "wf_bv (validator_bitmask agg)"
proof -
  define idx where "idx a = the (address_to_validator_index v a)" for a
  let ?as = "map fst partial" and ?n = "vv_len v"
  let ?masks = "fold (\<lambda>a b. bv_set b (of_nat (idx a))) ?as (with_num_bits (of_nat ?n))"
  have idx: "address_to_validator_index v a = Some (idx a) \<and> idx a < ?n \<and> address (validator_infos v ! idx a) = a"
    if "a \<in> set ?as" for a
  proof -
    from known that have "a \<in> members v" by auto
    with wf_index [OF wf, of a] show ?thesis by (auto simp: idx_def vv_len_def)
  qed
  have inj: "inj_on idx (set ?as)" by (rule inj_onI) (metis idx)
  have ones: "mset (iter_ones ?masks) = mset (map idx ?as)"
    using idx len assms(3) inj by (intro masks_ones) auto
  have small: "\<forall>i \<in> set (iter_ones ?masks). i < ?n" using mset_eq_setD [OF ones] idx by auto
  have n: "unat (of_nat ?n :: u16) = ?n" using len by (rule unat_of_nat_u16)
  have "num_buckets ?masks = required_buckets (of_nat ?n)"
    using idx len by (intro masks_buckets) (auto simp: num_buckets_def with_num_bits_def)
  moreover have "wf_bv ?masks" by (rule bv.inv_fold) simp
  note bv = this
  ultimately have voters: "check_num_of_voters (of_nat ?n) ?masks = Ok ()"
    using small n by (intro check_num_of_voters_Ok) simp_all
  have "mset (map (nth (validator_infos v)) (iter_ones ?masks)) = mset (map (nth (validator_infos v)) (map idx ?as))"
    by (simp only: mset_map ones)
  moreover have "aggregate_signatures sig_aggregate v partial = Ok (agg_new ?masks (Some sig))"
    using known sig wf by (simp add: aggregate_signatures_def and_then_eq_Ok collect_partial_Ok wf_verifier_def idx_def)
  ultimately show ?thesis
    using voters small bv
    by (intro that [of "agg_new ?masks (Some sig)"])
      (simp_all add: agg_new_def collect_signers_Ok signers_of_def vv_len_def info_of_def idx_def o_def)
qed

text \<open>
  Correctness of BLS aggregation for a message: signatures that verify under their keys aggregate, in any order, to a
  signature that verifies under the aggregate of the keys.
\<close>

definition bls_correct ::
  "(signature list \<Rightarrow> signature option) \<Rightarrow> (public_key list \<Rightarrow> public_key option) \<Rightarrow>
   (signature \<Rightarrow> 'm \<Rightarrow> public_key \<Rightarrow> bool) \<Rightarrow> 'm \<Rightarrow> bool" where
  "bls_correct sig_aggregate pk_aggregate sig_verify m \<longleftrightarrow>
     (\<forall>pairs keys. pairs \<noteq> [] \<and> (\<forall>(k, s) \<in> set pairs. sig_verify s m k) \<and> mset keys = mset (map fst pairs) \<longrightarrow>
       (\<exists>sig key. sig_aggregate (map snd pairs) = Some sig \<and> pk_aggregate keys = Some key \<and> sig_verify sig m key))"

text \<open>Aggregation of signatures of a quorum, for a well-formed verifier.\<close>

lemma aggregation_verifies:
  assumes wf: "wf_verifier v" and len: "vv_len v < 65536" and bls: "bls_correct sig_aggregate pk_aggregate sig_verify m"
    and distinct: "distinct (map fst partial)"
    and valid: "\<forall>(a, s) \<in> set partial. vv_verify sig_verify v a m s = Ok ()"
    and quorum: "check_voting_power v (map fst partial) True = Ok p"
  shows "\<exists>agg. aggregate_signatures sig_aggregate v partial = Ok agg \<and>
    verify_multi_signatures pk_aggregate sig_verify v m agg = Ok ()"
proof -
  from check_voting_power_quorum [OF quorum wf distinct]
  have known: "fst ` set partial \<subseteq> members v" and weight: "unat (quorum_voting_power v) \<le> sum (vpower v) (fst ` set partial)"
    by simp_all
  let ?pairs = "map (\<lambda>(a, s). (public_key (info_of v a), s)) partial"
  have "?pairs \<noteq> []" using vq.quorum_nonempty [OF wf known weight] by auto
  moreover have "\<forall>(k, s) \<in> set ?pairs. sig_verify s m k"
    using valid by (fastforce simp: vv_verify_def get_public_key_def info_of_def split: option.splits if_splits)
  ultimately have bls': "\<exists>sig key. sig_aggregate (map snd partial) = Some sig \<and> pk_aggregate keys = Some key \<and>
      sig_verify sig m key" if "mset keys = mset (map (\<lambda>a. public_key (info_of v a)) (map fst partial))" for keys
    using bls [unfolded bls_correct_def, rule_format, of ?pairs keys] that by (simp add: case_prod_unfold o_def)
  then obtain sig where "sig_aggregate (map snd partial) = Some sig" by blast
  then obtain agg where agg: "aggregate_signatures sig_aggregate v partial = Ok agg" "agg_sig agg = Some sig"
    "check_num_of_voters (of_nat (vv_len v)) (validator_bitmask agg) = Ok ()"
    "collect_signers v (iter_ones (validator_bitmask agg)) = Ok (signers_of v agg)"
    and signers: "mset (signers_of v agg) = mset (map (info_of v) (map fst partial))"
    by (rule aggregate_signatures_Ok [OF wf len distinct known])
  have mapped: "mset (map f (signers_of v agg)) = mset (map (\<lambda>a. f (info_of v a)) (map fst partial))" for f :: "_ \<Rightarrow> 'z"
    using signers by (metis (no_types, lifting) map_map mset_map comp_def map_eq_conv)
  have "map (\<lambda>a. address (info_of v a)) (map fst partial) = map fst partial"
    using wf_index [OF wf] known by (auto simp: info_of_def) (metis imageI fst_conv option.sel subsetD)
  with mapped [of address] have "mset (map address (signers_of v agg)) = mset (map fst partial)"
    by (simp only:)
  then have "check_voting_power v (map address (signers_of v agg)) True = Ok p"
    by (rule sum_voting_power_perm [OF quorum])
  with agg bls' [OF mapped [of public_key]] \<open>sig_aggregate (map snd partial) = Some sig\<close> show ?thesis
    by (auto simp: verify_multi_signatures_def)
qed


text \<open>
  \<^bold>\<open>C22.\<close> Aggregating valid signatures of a quorum gives a signature that verifies. The
  hypothesis \<open>bls\<close> is the correctness of BLS aggregation: signatures of one message that verify
  under their keys aggregate, in any order, to a signature that verifies under the aggregate of the
  keys.
\<close>

theorem aggregate_then_verify:
  assumes "vv_new infos = Ok v" and "distinct (map address infos)" and "infos \<noteq> []" and "length infos < 65536"
    and bls: "\<And>pairs keys. pairs \<noteq> [] \<Longrightarrow> \<forall>(k, s) \<in> set pairs. sig_verify s m k \<Longrightarrow>
      mset keys = mset (map fst pairs) \<Longrightarrow>
      \<exists>sig key. sig_aggregate (map snd pairs) = Some sig \<and> pk_aggregate keys = Some key \<and> sig_verify sig m key"
    and distinct: "distinct (map fst partial)"
    and valid: "\<forall>(a, s) \<in> set partial. vv_verify sig_verify v a m s = Ok ()"
    and quorum: "check_voting_power v (map fst partial) True = Ok p"
  shows "\<exists>agg. aggregate_signatures sig_aggregate v partial = Ok agg \<and>
    verify_multi_signatures pk_aggregate sig_verify v m agg = Ok ()"
proof -
  note wf = vv_new_wf [OF assms(1-3)]
  have len: "vv_len v < 65536" using assms(4) by (simp add: vv_len_def wf(2))
  have "bls_correct sig_aggregate pk_aggregate sig_verify m" using bls unfolding bls_correct_def by blast
  from aggregation_verifies [OF wf(1) len this distinct valid quorum] show ?thesis .
qed

text \<open>Toy BLS operations for the witnesses: a signature of \<open>m\<close> is \<open>m\<close> itself, for every key.\<close>

definition demo_infos :: "validator_consensus_info list" where
  "demo_infos = [vci_new 1 11 10, vci_new 2 12 10, vci_new 3 13 10, vci_new 4 14 10]"

definition demo_verifier :: validator_verifier where
  "demo_verifier = build_index demo_infos 27 40"

lemma demo_new: "vv_new demo_infos = Ok demo_verifier"
  by (simp add: vv_new_def sum_infos_voting_power_def demo_infos_def demo_verifier_def vci_new_def
      checked_add_def mul_p_def add_p_def)

lemma demo_distinct: "distinct (map address demo_infos)" "demo_infos \<noteq> []" "length demo_infos < 65536"
  by (simp_all add: demo_infos_def vci_new_def)

lemma demo_fields:
  "validator_infos demo_verifier = demo_infos" "quorum_voting_power demo_verifier = 27"
  "total_voting_power demo_verifier = 40"
  by (simp_all add: demo_verifier_def build_index_def)

lemma demo_power:
  "get_voting_power demo_verifier 1 = Some 10" "get_voting_power demo_verifier 2 = Some 10"
  "get_voting_power demo_verifier 3 = Some 10" "get_voting_power demo_verifier 4 = Some 10"
  "get_public_key demo_verifier 1 = Some 11" "get_public_key demo_verifier 2 = Some 12"
  "get_public_key demo_verifier 3 = Some 13" "get_public_key demo_verifier 4 = Some 14"
  by (simp_all add: get_voting_power_def get_public_key_def demo_verifier_def demo_infos_def build_index_def vci_new_def)

lemma demo_masks:
  "iter_ones \<lparr>inner = [208]\<rparr> = [0, 1, 3]" "iter_ones \<lparr>inner = [176]\<rparr> = [0, 2, 3]"
  "last_set_bit \<lparr>inner = [208]\<rparr> = Some 3" "last_set_bit \<lparr>inner = [176]\<rparr> = Some 3"
  by (simp_all add: iter_ones_def is_set_def BUCKET_SIZE_def upt_rec last_set_bit_def byte_trailing_zeros_def)

lemma demo_verify:
  "verify_multi_signatures (\<lambda>keys. Some 0) (\<lambda>s m k. s = m) demo_verifier 5 (agg_new \<lparr>inner = [208]\<rparr> (Some 5)) = Ok ()"
  "verify_multi_signatures (\<lambda>keys. Some 0) (\<lambda>s m k. s = m) demo_verifier 6 (agg_new \<lparr>inner = [176]\<rparr> (Some 6)) = Ok ()"
  by (simp_all add: verify_multi_signatures_def agg_new_def check_num_of_voters_def demo_masks num_buckets_def
      required_buckets_def demo_power check_voting_power_def sum_voting_power_def check_aggregated_voting_power_def
      add_p_def checked_add_def checked_sub_def BUCKET_SIZE_def demo_fields vv_len_def demo_infos_def vci_new_def)

lemma demo_quorum:
  "verify_multi_signatures (\<lambda>_. Some 0) sig_verify demo_verifier m (agg_new \<lparr>inner = [208]\<rparr> (Some s)) = Ok () \<longleftrightarrow>
     sig_verify s m 0"
  by (simp add: verify_multi_signatures_def agg_new_def check_num_of_voters_def demo_masks num_buckets_def
      required_buckets_def demo_power check_voting_power_def sum_voting_power_def check_aggregated_voting_power_def
      add_p_def checked_add_def checked_sub_def BUCKET_SIZE_def demo_fields vv_len_def demo_infos_def vci_new_def)

theorem multi_signatures_share_honest_signer_witness:
  "\<exists>i < length demo_infos. address (demo_infos ! i) \<notin> {4} \<and>
     i \<in> set (iter_ones \<lparr>inner = [208]\<rparr>) \<and> i \<in> set (iter_ones \<lparr>inner = [176]\<rparr>)"
proof -
  have "members demo_verifier = {1, 2, 3, 4}"
    by (auto simp: members_def get_ordered_account_addresses_def demo_verifier_def build_index_def demo_infos_def vci_new_def)
  then have "3 * sum (vpower demo_verifier) (members demo_verifier \<inter> {4}) < unat (total_voting_power demo_verifier)"
    by (simp add: vpower_def demo_power) (simp add: demo_verifier_def build_index_def)
  from multi_signatures_share_honest_signer [OF demo_new demo_distinct(1,2) demo_verify this]
  show ?thesis by (simp add: agg_new_def)
qed

theorem aggregate_then_verify_witness:
  "\<exists>agg. aggregate_signatures (\<lambda>sigs. Some 5) demo_verifier [(1, 5), (2, 5), (4, 5)] = Ok agg \<and>
     verify_multi_signatures (\<lambda>keys. Some 0) (\<lambda>s m k. s = m) demo_verifier 5 agg = Ok ()"
proof (rule aggregate_then_verify [OF demo_new demo_distinct])
  show "check_voting_power demo_verifier (map fst [(1, 5), (2, 5), (4, 5)]) True = Ok 30"
    by (simp add: check_voting_power_def sum_voting_power_def check_aggregated_voting_power_def demo_power
        add_p_def checked_add_def) (simp add: demo_verifier_def build_index_def)
qed (auto simp: vv_verify_def demo_power)

end
