(* ===== verification/Ledger_Types.thy ===== *)
theory Ledger_Types
  imports Validator_Verifier
begin

text \<open>
  The data a ledger is certified with: \<open>src/types/src/block_info.rs\<close>,
  \<open>src/types/src/ledger_info.rs\<close>, the data of \<open>src/types/src/epoch_state.rs\<close>, and the
  conversion of the on-chain validator set (\<open>on_chain_config/validator_set.rs\<close>,
  \<open>validator_info.rs\<close>) into a validator verifier.
\<close>

section \<open>Model\<close>

type_synonym round = u64
type_synonym version = u64

text \<open>\<open>anyhow::Error\<close>: a message, a verification error, or an error with a context.\<close>

datatype anyhow = Msg string | FromVerify verify_error | Context string anyhow

subsection \<open>Validator sets\<close>

record validator_config =
  consensus_public_key :: public_key
  validator_index :: u64

record validator_info =
  account_address :: account_address
  consensus_voting_power :: u64
  config :: validator_config

record validator_set =
  active_validators :: "validator_info list"
  pending_inactive :: "validator_info list"
  pending_active :: "validator_info list"
  vs_total_voting_power :: u128
  total_joining_power :: u128

definition vs_new :: "validator_info list \<Rightarrow> validator_set" where
  "vs_new infos = \<lparr>active_validators = infos, pending_inactive = [], pending_active = [],
     vs_total_voting_power = 0, total_joining_power = 0\<rparr>"

definition payload :: "validator_set \<Rightarrow> validator_info list" where
  "payload self = active_validators self @ pending_inactive self"

definition consensus_info_of :: "validator_info \<Rightarrow> validator_consensus_info" where
  "consensus_info_of info =
     vci_new (account_address info) (consensus_public_key (config info)) (consensus_voting_power info)"

definition sort_infos :: "validator_info list \<Rightarrow> (u64 \<times> validator_consensus_info) list" where
  "sort_infos infos =
     fold (\<lambda>info m. btree_insert (validator_index (config info)) (consensus_info_of info) m) infos []"

fun check_indices :: "validator_consensus_info list \<Rightarrow> validator_info list \<Rightarrow> (unit, 'e) result" where
  "check_indices infos [] = Ok ()"
| "check_indices infos (info # rest) =
     (let i = unat (validator_index (config info)) in
      and_then (assert_p (i < length infos)) (\<lambda>_.
      and_then (assert_p (address (infos ! i) = account_address info)) (\<lambda>_.
      check_indices infos rest)))"

definition verifier_of_set :: "validator_set \<Rightarrow> (validator_verifier, 'e) result" where
  "verifier_of_set vs =
     (let infos = map snd (sort_infos (payload vs)) in
      and_then (check_indices infos (payload vs)) (\<lambda>_. vv_new infos))"

subsection \<open>Block and ledger information\<close>

record epoch_state =
  es_epoch :: u64
  es_verifier :: validator_verifier

definition es_empty :: "(epoch_state, 'e) result" where
  "es_empty = map_ok (\<lambda>v. \<lparr>es_epoch = 0, es_verifier = v\<rparr>) (vv_new [])"

record block_info =
  bi_epoch :: u64
  bi_round :: round
  bi_id :: hash_value
  bi_executed_state_id :: hash_value
  bi_version :: version
  bi_timestamp_usecs :: u64
  bi_next_epoch_state :: "epoch_state option"

definition bi_new ::
  "u64 \<Rightarrow> round \<Rightarrow> hash_value \<Rightarrow> hash_value \<Rightarrow> version \<Rightarrow> u64 \<Rightarrow> epoch_state option \<Rightarrow> block_info" where
  "bi_new epoch round block_id executed_state_id ver timestamp_usecs next_epoch_state =
     \<lparr>bi_epoch = epoch, bi_round = round, bi_id = block_id, bi_executed_state_id = executed_state_id,
      bi_version = ver, bi_timestamp_usecs = timestamp_usecs, bi_next_epoch_state = next_epoch_state\<rparr>"

definition bi_empty :: block_info where
  "bi_empty = bi_new 0 0 0 0 0 0 None"

definition bi_is_empty :: "block_info \<Rightarrow> bool" where
  "bi_is_empty self \<longleftrightarrow> self = bi_empty"

definition bi_genesis :: "hash_value \<Rightarrow> validator_set \<Rightarrow> (block_info, 'e) result" where
  "bi_genesis genesis_state_root_hash vs =
     map_ok (\<lambda>v. bi_new 0 0 0 genesis_state_root_hash 0 0 (Some \<lparr>es_epoch = 1, es_verifier = v\<rparr>))
       (verifier_of_set vs)"

definition bi_next_block_epoch :: "block_info \<Rightarrow> u64" where
  "bi_next_block_epoch self =
     (case bi_next_epoch_state self of None \<Rightarrow> bi_epoch self | Some e \<Rightarrow> es_epoch e)"

definition has_reconfiguration :: "block_info \<Rightarrow> bool" where
  "has_reconfiguration self \<longleftrightarrow> bi_next_epoch_state self \<noteq> None"

definition allow_timestamp_change :: "block_info \<Rightarrow> u64 \<Rightarrow> bool" where
  "allow_timestamp_change self timestamp \<longleftrightarrow> has_reconfiguration self \<and> bi_timestamp_usecs self \<ge> timestamp"

definition change_timestamp :: "block_info \<Rightarrow> u64 \<Rightarrow> (block_info, 'e) result" where
  "change_timestamp self timestamp =
     and_then (assert_p (allow_timestamp_change self timestamp)) (\<lambda>_.
     Ok (self\<lparr>bi_timestamp_usecs := timestamp\<rparr>))"

definition match_ordered_only :: "block_info \<Rightarrow> block_info \<Rightarrow> bool" where
  "match_ordered_only self executed \<longleftrightarrow>
     bi_epoch self = bi_epoch executed \<and> bi_round self = bi_round executed \<and> bi_id self = bi_id executed \<and>
     (bi_timestamp_usecs self = bi_timestamp_usecs executed \<or>
      (bi_timestamp_usecs self > bi_timestamp_usecs executed \<and> has_reconfiguration executed))"

text \<open>A literal hash: the bytes of a word of at most 32 letters, padded with zeros.\<close>

definition create_literal_hash :: "string \<Rightarrow> hash_value" where
  "create_literal_hash s =
     fold (\<lambda>b h. h * 256 + of_nat b) (map of_char s @ replicate (32 - length s) 0) 0"

definition ACCUMULATOR_PLACEHOLDER_HASH :: hash_value where
  "ACCUMULATOR_PLACEHOLDER_HASH = create_literal_hash ''ACCUMULATOR_PLACEHOLDER_HASH''"

definition is_ordered_only :: "block_info \<Rightarrow> bool" where
  "is_ordered_only self \<longleftrightarrow>
     self \<noteq> bi_empty \<and> bi_next_epoch_state self = None \<and>
     bi_executed_state_id self = ACCUMULATOR_PLACEHOLDER_HASH \<and> bi_version self = 0"

record ledger_info =
  commit_info :: block_info
  consensus_data_hash :: hash_value

definition li_new :: "block_info \<Rightarrow> hash_value \<Rightarrow> ledger_info" where
  "li_new info data_hash = \<lparr>commit_info = info, consensus_data_hash = data_hash\<rparr>"

definition li_dummy :: ledger_info where
  "li_dummy = li_new bi_empty 0"

definition li_is_dummy :: "ledger_info \<Rightarrow> bool" where
  "li_is_dummy self \<longleftrightarrow> bi_is_empty (commit_info self) \<and> consensus_data_hash self = 0"

definition li_genesis :: "hash_value \<Rightarrow> validator_set \<Rightarrow> (ledger_info, 'e) result" where
  "li_genesis genesis_state_root_hash vs = map_ok (\<lambda>b. li_new b 0) (bi_genesis genesis_state_root_hash vs)"

abbreviation "li_epoch li \<equiv> bi_epoch (commit_info li)"
abbreviation "li_round li \<equiv> bi_round (commit_info li)"
abbreviation "li_version li \<equiv> bi_version (commit_info li)"
abbreviation "transaction_accumulator_hash li \<equiv> bi_executed_state_id (commit_info li)"
abbreviation "li_next_epoch_state li \<equiv> bi_next_epoch_state (commit_info li)"

definition ends_epoch :: "ledger_info \<Rightarrow> bool" where
  "ends_epoch self \<longleftrightarrow> li_next_epoch_state self \<noteq> None"

definition set_consensus_data_hash :: "ledger_info \<Rightarrow> hash_value \<Rightarrow> ledger_info" where
  "set_consensus_data_hash self h = self\<lparr>consensus_data_hash := h\<rparr>"

record ledger_info_with_signatures =
  lis_ledger_info :: ledger_info
  lis_signatures :: aggregate_signature

definition lis_new :: "ledger_info \<Rightarrow> aggregate_signature \<Rightarrow> ledger_info_with_signatures" where
  "lis_new li sigs = \<lparr>lis_ledger_info = li, lis_signatures = sigs\<rparr>"

definition lis_genesis :: "hash_value \<Rightarrow> validator_set \<Rightarrow> (ledger_info_with_signatures, 'e) result" where
  "lis_genesis genesis_state_root_hash vs =
     map_ok (\<lambda>li. lis_new li agg_empty) (li_genesis genesis_state_root_hash vs)"

text \<open>
  The cryptographic operations on ledger information, which the code takes from external
  libraries: BLS aggregation, the check of a signature of a ledger info under a key, and the hash
  behind a waypoint.
\<close>

record waypoint_converter =
  wc_epoch :: u64
  wc_root_hash :: hash_value
  wc_version :: version
  wc_timestamp_usecs :: u64
  wc_next_epoch_state :: "epoch_state option"

record ledger_crypto =
  bls_pk_aggregate :: "public_key list \<Rightarrow> public_key option"
  bls_sig_aggregate :: "signature list \<Rightarrow> signature option"
  bls_verify_li :: "signature \<Rightarrow> ledger_info \<Rightarrow> public_key \<Rightarrow> bool"
  waypoint_hash :: "waypoint_converter \<Rightarrow> hash_value"

definition lis_verify_signatures ::
  "'c ledger_crypto_scheme \<Rightarrow> ledger_info_with_signatures \<Rightarrow> validator_verifier \<Rightarrow> (unit, verify_error) result" where
  "lis_verify_signatures C self validator =
     verify_multi_signatures (bls_pk_aggregate C) (bls_verify_li C) validator (lis_ledger_info self)
       (lis_signatures self)"

definition lis_get_voters :: "ledger_info_with_signatures \<Rightarrow> account_address list \<Rightarrow> account_address list" where
  "lis_get_voters self validator_addresses = get_signers_addresses (lis_signatures self) validator_addresses"

definition lis_get_num_voters :: "ledger_info_with_signatures \<Rightarrow> nat" where
  "lis_get_num_voters self = get_num_voters (lis_signatures self)"

definition lis_check_voting_power ::
  "ledger_info_with_signatures \<Rightarrow> validator_verifier \<Rightarrow> (u128, verify_error) result" where
  "lis_check_voting_power self validator =
     check_voting_power validator (lis_get_voters self (get_ordered_account_addresses validator)) True"

record ledger_info_with_partial_signatures =
  lips_ledger_info :: ledger_info
  partial_sigs :: partial_signatures

definition lips_new :: "ledger_info \<Rightarrow> partial_signatures \<Rightarrow> ledger_info_with_partial_signatures" where
  "lips_new li sigs = \<lparr>lips_ledger_info = li, partial_sigs = sigs\<rparr>"

definition lips_remove_signature ::
  "ledger_info_with_partial_signatures \<Rightarrow> account_address \<Rightarrow> ledger_info_with_partial_signatures" where
  "lips_remove_signature self validator =
     self\<lparr>partial_sigs := ps_remove_signature (partial_sigs self) validator\<rparr>"

definition lips_add_signature ::
  "ledger_info_with_partial_signatures \<Rightarrow> account_address \<Rightarrow> signature \<Rightarrow> ledger_info_with_partial_signatures" where
  "lips_add_signature self validator sig =
     self\<lparr>partial_sigs := ps_add_signature (partial_sigs self) validator sig\<rparr>"

definition lips_aggregate_signatures ::
  "'c ledger_crypto_scheme \<Rightarrow> ledger_info_with_partial_signatures \<Rightarrow> validator_verifier \<Rightarrow>
   (ledger_info_with_signatures, verify_error) result" where
  "lips_aggregate_signatures C self verifier =
     and_then (aggregate_signatures (bls_sig_aggregate C) verifier (partial_sigs self)) (\<lambda>aggregated.
     Ok (lis_new (lips_ledger_info self) aggregated))"

section \<open>Conversion of a validator set\<close>

abbreviation "set_index info \<equiv> validator_index (config info)"

lemma sort_infos_fold:
  assumes "inj_on set_index (set infos)" and "btree m" and "\<forall>info \<in> set infos. set_index info \<notin> fst ` set m"
    and "distinct infos"
  shows "btree (fold (\<lambda>info m. btree_insert (set_index info) (consensus_info_of info) m) infos m) \<and>
    set (fold (\<lambda>info m. btree_insert (set_index info) (consensus_info_of info) m) infos m) =
      set m \<union> (\<lambda>info. (set_index info, consensus_info_of info)) ` set infos"
  using assms
proof (induction infos arbitrary: m)
  case (Cons info infos)
  let ?m = "btree_insert (set_index info) (consensus_info_of info) m"
  have new: "\<forall>i \<in> set infos. set_index i \<notin> fst ` set ?m"
    using Cons.prems by (auto simp: inj_on_def)
  have "set ?m = insert (set_index info, consensus_info_of info) (set m)"
  proof (rule set_eqI)
    fix x :: "u64 \<times> validator_consensus_info"
    obtain k v where x: "x = (k, v)" by (cases x)
    have "x \<in> set ?m \<longleftrightarrow> map_of ?m k = Some v" using Cons.prems x by (simp add: btree_map_of)
    also have "\<dots> \<longleftrightarrow> x \<in> insert (set_index info, consensus_info_of info) (set m)"
      using Cons.prems x by (auto simp: map_of_btree_insert btree_map_of image_iff)
    finally show "x \<in> set ?m \<longleftrightarrow> x \<in> insert (set_index info, consensus_info_of info) (set m)" .
  qed
  with Cons.IH [of ?m] Cons.prems new show ?case by auto
qed simp

lemma sorted_positions:
  fixes m :: "(u64 \<times> 'v) list"
  assumes "btree m" and "\<forall>k \<in> fst ` set m. unat k < length m"
  shows "map (unat \<circ> fst) m = [0..<length m]"
proof -
  have "sorted_wrt (<) (map (unat \<circ> fst) m)"
    using assms(1) by (simp add: btree_def sorted_wrt_map word_less_nat_alt)
  then have sd: "sorted (map (unat \<circ> fst) m)" "distinct (map (unat \<circ> fst) m)"
    by (simp_all add: strict_sorted_iff)
  have "set (map (unat \<circ> fst) m) \<subseteq> {0..<length m}" using assms(2) by auto
  moreover have "card (set (map (unat \<circ> fst) m)) = card {0..<length m}"
    using distinct_card [OF sd(2)] by simp
  ultimately have "set (map (unat \<circ> fst) m) = {0..<length m}" by (simp add: card_subset_eq)
  with sd show ?thesis by (metis sorted_distinct_set_unique sorted_upt distinct_upt set_upt)
qed

lemma sort_infos_set:
  assumes "inj_on set_index (set infos)" and "distinct infos"
  shows "btree (sort_infos infos)"
    and "set (sort_infos infos) = (\<lambda>info. (set_index info, consensus_info_of info)) ` set infos"
    and "length (sort_infos infos) = length infos"
proof -
  let ?m = "sort_infos infos"
  show m: "btree ?m" "set ?m = (\<lambda>info. (set_index info, consensus_info_of info)) ` set infos"
    using sort_infos_fold [OF assms(1), of "[]"] assms(2) by (simp_all add: sort_infos_def)
  have "length ?m = card (fst ` set ?m)" using distinct_btree [OF m(1)] by (metis distinct_card length_map list.set_map)
  also have "fst ` set ?m = set_index ` set infos" using m(2) by force
  also have "card \<dots> = length infos" using assms by (simp add: card_image distinct_card)
  finally show "length ?m = length infos" .
qed

lemma sort_infos_positions:
  assumes "inj_on set_index (set infos)" and "distinct infos"
    and "\<forall>info \<in> set infos. unat (set_index info) < length infos"
  shows "length (sort_infos infos) = length infos"
    and "info \<in> set infos \<Longrightarrow> map snd (sort_infos infos) ! unat (set_index info) = consensus_info_of info"
    and "unat ` set_index ` set infos = {..<length infos}"
    and "set (map snd (sort_infos infos)) = consensus_info_of ` set infos"
proof -
  let ?m = "sort_infos infos"
  note m = sort_infos_set(1,2) [OF assms(1,2)]
  show len: "length ?m = length infos" by (rule sort_infos_set(3) [OF assms(1,2)])
  have pos: "map (unat \<circ> fst) ?m = [0..<length infos]"
    using sorted_positions [OF m(1)] assms(3) len m(2) by auto
  have "set (map (unat \<circ> fst) ?m) = unat ` set_index ` set infos" using m(2) by force
  with pos show "unat ` set_index ` set infos = {..<length infos}" by (simp add: lessThan_atLeast0)
  from m(2) show "set (map snd ?m) = consensus_info_of ` set infos" by force
  show "map snd ?m ! unat (set_index info) = consensus_info_of info" if "info \<in> set infos"
  proof -
    from that m(2) obtain j where j: "j < length ?m" "?m ! j = (set_index info, consensus_info_of info)"
      by (metis (no_types, lifting) image_eqI in_set_conv_nth)
    with pos have "unat (set_index info) = j" by (metis comp_apply fst_conv len nth_map nth_upt plus_nat.add_0)
    with j show ?thesis by simp
  qed
qed

lemma check_indices_Ok:
  "check_indices infos ps = Ok () \<longleftrightarrow>
     (\<forall>info \<in> set ps. unat (set_index info) < length infos \<and> address (infos ! unat (set_index info)) = account_address info)"
  by (induction ps) (auto simp: result_simps Let_def)

lemma check_indices_Panic:
  "check_indices infos ps \<noteq> (Ok () :: (unit, 'e) result) \<Longrightarrow> check_indices infos ps = (Panic :: (unit, 'e) result)"
  by (induction ps) (auto simp: assert_p_def Let_def split: if_splits)

lemma vv_new_total:
  assumes "length infos \<le> 2 ^ 62"
  shows "\<exists>v. vv_new infos = Ok v"
proof -
  have "fold (\<lambda>x acc. and_then acc (\<lambda>sum. unwrap_some (checked_add sum (ucast (voting_power x))))) infos (Ok s) =
      Ok (s + sum_list (map (ucast \<circ> voting_power) infos)) \<and>
    unat (s + sum_list (map (ucast \<circ> voting_power) infos)) \<le> unat s + length infos * (2 ^ 64 - 1)"
    if "unat s + length infos * (2 ^ 64 - 1) < 2 ^ 128" for s :: u128
    using that
  proof (induction infos arbitrary: s)
    case (Cons x infos)
    have w: "unat (voting_power x) \<le> 2 ^ 64 - 1" using unat_bound [of "voting_power x"] by simp
    have small: "unat s + unat (voting_power x) < 2 ^ 128" using Cons.prems w by simp
    then have s': "unat (s + ucast (voting_power x)) = unat s + unat (voting_power x)"
      by (simp add: unat_add_if)
    have "unat (s + ucast (voting_power x)) + length infos * (2 ^ 64 - 1) < 2 ^ 128"
      using Cons.prems w s' by simp
    from Cons.IH [OF this] small s' w show ?case
      by (simp add: checked_add_def add.assoc)
  qed simp
  from this [of 0] assms obtain t :: u128 where
    t: "sum_infos_voting_power infos = (Ok t :: (u128, 'a) result)" and bound: "unat t \<le> length infos * (2 ^ 64 - 1)"
    unfolding sum_infos_voting_power_def by force
  have "2 * unat t < 2 ^ 128" using bound assms by simp
  then obtain twice where twice: "mul_p t 2 = (Ok twice :: (u128, 'a) result)" by (simp add: mul_p_def)
  have "unat (twice div 3) + 1 < 2 ^ 128"
    using unsigned_less [of twice, where 'a = nat] by (simp add: unat_div)
  then obtain q where "add_p (twice div 3) 1 = (Ok q :: (u128, 'a) result)"
    by (simp add: add_p_def checked_add_def)
  with t twice show ?thesis by (auto simp: vv_new_def)
qed

lemma distinct_addresses:
  assumes "distinct (map account_address infos)" and "x \<in> set infos" and "y \<in> set infos"
    and "account_address x = account_address y"
  shows "x = y"
  using assms by (auto simp: distinct_map inj_on_def)

lemma verifier_of_set_lookup:
  assumes distinct: "distinct (map account_address (payload vs))"
    and inj: "inj_on set_index (set (payload vs))"
    and small: "\<forall>info \<in> set (payload vs). unat (set_index info) < length (payload vs)"
    and v: "verifier_of_set vs = (Ok v :: (_, 'e) result)" and info: "info \<in> set (payload vs)"
  shows "get_public_key v (account_address info) = Some (consensus_public_key (config info)) \<and>
    get_voting_power v (account_address info) = Some (consensus_voting_power info) \<and>
    get_ordered_account_addresses v ! unat (set_index info) = account_address info"
proof -
  let ?infos = "map snd (sort_infos (payload vs))" and ?i = "unat (set_index info)"
  have dist: "distinct (payload vs)" using distinct by (simp add: distinct_map)
  note pos = sort_infos_positions [OF inj dist small]
  have at: "?infos ! ?i = consensus_info_of info" "?i < length ?infos" using pos info small by simp_all
  have new: "vv_new ?infos = (Ok v :: (_, 'e) result)" using v by (auto simp: verifier_of_set_def result_simps Let_def)
  have "inj_on (address \<circ> consensus_info_of) (set (payload vs))"
    using distinct by (auto simp: consensus_info_of_def vci_new_def inj_on_def distinct_map)
  then have "card (address ` set ?infos) = card (set (payload vs))"
    unfolding pos(4) image_comp by (rule card_image)
  also have "\<dots> = length (map address ?infos)" using dist pos(1) by (simp add: distinct_card)
  finally have "card (set (map address ?infos)) = length (map address ?infos)" by (simp only: list.set_map)
  then have addresses: "distinct (map address ?infos)" by (rule card_distinct)
  have "?infos \<noteq> []" using at by auto
  note wf = vv_new_wf [OF new addresses this]
  have "address_to_validator_index v (account_address info) = Some ?i"
    using wf at by (auto simp: wf_verifier_def consensus_info_of_def vci_new_def dest: spec [where x = ?i])
  with wf(2) at show ?thesis
    by (simp add: get_public_key_def get_voting_power_def get_ordered_account_addresses_def consensus_info_of_def vci_new_def)
qed

text \<open>
  \<^bold>\<open>C28.\<close> The conversion of an on-chain validator set. For validators with distinct addresses, it
  succeeds exactly when their indices are the positions \<open>0, \<dots>, n - 1\<close>, and then every validator has
  its own key, voting power and position in the verifier; otherwise the conversion panics.
\<close>

theorem validator_set_conversion:
  assumes "distinct (map account_address (payload vs))" and "length (payload vs) \<le> 2 ^ 62"
  shows "if unat ` set_index ` set (payload vs) = {..<length (payload vs)}
    then \<exists>v. verifier_of_set vs = (Ok v :: (_, 'e) result) \<and>
      (\<forall>info \<in> set (payload vs).
        get_public_key v (account_address info) = Some (consensus_public_key (config info)) \<and>
        get_voting_power v (account_address info) = Some (consensus_voting_power info) \<and>
        get_ordered_account_addresses v ! unat (set_index info) = account_address info)
    else verifier_of_set vs = (Panic :: (_, 'e) result)"
proof -
  let ?P = "payload vs" and ?infos = "map snd (sort_infos (payload vs))"
  have dist: "distinct ?P" using assms(1) by (simp add: distinct_map)
  show ?thesis
  proof (cases "unat ` set_index ` set ?P = {..<length ?P}")
    case True
    then have "card (unat ` set_index ` set ?P) = card (set ?P)" using dist by (simp add: distinct_card)
    then have "inj_on (unat \<circ> set_index) (set ?P)" by (simp add: eq_card_imp_inj_on image_comp)
    then have inj: "inj_on set_index (set ?P)" by (rule inj_on_imageI2)
    have small: "\<forall>info \<in> set ?P. unat (set_index info) < length ?P" using True by auto
    note pos = sort_infos_positions [OF inj dist small]
    have "check_indices ?infos ?P = (Ok () :: (unit, 'e) result)"
      using small pos by (simp add: check_indices_Ok consensus_info_of_def vci_new_def)
    moreover obtain v where "vv_new ?infos = (Ok v :: (_, 'e) result)" using vv_new_total [of ?infos] assms(2) pos(1) by auto
    ultimately have "verifier_of_set vs = (Ok v :: (_, 'e) result)" by (simp add: verifier_of_set_def Let_def)
    with True verifier_of_set_lookup [OF assms(1) inj small this] show ?thesis by auto
  next
    case False
    have "check_indices ?infos ?P \<noteq> (Ok () :: (unit, 'e) result)"
    proof
      assume "check_indices ?infos ?P = (Ok () :: (unit, 'e) result)"
      then have ok: "\<forall>info \<in> set ?P. unat (set_index info) < length ?infos \<and>
          address (?infos ! unat (set_index info)) = account_address info" by (simp only: check_indices_Ok)
      have inj: "inj_on set_index (set ?P)"
      proof (rule inj_onI)
        fix x y
        assume "x \<in> set ?P" "y \<in> set ?P" "set_index x = set_index y"
        with ok have "account_address x = account_address y" by metis
        with \<open>x \<in> set ?P\<close> \<open>y \<in> set ?P\<close> show "x = y" by (rule distinct_addresses [OF assms(1)])
      qed
      then have "length ?infos = length ?P" using sort_infos_set(3) [OF inj dist] by simp
      with ok have "\<forall>info \<in> set ?P. unat (set_index info) < length ?P" by simp
      from sort_infos_positions(3) [OF inj dist this] False show False by simp
    qed
    from check_indices_Panic [OF this] False show ?thesis by (simp add: verifier_of_set_def Let_def)
  qed
qed

definition demo_set :: validator_set where
  "demo_set = vs_new [
     \<lparr>account_address = 7, consensus_voting_power = 5, config = \<lparr>consensus_public_key = 21, validator_index = 1\<rparr>\<rparr>,
     \<lparr>account_address = 9, consensus_voting_power = 6, config = \<lparr>consensus_public_key = 22, validator_index = 0\<rparr>\<rparr>]"

theorem validator_set_conversion_witness:
  "\<exists>v. verifier_of_set demo_set = (Ok v :: (validator_verifier, unit) result) \<and>
     get_voting_power v 7 = Some 5 \<and> get_ordered_account_addresses v ! 0 = 9"
proof -
  have "unat ` set_index ` set (payload demo_set) = {..<length (payload demo_set)}"
    by (auto simp: demo_set_def vs_new_def payload_def)
  with validator_set_conversion [of demo_set] show ?thesis
    by (auto simp: demo_set_def vs_new_def payload_def)
qed

end
