(* ===== verification/Position.thy ===== *)
theory Position
  imports Rust_Prelude
begin

text \<open>
  \<open>src/types/src/proof/position/mod.rs\<close>: the position of a node of an accumulator, its in-order
  traversal number. The node number \<open>q\<close> of level \<open>l\<close> has the bits of \<open>q\<close>, then a zero, then \<open>l\<close>
  ones; the lemmas relate every bit trick to the pair \<open>(l, q)\<close>.
\<close>

unbundle bit_operations_syntax

section \<open>Model\<close>

type_synonym leaf_count = u64

definition MAX_ACCUMULATOR_PROOF_DEPTH :: nat where "MAX_ACCUMULATOR_PROOF_DEPTH = 63"

definition MAX_ACCUMULATOR_LEAVES :: leaf_count where
  "MAX_ACCUMULATOR_LEAVES = push_bit MAX_ACCUMULATOR_PROOF_DEPTH 1"

text \<open>\<open>u64::trailing_zeros\<close>, \<open>leading_zeros\<close> and \<open>count_ones\<close>.\<close>

definition trailing_zeros :: "u64 \<Rightarrow> nat" where
  "trailing_zeros w = length (takeWhile (\<lambda>n. \<not> bit w n) [0..<64])"

definition leading_zeros :: "u64 \<Rightarrow> nat" where
  "leading_zeros w = length (takeWhile (\<lambda>n. \<not> bit w (63 - n)) [0..<64])"

definition u64_count_ones :: "u64 \<Rightarrow> nat" where
  "u64_count_ones w = length (filter (bit w) [0..<64])"

datatype position = Position u64

primrec to_inorder_index :: "position \<Rightarrow> u64" where
  "to_inorder_index (Position i) = i"

definition from_inorder_index :: "u64 \<Rightarrow> position" where
  "from_inorder_index index = Position index"

datatype node_direction = Left | Right

definition smear_ones_for_u64 :: "u64 \<Rightarrow> u64" where
  "smear_ones_for_u64 v =
     (let n = v; n = n OR drop_bit 1 n; n = n OR drop_bit 2 n; n = n OR drop_bit 4 n;
          n = n OR drop_bit 8 n; n = n OR drop_bit 16 n; n = n OR drop_bit 32 n
      in n)"

definition turn_off_right_most_n_bits :: "u64 \<Rightarrow> nat \<Rightarrow> (u64, 'e) result" where
  "turn_off_right_most_n_bits v n = and_then (assert_p (n < 64)) (\<lambda>_. Ok (push_bit n (drop_bit n v)))"

definition isolate_rightmost_zero_bit :: "u64 \<Rightarrow> u64" where
  "isolate_rightmost_zero_bit v = NOT v AND (v + 1)"

definition level :: "position \<Rightarrow> nat" where
  "level self = trailing_zeros (NOT (to_inorder_index self))"

definition is_leaf :: "position \<Rightarrow> bool" where
  "is_leaf self \<longleftrightarrow> to_inorder_index self AND 1 = 0"

definition from_level_and_pos :: "nat \<Rightarrow> u64 \<Rightarrow> (position, 'e) result" where
  "from_level_and_pos lvl pos =
     and_then (assert_p (lvl < 64)) (\<lambda>_.
     and_then (assert_p (push_bit lvl (1 :: u64) > 0)) (\<lambda>_.
     let level_one_bits = push_bit lvl 1 - 1;
         shifted_pos = (if lvl = 63 then 0 else push_bit (lvl + 1) pos)
     in Ok (Position (shifted_pos OR level_one_bits))))"

text \<open>The invariant that the methods assert: the position is not one of the last two numbers.\<close>

definition pos_assert :: "position \<Rightarrow> (unit, 'e) result" where
  "pos_assert self = assert_p (to_inorder_index self < - 2)"

definition parent :: "position \<Rightarrow> (position, 'e) result" where
  "parent self =
     (let i = to_inorder_index self in
      and_then (pos_assert self) (\<lambda>_.
      Ok (Position ((i OR isolate_rightmost_zero_bit i) AND NOT (push_bit 1 (isolate_rightmost_zero_bit i))))))"

definition child :: "position \<Rightarrow> node_direction \<Rightarrow> (position, 'e) result" where
  "child self dir =
     (let i = to_inorder_index self in
      and_then (assert_p (\<not> is_leaf self)) (\<lambda>_.
      and_then (pos_assert self) (\<lambda>_.
      let direction_bit = (case dir of Left \<Rightarrow> 0 | Right \<Rightarrow> isolate_rightmost_zero_bit i)
      in Ok (Position ((i OR direction_bit) AND NOT (drop_bit 1 (isolate_rightmost_zero_bit i)))))))"

definition left_child :: "position \<Rightarrow> (position, 'e) result" where
  "left_child self = and_then (assert_p (\<not> is_leaf self)) (\<lambda>_. child self Left)"

definition right_child :: "position \<Rightarrow> (position, 'e) result" where
  "right_child self = and_then (assert_p (\<not> is_leaf self)) (\<lambda>_. child self Right)"

definition is_left_child :: "position \<Rightarrow> (bool, 'e) result" where
  "is_left_child self =
     (let i = to_inorder_index self in
      and_then (pos_assert self) (\<lambda>_. Ok (i AND push_bit 1 (isolate_rightmost_zero_bit i) = 0)))"

definition is_right_child :: "position \<Rightarrow> (bool, 'e) result" where
  "is_right_child self = map_ok Not (is_left_child self)"

definition from_leaf_index :: "u64 \<Rightarrow> (position, 'e) result" where
  "from_leaf_index leaf_index = from_level_and_pos 0 leaf_index"

definition sibling :: "position \<Rightarrow> (position, 'e) result" where
  "sibling self =
     (let i = to_inorder_index self in
      and_then (pos_assert self) (\<lambda>_. Ok (Position (i XOR push_bit 1 (isolate_rightmost_zero_bit i)))))"

definition root_from_leaf_index :: "u64 \<Rightarrow> (position, 'e) result" where
  "root_from_leaf_index leaf_index =
     map_ok (\<lambda>leaf. Position (drop_bit 1 (smear_ones_for_u64 (to_inorder_index leaf)))) (from_leaf_index leaf_index)"

definition root_from_leaf_count :: "leaf_count \<Rightarrow> (position, 'e) result" where
  "root_from_leaf_count n = and_then (assert_p (n > 0)) (\<lambda>_. root_from_leaf_index (n - 1))"

definition root_level_from_leaf_count :: "leaf_count \<Rightarrow> (nat, 'e) result" where
  "root_level_from_leaf_count n =
     and_then (assert_p (n > 0)) (\<lambda>_. Ok (MAX_ACCUMULATOR_PROOF_DEPTH + 1 - leading_zeros (n - 1)))"

definition right_most_child :: "position \<Rightarrow> (position, 'e) result" where
  "right_most_child self =
     and_then (assert_p (level self < 64)) (\<lambda>_.
     and_then (add_p (to_inorder_index self) (push_bit (level self) 1)) (\<lambda>s.
     map_ok Position (sub_p s 1)))"

definition left_most_child :: "position \<Rightarrow> (position, 'e) result" where
  "left_most_child self = map_ok Position (turn_off_right_most_n_bits (to_inorder_index self) (level self))"

definition is_freezable :: "position \<Rightarrow> u64 \<Rightarrow> (bool, 'e) result" where
  "is_freezable self leaf_index =
     and_then (from_leaf_index leaf_index) (\<lambda>leaf.
     and_then (right_most_child self) (\<lambda>right_most.
     Ok (to_inorder_index right_most \<le> to_inorder_index leaf)))"

definition is_placeholder :: "position \<Rightarrow> u64 \<Rightarrow> (bool, 'e) result" where
  "is_placeholder self leaf_index =
     and_then (from_leaf_index leaf_index) (\<lambda>leaf.
     if to_inorder_index self \<le> to_inorder_index leaf then Ok False
     else and_then (left_most_child self) (\<lambda>left_most.
       if to_inorder_index left_most \<le> to_inorder_index leaf then Ok False else Ok True))"

text \<open>The iterators, as one step from their state.\<close>

definition ancestor_sibling_next :: "position \<Rightarrow> (position \<times> position, 'e) result" where
  "ancestor_sibling_next pos =
     and_then (sibling pos) (\<lambda>s. and_then (parent pos) (\<lambda>p. Ok (s, p)))"

definition ancestor_next :: "position \<Rightarrow> (position \<times> position, 'e) result" where
  "ancestor_next pos = and_then (parent pos) (\<lambda>p. Ok (pos, p))"

record frozen_sub_tree_iterator =
  bitmap :: u64
  seen_leaves :: u64

definition frozen_sub_tree_iterator_new :: "leaf_count \<Rightarrow> frozen_sub_tree_iterator" where
  "frozen_sub_tree_iterator_new n = \<lparr>bitmap = n, seen_leaves = 0\<rparr>"

definition frozen_sub_tree_next ::
  "frozen_sub_tree_iterator \<Rightarrow> (position option \<times> frozen_sub_tree_iterator, 'e) result" where
  "frozen_sub_tree_next self =
     and_then (sub_p (- 1) (bitmap self)) (\<lambda>room.
     and_then (assert_p (seen_leaves self < room)) (\<lambda>_.
     if bitmap self = 0 then Ok (None, self)
     else
       let root_offset = drop_bit 1 (smear_ones_for_u64 (bitmap self)) in
       and_then (assert_p (root_offset < bitmap self)) (\<lambda>_.
       and_then (add_p root_offset 1) (\<lambda>n.
       and_then (from_leaf_index (seen_leaves self)) (\<lambda>leftmost_leaf.
       and_then (add_p (to_inorder_index leftmost_leaf) root_offset) (\<lambda>root.
       and_then (add_p (seen_leaves self) n) (\<lambda>seen.
       Ok (Some (from_inorder_index root),
           \<lparr>bitmap = bitmap self AND NOT n, seen_leaves = seen\<rparr>))))))))"

record frozen_subtree_sibling_iterator =
  current_num_leaves :: leaf_count
  remaining_new_leaves :: leaf_count

definition frozen_subtree_sibling_iterator_new ::
  "leaf_count \<Rightarrow> leaf_count \<Rightarrow> (frozen_subtree_sibling_iterator, 'e) result" where
  "frozen_subtree_sibling_iterator_new current_leaves new_leaves =
     and_then (assert_p (new_leaves \<le> MAX_ACCUMULATOR_LEAVES)) (\<lambda>_.
     and_then (assert_p (current_leaves \<le> new_leaves)) (\<lambda>_.
     Ok \<lparr>current_num_leaves = current_leaves, remaining_new_leaves = new_leaves - current_leaves\<rparr>))"

definition next_new_leaf_batch :: "frozen_subtree_sibling_iterator \<Rightarrow> (leaf_count, 'e) result" where
  "next_new_leaf_batch self =
     (let zeros = leading_zeros (remaining_new_leaves self) in
      and_then (assert_p (zeros \<le> MAX_ACCUMULATOR_PROOF_DEPTH)) (\<lambda>_.
      Ok (push_bit (MAX_ACCUMULATOR_PROOF_DEPTH - zeros) 1)))"

definition frozen_subtree_sibling_next ::
  "frozen_subtree_sibling_iterator \<Rightarrow> (position option \<times> frozen_subtree_sibling_iterator, 'e) result" where
  "frozen_subtree_sibling_next self =
     (if remaining_new_leaves self = 0 then Ok (None, self)
      else
        and_then
          (if current_num_leaves self > 0 then
             let rightmost = push_bit (trailing_zeros (current_num_leaves self)) 1 in
             if remaining_new_leaves self \<ge> rightmost then Ok rightmost else next_new_leaf_batch self
           else next_new_leaf_batch self) (\<lambda>next_subtree_leaves.
        let first_leaf_index = current_num_leaves self in
        and_then (add_p first_leaf_index next_subtree_leaves) (\<lambda>end_index.
        and_then (sub_p end_index 1) (\<lambda>last_leaf_index.
        and_then (sub_p (remaining_new_leaves self) next_subtree_leaves) (\<lambda>remaining.
        and_then (add_p first_leaf_index last_leaf_index) (\<lambda>index.
        Ok (Some (from_inorder_index index),
            \<lparr>current_num_leaves = end_index, remaining_new_leaves = remaining\<rparr>)))))))"

definition children_of_node :: "u64 \<Rightarrow> (u64, 'e) result" where
  "children_of_node node = sub_p (push_bit 1 (isolate_rightmost_zero_bit node)) 2"

definition nodes_to_left_of :: "u64 \<Rightarrow> (u64, 'e) result" where
  "nodes_to_left_of node =
     and_then (sub_p (isolate_rightmost_zero_bit node) 1) (\<lambda>ones_up_to_level.
     let unset_level_zeros = node XOR ones_up_to_level
     in sub_p unset_level_zeros (of_nat (u64_count_ones unset_level_zeros)))"

definition inorder_to_postorder :: "u64 \<Rightarrow> (u64, 'e) result" where
  "inorder_to_postorder node =
     and_then (children_of_node node) (\<lambda>children.
     and_then (nodes_to_left_of node) (\<lambda>left_nodes.
     add_p children left_nodes))"

fun postorder_loop :: "nat list \<Rightarrow> u64 \<Rightarrow> u64 \<Rightarrow> u64 \<Rightarrow> u64 \<times> u64" where
  "postorder_loop [] node full_binary_size bmap = (node, bmap)"
| "postorder_loop (i # rest) node full_binary_size bmap =
     (if node \<ge> full_binary_size
      then postorder_loop rest (node - full_binary_size) (drop_bit 1 full_binary_size) (bmap OR push_bit i 1)
      else postorder_loop rest node (drop_bit 1 full_binary_size) bmap)"

definition postorder_to_inorder :: "u64 \<Rightarrow> (u64, 'e) result" where
  "postorder_to_inorder node =
     (let (node', bmap) = postorder_loop (rev [0..<64]) node (- 1) 0;
          lvl = unat (ucast node' :: u32);
          pos = drop_bit lvl bmap
      in map_ok to_inorder_index (from_level_and_pos lvl pos))"

definition from_postorder_index :: "u64 \<Rightarrow> (position, string) result" where
  "from_postorder_index index =
     and_then (ensure (index < - 1) ''node index is invalid (equal to 2^64 - 1)'') (\<lambda>_.
     map_ok Position (postorder_to_inorder index))"

definition to_postorder_index :: "position \<Rightarrow> (u64, 'e) result" where
  "to_postorder_index self = inorder_to_postorder (to_inorder_index self)"

section \<open>Positions as level and number\<close>

declare push_bit_Suc [simp del]

lemmas bit_laws = bit_and_iff bit_or_iff bit_xor_iff bit_not_iff bit_push_bit_iff bit_drop_bit_eq bit_mask_iff
  bit_exp_iff possible_bit_def

definition pos_word :: "nat \<Rightarrow> u64 \<Rightarrow> u64" where
  "pos_word l q = push_bit (l + 1) q OR mask l"

definition node_at :: "position \<Rightarrow> nat \<Rightarrow> u64 \<Rightarrow> bool" where
  "node_at p l q \<longleftrightarrow> l < 64 \<and> unat q < 2 ^ (63 - l) \<and> p = Position (pos_word l q)"

lemma bit_pos_word: "bit (pos_word l q) n \<longleftrightarrow> n < 64 \<and> (n < l \<or> (l < n \<and> bit q (n - l - 1)))"
  by (auto simp: pos_word_def bit_laws)

lemma isolate_pos_word: "l < 64 \<Longrightarrow> isolate_rightmost_zero_bit (pos_word l q) = 2 ^ l"
proof -
  assume l: "l < 64"
  have "pos_word l q = push_bit (l + 1) q + mask l"
    unfolding pos_word_def
    by (rule disjunctive_add [symmetric]) (auto simp: bit_laws)
  then have "pos_word l q + 1 = push_bit (l + 1) q + push_bit l 1"
    by (simp add: mask_eq_exp_minus_1)
  also have "\<dots> = push_bit (l + 1) q OR push_bit l 1"
    by (rule disjunctive_add) (auto simp: bit_laws)
  finally have suc: "pos_word l q + 1 = push_bit (l + 1) q OR push_bit l 1" .
  show ?thesis
    unfolding isolate_rightmost_zero_bit_def suc
    by (rule bit_eqI)
      (use l in \<open>auto simp: bit_laws bit_pos_word\<close>)
qed

lemma word_of_nat_unat: "of_nat (unat w) = w" for w :: "'a::len word"
  by (simp add: word_eq_unat unsigned_of_nat take_bit_nat_eq_self)

lemma pos_word_of_nat: "pos_word l q = of_nat (2 ^ (l + 1) * unat q + (2 ^ l - 1))"
proof -
  have "pos_word l q = push_bit (l + 1) q + mask l"
    unfolding pos_word_def by (rule disjunctive_add [symmetric]) (auto simp: bit_laws)
  also have "\<dots> = of_nat (2 ^ (l + 1) * unat q + (2 ^ l - 1))"
    unfolding of_nat_add of_nat_mult word_of_nat_unat
    by (simp add: push_bit_eq_mult mask_eq_exp_minus_1 of_nat_diff mult.commute)
  finally show ?thesis .
qed

lemma pos_number_bound:
  assumes "l < 64" and "x < 2 ^ (63 - l)"
  shows "2 ^ (l + 1) * x + 2 ^ (l + 1) \<le> (2 :: nat) ^ 64"
proof -
  have "2 ^ (l + 1) * (x + 1) \<le> 2 ^ (l + 1) * (2 :: nat) ^ (63 - l)"
    using assms(2) by (intro mult_le_mono2) simp
  also have "\<dots> = 2 ^ 64" using assms(1) by (simp flip: power_add)
  finally show ?thesis by simp
qed

lemma unat_pos_word:
  assumes "l < 64" and "unat q < 2 ^ (63 - l)"
  shows "unat (pos_word l q) = 2 ^ (l + 1) * unat q + (2 ^ l - 1)"
proof -
  have "(2 :: nat) ^ l - 1 < 2 ^ (l + 1)" by (simp add: less_imp_diff_less)
  then have "2 ^ (l + 1) * unat q + (2 ^ l - 1) < (2 :: nat) ^ 64"
    using pos_number_bound [OF assms] by linarith
  then show ?thesis by (simp add: pos_word_of_nat unsigned_of_nat take_bit_nat_eq_self)
qed

lemma level_node: "node_at p l q \<Longrightarrow> level p = l"
proof -
  assume "node_at p l q"
  then have l: "l < 64" by (simp add: node_at_def)
  have "takeWhile (\<lambda>n. \<not> bit (NOT (pos_word l q)) n) [0..<64] = take l [0..<64]"
    using l by (intro takeWhile_eq_take_P_nth) (simp_all add: bit_laws bit_pos_word)
  with l \<open>node_at p l q\<close> show ?thesis by (simp add: level_def trailing_zeros_def node_at_def)
qed

lemma is_leaf_node: "node_at p l q \<Longrightarrow> is_leaf p \<longleftrightarrow> l = 0"
proof -
  assume p: "node_at p l q"
  have "is_leaf p \<longleftrightarrow> \<not> bit (pos_word l q) 0"
    using p by (simp add: is_leaf_def node_at_def and_one_eq bit_0 odd_iff_mod_2_eq_one even_iff_mod_2_eq_zero)
  also have "\<dots> \<longleftrightarrow> l = 0" by (simp add: bit_pos_word)
  finally show ?thesis .
qed

definition valid_pos :: "position \<Rightarrow> bool" where
  "valid_pos p \<longleftrightarrow> to_inorder_index p < - 2"

lemma pos_assert_valid [simp]: "valid_pos p \<Longrightarrow> pos_assert p = Ok ()" "\<not> valid_pos p \<Longrightarrow> pos_assert p = Panic"
  by (simp_all add: valid_pos_def pos_assert_def assert_p_def)

lemma valid_node:
  assumes "node_at p l q"
  shows "valid_pos p \<longleftrightarrow> 0 < l \<or> unat q < 2 ^ 63 - 1"
proof -
  have two: "unat (- 2 :: u64) = 2 ^ 64 - 2" by simp
  have u: "unat (to_inorder_index p) = 2 ^ (l + 1) * unat q + (2 ^ l - 1)"
    using assms unat_pos_word [of l q] by (simp add: node_at_def)
  have b: "2 ^ (l + 1) * unat q + 2 ^ (l + 1) \<le> (2 :: nat) ^ 64"
    using assms pos_number_bound [of l "unat q"] by (simp add: node_at_def)
  show ?thesis
  proof (cases "l = 0")
    case True
    with u b two assms show ?thesis by (auto simp: valid_pos_def word_less_nat_alt node_at_def)
  next
    case False
    then have "(2 :: nat) \<le> 2 ^ l" by (cases l) auto
    with u b two False show ?thesis by (auto simp: valid_pos_def word_less_nat_alt)
  qed
qed

section \<open>Moving in the tree\<close>

lemma double_exp [simp]: "push_bit (Suc 0) (2 ^ l) = (2 * 2 ^ l :: u64)"
  by (simp add: push_bit_eq_mult)

lemma bit_double_exp [simp]: "bit (2 * 2 ^ l :: u64) n \<longleftrightarrow> n < 64 \<and> n = Suc l"
  using bit_exp_iff [of "Suc l" n, where 'a = u64] by auto

lemma number_half: "unat q < 2 ^ (63 - l) \<Longrightarrow> l < 63 \<Longrightarrow> unat (q div 2) < 2 ^ (62 - l)" for q :: u64
proof -
  assume "unat q < 2 ^ (63 - l)" "l < 63"
  moreover from this have "(2 :: nat) ^ (63 - l) = 2 * 2 ^ (62 - l)" by (simp flip: power_Suc add: Suc_diff_le)
  ultimately show ?thesis by (simp add: unat_div)
qed

lemma bit_half: "bit (q div 2) n \<longleftrightarrow> bit q (Suc n)" for q :: u64
  by (simp add: bit_Suc)

lemma parent_word: "(pos_word l q OR 2 ^ l) AND NOT (2 * 2 ^ l) = pos_word (Suc l) (q div 2)"
proof (rule bit_eqI)
  fix n
  assume "possible_bit TYPE(u64) n"
  then have n: "n < 64" by simp
  have "Suc l < n \<Longrightarrow> n - Suc l = Suc (n - Suc (Suc l))" by simp
  with n show "bit ((pos_word l q OR 2 ^ l) AND NOT (2 * 2 ^ l)) n \<longleftrightarrow> bit (pos_word (Suc l) (q div 2)) n"
    by (cases n "Suc l" rule: linorder_cases) (auto simp: bit_laws bit_pos_word bit_half)
qed

lemma parent_node:
  assumes "node_at p l q" and "l < 63" and "valid_pos p"
  shows "parent p = Ok (Position (pos_word (Suc l) (q div 2)))"
    and "node_at (Position (pos_word (Suc l) (q div 2))) (Suc l) (q div 2)"
proof -
  from assms have p: "p = Position (pos_word l q)" "l < 64" by (simp_all add: node_at_def)
  with assms(3) show "parent p = Ok (Position (pos_word (Suc l) (q div 2)))"
    by (simp add: parent_def isolate_pos_word parent_word)
  show "node_at (Position (pos_word (Suc l) (q div 2))) (Suc l) (q div 2)"
    using assms number_half [of q l] by (simp add: node_at_def)
qed

lemma sibling_word: "pos_word l q XOR 2 * 2 ^ l = pos_word l (q XOR 1)" if "l < 63"
proof (rule bit_eqI)
  fix n
  assume "possible_bit TYPE(u64) n"
  then have n: "n < 64" by simp
  have "Suc l < n \<Longrightarrow> n - Suc l \<noteq> 0" by simp
  with n that show "bit (pos_word l q XOR 2 * 2 ^ l) n \<longleftrightarrow> bit (pos_word l (q XOR 1)) n"
    by (cases n "Suc l" rule: linorder_cases) (auto simp: bit_laws bit_pos_word bit_1_iff)
qed

lemma unat_xor_one: "unat (q XOR 1) = (if even (unat q) then unat q + 1 else unat q - 1)" for q :: u64
  unfolding unsigned_xor_eq unsigned_1 by (simp add: xor_Suc_0_eq)

lemma sibling_number: "unat q < 2 ^ (63 - l) \<Longrightarrow> l < 63 \<Longrightarrow> unat (q XOR 1) < 2 ^ (63 - l)" for q :: u64
proof -
  assume q: "unat q < 2 ^ (63 - l)" and l: "l < 63"
  have "(2 :: nat) ^ (63 - l) = 2 * 2 ^ (62 - l)" using l by (simp flip: power_Suc add: Suc_diff_le)
  with q show ?thesis unfolding unat_xor_one by (auto elim!: evenE)
qed

lemma sibling_node:
  assumes "node_at p l q" and "l < 63" and "valid_pos p"
  shows "sibling p = Ok (Position (pos_word l (q XOR 1)))" and "node_at (Position (pos_word l (q XOR 1))) l (q XOR 1)"
proof -
  from assms have p: "p = Position (pos_word l q)" "l < 64" by (simp_all add: node_at_def)
  with assms(2,3) show "sibling p = Ok (Position (pos_word l (q XOR 1)))"
    by (simp add: sibling_def isolate_pos_word sibling_word)
  show "node_at (Position (pos_word l (q XOR 1))) l (q XOR 1)"
    using assms sibling_number [of q l] by (simp add: node_at_def)
qed

lemma left_child_bit: "pos_word l q AND 2 * 2 ^ l = 0 \<longleftrightarrow> l \<ge> 63 \<or> even q"
proof -
  have "pos_word l q AND 2 ^ Suc l = 0 \<longleftrightarrow> \<not> bit (pos_word l q) (Suc l)"
    by (rule and_exp_eq_0_iff_not_bit)
  also have "\<dots> \<longleftrightarrow> l \<ge> 63 \<or> even q" by (auto simp: bit_pos_word bit_0)
  finally show ?thesis by simp
qed

lemma is_right_child_node:
  assumes "node_at p l q" and "valid_pos p"
  shows "is_right_child p = Ok (l < 63 \<and> odd q)"
  using assms by (auto simp: is_right_child_def is_left_child_def isolate_pos_word left_child_bit node_at_def)

lemma left_word: "(pos_word (Suc l) q) AND NOT (2 ^ l) = pos_word l (2 * q)" if "l < 63"
proof (rule bit_eqI)
  fix n
  assume "possible_bit TYPE(u64) n"
  then have n: "n < 64" by simp
  show "bit (pos_word (Suc l) q AND NOT (2 ^ l)) n \<longleftrightarrow> bit (pos_word l (2 * q)) n"
  proof (cases n "Suc l" rule: linorder_cases)
    case greater
    then have "n - Suc l = Suc (n - Suc (Suc l))" "n - Suc (Suc l) < 63" using n by simp_all
    with n greater that show ?thesis by (simp add: bit_laws bit_pos_word bit_double_iff)
  qed (use n that in \<open>auto simp: bit_laws bit_pos_word bit_double_iff\<close>)
qed

lemma right_word: "(pos_word (Suc l) q OR 2 ^ Suc l) AND NOT (2 ^ l) = pos_word l (2 * q + 1)" if "l < 63"
proof (rule bit_eqI)
  fix n
  assume "possible_bit TYPE(u64) n"
  then have n: "n < 64" by simp
  have odd: "bit (2 * q + 1) k \<longleftrightarrow> (k = 0 \<or> 0 < k \<and> bit q (k - 1))" if "k < 64" for k
    using that even_bit_succ_iff [of "2 * q" k] by (auto simp: add.commute bit_double_iff)
  show "bit ((pos_word (Suc l) q OR 2 ^ Suc l) AND NOT (2 ^ l)) n \<longleftrightarrow> bit (pos_word l (2 * q + 1)) n"
  proof (cases n "Suc l" rule: linorder_cases)
    case greater
    with n that show ?thesis by (simp add: bit_laws bit_pos_word odd)
  qed (use n that in \<open>auto simp: bit_laws bit_pos_word odd\<close>)
qed

lemma child_number:
  fixes q :: u64
  assumes "unat q < 2 ^ (62 - l)" and "l < 63"
  shows "unat (2 * q) = 2 * unat q" and "unat (2 * q + 1) = 2 * unat q + 1"
    and "unat (2 * q) < 2 ^ (63 - l)" and "unat (2 * q + 1) < 2 ^ (63 - l)"
proof -
  have e: "(2 :: nat) ^ (63 - l) = 2 * 2 ^ (62 - l)" using assms(2) by (simp flip: power_Suc add: Suc_diff_le)
  have "(2 :: nat) ^ (63 - l) \<le> 2 ^ 63" by (rule power_increasing) simp_all
  with assms(1) e have small: "2 * unat q + 1 < 2 ^ 64" by simp
  show u: "unat (2 * q) = 2 * unat q" using small by (simp add: unat_mult_if)
  show v: "unat (2 * q + 1) = 2 * unat q + 1" using small u unat_add_if [of "2 * q" 1] by simp
  show "unat (2 * q) < 2 ^ (63 - l)" "unat (2 * q + 1) < 2 ^ (63 - l)" using assms(1) e u v by simp_all
qed

lemma child_node:
  assumes "node_at p (Suc l) q" and "l < 63"
  shows "left_child p = Ok (Position (pos_word l (2 * q)))" and "node_at (Position (pos_word l (2 * q))) l (2 * q)"
    and "right_child p = Ok (Position (pos_word l (2 * q + 1)))" and "node_at (Position (pos_word l (2 * q + 1))) l (2 * q + 1)"
proof -
  have p: "p = Position (pos_word (Suc l) q)" and l: "Suc l < 64" and q: "unat q < 2 ^ (62 - l)"
    using assms(1) by (simp_all add: node_at_def)
  have leaf: "\<not> is_leaf p" and valid: "valid_pos p"
    using is_leaf_node [OF assms(1)] valid_node [OF assms(1)] by simp_all
  have half: "drop_bit (Suc 0) (2 * 2 ^ l) = (2 ^ l :: u64)"
    by (rule bit_eqI) (use l in \<open>auto simp: bit_laws\<close>)
  have iso: "isolate_rightmost_zero_bit (to_inorder_index p) = 2 * 2 ^ l"
    using isolate_pos_word [OF l] p by simp
  show "left_child p = Ok (Position (pos_word l (2 * q)))"
    using leaf valid left_word [OF assms(2)] iso by (simp add: left_child_def child_def half assert_p_def) (simp add: p)
  show "right_child p = Ok (Position (pos_word l (2 * q + 1)))"
    using leaf valid right_word [OF assms(2)] iso by (simp add: right_child_def child_def half assert_p_def) (simp add: p)
  show "node_at (Position (pos_word l (2 * q))) l (2 * q)" "node_at (Position (pos_word l (2 * q + 1))) l (2 * q + 1)"
    using child_number [OF q assms(2)] l by (simp_all add: node_at_def)
qed

lemma node_exists:
  assumes "w \<noteq> (- 1 :: u64)"
  obtains l q where "node_at (Position w) l q"
proof -
  have "\<exists>n. n < 64 \<and> \<not> bit w n"
    using assms by (auto simp: bit_eq_iff bit_minus_1_iff)
  then obtain l where l: "l < 64" "\<not> bit w l" and least: "\<And>n. n < l \<Longrightarrow> bit w n"
    using exists_least_iff [of "\<lambda>n. n < 64 \<and> \<not> bit w n"] by (metis less_trans)
  have "w = pos_word l (drop_bit (Suc l) w)"
  proof (rule bit_eqI)
    fix n
    assume "possible_bit TYPE(u64) n"
    then show "bit w n \<longleftrightarrow> bit (pos_word l (drop_bit (Suc l) w)) n"
      using l least by (cases n l rule: linorder_cases) (auto simp: bit_pos_word bit_drop_bit_eq)
  qed
  moreover have "unat (drop_bit (Suc l) w) < 2 ^ (63 - l)"
  proof -
    have "(2 :: nat) ^ (Suc l) * 2 ^ (63 - l) = 2 ^ 64" using l(1) by (simp flip: power_add power_Suc)
    then have "unat w < 2 ^ (Suc l) * 2 ^ (63 - l)"
      using unsigned_less [of w, where 'a = nat] by (simp only: len_of_numeral_defs) simp
    moreover have "unat (drop_bit (Suc l) w) = unat w div 2 ^ Suc l"
      using unsigned_less [of w, where 'a = nat]
      unfolding unsigned_drop_bit_eq by (simp add: take_bit_nat_eq_self drop_bit_eq_div)
    ultimately show ?thesis by (simp add: less_mult_imp_div_less mult.commute)
  qed
  ultimately have "node_at (Position w) l (drop_bit (Suc l) w)" using l(1) by (simp add: node_at_def)
  then show ?thesis by (rule that)
qed

lemma from_level_and_pos_node:
  assumes "l < 64" and "unat q < 2 ^ (63 - l)"
  shows "from_level_and_pos l q = Ok (Position (pos_word l q))" and "node_at (Position (pos_word l q)) l q"
proof -
  have "0 < (2 ^ l :: u64)" using assms(1) by (simp flip: word_neq_0_conv)
  moreover have "l = 63 \<Longrightarrow> q = 0" using assms(2) by (simp add: word_eq_unat)
  ultimately show "from_level_and_pos l q = Ok (Position (pos_word l q))"
    using assms(1) by (auto simp: from_level_and_pos_def pos_word_def mask_eq_exp_minus_1 Let_def result_simps)
  show "node_at (Position (pos_word l q)) l q" using assms by (simp add: node_at_def)
qed

lemma half_child:
  fixes q :: u64
  assumes "unat q < 2 ^ (62 - l)" and "l < 63"
  shows "2 * q div 2 = q" and "(2 * q + 1) div 2 = q"
  using child_number [OF assms] by (simp_all add: word_eq_unat unat_div)

text \<open>
  The bit operations on positions form a binary tree: every inner node whose children are
  in range has two children one level below it, of which it is the parent and which are each other's
  siblings, the left one being a left and the right one a right child.
\<close>

theorem position_tree_laws:
  assumes "to_inorder_index p < - 3" and "\<not> is_leaf p"
  shows "\<exists>a b. left_child p = Ok a \<and> right_child p = Ok b \<and> level p = level a + 1 \<and> level b = level a \<and>
    parent a = Ok p \<and> parent b = Ok p \<and> sibling a = Ok b \<and> sibling b = Ok a \<and>
    is_right_child a = Ok False \<and> is_right_child b = Ok True"
proof -
  have "\<not> (- 1 :: u64) < - 3" by simp
  with assms(1) have "to_inorder_index p \<noteq> - 1" by metis
  then obtain l' q where "node_at (Position (to_inorder_index p)) l' q" by (rule node_exists)
  then have p: "node_at p l' q" by (cases p) simp
  with assms(2) is_leaf_node obtain l where l': "l' = Suc l" by (cases l') auto
  note p = p [unfolded l']
  have l: "l < 63" and q: "unat q < 2 ^ (62 - l)" using p by (simp_all add: node_at_def)
  let ?a = "Position (pos_word l (2 * q))" and ?b = "Position (pos_word l (2 * q + 1))"
  note children = child_node [OF p l]
  have "unat (2 * q + 1) < 2 ^ 63 - 1" if "l = 0"
  proof -
    have "unat (to_inorder_index p) < 2 ^ 64 - 3" using assms(1) by (simp add: word_less_nat_alt)
    moreover have "unat (to_inorder_index p) = 4 * unat q + 1"
      using p unat_pos_word [of 1 q] that by (simp add: node_at_def)
    ultimately show ?thesis using child_number(2) [OF q l] by simp
  qed
  then have valid: "valid_pos ?a" "valid_pos ?b"
    using valid_node [OF children(2)] valid_node [OF children(4)] child_number(1,2) [OF q l] by auto
  have xor: "2 * q XOR 1 = 2 * q + 1" "(2 * q + 1) XOR 1 = 2 * q"
    using child_number(1,2) [OF q l] by (simp_all only: word_eq_unat unat_xor_one) simp_all
  have odd: "even (2 * q)" "odd (2 * q + 1)" by simp_all
  have self: "Position (pos_word (Suc l) q) = p" using p by (simp add: node_at_def)
  show ?thesis
    by (rule exI [of _ ?a], rule exI [of _ ?b])
      (simp add: half_child [OF q l] parent_node(1) [OF children(2) l valid(1)] parent_node(1) [OF children(4) l valid(2)]
        sibling_node(1) [OF children(2) l valid(1)] sibling_node(1) [OF children(4) l valid(2)]
        is_right_child_node [OF children(2) valid(1)] is_right_child_node [OF children(4) valid(2)]
        level_node [OF p] level_node [OF children(2)] level_node [OF children(4)] children(1,3) xor odd l q self)
qed

theorem position_tree_laws_witness:
  "\<exists>a b. left_child (Position 3) = Ok a \<and> right_child (Position 3) = Ok b \<and> level (Position 3) = level a + 1 \<and>
    level b = level a \<and> parent a = Ok (Position 3) \<and> parent b = Ok (Position 3) \<and> sibling a = Ok b \<and>
    sibling b = Ok a \<and> is_right_child a = Ok False \<and> is_right_child b = Ok True"
  by (rule position_tree_laws) (simp_all add: is_leaf_def)

section \<open>Post-order numbering\<close>

fun ones :: "nat \<Rightarrow> nat" where
  "ones n = (if n = 0 then 0 else n mod 2 + ones (n div 2))"

declare ones.simps [simp del]

lemma ones_0 [simp]: "ones 0 = 0"
  by (simp add: ones.simps)

lemma ones_step: "ones n = n mod 2 + ones (n div 2)"
  by (cases "n = 0") (simp_all add: ones.simps [of n])

lemma ones_double [simp]: "ones (2 * n) = ones n"
  by (simp add: ones_step [of "2 * n"])

lemma ones_shift [simp]: "ones (2 ^ k * n) = ones n"
  by (induction k) (simp_all add: mult.assoc)

lemma ones_le: "ones n \<le> n"
proof (induction n rule: ones.induct)
  case (1 n)
  show ?case
  proof (cases "n = 0")
    case False
    then have "ones n \<le> n mod 2 + n div 2" using 1 ones_step [of n] by simp
    also have "\<dots> \<le> n" by (metis add_le_mono1 div_mult_mod_eq le_add1 mult_2_right add.commute)
    finally show ?thesis .
  qed simp
qed

lemma ones_filter: "n < 2 ^ k \<Longrightarrow> length (filter (bit n) [0..<k]) = ones n"
proof (induction k arbitrary: n)
  case (Suc k)
  have "filter (bit n) [0..<Suc k] = filter (bit n) (0 # map Suc [0..<k])"
    by (simp only: map_Suc_upt upt_conv_Cons zero_less_Suc)
  also have "length \<dots> = n mod 2 + length (filter (bit (n div 2)) [0..<k])"
    by (simp add: bit_0 filter_map o_def bit_Suc mod2_eq_if)
  also have "\<dots> = ones n" using Suc by (simp add: ones_step [of n])
  finally show ?case .
qed simp

lemma u64_count_ones_nat: "u64_count_ones w = ones (unat w)"
proof -
  have "filter (bit w) [0..<64] = filter (bit (unat w)) [0..<64]"
    by (rule filter_cong) (auto simp: bit_unsigned_iff)
  moreover have "unat w < 2 ^ 64" using unsigned_less [of w, where 'a = nat] by simp
  ultimately show ?thesis by (simp only: u64_count_ones_def ones_filter)
qed

lemma ones_top: "q < 2 ^ j \<Longrightarrow> ones (2 ^ j + q) = Suc (ones q)"
proof (induction j arbitrary: q)
  case (Suc j)
  have "(2 ^ Suc j + q) mod 2 = q mod 2" "(2 ^ Suc j + q) div 2 = 2 ^ j + q div 2" by simp_all
  then have "ones (2 ^ Suc j + q) = q mod 2 + ones (2 ^ j + q div 2)" by (subst ones_step) (simp only:)
  also have "\<dots> = q mod 2 + Suc (ones (q div 2))" using Suc by simp
  finally show ?case by (simp add: ones_step [of q])
qed (simp add: ones.simps)

text \<open>The post-order number of node \<open>q\<close> of level \<open>l\<close>.\<close>

definition post :: "nat \<Rightarrow> nat \<Rightarrow> nat" where
  "post l q = (2 ^ (l + 1) - 2) + (2 ^ (l + 1) * q - ones q)"

lemma ones_le_shift: "ones q \<le> 2 ^ k * q"
  using ones_le [of q] by (metis le_trans mult_le_mono1 mult_1 one_le_numeral one_le_power)

lemma post_top:
  assumes "q < 2 ^ j" shows "post l (2 ^ j + q) = post l q + (2 ^ (l + j + 1) - 1)"
proof -
  have "2 ^ (l + 1) * (2 ^ j + q) - Suc (ones q) = (2 ^ (l + 1) * q - ones q) + (2 ^ (l + j + 1) - 1 :: nat)"
    using ones_le_shift [of q "l + 1"] by (simp add: power_add distrib_left)
  then show ?thesis by (simp only: post_def ones_top [OF assms] add.assoc)
qed

lemma post_less: assumes "q < 2 ^ j" shows "post l q < 2 ^ (l + j + 1) - 1"
proof -
  have "2 ^ (l + 1) * (q + 1) \<le> 2 ^ (l + 1) * (2 :: nat) ^ j" using assms by (intro mult_le_mono2) simp
  then have "2 ^ (l + 1) * q + 2 ^ (l + 1) \<le> (2 :: nat) ^ (l + j + 1)" by (simp add: power_add)
  moreover have "(2 :: nat) \<le> 2 ^ (l + 1)" by simp
  ultimately show ?thesis unfolding post_def by linarith
qed

lemma bit_bound: "unat q < 2 ^ k \<Longrightarrow> bit q n \<Longrightarrow> n < k" for q :: u64
proof (rule ccontr)
  assume "unat q < 2 ^ k" and "bit q n" and "\<not> n < k"
  from \<open>\<not> n < k\<close> have "(2 :: nat) ^ k \<le> 2 ^ n" by (intro power_increasing) simp_all
  with \<open>unat q < 2 ^ k\<close> have "unat q < 2 ^ n" by (rule less_le_trans)
  then have "unat q div 2 ^ n = 0" by simp
  moreover have "bit (unat q) n" using \<open>bit q n\<close> by (simp add: bit_unsigned_iff)
  ultimately show False by (simp add: bit_iff_odd)
qed

lemma half_mask: "unat s = 2 ^ Suc k - 1 \<Longrightarrow> unat (s div 2) = 2 ^ k - 1" for s :: u64
  by (simp add: unat_div)

lemma loop_low:
  assumes "m \<le> l" and "l < 64" and "unat node = 2 ^ (m + 1) - 2 + (l - m)" and "unat s = 2 ^ m - 1"
  shows "postorder_loop (rev [0..<m]) node s bm = (of_nat l, bm OR mask m)"
  using assms
proof (induction m arbitrary: node s bm)
  case 0
  then show ?case by (simp add: word_eq_unat unsigned_of_nat take_bit_nat_eq_self)
next
  case (Suc m)
  have big: "s \<le> node" using Suc.prems by (simp add: word_le_nat_alt)
  then have "unat (node - s) = 2 ^ (m + 1) - 2 + (l - m)" using Suc.prems by (simp add: unat_sub)
  moreover have "unat (s div 2) = 2 ^ m - 1" using half_mask Suc.prems(4) by simp
  ultimately have "postorder_loop (rev [0..<m]) (node - s) (s div 2) (bm OR 2 ^ m) = (of_nat l, bm OR 2 ^ m OR mask m)"
    using Suc.IH [of "node - s" "s div 2" "bm OR 2 ^ m"] Suc.prems by (simp add: or.assoc)
  moreover have "2 ^ m OR mask m = (mask (Suc m) :: u64)" by (simp add: mask_Suc_exp)
  ultimately show ?case using big by (simp add: drop_bit_Suc or.assoc)
qed

lemma loop_high:
  assumes "l < 64" and "l + j \<le> 64" and "unat q < 2 ^ j" and "unat node = post l (unat q)" and "unat s = 2 ^ (l + j) - 1"
  shows "postorder_loop (rev [0..<l + j]) node s bm = (of_nat l, bm OR (push_bit l q OR mask l))"
  using assms
proof (induction j arbitrary: q node s bm)
  case 0
  then have "q = 0" by (simp add: word_eq_unat)
  with loop_low [of l l node s bm] 0 show ?case by (simp add: post_def)
next
  case (Suc j)
  have s: "unat (s div 2) = 2 ^ (l + j) - 1" using half_mask Suc.prems(5) by simp
  define q0 where "q0 = take_bit j q"
  have q0: "unat q0 = take_bit j (unat q)" by (simp add: q0_def unsigned_take_bit_eq)
  have less: "unat q0 < 2 ^ j" by (simp add: q0)
  have IH: "unat node' = post l (unat q0) \<Longrightarrow>
      postorder_loop (rev [0..<l + j]) node' (s div 2) bm' = (of_nat l, bm' OR (push_bit l q0 OR mask l))" for node' bm'
    using Suc.IH [of q0 node' "s div 2" bm'] Suc.prems less s by simp
  show ?case
  proof (cases "bit q j")
    case True
    have q: "unat q = 2 ^ j + unat q0"
      using True Suc.prems(3) take_bit_Suc_from_most [of j "unat q"]
      by (simp add: q0 bit_unsigned_iff take_bit_nat_eq_self)
    have node: "unat node = post l (unat q0) + unat s"
      using Suc.prems(4,5) post_top [OF less, of l] q by simp
    then have big: "s \<le> node" and rest: "unat (node - s) = post l (unat q0)" by (simp_all add: word_le_nat_alt unat_sub)
    have q_bits: "bit q n \<longleftrightarrow> n = j \<or> bit q0 n" for n
      using True bit_bound [OF Suc.prems(3), of n] by (auto simp: q0_def bit_take_bit_iff less_Suc_eq)
    have "2 ^ (l + j) OR (push_bit l q0 OR mask l) = push_bit l q OR mask l"
    proof (rule bit_eqI)
      fix n
      assume "possible_bit TYPE(u64) n"
      then show "bit (2 ^ (l + j) OR (push_bit l q0 OR mask l)) n \<longleftrightarrow> bit (push_bit l q OR mask l) n"
        by (auto simp: bit_laws q_bits)
    qed
    with IH [OF rest, of "bm OR 2 ^ (l + j)"] big show ?thesis by (simp add: drop_bit_Suc or.assoc)
  next
    case False
    have "unat q = unat q0"
      using False Suc.prems(3) take_bit_Suc_from_most [of j "unat q"]
      by (simp add: q0 bit_unsigned_iff take_bit_nat_eq_self)
    then have "q = q0" by (simp add: word_eq_unat)
    moreover have "\<not> s \<le> node"
      using Suc.prems(4,5) post_less [OF less, of l] \<open>unat q = unat q0\<close> by (simp add: word_le_nat_alt)
    ultimately show ?thesis using IH [of node bm] Suc.prems(4) by (simp add: drop_bit_Suc)
  qed
qed

lemma unat_of_nat_u64: "n < 2 ^ 64 \<Longrightarrow> unat (of_nat n :: u64) = n"
  by (simp add: unsigned_of_nat take_bit_nat_eq_self)

lemma unat_exp_u64: "l < 64 \<Longrightarrow> unat (2 ^ l :: u64) = 2 ^ l"
proof -
  assume "l < 64"
  then have "(2 :: nat) ^ l < 2 ^ 64" by (intro power_strict_increasing) simp_all
  moreover have "(2 ^ l :: u64) = of_nat (2 ^ l)" by simp
  ultimately show ?thesis by (metis unat_of_nat_u64)
qed

lemma children_of_node_node:
  assumes "l < 63"
  shows "children_of_node (pos_word l q) = Ok (of_nat (2 ^ (l + 1) - 2))"
proof -
  have e: "unat (2 ^ Suc l :: u64) = 2 ^ Suc l" using assms by (intro unat_exp_u64) simp
  have "isolate_rightmost_zero_bit (pos_word l q) = 2 ^ l" using assms by (intro isolate_pos_word) simp
  moreover have "(2 :: u64) \<le> 2 ^ Suc l" using e by (simp only: word_le_nat_alt) simp
  ultimately show ?thesis
    using e by (simp add: children_of_node_def sub_p_eval of_nat_diff)
qed

lemma nodes_to_left_of_node:
  assumes "l < 63" and "unat q < 2 ^ (63 - l)"
  shows "nodes_to_left_of (pos_word l q) = Ok (of_nat (2 ^ (l + 1) * unat q - ones (unat q)))"
proof -
  have iso: "isolate_rightmost_zero_bit (pos_word l q) = 2 ^ l" using assms by (intro isolate_pos_word) simp
  have "(1 :: u64) \<le> 2 ^ l" using unat_exp_u64 [of l] assms by (simp add: word_le_nat_alt)
  then have low: "sub_p (2 ^ l) 1 = (Ok (mask l) :: (u64, 'a) result)"
    by (simp add: sub_p_eval mask_eq_exp_minus_1)
  have unset: "pos_word l q XOR mask l = push_bit (Suc l) q"
    by (rule bit_eqI) (auto simp: bit_laws bit_pos_word)
  have "2 ^ (l + 1) * unat q + 2 ^ (l + 1) \<le> (2 :: nat) ^ 64" using pos_number_bound [of l "unat q"] assms by simp
  moreover have "(0 :: nat) < 2 ^ (l + 1)" by simp
  ultimately have small: "2 ^ (l + 1) * unat q < (2 :: nat) ^ 64" by linarith
  have shift: "push_bit (Suc l) q = of_nat (2 ^ (l + 1) * unat q)"
    by (simp add: push_bit_eq_mult word_of_nat_unat mult.commute)
  have shifted: "unat (push_bit (Suc l) q) = 2 ^ (l + 1) * unat q"
    unfolding shift using small by (rule unat_of_nat_u64)
  have cnt: "u64_count_ones (push_bit (Suc l) q) = ones (unat q)"
    by (simp only: u64_count_ones_nat shifted ones_shift)
  have "ones (unat q) < 2 ^ 64" using ones_le [of "unat q"] unsigned_less [of q, where 'a = nat] by simp
  then have "(of_nat (ones (unat q)) :: u64) \<le> push_bit (Suc l) q"
    using ones_le_shift [of "unat q" "l + 1"]
    by (simp only: word_le_nat_alt shifted) (simp add: unsigned_of_nat take_bit_nat_eq_self)
  moreover have "push_bit (Suc l) q - of_nat (ones (unat q)) = of_nat (2 ^ (l + 1) * unat q - ones (unat q))"
    using ones_le_shift [of "unat q" "l + 1"] by (simp only: shift of_nat_diff)
  ultimately show ?thesis 
    by (simp only: nodes_to_left_of_def iso low and_then.simps unset Let_def cnt) (simp only: sub_p_eval if_True)
qed

lemma inorder_to_postorder_node:
  assumes "l < 63" and "unat q < 2 ^ (63 - l)"
  shows "inorder_to_postorder (pos_word l q) = Ok (of_nat (post l (unat q)))" and "post l (unat q) < 2 ^ 64 - 1"
proof -
  have "post l (unat q) < 2 ^ (l + (63 - l) + 1) - 1" by (rule post_less [OF assms(2)])
  then show small: "post l (unat q) < 2 ^ 64 - 1" using assms(1) by simp
  have "unat (of_nat k :: u64) = k" if "k \<le> post l (unat q)" for k
    using that small by (simp add: unsigned_of_nat take_bit_nat_eq_self)
  from this [of "2 ^ (l + 1) - 2"] this [of "2 ^ (l + 1) * unat q - ones (unat q)"] this [of "post l (unat q)"]
  have "add_p (of_nat (2 ^ (l + 1) - 2)) (of_nat (2 ^ (l + 1) * unat q - ones (unat q)) :: u64) =
      (Ok (of_nat (post l (unat q))) :: (u64, 'a) result)"
    unfolding add_p_Ok by (simp only: post_def le_add1 le_add2 le_refl)
  then show "inorder_to_postorder (pos_word l q) = (Ok (of_nat (post l (unat q))) :: (u64, 'a) result)"
    by (simp only: inorder_to_postorder_def children_of_node_node [OF assms(1)] nodes_to_left_of_node [OF assms] and_then.simps)
qed

text \<open>
  \<^bold>\<open>C27.\<close> The post-order number of every position below the highest level exists, and converting
  it back gives the position.
\<close>

theorem postorder_roundtrip:
  assumes "to_inorder_index p \<noteq> - 1" and "level p < 63"
  shows "\<exists>i. to_postorder_index p = Ok i \<and> from_postorder_index i = Ok p"
proof -
  from assms(1) obtain l q where "node_at (Position (to_inorder_index p)) l q" by (rule node_exists)
  then have p: "node_at p l q" by (cases p) simp
  with assms(2) level_node have l: "l < 63" and q: "unat q < 2 ^ (63 - l)" by (auto simp: node_at_def)
  note post = inorder_to_postorder_node [OF l q]
  let ?i = "of_nat (post l (unat q)) :: u64"
  have i: "unat ?i = post l (unat q)" using post(2) by (simp add: unsigned_of_nat take_bit_nat_eq_self)
  have "postorder_loop (rev [0..<64]) ?i (- 1) 0 = (of_nat l, push_bit l q OR mask l)"
  proof -
    have "(2 :: nat) ^ (63 - l) \<le> 2 ^ (64 - l)" by (intro power_increasing) simp_all
    with q have "unat q < 2 ^ (64 - l)" by linarith
    moreover have "unat (- 1 :: u64) = 2 ^ (l + (64 - l)) - 1" using l by (simp add: unsigned_minus_1_eq_mask mask_eq_exp_minus_1)
    ultimately show ?thesis using loop_high [of l "64 - l" q ?i "- 1" 0] l i by simp
  qed
  moreover have "unat (ucast (of_nat l :: u64) :: u32) = l"
    using l by (simp add: unsigned_ucast_eq unsigned_of_nat take_bit_nat_eq_self)
  moreover have "drop_bit l (push_bit l q OR mask l) = q"
  proof (rule bit_eqI)
    fix n
    have "bit q n \<Longrightarrow> l + n < 64" using bit_bound [OF q, of n] l by simp
    then show "bit (drop_bit l (push_bit l q OR mask l)) n \<longleftrightarrow> bit q n" by (auto simp: bit_laws)
  qed
  ultimately have "postorder_to_inorder ?i = (Ok (pos_word l q) :: (u64, string) result)"
    using l q by (simp add: postorder_to_inorder_def from_level_and_pos_node(1))
  moreover have "?i < - 1" using i post(2) by (simp add: word_less_nat_alt unsigned_minus_1_eq_mask mask_eq_exp_minus_1)
  ultimately have "from_postorder_index ?i = Ok p" using p by (simp add: from_postorder_index_def node_at_def)
  moreover have "to_postorder_index p = Ok ?i" using post(1) p by (simp add: to_postorder_index_def node_at_def)
  ultimately show ?thesis by blast
qed

theorem postorder_roundtrip_witness:
  "\<exists>i. to_postorder_index (Position 5) = (Ok i :: (u64, unit) result) \<and> from_postorder_index i = Ok (Position 5)"
proof (rule postorder_roundtrip)
  have "node_at (Position 5) 1 1" by (simp add: node_at_def pos_word_def mask_eq_exp_minus_1)
  then show "level (Position 5) < 63" by (simp add: level_node)
qed simp

end
