(* ===== verification/Merkle_Accumulator.thy ===== *)
theory Merkle_Accumulator
  imports Ledger_Types Position
begin

text \<open>
  \<open>src/types/src/proof/accumulator/mod.rs\<close>, the accumulator part of
  \<open>src/types/src/proof/definition.rs\<close> and \<open>src/types/src/proof/mod.rs\<close>: the append-only Merkle
  accumulator that commits to the ledger's transactions, its extension by leaves and by subtrees,
  and the proofs that are checked against its root. The hash of an internal node is the parameter
  \<open>H\<close>.

  The specification is the tree built level by level: \<open>merkle_root H xs\<close> pairs neighbours, padding
  an odd level with the placeholder, until one hash is left.
\<close>

section \<open>Model\<close>

text \<open>
  Hash values are only compared and hashed in pairs, so the model is polymorphic in their type
  \<open>'h\<close>: \<open>node_hash\<close> is the hash of an internal node (\<open>MerkleTreeInternalNode::hash\<close>) and
  \<open>placeholder\<close> the hash of an empty subtree.
\<close>

record 'h hasher =
  node_hash :: "'h \<Rightarrow> 'h \<Rightarrow> 'h"
  placeholder :: 'h

definition transaction_hasher :: "(hash_value \<Rightarrow> hash_value \<Rightarrow> hash_value) \<Rightarrow> hash_value hasher" where
  "transaction_hasher h = \<lparr>node_hash = h, placeholder = ACCUMULATOR_PLACEHOLDER_HASH\<rparr>"

record 'h in_memory_accumulator =
  frozen_subtree_roots :: "'h list"
  num_leaves :: leaf_count
  root_hash :: 'h

function root_loop :: "'h hasher \<Rightarrow> u64 \<Rightarrow> 'h list \<Rightarrow> 'h \<Rightarrow> ('h, 'e) result" where
  "root_loop H bmap iter current_hash =
     (if bmap > 0 then
        if bmap AND 1 \<noteq> 0 then
          (case iter of
             [] \<Rightarrow> Panic
           | r # rest \<Rightarrow> root_loop H (drop_bit 1 bmap) rest (node_hash H r current_hash))
        else root_loop H (drop_bit 1 bmap) iter (node_hash H current_hash (placeholder H))
      else Ok current_hash)"
  by pat_completeness auto

lemma half_less: "0 < w \<Longrightarrow> unat (drop_bit 1 w) < unat w" for w :: u64
  by (simp add: drop_bit_Suc unat_div word_less_nat_alt)

termination root_loop
  by (relation "measure (\<lambda>(_, bmap, _, _). unat bmap)") (use half_less in auto)

definition compute_root_hash :: "'h hasher \<Rightarrow> 'h list \<Rightarrow> leaf_count \<Rightarrow> ('h, 'e) result" where
  "compute_root_hash H roots n =
     (case roots of
        [] \<Rightarrow> Ok (placeholder H)
      | [r] \<Rightarrow> Ok r
      | _ \<Rightarrow>
          and_then (assert_p (trailing_zeros n < 64)) (\<lambda>_.
          root_loop H (drop_bit (trailing_zeros n) n) (rev roots) (placeholder H)))"

definition acc_new :: "'h hasher \<Rightarrow> 'h list \<Rightarrow> leaf_count \<Rightarrow> ('h in_memory_accumulator, anyhow) result" where
  "acc_new H roots n =
     and_then (ensure (length roots = u64_count_ones n)
       (Msg ''The number of frozen subtrees does not match the number of leaves.'')) (\<lambda>_.
     and_then (compute_root_hash H roots n) (\<lambda>root.
     Ok \<lparr>frozen_subtree_roots = roots, num_leaves = n, root_hash = root\<rparr>))"

definition acc_new_empty :: "'h hasher \<Rightarrow> 'h in_memory_accumulator" where
  "acc_new_empty H = \<lparr>frozen_subtree_roots = [], num_leaves = 0, root_hash = placeholder H\<rparr>"

definition acc_default :: "'h hasher \<Rightarrow> ('h in_memory_accumulator, 'e) result" where
  "acc_default H = unwrap_ok (acc_new H [] 0)"

text \<open>The vector's \<open>pop\<close>.\<close>

definition vec_pop :: "'a list \<Rightarrow> ('a \<times> 'a list) option" where
  "vec_pop xs = (if xs = [] then None else Some (last xs, butlast xs))"

fun merge_roots :: "'h hasher \<Rightarrow> nat \<Rightarrow> 'h list \<Rightarrow> ('h list, 'e) result" where
  "merge_roots H 0 roots = Ok roots"
| "merge_roots H (Suc k) roots =
     and_then (unwrap_some (vec_pop roots)) (\<lambda>(right_hash, roots).
     and_then (unwrap_some (vec_pop roots)) (\<lambda>(left_hash, roots).
     merge_roots H k (roots @ [node_hash H left_hash right_hash])))"

definition append_one :: "'h hasher \<Rightarrow> 'h list \<Rightarrow> leaf_count \<Rightarrow> 'h \<Rightarrow> ('h list, 'e) result" where
  "append_one H roots num_existing_leaves leaf =
     merge_roots H (trailing_zeros (NOT num_existing_leaves)) (roots @ [leaf])"

fun append_loop ::
  "'h hasher \<Rightarrow> 'h list \<Rightarrow> 'h list \<Rightarrow> leaf_count \<Rightarrow> ('h list \<times> leaf_count, 'e) result" where
  "append_loop H [] roots n = Ok (roots, n)"
| "append_loop H (leaf # leaves) roots n =
     and_then (append_one H roots n leaf) (\<lambda>roots.
     and_then (add_p n 1) (\<lambda>n. append_loop H leaves roots n))"

definition acc_append :: "'h hasher \<Rightarrow> 'h in_memory_accumulator \<Rightarrow> 'h list \<Rightarrow> ('h in_memory_accumulator, 'e) result" where
  "acc_append H self leaves =
     and_then (append_loop H leaves (frozen_subtree_roots self) (num_leaves self)) (\<lambda>(roots, n).
     unwrap_ok (acc_new H roots n))"

definition from_leaves :: "'h hasher \<Rightarrow> 'h list \<Rightarrow> ('h in_memory_accumulator, 'e) result" where
  "from_leaves H leaves = and_then (acc_default H) (\<lambda>acc. acc_append H acc leaves)"

function carry_loop ::
  "'h hasher \<Rightarrow> leaf_count \<Rightarrow> u64 \<Rightarrow> 'h list \<Rightarrow> 'h \<Rightarrow> (u64 \<times> 'h list \<times> 'h, 'e) result" where
  "carry_loop H n mask_bit roots current_hash =
     (if n AND mask_bit \<noteq> 0 then
        and_then (unwrap_some (vec_pop roots)) (\<lambda>(left_hash, roots).
        carry_loop H n (push_bit 1 mask_bit) roots (node_hash H left_hash current_hash))
      else Ok (mask_bit, roots, current_hash))"
  by pat_completeness auto

lemma trailing_zeros_push: "w \<noteq> 0 \<Longrightarrow> trailing_zeros w < trailing_zeros (push_bit 1 w)"
proof -
  assume "w \<noteq> 0"
  then obtain m where "bit w m" by (auto simp: bit_eq_iff)
  then obtain n where n: "bit w n" and least: "\<And>k. k < n \<Longrightarrow> \<not> bit w k"
    using exists_least_iff [of "bit w"] by metis
  have "n < 64" using n bit_imp_le_length by fastforce
  have "takeWhile (\<lambda>k. \<not> bit w k) [0..<64] = take n [0..<64]"
    using n least \<open>n < 64\<close> by (intro takeWhile_eq_take_P_nth) simp_all
  moreover have "takeWhile (\<lambda>k. \<not> bit (push_bit 1 w) k) [0..<64] = take (Suc n) [0..<64]"
  proof (rule takeWhile_eq_take_P_nth)
    have shift: "bit (push_bit 1 w) k \<longleftrightarrow> k < 64 \<and> 1 \<le> k \<and> bit w (k - 1)" for k
      by (simp only: bit_push_bit_iff) (auto dest: bit_imp_le_length)
    show "\<not> bit (push_bit 1 w) ([0..<64] ! i)" if "i < Suc n" "i < length [0..<64]" for i
      using that least [of "i - 1"] unfolding shift by auto
    show "\<not> \<not> bit (push_bit 1 w) ([0..<64] ! Suc n)" if "Suc n < length [0..<64]"
      using that n unfolding shift by simp
  qed
  ultimately show ?thesis using \<open>n < 64\<close> by (simp add: trailing_zeros_def)
qed

lemma trailing_zeros_le: "trailing_zeros w \<le> 64"
  unfolding trailing_zeros_def by (rule order_trans [OF length_takeWhile_le]) simp

lemma carry_measure: "n AND m \<noteq> 0 \<Longrightarrow> 64 - trailing_zeros (push_bit 1 m) < 64 - trailing_zeros m"
  using trailing_zeros_push [of m] trailing_zeros_le [of "push_bit 1 m"] by (cases "m = 0") simp_all

termination carry_loop
  by (relation "measure (\<lambda>(_, _, mask_bit, _, _). 64 - trailing_zeros mask_bit)") (use carry_measure in auto)

fun subtrees_loop ::
  "'h hasher \<Rightarrow> 'h list \<Rightarrow> 'h list \<Rightarrow> leaf_count \<Rightarrow> leaf_count \<Rightarrow> u64 \<Rightarrow>
   ('h list \<times> leaf_count, anyhow) result" where
  "subtrees_loop H subtrees roots current_num remaining tree_size =
     (if remaining \<ge> tree_size then
        (case subtrees of
           [] \<Rightarrow> Err (Msg ''Too few subtrees.'')
         | s # rest \<Rightarrow>
             and_then (carry_loop H current_num tree_size roots s) (\<lambda>(mask_bit, roots, current_hash).
             and_then (add_p current_num tree_size) (\<lambda>current_num.
             and_then (sub_p remaining tree_size) (\<lambda>remaining.
             subtrees_loop H rest (roots @ [current_hash]) current_num remaining mask_bit))))
      else map_ok (\<lambda>n. (roots @ subtrees, n)) (add_p current_num remaining))"

definition append_subtrees ::
  "'h hasher \<Rightarrow> 'h in_memory_accumulator \<Rightarrow> 'h list \<Rightarrow> leaf_count \<Rightarrow> ('h in_memory_accumulator, anyhow) result" where
  "append_subtrees H self subtrees num_new_leaves =
     and_then (sub_p MAX_ACCUMULATOR_LEAVES (num_leaves self)) (\<lambda>room.
     and_then (ensure (num_new_leaves \<le> room) (Msg ''Too many new leaves.'')) (\<lambda>_.
     if num_leaves self = 0 then acc_new H subtrees num_new_leaves
     else
       and_then (subtrees_loop H subtrees (frozen_subtree_roots self) (num_leaves self) num_new_leaves
         (push_bit (trailing_zeros (num_leaves self)) 1)) (\<lambda>(roots, n).
       acc_new H roots n)))"

definition acc_version :: "'h in_memory_accumulator \<Rightarrow> version" where
  "acc_version self = (if num_leaves self = 0 then 0 else num_leaves self - 1)"

definition acc_is_empty :: "'h in_memory_accumulator \<Rightarrow> bool" where
  "acc_is_empty self \<longleftrightarrow> num_leaves self = 0"

text \<open>The proof that an element is in an accumulator.\<close>

record 'h accumulator_proof =
  siblings :: "'h list"

definition proof_step :: "'h hasher \<Rightarrow> 'h \<Rightarrow> 'h \<times> u64 \<Rightarrow> 'h \<times> u64" where
  "proof_step H sibling_hash = (\<lambda>(hash, index).
     (if index mod 2 = 0 then node_hash H hash sibling_hash else node_hash H sibling_hash hash, index div 2))"

definition accumulator_proof_verify ::
  "'h hasher \<Rightarrow> 'h accumulator_proof \<Rightarrow> 'h \<Rightarrow> 'h \<Rightarrow> u64 \<Rightarrow> (unit, anyhow) result" where
  "accumulator_proof_verify H self expected_root_hash element_hash element_index =
     and_then (ensure (length (siblings self) \<le> MAX_ACCUMULATOR_PROOF_DEPTH)
       (Msg ''Accumulator proof has too many siblings.'')) (\<lambda>_.
     let actual_root_hash = fst (fold (proof_step H) (siblings self) (element_hash, element_index))
     in ensure (actual_root_hash = expected_root_hash) (Msg ''Root hashes do not match.''))"

text \<open>\<open>verify_transaction_info\<close>; \<open>txn_hash\<close> is the hash of the transaction info.\<close>

definition verify_transaction_info ::
  "hash_value hasher \<Rightarrow> ledger_info \<Rightarrow> version \<Rightarrow> hash_value \<Rightarrow> hash_value accumulator_proof \<Rightarrow> (unit, anyhow) result" where
  "verify_transaction_info H li transaction_version txn_hash prf =
     and_then (ensure (transaction_version \<le> li_version li) (Msg ''Transaction version is newer than LedgerInfo version.'')) (\<lambda>_.
     accumulator_proof_verify H prf (transaction_accumulator_hash li) txn_hash transaction_version)"

text \<open>The summary a light client keeps.\<close>

definition summary_new :: "'h in_memory_accumulator \<Rightarrow> ('h in_memory_accumulator, anyhow) result" where
  "summary_new acc = and_then (ensure (\<not> acc_is_empty acc) (Msg ''empty accumulator'')) (\<lambda>_. Ok acc)"

definition verify_consistency :: "hash_value in_memory_accumulator \<Rightarrow> ledger_info \<Rightarrow> (unit, anyhow) result" where
  "verify_consistency self li =
     and_then (ensure (li_version li = acc_version self) (Msg ''ledger info and accumulator must be at the same version'')) (\<lambda>_.
     ensure (transaction_accumulator_hash li = root_hash self) (Msg ''ledger info root hash and accumulator root hash must match''))"

definition try_from_genesis_proof ::
  "hash_value hasher \<Rightarrow> hash_value list \<Rightarrow> version \<Rightarrow> (hash_value in_memory_accumulator, anyhow) result" where
  "try_from_genesis_proof H subtrees target_version = acc_new H subtrees (saturating_add target_version 1)"

definition try_extend_with_proof ::
  "hash_value hasher \<Rightarrow> hash_value in_memory_accumulator \<Rightarrow> hash_value list \<Rightarrow> ledger_info \<Rightarrow> (hash_value in_memory_accumulator, anyhow) result" where
  "try_extend_with_proof H self subtrees target_li =
     and_then (ensure (li_version target_li \<ge> acc_version self) (Msg ''target ledger info version must be newer'')) (\<lambda>_.
     let num_new_txns = li_version target_li - acc_version self in
     and_then (append_subtrees H self subtrees num_new_txns) (\<lambda>new_accumulator.
     and_then (map_err (Context ''accumulator is not consistent with the target ledger info'')
       (verify_consistency new_accumulator target_li)) (\<lambda>_.
     Ok new_accumulator)))"

text \<open>The proof that an accumulator is extended by leaves.\<close>

record 'h accumulator_extension_proof =
  ext_frozen_subtree_roots :: "'h list"
  ext_num_leaves :: leaf_count
  ext_leaves :: "'h list"

definition extension_proof_verify ::
  "'h hasher \<Rightarrow> 'h accumulator_extension_proof \<Rightarrow> 'h \<Rightarrow> ('h in_memory_accumulator, anyhow) result" where
  "extension_proof_verify H self original_root =
     and_then (acc_new H (ext_frozen_subtree_roots self) (ext_num_leaves self)) (\<lambda>original_tree.
     and_then (ensure (root_hash original_tree = original_root) (Msg ''Root hashes do not match.'')) (\<lambda>_.
     acc_append H original_tree (ext_leaves self)))"

section \<open>Specification\<close>

fun parents :: "'h hasher \<Rightarrow> 'h list \<Rightarrow> 'h list" where
  "parents H (x # y # zs) = node_hash H x y # parents H zs"
| "parents H [x] = [node_hash H x (placeholder H)]"
| "parents H [] = []"

lemma length_parents [simp]: "length (parents H xs) = (length xs + 1) div 2"
  by (induction H xs rule: parents.induct) auto

function merkle_root :: "'h hasher \<Rightarrow> 'h list \<Rightarrow> 'h" where
  "merkle_root H xs =
     (if length xs \<le> 1 then (case xs of [] \<Rightarrow> placeholder H | x # _ \<Rightarrow> x)
      else merkle_root H (parents H xs))"
  by pat_completeness auto
termination by (relation "measure (length \<circ> snd)") auto

text \<open>The roots of the full subtrees, from the largest to the smallest.\<close>

fun pairs :: "'h hasher \<Rightarrow> 'h list \<Rightarrow> 'h list" where
  "pairs H (x # y # zs) = node_hash H x y # pairs H zs"
| "pairs H [x] = []"
| "pairs H [] = []"

lemma length_pairs [simp]: "length (pairs H xs) = length xs div 2"
  by (induction H xs rule: pairs.induct) auto

function frozen :: "'h hasher \<Rightarrow> 'h list \<Rightarrow> 'h list" where
  "frozen H xs =
     (if xs = [] then []
      else frozen H (pairs H xs) @ (if odd (length xs) then [last xs] else []))"
  by pat_completeness auto
termination by (relation "measure (length \<circ> snd)") auto

declare merkle_root.simps [simp del] frozen.simps [simp del] root_loop.simps [simp del] carry_loop.simps [simp del]

section \<open>Levels\<close>

lemma frozen_step: "frozen H xs = frozen H (pairs H xs) @ (if odd (length xs) then [last xs] else [])"
  by (cases "xs = []") (simp_all add: frozen.simps [of H xs])

lemma frozen_Nil [simp]: "frozen H [] = []"
  by (simp add: frozen.simps)

lemma merkle_root_step: "1 < length xs \<Longrightarrow> merkle_root H xs = merkle_root H (parents H xs)"
  by (simp add: merkle_root.simps [of H xs])

lemma merkle_root_single [simp]: "merkle_root H [x] = x" "merkle_root H [] = placeholder H"
  by (simp_all add: merkle_root.simps)

lemma parents_snoc:
  "parents H (ys @ [c]) =
     pairs H ys @ [if odd (length ys) then node_hash H (last ys) c else node_hash H c (placeholder H)]"
  by (induction H ys rule: pairs.induct) auto

lemma pairs_snoc: "pairs H (ys @ [c]) = pairs H ys @ (if odd (length ys) then [node_hash H (last ys) c] else [])"
  by (induction H ys rule: pairs.induct) auto

lemma parents_eq_pairs:
  "parents H xs = pairs H xs @ (if odd (length xs) then [node_hash H (last xs) (placeholder H)] else [])"
  by (induction H xs rule: pairs.induct) auto

lemma length_frozen: "length (frozen H xs) = ones (length xs)"
proof (induction H xs rule: frozen.induct)
  case (1 H xs)
  show ?case
  proof (cases "xs = []")
    case False
    then show ?thesis using 1 by (subst frozen_step) (simp add: ones_step [of "length xs"] mod2_eq_if)
  qed simp
qed

subsection \<open>Bits of the number of leaves\<close>

lemma takeWhile_64:
  "length (takeWhile P [0..<64]) = (if P 0 then Suc (length (takeWhile (P \<circ> Suc) [0..<63])) else 0)"
proof -
  have "[0..<64] = 0 # map Suc [0..<63]" by (simp only: map_Suc_upt) (simp add: upt_rec [of 0 64])
  then show ?thesis by (simp add: takeWhile_map)
qed

lemma takeWhile_63:
  assumes "\<not> P 63 \<or> (\<exists>k < 63. \<not> P k)"
  shows "length (takeWhile P [0..<64]) = length (takeWhile P [0..<63])"
proof -
  have split: "[0..<64] = [0..<63] @ [63]" by (simp add: upt_Suc_append [of 0 63, simplified])
  show ?thesis
  proof (cases "\<forall>k \<in> set [0..<63]. P k")
    case True
    with assms have "\<not> P 63" by auto
    with True show ?thesis unfolding split by (simp add: takeWhile_append takeWhile_eq_all_conv [THEN iffD2])
  next
    case False
    then show ?thesis unfolding split by (auto simp: takeWhile_append1)
  qed
qed

lemma trailing_zeros_even:
  assumes "even w" and "w \<noteq> 0" shows "trailing_zeros w = Suc (trailing_zeros (w div 2))"
proof -
  obtain m where "bit w m" using assms(2) by (auto simp: bit_eq_iff)
  moreover have "m \<noteq> 0" using \<open>bit w m\<close> assms(1) by (metis bit_0)
  ultimately have "bit (w div 2) (m - 1)" "m - 1 < 63"
    by (simp_all add: bit_Suc [symmetric]) (use \<open>bit w m\<close> bit_imp_le_length in fastforce)
  then have "\<exists>k < 63. bit (w div 2) k" by blast
  then have "trailing_zeros (w div 2) = length (takeWhile (\<lambda>n. \<not> bit (w div 2) n) [0..<63])"
    unfolding trailing_zeros_def by (intro takeWhile_63) auto
  with assms(1) show ?thesis by (simp add: trailing_zeros_def [of w] takeWhile_64 bit_0 bit_Suc o_def)
qed

lemma trailing_zeros_odd [simp]: "odd w \<Longrightarrow> trailing_zeros w = 0"
  by (simp add: trailing_zeros_def takeWhile_64 bit_0)

lemma trailing_ones_even [simp]: "even w \<Longrightarrow> trailing_zeros (NOT w) = 0"
  by (simp add: trailing_zeros_def takeWhile_64 bit_0)

lemma trailing_ones_odd:
  assumes "odd w" shows "trailing_zeros (NOT w) = Suc (trailing_zeros (NOT (w div 2)))"
proof -
  have "\<not> bit (w div 2) 63" using bit_imp_le_length [of w 64] by (auto simp: bit_Suc [symmetric])
  then have "trailing_zeros (NOT (w div 2)) = length (takeWhile (\<lambda>n. \<not> bit (NOT (w div 2)) n) [0..<63])"
    unfolding trailing_zeros_def by (intro takeWhile_63) (simp add: bit_not_iff)
  also have "\<dots> = length (takeWhile (\<lambda>n. bit w (Suc n)) [0..<63])"
    by (rule arg_cong [where f = length], rule takeWhile_cong) (auto simp: bit_not_iff bit_Suc)
  also have "\<dots> = length (takeWhile ((\<lambda>n. \<not> bit (NOT w) n) \<circ> Suc) [0..<63])"
    by (rule arg_cong [where f = length], rule takeWhile_cong) (auto simp: bit_not_iff)
  finally show ?thesis using assms by (simp add: trailing_zeros_def [of "NOT w"] takeWhile_64 bit_not_iff bit_0)
qed

subsection \<open>The root\<close>

lemma even_unat [simp]: "even (unat w) \<longleftrightarrow> even w" for w :: u64
  using bit_unsigned_iff [of w 0, where 'a = nat] by (simp add: bit_0)

lemma ones_pos: "0 < n \<Longrightarrow> 0 < ones n"
proof (induction n rule: ones.induct)
  case (1 n)
  then show ?case by (cases "n div 2 = 0") (auto simp: ones_step [of n] mod2_eq_if)
qed

lemma low_bit: "w AND 1 \<noteq> 0 \<longleftrightarrow> odd (unat w)" for w :: u64
  by (simp only: even_unat and_one_eq flip: even_iff_mod_2_eq_zero)

lemma root_loop_spec:
  "unat b = length ys \<Longrightarrow> ys \<noteq> [] \<Longrightarrow> 
   root_loop H b (rev (frozen H ys)) cur = (Ok (merkle_root H (ys @ [cur])) :: (_, 'e) result)"
proof (induction "length ys" arbitrary: b ys cur rule: less_induct)
  case less
  have pos: "b > 0" using less.prems by (simp add: word_less_nat_alt)
  have half: "unat (b div 2) = length (pairs H ys)" using less.prems by (simp add: unat_div)
  have step: "merkle_root H (ys @ [cur]) = merkle_root H (parents H (ys @ [cur]))"
    using less.prems by (intro merkle_root_step) (cases ys; simp)
  have IH: "root_loop H (b div 2) (rev (frozen H (pairs H ys))) c =
      (Ok (merkle_root H (pairs H ys @ [c])) :: (_, 'e) result)" for c
  proof (cases "pairs H ys = []")
    case True
    then have "b div 2 = 0" using half by (simp add: word_eq_unat)
    with True show ?thesis by (simp add: root_loop.simps)
  next
    case False
    with less.hyps [OF _ half] less.prems show ?thesis by (cases ys) auto
  qed
  have "root_loop H b (rev (frozen H ys)) cur =
      (root_loop H (b div 2) (rev (frozen H (pairs H ys)))
        (if odd (length ys) then node_hash H (last ys) cur else node_hash H cur (placeholder H)) :: (_, 'e) result)"
    using pos less.prems
    by (subst root_loop.simps) (cases "odd (length ys)"; simp add: low_bit drop_bit_Suc frozen_step [of H ys])
  with IH step show ?case by (simp add: parents_snoc)
qed

lemma compute_root_hash_even:
  assumes "even n" and "n \<noteq> 0"
  shows "compute_root_hash H roots n = compute_root_hash H roots (n div 2)"
proof -
  have "trailing_zeros n < 64" using trailing_zeros_push [OF assms(2)] trailing_zeros_le [of "push_bit 1 n"] by linarith
  then have lt: "trailing_zeros (n div 2) < 63" using trailing_zeros_even [OF assms] by simp
  have "drop_bit (Suc (trailing_zeros (n div 2))) n = drop_bit (trailing_zeros (n div 2)) (n div 2)"
    by (simp add: drop_bit_Suc)
  with lt trailing_zeros_even [OF assms] show ?thesis by (simp add: compute_root_hash_def split: list.split)
qed

lemma compute_root_hash_spec:
  "unat n = length xs \<Longrightarrow> compute_root_hash H (frozen H xs) n = (Ok (merkle_root H xs) :: (_, 'e) result)"
proof (induction "length xs" arbitrary: xs n rule: less_induct)
  case less
  show ?case
  proof (cases "even (length xs)")
    case True
    show ?thesis
    proof (cases "xs = []")
      case False
      then have "1 < length xs" using True by (cases xs; cases "tl xs") auto
      moreover have n: "n \<noteq> 0" "even n" using less.prems False True by (auto simp flip: even_unat)
      moreover have "unat (n div 2) = length (pairs H xs)" using less.prems by (simp add: unat_div)
      ultimately show ?thesis
        using less.hyps [of "pairs H xs" "n div 2"] True
        by (simp add: compute_root_hash_even merkle_root_step parents_eq_pairs frozen_step [of H xs])
    qed (simp add: compute_root_hash_def)
  next
    case odd: False
    then have tz: "trailing_zeros n = 0" using less.prems by (metis even_unat trailing_zeros_odd)
    show ?thesis
    proof (cases "length xs = 1")
      case True
      then obtain x where "xs = [x]" by (auto simp: length_Suc_conv)
      then show ?thesis by (simp add: compute_root_hash_def frozen.simps)
    next
      case False
      then have long: "1 < length xs" using odd by (cases "length xs") auto
      have "0 < ones (length xs div 2)" using long by (intro ones_pos) simp
      then have "2 \<le> length (frozen H xs)"
        using odd by (simp add: length_frozen ones_step [of "length xs"] mod2_eq_if)
      then obtain a b rs where roots: "frozen H xs = a # b # rs"
        by (cases "frozen H xs"; cases "tl (frozen H xs)") auto
      have "xs \<noteq> []" using long by auto
      then have "merkle_root H (xs @ [placeholder H]) = merkle_root H xs"
        using merkle_root_step [of xs H] merkle_root_step [of "xs @ [placeholder H]" H] long odd
        by (simp add: pairs_snoc parents_eq_pairs)
      moreover have "root_loop H n (rev (frozen H xs)) (placeholder H) =
          (Ok (merkle_root H (xs @ [placeholder H])) :: (_, 'e) result)"
        by (rule root_loop_spec [OF less.prems \<open>xs \<noteq> []\<close>])
      ultimately show ?thesis using roots tz by (simp add: compute_root_hash_def assert_p_def)
    qed
  qed
qed

section \<open>Appending leaves\<close>

text \<open>The accumulator that commits to the leaves \<open>xs\<close>.\<close>

definition commits :: "'h hasher \<Rightarrow> 'h in_memory_accumulator \<Rightarrow> 'h list \<Rightarrow> bool" where
  "commits H acc xs \<longleftrightarrow> unat (num_leaves acc) = length xs \<and>
     frozen_subtree_roots acc = frozen H xs \<and> root_hash acc = merkle_root H xs"

lemma append_one_spec:
  "unat n = length xs \<Longrightarrow> append_one H (frozen H xs) n x = (Ok (frozen H (xs @ [x])) :: (_, 'e) result)"
  unfolding append_one_def
proof (induction "length xs" arbitrary: xs n x rule: less_induct)
  case less
  show ?case
  proof (cases "even (length xs)")
    case True
    then have "trailing_zeros (NOT n) = 0" using less.prems by (metis even_unat trailing_ones_even)
    with True show ?thesis by (simp add: frozen_step [of H xs] frozen_step [of H "xs @ [x]"] pairs_snoc)
  next
    case False
    then have tz: "trailing_zeros (NOT n) = Suc (trailing_zeros (NOT (n div 2)))"
      using less.prems by (metis even_unat trailing_ones_odd)
    have "unat (n div 2) = length (pairs H xs)" using less.prems by (simp add: unat_div)
    moreover have "length (pairs H xs) < length xs" using False by (cases xs) auto
    ultimately have "merge_roots H (trailing_zeros (NOT (n div 2))) (frozen H (pairs H xs) @ [node_hash H (last xs) x]) =
        (Ok (frozen H (pairs H xs @ [node_hash H (last xs) x])) :: (_, 'e) result)" by (intro less.hyps)
    with False show ?thesis
      by (simp add: tz frozen_step [of H xs] frozen_step [of H "xs @ [x]"] pairs_snoc vec_pop_def butlast_append)
  qed
qed

lemma append_loop_spec:
  "unat n = length xs \<Longrightarrow> length xs + length ys < 2 ^ 64 \<Longrightarrow>
   append_loop H ys (frozen H xs) n = (Ok (frozen H (xs @ ys), n + of_nat (length ys)) :: (_, 'e) result)"
proof (induction ys arbitrary: xs n)
  case (Cons y ys)
  have "unat n + unat (1 :: u64) < 2 ^ 64" using Cons.prems by simp
  then have add: "add_p n 1 = (Ok (n + 1) :: (_, 'e) result)" and n1: "unat (n + 1) = length (xs @ [y])"
    using Cons.prems unat_add_if [of n 1] by (simp_all add: add_p_def checked_add_def)
  with Cons.IH [OF n1] Cons.prems(2) show ?case
    by (simp add: add.assoc append_one_spec [OF Cons.prems(1)])
qed simp

lemma acc_new_spec:
  "unat n = length xs \<Longrightarrow> acc_new H (frozen H xs) n =
     Ok \<lparr>frozen_subtree_roots = frozen H xs, num_leaves = n, root_hash = merkle_root H xs\<rparr>"
  by (simp add: acc_new_def length_frozen u64_count_ones_nat compute_root_hash_spec)

lemma acc_append_spec:
  assumes "commits H acc xs" and "length xs + length ys < 2 ^ 64"
  obtains acc' where "acc_append H acc ys = Ok acc'" and "commits H acc' (xs @ ys)"
proof -
  from assms have n: "unat (num_leaves acc + of_nat (length ys)) = length (xs @ ys)"
    by (simp add: commits_def unat_add_if unat_of_nat_u64)
  with assms that show ?thesis
    by (simp add: acc_append_def commits_def append_loop_spec acc_new_spec [OF n, of H])
qed

lemma acc_default_spec: "acc_default H = Ok (acc_new_empty H)" and commits_empty: "commits H (acc_new_empty H) []"
proof -
  have "acc_new H [] 0 = Ok (acc_new_empty H)"
    by (simp add: acc_new_def acc_new_empty_def compute_root_hash_def u64_count_ones_def result_simps)
  then show "acc_default H = Ok (acc_new_empty H)" by (simp add: acc_default_def result_simps)
  show "commits H (acc_new_empty H) []" by (simp add: commits_def acc_new_empty_def)
qed

lemma from_leaves_spec:
  assumes "length xs < 2 ^ 64"
  shows "\<exists>acc. from_leaves H xs = Ok acc \<and> commits H acc xs"
proof -
  from assms have "length ([] :: 'a list) + length xs < 2 ^ 64" by simp
  from acc_append_spec [OF commits_empty this] obtain acc
    where "acc_append H (acc_new_empty H) xs = (Ok acc :: (_, 'b) result)" and "commits H acc ([] @ xs)" by blast
  then show ?thesis by (simp add: from_leaves_def acc_default_spec result_simps)
qed

text \<open>
  \<^bold>\<open>C14.\<close> The incremental accumulator computes the Merkle root. Building the accumulator of \<open>xs\<close> and
  appending \<open>ys\<close> succeeds, gives the accumulator built from \<open>xs @ ys\<close> at once, and both roots are
  those of the tree built level by level from all the leaves.
\<close>

theorem accumulator_append:
  assumes "length xs + length ys < 2 ^ 64"
  shows "\<exists>acc acc'. from_leaves H xs = (Ok acc :: (_, 'e) result) \<and> root_hash acc = merkle_root H xs \<and>
    acc_append H acc ys = (Ok acc' :: (_, 'e) result) \<and> from_leaves H (xs @ ys) = (Ok acc' :: (_, 'e) result) \<and>
    root_hash acc' = merkle_root H (xs @ ys) \<and> unat (num_leaves acc') = length xs + length ys"
proof -
  obtain acc where acc: "from_leaves H xs = (Ok acc :: (_, 'e) result)" "commits H acc xs"
    using from_leaves_spec [of xs H] assms by force
  obtain acc' where acc': "acc_append H acc ys = (Ok acc' :: (_, 'e) result)" "commits H acc' (xs @ ys)"
    using acc_append_spec [OF acc(2) assms] by blast
  obtain acc'' where acc'': "from_leaves H (xs @ ys) = (Ok acc'' :: (_, 'e) result)" "commits H acc'' (xs @ ys)"
    using from_leaves_spec [of "xs @ ys" H] assms by force
  have "acc'' = acc'" using acc'(2) acc''(2) by (auto simp: commits_def word_eq_unat intro!: in_memory_accumulator.equality)
  with acc acc' acc'' show ?thesis by (intro exI [of _ acc] exI [of _ acc']) (simp add: commits_def)
qed

text \<open>A hash on lists of digits that is one-to-one, for concrete runs.\<close>

definition demo_hasher :: "nat list hasher" where
  "demo_hasher = \<lparr>node_hash = \<lambda>a b. 1 # length a # a @ b, placeholder = [0]\<rparr>"

theorem accumulator_append_witness:
  "length [[2::nat], [3]] + length [[4::nat]] < 2 ^ 64 \<and>
   (\<exists>acc acc'. from_leaves demo_hasher [[2], [3]] = (Ok acc :: (_, anyhow) result) \<and>
     acc_append demo_hasher acc [[4]] = (Ok acc' :: (_, anyhow) result) \<and>
     root_hash acc' = merkle_root demo_hasher [[2], [3], [4]])"
  using accumulator_append [of "[[2], [3]]" "[[4]]" demo_hasher, where 'e = anyhow] by auto

section \<open>Inclusion proofs\<close>

text \<open>The node at a position of a level; beyond the end of the level is the placeholder.\<close>

definition node_of :: "'h hasher \<Rightarrow> 'h list \<Rightarrow> nat \<Rightarrow> 'h" where
  "node_of H xs j = (if j < length xs then xs ! j else placeholder H)"

definition merkle_level :: "'h hasher \<Rightarrow> 'h list \<Rightarrow> nat \<Rightarrow> 'h list" where
  "merkle_level H xs k = (parents H ^^ k) xs"

fun height :: "nat \<Rightarrow> nat" where
  "height n = (if n \<le> 1 then 0 else Suc (height ((n + 1) div 2)))"

declare height.simps [simp del]

text \<open>The siblings on the path of a leaf, from the bottom.\<close>

definition path_siblings :: "'h hasher \<Rightarrow> 'h list \<Rightarrow> nat \<Rightarrow> 'h list" where
  "path_siblings H xs i =
     map (\<lambda>k. node_of H (merkle_level H xs k) (if even (i div 2 ^ k) then i div 2 ^ k + 1 else i div 2 ^ k - 1))
       [0..<height (length xs)]"

text \<open>Hashing is one-to-one on the pairs, and neither a leaf nor the placeholder is the hash of a node.\<close>

definition collision_free :: "'h hasher \<Rightarrow> bool" where
  "collision_free H \<longleftrightarrow> inj (\<lambda>(a, b). node_hash H a b) \<and> (\<forall>a b. node_hash H a b \<noteq> placeholder H)"

definition leaf_hash :: "'h hasher \<Rightarrow> 'h \<Rightarrow> bool" where
  "leaf_hash H x \<longleftrightarrow> x \<noteq> placeholder H \<and> (\<forall>a b. node_hash H a b \<noteq> x)"

lemma node_hash_eq: "collision_free H \<Longrightarrow> node_hash H a b = node_hash H c d \<longleftrightarrow> a = c \<and> b = d"
  using inj_eq [of "\<lambda>(a, b). node_hash H a b" "(a, b)" "(c, d)"] by (simp add: collision_free_def)

lemma parents_node:
  "j < length (parents H xs) \<Longrightarrow> parents H xs ! j = node_hash H (node_of H xs (2 * j)) (node_of H xs (2 * j + 1))"
proof (induction H xs arbitrary: j rule: parents.induct)
  case (1 H x y zs)
  then show ?case by (cases j) (auto simp: node_of_def)
qed (auto simp: node_of_def)

lemma level_Suc: "merkle_level H xs (Suc k) = parents H (merkle_level H xs k)"
  by (simp add: merkle_level_def)

lemma level_root: "xs \<noteq> [] \<Longrightarrow> merkle_root H xs = node_of H (merkle_level H xs (height (length xs))) 0"
proof (induction H xs rule: merkle_root.induct)
  case (1 H xs)
  show ?case
  proof (cases "length xs \<le> 1")
    case True
    with 1(2) show ?thesis by (cases xs) (simp_all add: height.simps merkle_level_def node_of_def)
  next
    case False
    then have "parents H xs \<noteq> []" by (simp flip: length_0_conv)
    with False 1(1) have "merkle_root H xs =
      node_of H (merkle_level H (parents H xs) (height ((length xs + 1) div 2))) 0"
      by (simp add: merkle_root_step)
    with False show ?thesis by (simp add: height.simps [of "length xs"] merkle_level_def funpow_swap1)
  qed
qed

lemma height_bound: "n \<le> 2 ^ height n"
proof (induction n rule: height.induct)
  case (1 n)
  show ?case
  proof (cases "n \<le> 1")
    case False
    with 1 have "(n + 1) div 2 \<le> 2 ^ height ((n + 1) div 2)" by simp
    with False show ?thesis by (simp add: height.simps [of n])
  qed (simp add: height.simps [of n])
qed

lemma height_le: "n \<le> 2 ^ k \<Longrightarrow> height n \<le> k"
proof (induction k arbitrary: n)
  case (Suc k)
  then have "(n + 1) div 2 \<le> 2 ^ k" by simp
  with Suc.IH show ?case by (simp add: height.simps [of n])
qed (simp add: height.simps)

lemma mod_power_Suc: "i mod 2 ^ Suc k = (i div 2 ^ k mod 2) * 2 ^ k + i mod 2 ^ k" for i :: nat
  using mod_mult2_eq [of i "2 ^ k" 2] by (simp only: power_Suc2 mult.commute)

lemma path_index: "unat (snd (fold (proof_step H) ss (e, i))) = unat i div 2 ^ length ss"
proof (induction ss rule: rev_induct)
  case (snoc s ss)
  have "unat (snd (proof_step H s p)) = unat (snd p) div 2" for p
    by (simp add: proof_step_def case_prod_beta unat_div)
  with snoc show ?case using div_mult2_eq [of "unat i" "2 ^ length ss" 2] by (simp add: mult.commute)
qed simp

lemma proof_step_node:
  "fst (proof_step H s (v, i)) = (if even (unat i) then node_hash H v s else node_hash H s v)"
  by (simp add: proof_step_def word_eq_unat unat_mod even_iff_mod_2_eq_zero)

lemma node_of_inner:
  assumes "0 < k" and "leaf_hash H x"
  shows "node_of H (merkle_level H xs k) j \<noteq> x"
proof -
  obtain k' where "k = Suc k'" using assms(1) by (cases k) auto
  then show ?thesis using assms(2) parents_node [of j H "merkle_level H xs k'"]
    by (auto simp: node_of_def level_Suc leaf_hash_def)
qed

lemma node_of_step:
  assumes "collision_free H" and "node_of H (merkle_level H xs (Suc k)) q = node_hash H a b"
  shows "a = node_of H (merkle_level H xs k) (2 * q) \<and> b = node_of H (merkle_level H xs k) (2 * q + 1)"
proof (cases "q < length (merkle_level H xs (Suc k))")
  case True
  then have "node_of H (merkle_level H xs (Suc k)) q =
    node_hash H (node_of H (merkle_level H xs k) (2 * q)) (node_of H (merkle_level H xs k) (2 * q + 1))"
    using parents_node [of q H "merkle_level H xs k"] by (simp add: node_of_def [of H _ q] level_Suc)
  with assms show ?thesis by (simp add: node_hash_eq)
next
  case False
  with assms show ?thesis by (metis collision_free_def node_of_def)
qed

text \<open>A path that ends in a node of the tree began in the node below it that the index selects.\<close>

lemma path_down:
  assumes "collision_free H"
  shows "length ss \<le> k \<Longrightarrow> fst (fold (proof_step H) ss (e, i)) = node_of H (merkle_level H xs k) q \<Longrightarrow>
    e = node_of H (merkle_level H xs (k - length ss)) (q * 2 ^ length ss + unat i mod 2 ^ length ss)"
proof (induction ss arbitrary: k q rule: rev_induct)
  case (snoc s ss)
  define p where "p = fold (proof_step H) ss (e, i)"
  from snoc.prems obtain k' where k: "k = Suc k'" "length ss \<le> k'" by (cases k) auto
  have index: "unat (snd p) = unat i div 2 ^ length ss" by (simp add: p_def path_index)
  have "fst (proof_step H s (fst p, snd p)) = node_of H (merkle_level H xs (Suc k')) q"
    using snoc.prems k by (simp add: p_def)
  then have "fst p = node_of H (merkle_level H xs k') (2 * q + unat (snd p) mod 2)"
    unfolding proof_step_node
    using node_of_step [OF assms, of xs k' q "fst p" s] node_of_step [OF assms, of xs k' q s "fst p"]
    by (cases "unat (snd p) mod 2 = 0") (simp_all add: even_iff_mod_2_eq_zero del: even_unat)
  from snoc.IH [OF k(2) this [unfolded p_def]]
  have "e = node_of H (merkle_level H xs (k' - length ss))
      ((2 * q + unat i div 2 ^ length ss mod 2) * 2 ^ length ss + unat i mod 2 ^ length ss)"
    by (simp only: index [unfolded p_def])
  moreover have "(2 * q + unat i div 2 ^ length ss mod 2) * 2 ^ length ss + unat i mod 2 ^ length ss =
      q * 2 ^ Suc (length ss) + unat i mod 2 ^ Suc (length ss)"
    unfolding mod_power_Suc by (simp add: add_mult_distrib)
  ultimately show ?case by (simp add: k)
qed simp

lemma path_sound:
  assumes "collision_free H" and "leaf_hash H e" and leaves: "\<And>x. x \<in> set xs \<Longrightarrow> leaf_hash H x"
    and i: "unat i < length xs" and root: "fst (fold (proof_step H) ss (e, i)) = merkle_root H xs"
  shows "e = xs ! unat i"
proof -
  define h where "h = height (length xs)"
  from i have ends: "fst (fold (proof_step H) ss (e, i)) = node_of H (merkle_level H xs h) 0"
    using level_root [of xs H] root by (cases "xs = []") (simp_all add: h_def)
  show ?thesis
  proof (cases "length ss \<le> h")
    case True
    from path_down [OF assms(1) True ends]
    have e: "e = node_of H (merkle_level H xs (h - length ss)) (unat i mod 2 ^ length ss)" by simp
    with node_of_inner [of "h - length ss" H e xs] assms(2) True have "length ss = h" by fastforce
    moreover have "unat i < 2 ^ h" using i height_bound [of "length xs"] by (simp add: h_def)
    ultimately show ?thesis using e i by (simp add: merkle_level_def node_of_def)
  next
    case False
    define ss1 ss2 where "ss1 = take (length ss - h) ss" and "ss2 = drop (length ss - h) ss"
    define p where "p = fold (proof_step H) ss1 (e, i)"
    have ss: "ss = ss1 @ ss2" "length ss2 = h" "ss1 \<noteq> []" using False by (auto simp: ss1_def ss2_def)
    have "fst (fold (proof_step H) ss2 (fst p, snd p)) = node_of H (merkle_level H xs h) 0"
      using ends ss(1) by (simp add: p_def)
    from path_down [OF assms(1) _ this] ss(2) obtain j where "fst p = node_of H xs j"
      by (auto simp: merkle_level_def)
    moreover obtain a b where "fst p = node_hash H a b"
      using ss(3) by (cases ss1 rule: rev_cases, simp, simp add: p_def proof_step_def case_prod_beta) metis
    ultimately have False using leaves assms(1)
      by (cases "j < length xs") (auto simp: node_of_def leaf_hash_def collision_free_def)
    then show ?thesis ..
  qed
qed

lemma level_index: "i < length xs \<Longrightarrow> i div 2 ^ k < length (merkle_level H xs k)"
proof (induction k)
  case (Suc k)
  then show ?case using div_mult2_eq [of i "2 ^ k" 2] by (simp add: level_Suc mult.commute)
qed (simp add: merkle_level_def)

lemma path_up:
  assumes "unat i < length xs" and "k \<le> height (length xs)"
  shows "fst (fold (proof_step H) (take k (path_siblings H xs (unat i))) (xs ! unat i, i)) =
    node_of H (merkle_level H xs k) (unat i div 2 ^ k)"
  using assms(2)
proof (induction k)
  case 0
  then show ?case using assms(1) by (simp add: merkle_level_def node_of_def)
next
  case (Suc k)
  define p where "p = fold (proof_step H) (take k (path_siblings H xs (unat i))) (xs ! unat i, i)"
  define j where "j = unat i div 2 ^ k"
  have len: "length (path_siblings H xs (unat i)) = height (length xs)" by (simp add: path_siblings_def)
  have index: "unat (snd p) = j" using Suc.prems by (simp add: p_def path_index len j_def min_def)
  have sib: "path_siblings H xs (unat i) ! k = node_of H (merkle_level H xs k) (if even j then j + 1 else j - 1)"
    using Suc.prems by (simp add: path_siblings_def j_def)
  have "j div 2 < length (parents H (merkle_level H xs k))"
    using level_index [OF assms(1), of k H] by (simp add: j_def)
  then have "node_of H (merkle_level H xs (Suc k)) (j div 2) =
    node_hash H (node_of H (merkle_level H xs k) (2 * (j div 2))) (node_of H (merkle_level H xs k) (2 * (j div 2) + 1))"
    by (simp only: level_Suc node_of_def [of H "parents H _"] parents_node if_True)
  moreover have "fst (proof_step H (path_siblings H xs (unat i) ! k) (fst p, snd p)) =
    node_hash H (node_of H (merkle_level H xs k) (2 * (j div 2))) (node_of H (merkle_level H xs k) (2 * (j div 2) + 1))"
    unfolding proof_step_node index sib using Suc by (cases "even j") (auto simp: p_def j_def elim!: oddE evenE)
  moreover have "unat i div 2 ^ Suc k = j div 2" using div_mult2_eq [of "unat i" "2 ^ k" 2] by (simp add: j_def mult.commute)
  ultimately show ?case using Suc.prems len by (simp add: take_Suc_conv_app_nth p_def)
qed

text \<open>
  \<^bold>\<open>C13.\<close> An inclusion proof is accepted for the true leaf only. Against the root of the tree of \<open>xs\<close>,
  the siblings on the path of index \<open>i\<close> prove the leaf at \<open>i\<close>; and whatever siblings are sent, if
  they prove some leaf hash \<open>e\<close> at an index below the number of leaves, then \<open>e\<close> is that leaf. Node
  hashes are assumed to be free of collisions and apart from leaf hashes and the placeholder.
\<close>

theorem accumulator_proof_sound_complete:
  assumes "unat i < length xs" and "length xs \<le> unat MAX_ACCUMULATOR_LEAVES"
    and "collision_free H" and "\<And>x. x \<in> set (e # xs) \<Longrightarrow> leaf_hash H x"
  shows "accumulator_proof_verify H \<lparr>siblings = path_siblings H xs (unat i)\<rparr> (merkle_root H xs) (xs ! unat i) i = Ok () \<and>
    (accumulator_proof_verify H prf (merkle_root H xs) e i = Ok () \<longrightarrow> e = xs ! unat i)"
proof (intro conjI impI)
  have len: "length (path_siblings H xs (unat i)) = height (length xs)" by (simp add: path_siblings_def)
  have "height (length xs) \<le> 63" using assms(2) by (intro height_le) (simp add: MAX_ACCUMULATOR_LEAVES_def MAX_ACCUMULATOR_PROOF_DEPTH_def)
  moreover have "fst (fold (proof_step H) (path_siblings H xs (unat i)) (xs ! unat i, i)) = merkle_root H xs"
    using path_up [OF assms(1) order_refl, of H] level_root [of xs H] assms(1) height_bound [of "length xs"] len
    by (cases "xs = []") simp_all
  ultimately show "accumulator_proof_verify H \<lparr>siblings = path_siblings H xs (unat i)\<rparr> (merkle_root H xs) (xs ! unat i) i = Ok ()"
    by (simp add: accumulator_proof_verify_def len MAX_ACCUMULATOR_PROOF_DEPTH_def result_simps)
next
  assume "accumulator_proof_verify H prf (merkle_root H xs) e i = Ok ()"
  then have "fst (fold (proof_step H) (siblings prf) (e, i)) = merkle_root H xs"
    by (auto simp: accumulator_proof_verify_def result_simps Let_def split: if_splits)
  with assms show "e = xs ! unat i" by (intro path_sound [where ss = "siblings prf" and H = H]) auto
qed

lemma demo_collision_free: "collision_free demo_hasher"
  by (auto simp: collision_free_def demo_hasher_def inj_def)

lemma demo_leaf: "leaf_hash demo_hasher [Suc (Suc n)]"
  by (auto simp: leaf_hash_def demo_hasher_def)

theorem accumulator_proof_sound_complete_witness:
  "accumulator_proof_verify demo_hasher \<lparr>siblings = path_siblings demo_hasher [[2], [3], [4]] (unat (2 :: u64))\<rparr>
     (merkle_root demo_hasher [[2], [3], [4]]) [4] 2 = Ok () \<and>
   accumulator_proof_verify demo_hasher \<lparr>siblings = path_siblings demo_hasher [[2], [3], [4]] (unat (2 :: u64))\<rparr>
     (merkle_root demo_hasher [[2], [3], [4]]) [3] 2 \<noteq> Ok ()"
proof -
  have "leaf_hash demo_hasher x" if "x \<in> set [[3], [2], [3], [4]]" for x
    using that demo_leaf [of 0] demo_leaf [of 1] demo_leaf [of 2] by (auto simp: numeral_eq_Suc)
  then show ?thesis
    using accumulator_proof_sound_complete [of 2 "[[2], [3], [4]]" demo_hasher "[3]"
        "\<lparr>siblings = path_siblings demo_hasher [[2], [3], [4]] (unat (2 :: u64))\<rparr>", OF _ _ demo_collision_free]
    by (auto simp: MAX_ACCUMULATOR_LEAVES_def MAX_ACCUMULATOR_PROOF_DEPTH_def)
qed

end
