(* ===== verification/Accumulator_Consistency.thy ===== *)
theory Accumulator_Consistency
  imports Merkle_Accumulator
begin

text \<open>
  Consistency proofs of the Merkle accumulator (\<open>append_subtrees\<close> of
  \<open>src/types/src/proof/accumulator/mod.rs\<close>): the subtrees an honest server sends extend an
  accumulator of \<open>xs\<close> to one of \<open>xs @ ys\<close>, and whatever subtrees are sent, an extension that reaches
  the root of some list of leaves of the right length extends \<open>xs\<close> itself.
\<close>

section \<open>The subtrees of an extension\<close>

definition up :: "'h hasher \<Rightarrow> nat \<Rightarrow> 'h list \<Rightarrow> 'h list" where
  "up H t xs = (pairs H ^^ t) xs"

text \<open>
  From \<open>n\<close> leaves on, \<open>new_subtrees\<close> takes the full subtrees that fit: each is as large as the last
  one bit of the number of leaves so far, until what is left is smaller.
\<close>

fun low_power :: "nat \<Rightarrow> nat" where
  "low_power n = (if n = 0 \<or> odd n then 0 else Suc (low_power (n div 2)))"

declare low_power.simps [simp del]

function new_subtrees :: "'h hasher \<Rightarrow> nat \<Rightarrow> 'h list \<Rightarrow> 'h list" where
  "new_subtrees H n ys =
     (let t = low_power n in
      if length ys < 2 ^ t then frozen H ys
      else hd (up H t (take (2 ^ t) ys)) # new_subtrees H (n + 2 ^ t) (drop (2 ^ t) ys))"
  by pat_completeness auto

lemma take_power_less: "\<not> m < 2 ^ t \<Longrightarrow> m - 2 ^ t < m" for m t :: nat
  by (cases m) (auto simp: not_less)

termination new_subtrees
  by (relation "measure (\<lambda>(_, _, ys). length ys)") (simp_all add: take_power_less)

declare new_subtrees.simps [simp del]

lemma low_power_dvd: "2 ^ low_power n dvd n"
proof (induction n rule: low_power.induct)
  case (1 n)
  show ?case
  proof (cases "n = 0 \<or> odd n")
    case False
    with 1 have "2 ^ low_power (n div 2) dvd n div 2" by simp
    with False show ?thesis by (auto simp: low_power.simps [of n])
  qed (auto simp: low_power.simps [of n])
qed

lemma low_power_odd: "odd m \<Longrightarrow> low_power (2 ^ t * m) = t"
proof (induction t)
  case (Suc t)
  then have "2 ^ Suc t * m \<noteq> 0" by (auto elim: oddE)
  with Suc show ?case by (subst low_power.simps) simp
qed (simp add: low_power.simps)

lemma trailing_zeros_low_power: "w \<noteq> 0 \<Longrightarrow> trailing_zeros w = low_power (unat w)"
proof (induction "unat w" arbitrary: w rule: less_induct)
  case less
  show ?case
  proof (cases "even w")
    case True
    moreover have "unat (w div 2) < unat w" "w div 2 \<noteq> 0"
      using less.prems True by (auto simp: unat_div word_eq_unat simp flip: even_unat elim!: evenE)
    ultimately show ?thesis
      using less.hyps [of "w div 2"] less.prems
      by (simp add: trailing_zeros_even low_power.simps [of "unat w"] unat_div word_eq_unat)
  qed (simp add: low_power.simps)
qed

section \<open>Levels of an extension\<close>

lemma pairs_append: "even (length xs) \<Longrightarrow> pairs H (xs @ ys) = pairs H xs @ pairs H ys"
  by (induction H xs rule: pairs.induct) auto

lemma up_Suc: "up H (Suc t) xs = up H t (pairs H xs)"
  by (simp add: up_def funpow_swap1)

lemma length_up [simp]: "length (up H t xs) = length xs div 2 ^ t"
  by (induction t arbitrary: xs) (simp_all add: up_Suc div_mult2_eq, simp add: up_def)

lemma up_append: "2 ^ t dvd length xs \<Longrightarrow> up H t (xs @ ys) = up H t xs @ up H t ys"
proof (induction t arbitrary: xs ys)
  case (Suc t)
  then have "even (length xs)" "2 ^ t dvd length xs div 2" by (auto elim!: dvdE)
  with Suc.IH [of "pairs H xs"] show ?case by (simp add: up_Suc pairs_append)
qed (simp add: up_def)

lemma frozen_up: "2 ^ t dvd length xs \<Longrightarrow> frozen H xs = frozen H (up H t xs)"
proof (induction t arbitrary: xs)
  case (Suc t)
  then have "even (length xs)" "2 ^ t dvd length xs div 2" by (auto elim!: dvdE)
  with Suc.IH [of "pairs H xs"] show ?case by (simp add: up_Suc frozen_step [of H xs])
qed (simp add: up_def)

text \<open>A short tail keeps its own subtrees.\<close>

lemma frozen_append:
  "2 ^ t dvd length xs \<Longrightarrow> length ys < 2 ^ t \<Longrightarrow> frozen H (xs @ ys) = frozen H xs @ frozen H ys"
proof (induction t arbitrary: xs ys)
  case (Suc t)
  then have even: "even (length xs)" "2 ^ t dvd length xs div 2" by (auto elim!: dvdE)
  have "frozen H (pairs H xs @ pairs H ys) = frozen H (pairs H xs) @ frozen H (pairs H ys)"
    using Suc.IH [of "pairs H xs" "pairs H ys"] even Suc.prems by simp
  moreover have "odd (length ys) \<Longrightarrow> ys \<noteq> []" by auto
  ultimately show ?case
    using even by (simp add: frozen_step [of H "xs @ ys"] frozen_step [of H xs] frozen_step [of H ys] pairs_append)
qed simp

lemma frozen_extend:
  assumes "2 ^ t dvd length xs" and "length zs = 2 ^ t"
  shows "frozen H (xs @ zs) = frozen H (up H t xs @ [hd (up H t zs)])"
proof -
  have "length (up H t zs) = 1" using assms(2) by simp
  then have "up H t zs = [hd (up H t zs)]" by (cases "up H t zs") auto
  moreover have "2 ^ t dvd length (xs @ zs)" using assms by simp
  ultimately show ?thesis using frozen_up [of t "xs @ zs" H] assms(1) by (simp add: up_append)
qed

section \<open>Completeness\<close>

declare subtrees_loop.simps [simp del]

lemma mask_bit: "t < 64 \<Longrightarrow> n AND 2 ^ t \<noteq> 0 \<longleftrightarrow> odd (unat n div 2 ^ t)" for n :: u64
proof -
  assume "t < 64"
  have "n AND 2 ^ t \<noteq> 0 \<longleftrightarrow> bit n t"
    using \<open>t < 64\<close> by (auto simp: bit_eq_iff [of "n AND 2 ^ t"] bit_and_iff bit_exp_iff)
  also have "\<dots> \<longleftrightarrow> odd (unat n div 2 ^ t)"
    using \<open>t < 64\<close> bit_unsigned_iff [of n t, where 'a = nat] by (simp add: bit_iff_odd [of "unat n"])
  finally show ?thesis .
qed

lemma unat_mask: "t < 64 \<Longrightarrow> unat (2 ^ t :: u64) = 2 ^ t"
  using unat_of_nat_u64 [of "2 ^ t"] power_strict_increasing [of t 64 "2 :: nat"] by simp

text \<open>
  Adding a subtree of level \<open>t\<close> merges it with the subtrees to its left, like adding one to the
  number of nodes of that level.
\<close>

lemma carry_loop_spec:
  assumes "unat n div 2 ^ t = length X" and "2 ^ t * (length X + 1) < 2 ^ 64"
  shows "\<exists>t' X' c'. carry_loop H n (2 ^ t) (frozen H X) r = (Ok (2 ^ t', frozen H X', c') :: (_, 'e) result) \<and>
    frozen H X' @ [c'] = frozen H (X @ [r]) \<and> even (length X') \<and> 2 ^ t' * (length X' + 1) = 2 ^ t * (length X + 1)"
  using assms
proof (induction "length X" arbitrary: X t r rule: less_induct)
  case less
  have "(2::nat) ^ t \<le> 2 ^ t * (length X + 1)" by simp
  then have "(2::nat) ^ t < 2 ^ 64" using less.prems(2) by (rule le_less_trans)
  then have t: "t < 64" by (simp only: power_strict_increasing_iff)
  show ?case
  proof (cases "even (length X)")
    case True
    then have "carry_loop H n (2 ^ t) (frozen H X) r = (Ok (2 ^ t, frozen H X, r) :: (_, 'e) result)"
      using less.prems t by (subst carry_loop.simps) (simp add: mask_bit)
    moreover have "frozen H X @ [r] = frozen H (X @ [r])"
      using True by (simp add: frozen_step [of H "X @ [r]"] frozen_step [of H X] pairs_snoc)
    ultimately show ?thesis using True by blast
  next
    case False
    then have "carry_loop H n (2 ^ t) (frozen H X) r =
        (carry_loop H n (2 ^ Suc t) (frozen H (pairs H X)) (node_hash H (last X) r) :: (_, 'e) result)"
      using less.prems t
      by (subst carry_loop.simps) (simp add: mask_bit frozen_step [of H X] vec_pop_def mult.commute [of "2 ^ t" "2 :: u64"])
    moreover have "frozen H (X @ [r]) = frozen H (pairs H X @ [node_hash H (last X) r])"
      using False by (simp add: frozen_step [of H "X @ [r]"] pairs_snoc)
    moreover have size: "2 ^ Suc t * (length (pairs H X) + 1) = 2 ^ t * (length X + 1)"
      using False by (auto elim!: oddE)
    moreover have "length (pairs H X) < length X" using False by (cases X) auto
    moreover have "unat n div 2 ^ Suc t = length (pairs H X)"
      using less.prems(1) div_mult2_eq [of "unat n" "2 ^ t" 2] by (simp add: mult.commute)
    ultimately show ?thesis using less.hyps [of "pairs H X" "Suc t" "node_hash H (last X) r"] less.prems(2) by (simp only:)
  qed
qed

lemma subtrees_loop_spec:
  assumes "unat cur = length xs" and "unat rem = length ys" and "xs \<noteq> []" and "length xs + length ys \<le> 2 ^ 63"
  shows "subtrees_loop H (new_subtrees H (length xs) ys) (frozen H xs) cur rem (2 ^ low_power (length xs)) =
    Ok (frozen H (xs @ ys), cur + rem)"
  using assms
proof (induction "length ys" arbitrary: xs ys cur rem rule: less_induct)
  case less
  define t where "t = low_power (length xs)"
  have dvd: "2 ^ t dvd length xs" by (simp add: t_def low_power_dvd)
  then have "2 ^ t \<le> length xs" using less.prems(3) by (intro dvd_imp_le) auto
  then have "2 ^ t \<le> (2::nat) ^ 63" using less.prems(4) by linarith
  then have t: "t < 64" by (simp only: power_increasing_iff)
  have cond: "2 ^ t \<le> rem \<longleftrightarrow> 2 ^ t \<le> length ys"
    using less.prems(2) t by (simp add: word_le_nat_alt unat_mask)
  show ?case
  proof (cases "length ys < 2 ^ t")
    case True
    moreover have "add_p cur rem = (Ok (cur + rem) :: (_, anyhow) result)"
      using less.prems by (simp add: add_p_def checked_add_def)
    ultimately show ?thesis
      using cond frozen_append [OF dvd True, of H]
      by (simp add: subtrees_loop.simps new_subtrees.simps [of H "length xs"] t_def result_simps)
  next
    case False
    define zs where "zs = take (2 ^ t) ys"
    have zs: "ys = zs @ drop (2 ^ t) ys" "length zs = 2 ^ t" using False by (simp_all add: zs_def)
    have X: "2 ^ t * length (up H t xs) = length xs" using dvd by simp
    have "2 ^ t * (length (up H t xs) + 1) < 2 ^ 64" using X False less.prems(4) by simp
    with carry_loop_spec [of cur t "up H t xs" H "hd (up H t zs)", where 'e = anyhow] less.prems(1) X
    obtain t' X' c' where
      carry: "carry_loop H cur (2 ^ t) (frozen H xs) (hd (up H t zs)) = (Ok (2 ^ t', frozen H X', c') :: (_, anyhow) result)"
      and roots: "frozen H X' @ [c'] = frozen H (xs @ zs)"
      and size: "even (length X')" "2 ^ t' * (length X' + 1) = length (xs @ zs)"
      by (auto simp: frozen_up [OF dvd, of H] frozen_extend [OF dvd zs(2)] zs(2))
    have t': "low_power (length (xs @ zs)) = t'"
      using size low_power_odd [of "length X' + 1" t'] by (simp only: even_Suc Suc_eq_plus1 [symmetric]) simp
    have sub: "sub_p rem (2 ^ t) = (Ok (rem - 2 ^ t) :: (_, anyhow) result)"
      "unat (rem - 2 ^ t) = length (drop (2 ^ t) ys)"
      using False cond less.prems(2) t by (simp_all add: sub_p_eval unat_sub unat_mask)
    have unat_add: "unat (cur + 2 ^ t) = length (xs @ zs)"
      using less.prems t zs(2) False by (subst unat_add_lem [THEN iffD1]) (simp_all add: unat_mask)
    then have add: "add_p cur (2 ^ t) = (Ok (cur + 2 ^ t) :: (_, anyhow) result)"
      using less.prems(1) t zs(2) by (simp add: add_p_Ok unat_mask)
    have IH: "subtrees_loop H (new_subtrees H (length (xs @ zs)) (drop (2 ^ t) ys)) (frozen H (xs @ zs))
        (cur + 2 ^ t) (rem - 2 ^ t) (2 ^ t') =
        Ok (frozen H ((xs @ zs) @ drop (2 ^ t) ys), cur + 2 ^ t + (rem - 2 ^ t))"
      unfolding t' [symmetric]
      using False less.prems(3,4) zs(2) by (intro less.hyps unat_add sub(2)) (auto simp: take_power_less)
    have "new_subtrees H (length xs) ys = hd (up H t zs) # new_subtrees H (length (xs @ zs)) (drop (2 ^ t) ys)"
      using False zs(2) by (subst new_subtrees.simps) (simp add: t_def zs_def Let_def)
    then show ?thesis
      using IH carry cond False add sub(1) roots zs(1)
      by (subst subtrees_loop.simps) (simp add: t_def [symmetric])
  qed
qed

lemma append_subtrees_spec:
  assumes "commits H acc xs" and "xs \<noteq> []" and "length xs + length ys \<le> 2 ^ 63" and "unat k = length ys"
  shows "\<exists>acc'. append_subtrees H acc (new_subtrees H (length xs) ys) k = Ok acc' \<and> commits H acc' (xs @ ys)"
proof -
  have acc: "unat (num_leaves acc) = length xs" "frozen_subtree_roots acc = frozen H xs"
    using assms(1) by (auto simp: commits_def)
  have nz: "num_leaves acc \<noteq> 0" using acc(1) assms(2) by auto
  have max: "unat MAX_ACCUMULATOR_LEAVES = 2 ^ 63"
    by (simp add: MAX_ACCUMULATOR_LEAVES_def MAX_ACCUMULATOR_PROOF_DEPTH_def)
  have room: "sub_p MAX_ACCUMULATOR_LEAVES (num_leaves acc) = (Ok (MAX_ACCUMULATOR_LEAVES - num_leaves acc) :: (_, anyhow) result)"
    "k \<le> MAX_ACCUMULATOR_LEAVES - num_leaves acc"
    using max acc(1) assms(3,4) by (simp_all add: sub_p_eval word_le_nat_alt unat_sub)
  have loop: "subtrees_loop H (new_subtrees H (length xs) ys) (frozen H xs) (num_leaves acc) k
      (push_bit (trailing_zeros (num_leaves acc)) 1) = Ok (frozen H (xs @ ys), num_leaves acc + k)"
    using subtrees_loop_spec [OF acc(1) assms(4,2,3)] trailing_zeros_low_power [OF nz] acc(1) by simp
  have "unat (num_leaves acc + k) = length (xs @ ys)"
    using acc(1) assms(3,4) by (subst unat_add_lem [THEN iffD1]) simp_all
  with acc_new_spec [OF this, of H] room nz loop acc(2) show ?thesis
    by (simp add: append_subtrees_def commits_def ensure_def)
qed

section \<open>Soundness\<close>

text \<open>With hashes free of collisions every step of the computation can be undone.\<close>

lemma pairs_inj:
  "collision_free H \<Longrightarrow> length xs = length ys \<Longrightarrow> pairs H xs = pairs H ys \<Longrightarrow>
   (odd (length xs) \<Longrightarrow> last xs = last ys) \<Longrightarrow> xs = ys"
proof (induction H xs arbitrary: ys rule: pairs.induct)
  case (1 H x y zs)
  from 1(3) obtain x' y' zs' where ys: "ys = x' # y' # zs'" by (auto simp: length_Suc_conv eq_commute)
  have "odd (length zs) \<Longrightarrow> last zs = last zs'" using 1(3,5) ys by (cases "zs = []"; cases "zs' = []") simp_all
  moreover have "x = x' \<and> y = y'" using 1(2,4) ys by (simp add: node_hash_eq)
  ultimately show ?case using 1(1) [of zs'] 1(2-4) ys by simp
next
  case (2 H x)
  from 2(2) obtain y where "ys = [y]" by (cases ys) auto
  with 2(4) show ?case by simp
qed simp

lemma frozen_inj:
  "collision_free H \<Longrightarrow> length xs = length ys \<Longrightarrow> frozen H xs = frozen H ys \<Longrightarrow> xs = ys"
proof (induction "length xs" arbitrary: xs ys rule: less_induct)
  case less
  show ?case
  proof (cases "xs = []")
    case False
    have "frozen H (pairs H xs) @ (if odd (length xs) then [last xs] else []) =
        frozen H (pairs H ys) @ (if odd (length xs) then [last ys] else [])"
      by (metis frozen_step less.prems(2,3))
    then have same: "frozen H (pairs H xs) = frozen H (pairs H ys)" "odd (length xs) \<Longrightarrow> last xs = last ys"
      by (simp_all split: if_splits)
    have "length (pairs H xs) < length xs" using False by (cases xs) auto
    from less.hyps [OF this less.prems(1) _ same(1)] less.prems(2) have "pairs H xs = pairs H ys" by simp
    from pairs_inj [OF less.prems(1,2) this same(2)] show ?thesis .
  qed (use less.prems in simp)
qed

lemma root_loop_inj:
  assumes "collision_free H"
  shows "length iter = ones (unat b) \<Longrightarrow> length iter' = ones (unat b) \<Longrightarrow>
    root_loop H b iter c = (Ok r :: (_, 'e) result) \<Longrightarrow> root_loop H b iter' c' = (Ok r :: (_, 'e) result) \<Longrightarrow>
    iter = iter' \<and> c = c'"
proof (induction "unat b" arbitrary: b iter iter' c c' rule: less_induct)
  case less
  show ?case
  proof (cases "b = 0")
    case True
    then have "root_loop H b it x = (Ok x :: (_, 'e) result)" for it x by (subst root_loop.simps) simp
    with less.prems True show ?thesis by simp
  next
    case False
    then have pos: "b > 0" by (simp add: word_neq_0_conv)
    have half: "unat (drop_bit (Suc 0) b) = unat b div 2" by (simp add: drop_bit_Suc unat_div)
    note ones = ones_step [of "unat b"]
    note IH = less.hyps [OF half_less [OF pos]]
    show ?thesis
    proof (cases "odd (unat b)")
      case odd: True
      then obtain x rest x' rest' where "iter = x # rest" "iter' = x' # rest'"
        using less.prems(1,2) ones by (cases iter; cases iter') (auto simp: mod2_eq_if)
      with IH [of rest rest' "node_hash H x c" "node_hash H x' c'"] less.prems pos odd ones show ?thesis
        by (simp add: root_loop.simps [of H b] low_bit mod2_eq_if half node_hash_eq [OF assms])
    next
      case even: False
      with IH [of iter iter' "node_hash H c (placeholder H)" "node_hash H c' (placeholder H)"] less.prems pos ones show ?thesis
        by (simp add: root_loop.simps [of H b] low_bit mod2_eq_if half node_hash_eq [OF assms])
    qed
  qed
qed

lemma compute_root_hash_inj:
  assumes "collision_free H" and "length roots = ones (unat n)" and "length roots' = ones (unat n)"
    and "compute_root_hash H roots n = (Ok r :: (_, 'e) result)"
    and "compute_root_hash H roots' n = (Ok r :: (_, 'e) result)"
  shows "roots = roots'"
proof (cases "length roots \<le> 1")
  case True
  with assms(2,3) have "length roots = 0 \<and> length roots' = 0 \<or> length roots = 1 \<and> length roots' = 1" by linarith
  with assms(4,5) show ?thesis by (auto simp: compute_root_hash_def length_Suc_conv)
next
  case False
  then obtain x y zs x' y' zs' where long: "roots = x # y # zs" "roots' = x' # y' # zs'"
    using assms(2,3) by (cases roots; cases "tl roots"; cases roots'; cases "tl roots'") auto
  then have "n \<noteq> 0" using assms(2) by auto
  then have "unat n = 2 ^ trailing_zeros n * (unat n div 2 ^ trailing_zeros n)"
    using low_power_dvd [of "unat n"] by (simp add: trailing_zeros_low_power)
  then have "ones (unat n) = ones (unat (drop_bit (trailing_zeros n) n))"
    by (metis ones_shift unat_drop_bit_eq drop_bit_eq_div)
  with root_loop_inj [OF assms(1), of "rev roots" "drop_bit (trailing_zeros n) n" "rev roots'"
      "placeholder H" r "placeholder H", where 'e = 'e] assms(2-5) long
  show ?thesis by (auto simp: compute_root_hash_def result_simps simp del: rev.simps)
qed

lemma carry_loop_inj:
  assumes "collision_free H"
  shows "carry_loop H n m roots c = (Ok (m1, out, d) :: (_, 'e) result) \<Longrightarrow>
    carry_loop H n m roots' c' = (Ok (m2, out', d') :: (_, 'e) result) \<Longrightarrow>
    m1 = m2 \<and> (out = out' \<and> d = d' \<longrightarrow> roots = roots' \<and> c = c') \<and> (length roots = length roots' \<longrightarrow> length out = length out')"
proof (induction "64 - trailing_zeros m" arbitrary: m roots c roots' c' rule: less_induct)
  case less
  show ?case
  proof (cases "n AND m \<noteq> 0")
    case True
    from less.prems True have ne: "roots \<noteq> []" "roots' \<noteq> []"
      by (auto simp: carry_loop.simps [of H n m] vec_pop_def result_simps split: if_splits)
    with less.prems True
    have "carry_loop H n (push_bit 1 m) (butlast roots) (node_hash H (last roots) c) = (Ok (m1, out, d) :: (_, 'e) result)"
      "carry_loop H n (push_bit 1 m) (butlast roots') (node_hash H (last roots') c') = (Ok (m2, out', d') :: (_, 'e) result)"
      by (simp_all add: carry_loop.simps [of H n m] vec_pop_def)
    note IH = less.hyps [OF carry_measure [OF True] this]
    have "butlast roots = butlast roots' \<Longrightarrow> last roots = last roots' \<Longrightarrow> roots = roots'"
      using ne by (metis append_butlast_last_id)
    with IH show ?thesis by (simp add: node_hash_eq [OF assms])
  next
    case False
    then have "carry_loop H n m X y = (Ok (m, X, y) :: (_, 'e) result)" for X y by (subst carry_loop.simps) simp
    with less.prems show ?thesis by auto
  qed
qed

lemma subtrees_loop_inj:
  assumes "collision_free H"
  shows "subtrees_loop H ss roots cur rem sz = Ok (out, m) \<Longrightarrow> subtrees_loop H ss' roots' cur rem sz = Ok (out, m) \<Longrightarrow>
    length roots = length roots' \<Longrightarrow> roots = roots'"
proof (induction ss arbitrary: ss' roots roots' cur rem sz)
  case Nil
  then have "\<not> sz \<le> rem" by (auto simp: subtrees_loop.simps)
  with Nil show ?case by (auto simp: subtrees_loop.simps result_simps)
next
  case (Cons s ss)
  show ?case
  proof (cases "sz \<le> rem")
    case False
    with Cons.prems show ?thesis by (auto simp: subtrees_loop.simps result_simps)
  next
    case True
    then obtain s' rest' where ss': "ss' = s' # rest'" using Cons.prems(2) by (cases ss') (auto simp: subtrees_loop.simps)
    from Cons.prems(1) True obtain m1 r1 d1 cur1 rem1 where
      run: "carry_loop H cur sz roots s = (Ok (m1, r1, d1) :: (_, anyhow) result)"
        "add_p cur sz = (Ok cur1 :: (_, anyhow) result)" "sub_p rem sz = (Ok rem1 :: (_, anyhow) result)"
        "subtrees_loop H ss (r1 @ [d1]) cur1 rem1 m1 = Ok (out, m)"
      by (subst (asm) subtrees_loop.simps) (auto simp: and_then_eq_Ok)
    from Cons.prems(2) True ss' run(2,3) obtain m2 r2 d2 where
      run': "carry_loop H cur sz roots' s' = (Ok (m2, r2, d2) :: (_, anyhow) result)"
        "subtrees_loop H rest' (r2 @ [d2]) cur1 rem1 m2 = Ok (out, m)"
      by (subst (asm) subtrees_loop.simps) (auto simp: and_then_eq_Ok)
    from carry_loop_inj [OF assms run(1) run'(1)] Cons.prems(3)
    have same: "m1 = m2" "length (r1 @ [d1]) = length (r2 @ [d2])"
      "r1 = r2 \<and> d1 = d2 \<longrightarrow> roots = roots'" by auto
    from Cons.IH [OF run(4) run'(2) [folded same(1)] same(2)] same(3) show ?thesis by simp
  qed
qed

lemma subtrees_loop_num:
  "subtrees_loop H ss roots cur rem sz = Ok (out, m) \<Longrightarrow> unat m = unat cur + unat rem"
proof (induction ss arbitrary: roots cur rem sz)
  case Nil
  then show ?case by (cases "sz \<le> rem") (auto simp: subtrees_loop.simps result_simps)
next
  case (Cons s ss)
  show ?case
  proof (cases "sz \<le> rem")
    case False
    with Cons.prems show ?thesis by (auto simp: subtrees_loop.simps result_simps)
  next
    case True
    from Cons.prems True obtain m1 r1 d1 cur1 rem1 where
      run: "add_p cur sz = (Ok cur1 :: (_, anyhow) result)" "sub_p rem sz = (Ok rem1 :: (_, anyhow) result)"
        "subtrees_loop H ss (r1 @ [d1]) cur1 rem1 m1 = Ok (out, m)"
      by (subst (asm) subtrees_loop.simps) (auto simp: and_then_eq_Ok)
    from Cons.IH [OF run(3)] run(1,2) show ?thesis by (simp add: add_p_Ok sub_p_Ok)
  qed
qed

text \<open>An extension that succeeds runs the loop and gives an accumulator of the roots it ends with.\<close>

lemma append_subtrees_Ok:
  assumes "append_subtrees H acc ss k = Ok acc'" and "num_leaves acc \<noteq> 0"
  obtains out m where "unat (num_leaves acc) + unat k \<le> 2 ^ 63"
    and "subtrees_loop H ss (frozen_subtree_roots acc) (num_leaves acc) k
      (push_bit (trailing_zeros (num_leaves acc)) 1) = Ok (out, m)"
    and "length out = ones (unat m)" and "compute_root_hash H out m = (Ok (root_hash acc') :: (_, anyhow) result)"
    and "frozen_subtree_roots acc' = out" and "num_leaves acc' = m"
proof -
  have max: "unat MAX_ACCUMULATOR_LEAVES = 2 ^ 63"
    by (simp add: MAX_ACCUMULATOR_LEAVES_def MAX_ACCUMULATOR_PROOF_DEPTH_def)
  from assms obtain room out m where
    guard: "sub_p MAX_ACCUMULATOR_LEAVES (num_leaves acc) = (Ok room :: (_, anyhow) result)" "k \<le> room"
    and loop: "subtrees_loop H ss (frozen_subtree_roots acc) (num_leaves acc) k
      (push_bit (trailing_zeros (num_leaves acc)) 1) = Ok (out, m)"
    and new: "acc_new H out m = Ok acc'"
    unfolding append_subtrees_def by (auto simp: and_then_eq_Ok ensure_eq_Ok simp del: push_bit_of_1)
  have "unat (num_leaves acc) + unat k \<le> 2 ^ 63" using guard max by (simp add: sub_p_Ok word_le_nat_alt)
  with that loop new show ?thesis by (auto simp: acc_new_def and_then_eq_Ok ensure_eq_Ok u64_count_ones_nat simp del: push_bit_of_1)
qed

lemma append_subtrees_prefix:
  assumes "collision_free H" and "commits H acc xs" and "xs \<noteq> []"
    and "append_subtrees H acc ss k = Ok acc'" and "length zs = length xs + unat k" and "root_hash acc' = merkle_root H zs"
  shows "take (length xs) zs = xs" and "commits H acc' zs"
proof -
  define xs0 ys0 where "xs0 = take (length xs) zs" and "ys0 = drop (length xs) zs"
  define acc0 where "acc0 = \<lparr>frozen_subtree_roots = frozen H xs0, num_leaves = num_leaves acc, root_hash = merkle_root H xs0\<rparr>"
  have acc0: "frozen_subtree_roots acc0 = frozen H xs0" "num_leaves acc0 = num_leaves acc" by (simp_all add: acc0_def)
  have zs: "zs = xs0 @ ys0" "length xs0 = length xs" "length ys0 = unat k" using assms(5) by (simp_all add: xs0_def ys0_def)
  have acc: "unat (num_leaves acc) = length xs" "frozen_subtree_roots acc = frozen H xs"
    using assms(2) by (simp_all add: commits_def)
  have nz: "num_leaves acc \<noteq> 0" "num_leaves acc0 \<noteq> 0" using acc(1) assms(3) by (auto simp: acc0_def)
  from append_subtrees_Ok [OF assms(4) nz(1)] obtain out m where
    run: "unat (num_leaves acc) + unat k \<le> 2 ^ 63"
      "subtrees_loop H ss (frozen H xs) (num_leaves acc) k (push_bit (trailing_zeros (num_leaves acc)) 1) = Ok (out, m)"
      "length out = ones (unat m)" "compute_root_hash H out m = (Ok (root_hash acc') :: (_, anyhow) result)"
      "frozen_subtree_roots acc' = out" "num_leaves acc' = m"
    unfolding acc(2) .
  have "commits H acc0 xs0" using acc zs(2) by (simp add: commits_def acc0_def)
  moreover have "xs0 \<noteq> []" using zs(2) assms(3) by auto
  moreover have "length xs0 + length ys0 \<le> 2 ^ 63" using zs run(1) acc(1) by simp
  ultimately obtain acc0' where
    honest: "append_subtrees H acc0 (new_subtrees H (length xs0) ys0) k = Ok acc0'" "commits H acc0' zs"
    using append_subtrees_spec [of H acc0 xs0 ys0 k] zs(3) unfolding zs(1) by metis
  from append_subtrees_Ok [OF honest(1) nz(2)] obtain out' m' where
    run': "subtrees_loop H (new_subtrees H (length xs0) ys0) (frozen H xs0) (num_leaves acc) k
        (push_bit (trailing_zeros (num_leaves acc)) 1) = Ok (out', m')"
      "length out' = ones (unat m')" "compute_root_hash H out' m' = (Ok (root_hash acc0') :: (_, anyhow) result)"
      "frozen_subtree_roots acc0' = out'"
    unfolding acc0 by blast
  have m: "m' = m" "unat m = length zs"
    using subtrees_loop_num [OF run(2)] subtrees_loop_num [OF run'(1)] acc(1) assms(5) by (auto simp: word_unat_eq_iff)
  have roots: "root_hash acc0' = root_hash acc'" using honest(2) assms(6) by (simp add: commits_def)
  have "out = out'"
    using compute_root_hash_inj [OF assms(1) run(3) _ run(4)] run'(2,3) m(1) roots by simp
  moreover have "length (frozen H xs) = length (frozen H xs0)" by (simp add: length_frozen zs(2))
  ultimately have "frozen H xs = frozen H xs0"
    by (intro subtrees_loop_inj [OF assms(1) run(2)]) (use run'(1) m(1) in simp_all)
  then have "xs0 = xs" by (rule frozen_inj [OF assms(1) zs(2) [symmetric], symmetric])
  then show "take (length xs) zs = xs" by (simp add: xs0_def)
  show "commits H acc' zs"
    using honest(2) run(5,6) run'(4) \<open>out = out'\<close> m(2) assms(6) by (simp add: commits_def)
qed

section \<open>Properties\<close>

lemma commits_unique: "commits H a xs \<Longrightarrow> commits H b xs \<Longrightarrow> a = b"
  by (auto simp: commits_def word_eq_unat intro!: in_memory_accumulator.equality)

lemma from_leaves_commits:
  "length xs < 2 ^ 64 \<Longrightarrow> from_leaves H xs = (Ok acc :: (_, 'e) result) \<longleftrightarrow> commits H acc xs"
  using from_leaves_spec [of xs H, where 'b = 'e] commits_unique [of H _ xs] by (metis result.inject(1))

text \<open>
  \<^bold>\<open>C23.\<close> A consistency proof always works for the honest extension: an accumulator of \<open>xs\<close> extended by
  the full subtrees over \<open>ys\<close> is the accumulator of \<open>xs @ ys\<close>, the same that appending the leaves
  one by one gives, without any of the old or new leaves at hand.
\<close>

theorem append_subtrees_complete:
  assumes "from_leaves H xs = (Ok acc :: (_, anyhow) result)" and "xs \<noteq> []" and "length xs + length ys \<le> unat MAX_ACCUMULATOR_LEAVES"
  shows "\<exists>acc'. append_subtrees H acc (new_subtrees H (length xs) ys) (of_nat (length ys)) = Ok acc' \<and>
    acc_append H acc ys = (Ok acc' :: (_, anyhow) result) \<and> root_hash acc' = merkle_root H (xs @ ys)"
proof -
  have small: "length xs + length ys \<le> 2 ^ 63"
    using assms(3) by (simp add: MAX_ACCUMULATOR_LEAVES_def MAX_ACCUMULATOR_PROOF_DEPTH_def)
  with assms(1) have acc: "commits H acc xs" by (simp add: from_leaves_commits)
  have k: "unat (of_nat (length ys) :: u64) = length ys" using small by (intro unat_of_nat_u64) simp
  from append_subtrees_spec [OF acc assms(2) small k] obtain acc' where
    acc': "append_subtrees H acc (new_subtrees H (length xs) ys) (of_nat (length ys)) = Ok acc'" "commits H acc' (xs @ ys)"
    by blast
  from small have "length xs + length ys < 2 ^ 64" by simp
  from acc_append_spec [OF acc this] obtain acc''
    where acc'': "acc_append H acc ys = (Ok acc'' :: (_, anyhow) result)" "commits H acc'' (xs @ ys)" by blast
  from commits_unique [OF acc'(2) acc''(2)] acc' acc''(1) show ?thesis by (simp add: commits_def)
qed

theorem append_subtrees_complete_witness:
  "\<exists>acc acc'. from_leaves demo_hasher [[2], [3], [4]] = (Ok acc :: (_, anyhow) result) \<and>
     append_subtrees demo_hasher acc (new_subtrees demo_hasher 3 [[5], [6]]) 2 = Ok acc' \<and>
     root_hash acc' = merkle_root demo_hasher [[2], [3], [4], [5], [6]]"
proof -
  obtain acc where acc: "from_leaves demo_hasher [[2], [3], [4]] = (Ok acc :: (_, anyhow) result)"
    using from_leaves_spec [of "[[2], [3], [4]]" demo_hasher, where 'b = anyhow] by auto
  with append_subtrees_complete [OF acc, of "[[5], [6]]"] show ?thesis
    by (auto simp: MAX_ACCUMULATOR_LEAVES_def MAX_ACCUMULATOR_PROOF_DEPTH_def numeral_3_eq_3)
qed

text \<open>
  \<^bold>\<open>C3.\<close> A client's history cannot be rewritten. Let the client hold the accumulator of \<open>xs\<close>. Whatever
  subtrees a server sends, if the extension by \<open>k\<close> leaves is accepted and its root is that of a list
  \<open>zs\<close> of that many leaves, then \<open>zs\<close> starts with \<open>xs\<close>, and the client now holds the accumulator of \<open>zs\<close>.
\<close>

theorem append_subtrees_sound:
  assumes "collision_free H" and "from_leaves H xs = (Ok acc :: (_, anyhow) result)" and "xs \<noteq> []" and "length xs < 2 ^ 64"
    and "append_subtrees H acc ss k = Ok acc'" and "length zs = length xs + unat k"
    and "root_hash acc' = merkle_root H zs"
  shows "take (length xs) zs = xs \<and> from_leaves H zs = (Ok acc' :: (_, anyhow) result)"
proof -
  have acc: "commits H acc xs" using assms(2,4) by (simp add: from_leaves_commits)
  then have "num_leaves acc \<noteq> 0" using assms(3) by (auto simp: commits_def)
  from append_subtrees_Ok [OF assms(5) this] have "unat (num_leaves acc) + unat k \<le> 2 ^ 63" .
  then have "length zs < 2 ^ 64" using acc assms(6) by (simp add: commits_def)
  with append_subtrees_prefix [OF assms(1) acc assms(3,5-7)] show ?thesis by (simp add: from_leaves_commits)
qed

theorem append_subtrees_sound_witness:
  "\<exists>acc acc'. from_leaves demo_hasher [[2], [3], [4]] = (Ok acc :: (_, anyhow) result) \<and>
     append_subtrees demo_hasher acc (new_subtrees demo_hasher 3 [[5], [6]]) 2 = Ok acc' \<and>
     root_hash acc' \<noteq> merkle_root demo_hasher [[2], [7], [4], [5], [6]]"
proof -
  have "length [[2 :: nat], [3], [4]] < 2 ^ 64" by simp
  then obtain acc where acc: "from_leaves demo_hasher [[2], [3], [4]] = (Ok acc :: (_, anyhow) result)"
    and com: "commits demo_hasher acc [[2], [3], [4]]"
    using from_leaves_spec [of "[[2], [3], [4]]" demo_hasher, where 'b = anyhow] by blast
  obtain acc' where ext: "append_subtrees demo_hasher acc (new_subtrees demo_hasher 3 [[5], [6]]) 2 = Ok acc'"
    using append_subtrees_spec [OF com, of "[[5], [6]]" 2] by (auto simp: numeral_3_eq_3)
  have "root_hash acc' \<noteq> merkle_root demo_hasher [[2], [7], [4], [5], [6]]"
  proof
    assume "root_hash acc' = merkle_root demo_hasher [[2], [7], [4], [5], [6]]"
    from append_subtrees_sound [OF demo_collision_free acc _ _ ext _ this] show False by simp
  qed
  with acc ext show ?thesis by blast
qed

end
