(* ===== verification/Range_Proofs.thy ===== *)
theory Range_Proofs
  imports Accumulator_Consistency
begin

text \<open>
  \<open>AccumulatorRangeProof\<close>, \<open>TransactionInfoWithProof\<close> and \<open>TransactionInfoListWithProof\<close> of
  \<open>src/types/src/proof/definition.rs\<close>: the proof that a list of consecutive transactions is in the
  ledger, level by level from the leaves, and the check that such a list extends the ledger a node has.
\<close>

section \<open>Model\<close>

record 'h accumulator_range_proof =
  left_siblings :: "'h list"
  right_siblings :: "'h list"

definition range_new_empty :: "'h accumulator_range_proof" where
  "range_new_empty = \<lparr>left_siblings = [], right_siblings = []\<rparr>"

text \<open>
  One level: the hash of the first node's parent if it is a right child, then those of the pairs,
  then the last one's if it is left over.
\<close>

fun chunks :: "'h hasher \<Rightarrow> 'h list \<Rightarrow> 'h list \<times> 'h list" where
  "chunks H (left_hash # right_hash # rest) = (let (ps, remainder) = chunks H rest in (node_hash H left_hash right_hash # ps, remainder))"
| "chunks H remainder = ([], remainder)"

definition range_level ::
  "'h hasher \<Rightarrow> bool \<Rightarrow> 'h list \<Rightarrow> 'h list \<Rightarrow> 'h list \<Rightarrow> ('h list \<times> 'h list \<times> 'h list, anyhow) result" where
  "range_level H first_is_right current_hashes lefts rights =
     and_then
       (if first_is_right then
          (case lefts of
             [] \<Rightarrow> Err (Msg ''First child is a right child, but missing sibling on the left.'')
           | left_hash # lefts \<Rightarrow>
               (case current_hashes of
                  [] \<Rightarrow> Panic
                | right_hash # children \<Rightarrow> Ok ([node_hash H left_hash right_hash], children, lefts)))
        else Ok ([], current_hashes, lefts)) (\<lambda>(firsts, children, lefts).
     let (middle, remainder) = chunks H children in
     (case remainder of
        [] \<Rightarrow> Ok (firsts @ middle, lefts, rights)
      | left_hash # _ \<Rightarrow>
          (case rights of
             [] \<Rightarrow> Err (Msg ''Last child is a left child, but missing sibling on the right.'')
           | right_hash # rights \<Rightarrow> Ok (firsts @ middle @ [node_hash H left_hash right_hash], lefts, rights))))"

declare and_then_cong [fundef_cong]

function range_loop ::
  "'h hasher \<Rightarrow> position \<Rightarrow> 'h list \<Rightarrow> 'h list \<Rightarrow> 'h list \<Rightarrow> ('h list, anyhow) result" where
  "range_loop H first_pos current_hashes lefts rights =
     (if length current_hashes > 1 \<or> lefts \<noteq> [] \<or> rights \<noteq> [] then
        and_then (is_right_child first_pos) (\<lambda>first_is_right.
        and_then (range_level H first_is_right current_hashes lefts rights) (\<lambda>(parent_hashes, lefts, rights).
        and_then (parent first_pos) (\<lambda>first_pos.
        range_loop H first_pos parent_hashes lefts rights)))
      else Ok current_hashes)"
  by pat_completeness auto

lemma level_top: "level (Position (- 1)) = 64"
  by (simp add: level_def trailing_zeros_def takeWhile_eq_all_conv [THEN iffD2])

lemma parent_top:
  assumes "node_at p 63 q" shows "parent p = Ok (Position (- 1))" and "valid_pos p" and "q = 0"
proof -
  show q: "q = 0" using assms by (simp add: node_at_def word_eq_unat)
  have p: "p = Position (pos_word 63 q)" using assms by (simp add: node_at_def)
  show v: "valid_pos p" using valid_node [OF assms] by simp
  have "pos_word 64 (q div 2) = - 1" by (rule bit_eqI) (auto simp: bit_pos_word bit_minus_1_iff q)
  then show "parent p = Ok (Position (- 1))"
    using v by (simp add: parent_def p isolate_pos_word) (use parent_word [of 63 q] in simp)
qed

lemma parent_level: "parent p = Ok p' \<Longrightarrow> level p < level p' \<and> level p' \<le> 64"
proof -
  assume p': "parent p = Ok p'"
  then have v: "valid_pos p" by (cases "valid_pos p") (auto simp: parent_def)
  then have "to_inorder_index p \<noteq> - 1" by (auto simp: valid_pos_def)
  then obtain l q where node: "node_at p l q" using node_exists [of "to_inorder_index p"] by (cases p) auto
  show ?thesis
  proof (cases "l < 63")
    case True
    have "node_at p' (Suc l) (q div 2)" using p' parent_node(2) [OF node True v] by (simp add: parent_node(1) [OF node True v])
    with True level_node [OF node] level_node show ?thesis by fastforce
  next
    case False
    with node have "l = 63" by (simp add: node_at_def)
    with node have "p' = Position (- 1)" using p' by (simp add: parent_top(1))
    with \<open>l = 63\<close> level_node [OF node] level_top show ?thesis by simp
  qed
qed

termination range_loop
  by (relation "measure (\<lambda>(_, p, _). 64 - level p)") (auto dest!: parent_level)


declare range_loop.simps [simp del]

definition range_verify ::
  "'h hasher \<Rightarrow> 'h accumulator_range_proof \<Rightarrow> 'h \<Rightarrow> u64 option \<Rightarrow> 'h list \<Rightarrow> (unit, anyhow) result" where
  "range_verify H self expected_root_hash first_leaf_index leaf_hashes =
     (case first_leaf_index of
        None \<Rightarrow>
          and_then (ensure (leaf_hashes = [])
            (Msg ''first_leaf_index indicated empty list while leaf_hashes is not empty.'')) (\<lambda>_.
          ensure (left_siblings self = [] \<and> right_siblings self = []) (Msg ''No siblings are needed.''))
      | Some index \<Rightarrow>
          and_then (ensure (length (left_siblings self) \<le> MAX_ACCUMULATOR_PROOF_DEPTH)
            (Msg ''Proof has more than 63 left siblings.'')) (\<lambda>_.
          and_then (ensure (length (right_siblings self) \<le> MAX_ACCUMULATOR_PROOF_DEPTH)
            (Msg ''Proof has more than 63 right siblings.'')) (\<lambda>_.
          and_then (ensure (leaf_hashes \<noteq> [])
            (Msg ''leaf_hashes is empty while first_leaf_index indicated non-empty list.'')) (\<lambda>_.
          and_then (from_leaf_index index) (\<lambda>first_pos.
          and_then (range_loop H first_pos leaf_hashes (left_siblings self) (right_siblings self)) (\<lambda>current_hashes.
          case current_hashes of
            [] \<Rightarrow> Panic
          | actual # _ \<Rightarrow> ensure (actual = expected_root_hash) (Msg ''Root hashes do not match.'')))))))"

text \<open>A transaction info, or a list of them, with its proof; \<open>info_hash\<close> is the hash of a transaction info.\<close>

record 'i transaction_info_with_proof =
  info_proof :: "hash_value accumulator_proof"
  transaction_info :: 'i

definition transaction_info_verify ::
  "hash_value hasher \<Rightarrow> ('i \<Rightarrow> hash_value) \<Rightarrow> 'i transaction_info_with_proof \<Rightarrow> ledger_info \<Rightarrow> version \<Rightarrow> (unit, anyhow) result" where
  "transaction_info_verify H info_hash self li transaction_version =
     verify_transaction_info H li transaction_version (info_hash (transaction_info self)) (info_proof self)"

record ('h, 'i) transaction_info_list_with_proof =
  infos_proof :: "'h accumulator_range_proof"
  transaction_infos :: "'i list"

definition infos_new_empty :: "('h, 'i) transaction_info_list_with_proof" where
  "infos_new_empty = \<lparr>infos_proof = range_new_empty, transaction_infos = []\<rparr>"

definition infos_verify ::
  "hash_value hasher \<Rightarrow> ('i \<Rightarrow> hash_value) \<Rightarrow> (hash_value, 'i) transaction_info_list_with_proof \<Rightarrow> ledger_info \<Rightarrow>
   version option \<Rightarrow> (unit, anyhow) result" where
  "infos_verify H info_hash self li first_version =
     range_verify H (infos_proof self) (transaction_accumulator_hash li) first_version
       (map info_hash (transaction_infos self))"

definition verify_extends_ledger ::
  "'h hasher \<Rightarrow> ('i \<Rightarrow> 'h) \<Rightarrow> ('h, 'i) transaction_info_list_with_proof \<Rightarrow> leaf_count \<Rightarrow> 'h \<Rightarrow> version option \<Rightarrow>
   (nat, anyhow) result" where
  "verify_extends_ledger H info_hash self num_txns_in_ledger root first_version =
     (case first_version of
        Some first_version \<Rightarrow>
          and_then (ensure (first_version \<le> num_txns_in_ledger) (Msg ''Transaction list too new.'')) (\<lambda>_.
          let num_overlap_txns = unat (num_txns_in_ledger - first_version) in
          if num_overlap_txns > length (transaction_infos self) then Ok (length (transaction_infos self))
          else
            let overlap_txn_infos = take num_overlap_txns (transaction_infos self);
                frozen_subtree_roots_from_proof = rev (left_siblings (infos_proof self)) in
            and_then (acc_new H frozen_subtree_roots_from_proof first_version) (\<lambda>acc.
            and_then (acc_append H acc (map info_hash overlap_txn_infos)) (\<lambda>accu_from_proof.
            and_then (ensure (root_hash accu_from_proof = root)
              (Msg ''Fork happens because the current synced_trees does not match the txn list provided.'')) (\<lambda>_.
            Ok num_overlap_txns))))
      | None \<Rightarrow>
          and_then (ensure (transaction_infos self = []) (Msg ''Condition failed'')) (\<lambda>_. Ok 0))"

section \<open>Soundness\<close>

text \<open>\<open>cs\<close> are the values of \<open>f\<close> from \<open>s\<close> on.\<close>

fun matches :: "(nat \<Rightarrow> 'h) \<Rightarrow> 'h list \<Rightarrow> nat \<Rightarrow> bool" where
  "matches f [] s \<longleftrightarrow> True"
| "matches f (c # cs) s \<longleftrightarrow> c = f s \<and> matches f cs (Suc s)"

lemma matches_append [simp]: "matches f (cs @ ds) s \<longleftrightarrow> matches f cs s \<and> matches f ds (s + length cs)"
  by (induction cs arbitrary: s) auto

lemma matches_nth: "matches f cs s \<longleftrightarrow> (\<forall>i < length cs. cs ! i = f (s + i))"
proof (induction cs arbitrary: s)
  case (Cons c cs)
  show ?case unfolding matches.simps Cons.IH by (simp add: All_less_Suc2)
qed simp

text \<open>\<open>f\<close> and \<open>g\<close> are the nodes of a level and of the level above it.\<close>

definition levels_of :: "'h hasher \<Rightarrow> (nat \<Rightarrow> 'h) \<Rightarrow> (nat \<Rightarrow> 'h) \<Rightarrow> bool" where
  "levels_of H f g \<longleftrightarrow> (\<forall>q a b. g q = node_hash H a b \<longrightarrow> a = f (2 * q) \<and> b = f (Suc (2 * q)))"

lemma levels_node: "collision_free H \<Longrightarrow> levels_of H (node_of H (merkle_level H xs k)) (node_of H (merkle_level H xs (Suc k)))"
  using node_of_step [of H xs k] unfolding levels_of_def by simp

lemma levels_eq: "levels_of H f g \<Longrightarrow> node_hash H a b = g q \<Longrightarrow> a = f (2 * q) \<and> b = f (Suc (2 * q))"
  unfolding levels_of_def by metis

lemma chunks_down:
  "levels_of H f g \<Longrightarrow> matches g (fst (chunks H cs)) s \<Longrightarrow>
   matches f (snd (chunks H cs)) (2 * (s + length (fst (chunks H cs)))) \<Longrightarrow> matches f cs (2 * s)"
proof (induction H cs arbitrary: s rule: chunks.induct)
  case (1 H x y zs)
  from 1(2-4) 1(1) [of "Suc s"] levels_eq [OF 1(2), of x y s] show ?case
    by (simp add: case_prod_beta Let_def)
qed auto

lemma chunks_rest: "snd (chunks H cs) = [] \<or> (\<exists>x. snd (chunks H cs) = [x])"
  by (induction H cs rule: chunks.induct) (auto simp: case_prod_beta Let_def)

lemma range_level_Ok:
  assumes "range_level H b cs ls rs = Ok (ps, ls', rs')"
  obtains firsts ds lasts where "ps = firsts @ fst (chunks H ds) @ lasts"
    and "b \<and> (\<exists>l c. ls = l # ls' \<and> cs = c # ds \<and> firsts = [node_hash H l c]) \<or> \<not> b \<and> firsts = [] \<and> ds = cs \<and> ls = ls'"
    and "snd (chunks H ds) = [] \<and> lasts = [] \<and> rs = rs' \<or>
      (\<exists>x r. snd (chunks H ds) = [x] \<and> lasts = [node_hash H x r] \<and> rs = r # rs')"
proof -
  from assms obtain firsts ds lls where
    first: "b \<and> (\<exists>l c. ls = l # lls \<and> cs = c # ds \<and> firsts = [node_hash H l c]) \<or> \<not> b \<and> firsts = [] \<and> ds = cs \<and> ls = lls"
    and rest: "(case snd (chunks H ds) of [] \<Rightarrow> Ok (firsts @ fst (chunks H ds), lls, rs)
      | left_hash # _ \<Rightarrow> (case rs of [] \<Rightarrow> Err (Msg ''Last child is a left child, but missing sibling on the right.'')
         | right_hash # rights \<Rightarrow> Ok (firsts @ fst (chunks H ds) @ [node_hash H left_hash right_hash], lls, rights))) = Ok (ps, ls', rs')"
    by (auto simp: range_level_def and_then_eq_Ok Let_def case_prod_beta split: if_splits list.splits)
  from chunks_rest [of H ds] rest first that show ?thesis by (auto split: list.splits)
qed

lemma range_level_down:
  assumes "levels_of H f g" and "range_level H b cs ls rs = Ok (ps, ls', rs')" and "matches g ps s"
  shows "matches f cs (2 * s + of_bool b)"
proof -
  from range_level_Ok [OF assms(2)] obtain firsts ds lasts where ps: "ps = firsts @ fst (chunks H ds) @ lasts"
    and first: "b \<and> (\<exists>l c. ls = l # ls' \<and> cs = c # ds \<and> firsts = [node_hash H l c]) \<or> \<not> b \<and> firsts = [] \<and> ds = cs \<and> ls = ls'"
    and last: "snd (chunks H ds) = [] \<and> lasts = [] \<and> rs = rs' \<or>
      (\<exists>x r. snd (chunks H ds) = [x] \<and> lasts = [node_hash H x r] \<and> rs = r # rs')" .
  have "matches f (snd (chunks H ds)) (2 * (s + length firsts + length (fst (chunks H ds))))"
    using last assms(3) ps by (auto dest!: levels_eq [OF assms(1)] simp: algebra_simps)
  with chunks_down [OF assms(1), of ds "s + length firsts"] assms(3) ps
  have "matches f ds (2 * (s + length firsts))" by simp
  with first assms(3) ps levels_eq [OF assms(1)] show ?thesis by auto
qed

lemma range_level_nodes:
  assumes "range_level H b cs ls rs = Ok (ps, ls', rs')" and "cs \<noteq> []"
  shows "\<exists>a b ps'. ps = node_hash H a b # ps'"
proof -
  have "fst (chunks H ds) = [] \<or> (\<exists>a b ps'. fst (chunks H ds) = node_hash H a b # ps')" for ds
    by (induction H ds rule: chunks.induct) (auto simp: case_prod_beta Let_def)
  moreover have "fst (chunks H ds) = [] \<Longrightarrow> snd (chunks H ds) = [] \<Longrightarrow> ds = []" for ds
    by (cases "(H, ds)" rule: chunks.cases) (auto simp: case_prod_beta Let_def)
  ultimately show ?thesis using range_level_Ok [OF assms(1)] assms(2) by (metis append_Cons append_Nil)
qed

text \<open>The position on the way up is at index \<open>q\<close> of some level, or past the last level.\<close>

definition on_path :: "position \<Rightarrow> u64 \<Rightarrow> bool" where
  "on_path p q \<longleftrightarrow> (\<exists>l. node_at p l q) \<or> p = Position (- 1) \<and> q = 0"

lemma top_panics: "is_right_child (Position (- 1)) = Panic"
  by (simp add: is_right_child_def is_left_child_def pos_assert_def assert_p_def)

lemma on_path_step:
  assumes "on_path p q" and "is_right_child p = (Ok b :: (_, anyhow) result)" and "parent p = (Ok p' :: (_, anyhow) result)"
  shows "on_path p' (q div 2) \<and> b = odd q"
proof -
  from assms(1,2) obtain l where node: "node_at p l q" by (auto simp: on_path_def top_panics)
  from assms(3) have v: "valid_pos p" by (cases "valid_pos p") (auto simp: parent_def)
  show ?thesis
  proof (cases "l < 63")
    case True
    with assms(2,3) parent_node(2) [OF node True v] show ?thesis
      by (auto simp: parent_node(1) [OF node True v] is_right_child_node [OF node v] on_path_def)
  next
    case False
    with node have l: "l = 63" by (simp add: node_at_def)
    with assms(2,3) node parent_top(3) [of p q] show ?thesis
      by (auto simp: parent_top(1) is_right_child_node [OF node v] on_path_def)
  qed
qed

lemma mod_power_step: "2 * (q div 2 mod 2 ^ m) + q mod 2 = q mod 2 ^ Suc m" for q :: nat
  using mod_mult2_eq [of q 2 "2 ^ m"] by simp

text \<open>
  A run that ends in node \<open>j\<close> of level \<open>k\<close> climbed some \<open>m\<close> levels, from the nodes of level \<open>k - m\<close>
  below it; it cannot climb more than \<open>k\<close>, unless a leaf is the hash of a node.
\<close>

lemma range_loop_down:
  "collision_free H \<Longrightarrow> range_loop H p cs ls rs = Ok (r # out) \<Longrightarrow> r = node_of H (merkle_level H xs k) j \<Longrightarrow>
   cs \<noteq> [] \<Longrightarrow> on_path p q \<Longrightarrow>
    (\<exists>m \<le> k. matches (node_of H (merkle_level H xs (k - m))) cs (j * 2 ^ m + unat q mod 2 ^ m)) \<or>
    (\<exists>a b i. node_hash H a b = node_of H xs i)"
proof (induction H p cs ls rs arbitrary: q rule: range_loop.induct)
  case (1 H p cs ls rs)
  show ?case
  proof (cases "length cs > 1 \<or> ls \<noteq> [] \<or> rs \<noteq> []")
    case False
    with 1(3,5) have "cs = [r]" by (cases cs) (auto simp: range_loop.simps [of H p])
    with 1(4) show ?thesis by (intro disjI1 exI [of _ 0]) simp
  next
    case True
    with 1(3) obtain b ps ls' rs' p' where
      run: "is_right_child p = (Ok b :: (_, anyhow) result)" "range_level H b cs ls rs = Ok (ps, ls', rs')"
        "parent p = (Ok p' :: (_, anyhow) result)" "range_loop H p' ps ls' rs' = Ok (r # out)"
      by (auto simp: range_loop.simps [of H p] and_then_eq_Ok)
    from range_level_nodes [OF run(2) 1(5)] obtain a b' ps' where ps: "ps = node_hash H a b' # ps'" by blast
    from on_path_step [OF 1(6) run(1,3)] have q: "on_path p' (q div 2)" "b = odd q" by auto
    from 1(1) [OF True run(1,2) _ _ run(3) 1(2) run(4) 1(4) _ q(1)] ps
    consider (down) m where "m \<le> k" "matches (node_of H (merkle_level H xs (k - m))) ps (j * 2 ^ m + unat (q div 2) mod 2 ^ m)"
      | (leaf) "\<exists>a b i. node_hash H a b = node_of H xs i" by auto
    then show ?thesis
    proof cases
      case down
      show ?thesis
      proof (cases "m = k")
        case True
        with down ps show ?thesis by (auto simp: merkle_level_def)
      next
        case False
        then obtain k' where k': "k - m = Suc k'" using down(1) by (cases "k - m") auto
        have "matches (node_of H (merkle_level H xs k')) cs (2 * (j * 2 ^ m + unat (q div 2) mod 2 ^ m) + of_bool b)"
          by (rule range_level_down [OF levels_node [OF 1(2)] run(2)]) (use down k' in simp)
        moreover have "2 * (j * 2 ^ m + unat (q div 2) mod 2 ^ m) + of_bool b = j * 2 ^ Suc m + unat q mod 2 ^ Suc m"
          using mod_power_step [of "unat q" m] by (cases "even (unat q)") (simp_all add: q(2) unat_div mod2_eq_if)
        moreover have "k - Suc m = k'" "Suc m \<le> k" using k' by simp_all
        ultimately show ?thesis by (metis (no_types, lifting))
      qed
    qed simp
  qed
qed

section \<open>Properties\<close>

text \<open>
  \<^bold>\<open>C8.\<close> A list of transactions that is accepted is the true one. If a range proof for the hashes \<open>es\<close> from
  index \<open>i\<close> on is accepted against the root of the tree of \<open>xs\<close>, then \<open>es\<close> are the leaves of \<open>xs\<close> from
  \<open>i\<close> on: none is changed, left out, put in or added past the end.
\<close>

theorem range_proof_sound:
  assumes "collision_free H" and "\<And>x. x \<in> set (es @ xs) \<Longrightarrow> leaf_hash H x"
    and "unat i < length xs" and "length xs \<le> unat MAX_ACCUMULATOR_LEAVES"
    and "range_verify H rp (merkle_root H xs) (Some i) es = Ok ()"
  shows "es = take (length es) (drop (unat i) xs) \<and> es \<noteq> []"
proof -
  define h where "h = height (length xs)"
  have small: "unat i < 2 ^ 63"
    using assms(3,4) by (simp add: MAX_ACCUMULATOR_LEAVES_def MAX_ACCUMULATOR_PROOF_DEPTH_def)
  from assms(5) obtain p cur where ne: "es \<noteq> []" and p: "from_leaf_index i = (Ok p :: (_, anyhow) result)"
    and cur: "range_loop H p es (left_siblings rp) (right_siblings rp) = Ok cur"
      "(case cur of [] \<Rightarrow> Panic | actual # _ \<Rightarrow> ensure (actual = merkle_root H xs) (Msg ''Root hashes do not match.'')) = Ok ()"
    by (auto simp: range_verify_def and_then_eq_Ok ensure_eq_Ok)
  then obtain out where run: "range_loop H p es (left_siblings rp) (right_siblings rp) = Ok (merkle_root H xs # out)"
    by (cases cur) (auto simp: ensure_eq_Ok)
  have "on_path p i"
    using from_level_and_pos_node(2) [of 0 i] small p
    by (auto simp: from_leaf_index_def on_path_def from_level_and_pos_node(1) [of 0 i])
  moreover have "merkle_root H xs = node_of H (merkle_level H xs h) 0"
    using level_root [of xs H] assms(3) by (cases "xs = []") (simp_all add: h_def)
  moreover have "node_hash H a b \<noteq> node_of H xs j" for a b j
    using assms(1,2) by (auto simp: node_of_def collision_free_def leaf_hash_def)
  ultimately obtain m where m: "m \<le> h" "matches (node_of H (merkle_level H xs (h - m))) es (unat i mod 2 ^ m)"
    using range_loop_down [OF assms(1) run _ ne, of xs h 0 i] by auto
  have "hd es = node_of H (merkle_level H xs (h - m)) (unat i mod 2 ^ m)" using m(2) ne by (cases es) auto
  moreover have leaf: "leaf_hash H (hd es)" using assms(2) ne by simp
  ultimately have "m = h" using node_of_inner [OF _ leaf, of "h - m" xs] m(1) by (metis diff_is_0_eq le_antisym not_gr_zero)
  moreover have "unat i < 2 ^ h" using assms(3) height_bound [of "length xs"] by (simp add: h_def)
  ultimately have es: "\<forall>t < length es. es ! t = node_of H xs (unat i + t)"
    using m(2) by (simp add: matches_nth merkle_level_def)
  have "unat i + t < length xs" if "t < length es" for t
  proof -
    have "leaf_hash H (es ! t)" using assms(2) [of "es ! t"] that by simp
    then have "es ! t \<noteq> placeholder H" by (simp add: leaf_hash_def)
    with es that show ?thesis by (metis node_of_def)
  qed
  with es have "es ! t = drop (unat i) xs ! t" "t < length xs - unat i" if "t < length es" for t
    using that by (force simp: node_of_def)+
  note es' = this
  have "length es \<le> length xs - unat i" using es'(2) by (meson linorder_not_less order_less_irrefl)
  with es'(1) have "es = take (length es) (drop (unat i) xs)" by (intro nth_equalityI) simp_all
  with ne show ?thesis by blast
qed

theorem range_proof_sound_witness:
  "range_verify demo_hasher \<lparr>left_siblings = [[2]], right_siblings = [[0]]\<rparr>
     (merkle_root demo_hasher [[2], [3], [4]]) (Some 1) [[3], [4]] = Ok () \<and>
   [[3], [4]] = take (length [[3 :: nat], [4]]) (drop (unat (1 :: u64)) [[2], [3], [4]])"
proof -
  have ok: "range_verify demo_hasher \<lparr>left_siblings = [[2]], right_siblings = [[0]]\<rparr>
      (merkle_root demo_hasher [[2], [3], [4]]) (Some 1) [[3], [4]] = Ok ()" by code_simp
  have "leaf_hash demo_hasher x" if "x \<in> set ([[3], [4]] @ [[2], [3], [4]])" for x
    using that demo_leaf [of 0] demo_leaf [of 1] demo_leaf [of 2] by (auto simp: numeral_eq_Suc)
  from range_proof_sound [OF demo_collision_free this _ _ ok] ok show ?thesis
    by (simp add: MAX_ACCUMULATOR_LEAVES_def MAX_ACCUMULATOR_PROOF_DEPTH_def)
qed

text \<open>
  \<^bold>\<open>C25.\<close> Some range proofs make the check panic instead of being refused. With two left and 63 right siblings,
  numbers the check allows, the proof for one leaf at index 1 climbs 64 levels and has a sibling to spare;
  the position it then asks about is past the last level, and the assertion in \<open>is_left_child\<close> fails.
\<close>

theorem range_proof_panics:
  "range_verify H \<lparr>left_siblings = replicate 2 s, right_siblings = replicate 63 s\<rparr> root (Some 1) [e] = Panic"
proof -
  have climb: "range_loop H p [c] [s] (replicate (64 - l) s) = Panic" if "node_at p l 0" "0 < l" for p l c
    using that
  proof (induction "64 - l" arbitrary: p l c)
    case (Suc n)
    have v: "valid_pos p" using valid_node [OF Suc.prems(1)] Suc.prems(2) by simp
    have len: "64 - l = Suc (64 - Suc l)" using Suc.hyps(2) by simp
    have level: "range_level H False [c] [s] (replicate (64 - l) s) = Ok ([node_hash H c s], [s], replicate (64 - Suc l) s)"
      unfolding len by (simp add: range_level_def)
    show ?case
    proof (cases "l < 63")
      case True
      have "range_loop H (Position (pos_word (Suc l) 0)) [node_hash H c s] [s] (replicate (64 - Suc l) s) = Panic"
        using Suc.hyps parent_node(2) [OF Suc.prems(1) True v] by (intro Suc.hyps(1)) simp_all
      then show ?thesis
        by (simp add: range_loop.simps [of H p] is_right_child_node [OF Suc.prems(1) v] level parent_node(1) [OF Suc.prems(1) True v])
    next
      case False
      then have "l = 63" using Suc.prems(1) by (simp add: node_at_def)
      then show ?thesis
        using level Suc.prems(1)
        by (simp add: range_loop.simps [of H p] range_loop.simps [of H "Position (- 1)"] parent_top(1) [of p 0]
            is_right_child_node [OF Suc.prems(1) v] top_panics)
    qed
  qed (simp add: node_at_def)
  have leaf: "from_leaf_index 1 = (Ok (Position (pos_word 0 1)) :: (_, anyhow) result)" "node_at (Position (pos_word 0 1)) 0 1"
    using from_level_and_pos_node(2) [of 0 1] by (simp_all add: from_leaf_index_def from_level_and_pos_node(1) [of 0 1])
  have v: "valid_pos (Position (pos_word 0 1))" using valid_node [OF leaf(2)] by simp
  have up: "parent (Position (pos_word 0 1)) = (Ok (Position (pos_word 1 0)) :: (_, anyhow) result)" "node_at (Position (pos_word 1 0)) 1 0"
    using parent_node(2) [OF leaf(2) _ v] by (simp_all add: parent_node(1) [OF leaf(2) _ v])
  have "range_loop H (Position (pos_word 0 1)) [e] [s, s] (replicate 63 s) = Panic"
    using climb [OF up(2), of "node_hash H s e"]
    by (subst range_loop.simps) (simp add: is_right_child_node [OF leaf(2) v] range_level_def up(1))
  then show ?thesis
    by (simp add: range_verify_def MAX_ACCUMULATOR_PROOF_DEPTH_def leaf(1) numeral_2_eq_2 ensure_def)
qed

section \<open>Fork detection\<close>

lemma merge_roots_inj:
  assumes "collision_free H"
  shows "merge_roots H k R = (Ok out :: (_, 'e) result) \<Longrightarrow> merge_roots H k R' = (Ok out :: (_, 'e) result) \<Longrightarrow> R = R'"
proof (induction k arbitrary: R R')
  case (Suc k)
  have split: "\<exists>S a b. X = S @ [a, b] \<and> merge_roots H k (S @ [node_hash H a b]) = (Ok out :: (_, 'e) result)"
    if "merge_roots H (Suc k) X = (Ok out :: (_, 'e) result)" for X
    using that
    by (cases X rule: rev_cases; cases "butlast X" rule: rev_cases) (auto simp: vec_pop_def unwrap_some_def)
  from split [OF Suc.prems(1)] split [OF Suc.prems(2)] Suc.IH show ?case
    by (metis append_eq_append_conv2 append1_eq_conv append_same_eq assms node_hash_eq)
qed simp

lemma append_loop_inj:
  assumes "collision_free H"
  shows "append_loop H es R n = (Ok (out, m) :: (_, 'e) result) \<Longrightarrow> append_loop H es' R' n = (Ok (out, m) :: (_, 'e) result) \<Longrightarrow>
    length es = length es' \<Longrightarrow> R = R' \<and> es = es'"
proof (induction es arbitrary: es' R R' n)
  case (Cons e es)
  then obtain e' es'' where es': "es' = e' # es''" by (cases es') auto
  from Cons.prems(1) obtain R1 n1 where run: "append_one H R n e = (Ok R1 :: (_, 'e) result)"
    "add_p n 1 = (Ok n1 :: (_, 'e) result)" "append_loop H es R1 n1 = (Ok (out, m) :: (_, 'e) result)"
    by (auto simp: and_then_eq_Ok)
  from Cons.prems(2) es' run(2) obtain R2 where run': "append_one H R' n e' = (Ok R2 :: (_, 'e) result)"
    "append_loop H es'' R2 n1 = (Ok (out, m) :: (_, 'e) result)"
    by (auto simp: and_then_eq_Ok)
  from Cons.IH [OF run(3) run'(2)] Cons.prems(3) es' have "R1 = R2" "es = es''" by auto
  with merge_roots_inj [OF assms, of _ "R @ [e]" R1 "R' @ [e']", where 'e = 'e] run(1) run'(1) es' show ?case
    by (auto simp: append_one_def)
qed simp

lemma append_loop_num: "append_loop H es R n = (Ok (out, m) :: (_, 'e) result) \<Longrightarrow> unat m = unat n + length es"
proof (induction es arbitrary: R n)
  case (Cons e es)
  from Cons.prems obtain R1 n1 where "add_p n 1 = (Ok n1 :: (_, 'e) result)" "append_loop H es R1 n1 = (Ok (out, m) :: (_, 'e) result)"
    by (auto simp: and_then_eq_Ok)
  with Cons.IH show ?case by (fastforce simp: add_p_Ok)
qed simp

text \<open>A list that reaches the end of the ledger and passes is the ledger's own where the two overlap.\<close>

lemma extends_ledger_sound:
  assumes "collision_free H" and "unat n = length xs"
    and "verify_extends_ledger H info_hash self n (merkle_root H xs) (Some first) = Ok k"
    and "unat n \<le> unat first + length (transaction_infos self)"
  shows "unat first + k = length xs \<and> map info_hash (take k (transaction_infos self)) = drop (unat first) xs \<and>
    rev (left_siblings (infos_proof self)) = frozen H (take (unat first) xs)"
proof -
  define R where "R = rev (left_siblings (infos_proof self))"
  define es where "es = map info_hash (take (unat (n - first)) (transaction_infos self))"
  from assms(3) have le: "first \<le> n" by (auto simp: verify_extends_ledger_def and_then_eq_Ok ensure_eq_Ok)
  then have diff: "unat (n - first) = unat n - unat first" by (simp add: unat_sub)
  have "\<not> length (transaction_infos self) < unat (n - first)" using assms(4) diff by simp
  with assms(3) le obtain acc acc2 where
    run: "acc_new H R first = Ok acc" "acc_append H acc es = (Ok acc2 :: (_, anyhow) result)" "root_hash acc2 = merkle_root H xs"
    and k: "k = unat (n - first)"
    by (auto simp: verify_extends_ledger_def and_then_eq_Ok ensure_eq_Ok Let_def R_def es_def)
  from run(1) have acc: "frozen_subtree_roots acc = R" "num_leaves acc = first" by (auto simp: acc_new_def and_then_eq_Ok)
  with run(2) obtain out m where loop: "append_loop H es R first = (Ok (out, m) :: (_, anyhow) result)"
    and new: "acc_new H out m = Ok acc2" by (auto simp: acc_append_def and_then_eq_Ok unwrap_ok_eq_Ok)
  have len: "length es = unat n - unat first" using assms(4) diff by (simp add: es_def)
  have m: "m = n" using append_loop_num [OF loop] len le by (simp add: word_unat_eq_iff word_le_nat_alt)
  have honest: "append_loop H (drop (unat first) xs) (frozen H (take (unat first) xs)) first = (Ok (frozen H xs, n) :: (_, anyhow) result)"
  proof -
    have "unat first = length (take (unat first) xs)" using le assms(2) by (simp add: word_le_nat_alt)
    from append_loop_spec [OF this, of "drop (unat first) xs" H, where 'e = anyhow] assms(2)
    have "append_loop H (drop (unat first) xs) (frozen H (take (unat first) xs)) first =
        (Ok (frozen H xs, first + of_nat (length xs - unat first)) :: (_, anyhow) result)"
      using unsigned_less [of n, where 'a = nat] by simp
    moreover have "first + of_nat (length xs - unat first) = n"
      using diff assms(2) word_of_nat_unat [of "n - first"] by simp
    ultimately show ?thesis by simp
  qed
  from new m run(3) have "length out = ones (unat n)" "compute_root_hash H out n = (Ok (merkle_root H xs) :: (_, anyhow) result)"
    by (auto simp: acc_new_def and_then_eq_Ok ensure_eq_Ok u64_count_ones_nat)
  with compute_root_hash_inj [OF assms(1), of out n "frozen H xs", where 'e = anyhow]
  have "out = frozen H xs" by (simp add: length_frozen assms(2) compute_root_hash_spec [OF assms(2)])
  with append_loop_inj [OF assms(1) loop, of "drop (unat first) xs" "frozen H (take (unat first) xs)"] honest m len assms(2)
  have "R = frozen H (take (unat first) xs) \<and> es = drop (unat first) xs" by simp
  with k diff le assms(2) show ?thesis by (simp add: R_def es_def word_le_nat_alt)
qed

lemma extends_ledger_complete:
  assumes "unat n = length xs" and "unat first + k = length xs" and "k \<le> length (transaction_infos self)"
    and "map info_hash (take k (transaction_infos self)) = drop (unat first) xs"
    and "rev (left_siblings (infos_proof self)) = frozen H (take (unat first) xs)"
  shows "verify_extends_ledger H info_hash self n (merkle_root H xs) (Some first) = Ok k"
proof -
  have le: "first \<le> n" and k: "unat (n - first) = k" using assms(1,2) by (simp_all add: word_le_nat_alt unat_sub)
  have first: "unat first = length (take (unat first) xs)" using assms(2) by simp
  let ?acc = "\<lparr>frozen_subtree_roots = frozen H (take (unat first) xs), num_leaves = first, root_hash = merkle_root H (take (unat first) xs)\<rparr>"
  have "commits H ?acc (take (unat first) xs)" using first by (simp add: commits_def)
  moreover have "length (take (unat first) xs) + length (drop (unat first) xs) < 2 ^ 64"
    using unsigned_less [of n, where 'a = nat] assms(1,2) by simp
  ultimately obtain acc' where acc': "acc_append H ?acc (drop (unat first) xs) = (Ok acc' :: (_, anyhow) result)"
    "commits H acc' (take (unat first) xs @ drop (unat first) xs)" by (rule acc_append_spec)
  then have "root_hash acc' = merkle_root H xs" by (simp add: commits_def)
  with acc'(1) le k assms(3-5) acc_new_spec [OF first, of H] show ?thesis
    by (simp add: verify_extends_ledger_def Let_def ensure_def)
qed

text \<open>
  \<^bold>\<open>C24.\<close> What the check of a list against the own ledger accepts. Let a node's ledger hold the transactions \<open>xs\<close>. A list
  that starts at \<open>first\<close> and reaches the end of the ledger passes exactly if its part that overlaps the ledger is the
  ledger's own and the left side of the proof is the frozen subtrees of the ledger before \<open>first\<close>: a fork there is
  detected. A list that ends before the end of the ledger passes unchecked, as the comment in the code says.
\<close>

theorem verify_extends_ledger_no_fork:
  assumes "collision_free H" and "unat n = length xs"
  shows "verify_extends_ledger H info_hash self n (merkle_root H xs) (Some first) = Ok k \<longleftrightarrow>
    (if unat first + length (transaction_infos self) < length xs then k = length (transaction_infos self)
     else unat first + k = length xs \<and> map info_hash (take k (transaction_infos self)) = drop (unat first) xs \<and>
       rev (left_siblings (infos_proof self)) = frozen H (take (unat first) xs))"
proof (cases "unat first + length (transaction_infos self) < length xs")
  case True
  then have "first \<le> n" "length (transaction_infos self) < unat (n - first)"
    using assms(2) by (simp_all add: word_le_nat_alt unat_sub)
  with True show ?thesis by (auto simp: verify_extends_ledger_def ensure_def Let_def)
next
  case False
  then have reach: "unat n \<le> unat first + length (transaction_infos self)" using assms(2) by simp
  have "k \<le> length (transaction_infos self)" if "unat first + k = length xs" using that False by simp
  with False extends_ledger_sound [OF assms _ reach, of info_hash k] extends_ledger_complete [OF assms(2), of first k self info_hash H]
  show ?thesis by auto
qed

theorem verify_extends_ledger_no_fork_witness:
  "verify_extends_ledger demo_hasher id
     \<lparr>infos_proof = \<lparr>left_siblings = [[2]], right_siblings = []\<rparr>, transaction_infos = [[3], [4], [5]]\<rparr>
     3 (merkle_root demo_hasher [[2], [3], [4]]) (Some 1) = Ok 2 \<and>
   map id (take 2 [[3], [4], [5]]) = drop (unat (1 :: u64)) [[2], [3], [4 :: nat]]"
proof -
  have ok: "verify_extends_ledger demo_hasher id
     \<lparr>infos_proof = \<lparr>left_siblings = [[2]], right_siblings = []\<rparr>, transaction_infos = [[3], [4], [5]]\<rparr>
     3 (merkle_root demo_hasher [[2], [3], [4]]) (Some 1) = Ok 2"
  proof -
    define acc where "acc = \<lparr>frozen_subtree_roots = [[2]], num_leaves = 1, root_hash = merkle_root demo_hasher [[2]]\<rparr>"
    have "frozen demo_hasher [[2]] = [[2]]" by (simp add: frozen.simps)
    with acc_new_spec [of 1 "[[2]]" demo_hasher]
    have new: "acc_new demo_hasher [[2]] 1 = Ok acc" and "commits demo_hasher acc [[2]]"
      by (simp_all add: acc_def commits_def)
    from acc_append_spec [OF this(2), of "[[3], [4]]"] obtain acc' where
      "acc_append demo_hasher acc [[3], [4]] = (Ok acc' :: (_, anyhow) result)" "root_hash acc' = merkle_root demo_hasher [[2], [3], [4]]"
      by (auto simp: commits_def)
    with new show ?thesis by (simp add: verify_extends_ledger_def Let_def ensure_def)
  qed
  from verify_extends_ledger_no_fork [OF demo_collision_free, of 3 "[[2], [3], [4]]" id
      "\<lparr>infos_proof = \<lparr>left_siblings = [[2]], right_siblings = []\<rparr>, transaction_infos = [[3], [4], [5]]\<rparr>" 1 2] ok
  show ?thesis by simp
qed

end
