(* ===== verification/Sparse_Merkle.thy ===== *)
theory Sparse_Merkle
  imports Merkle_Accumulator
begin

text \<open>
  The sparse Merkle part of \<open>src/types/src/proof/definition.rs\<close>: proofs that a key has a value, or
  has none, in the state tree, and the proof of a left part of the tree. The bits of a key are those
  of \<open>HashValue\<close> in \<open>src/crates/aptos-crypto/src/hash.rs\<close>.

  The specification is a binary trie whose leaves carry a key and the hash of its value.
\<close>

section \<open>Model\<close>

text \<open>\<open>HashValueBitIterator\<close>: the bits of the bytes, each from its most significant bit.\<close>

definition LENGTH_IN_BITS :: nat where "LENGTH_IN_BITS = 256"

definition get_bit :: "hash_value \<Rightarrow> nat \<Rightarrow> bool" where
  "get_bit self index = bit self (8 * (31 - index div 8) + (7 - index mod 8))"

definition iter_bits :: "hash_value \<Rightarrow> bool list" where
  "iter_bits self = map (get_bit self) [0..<LENGTH_IN_BITS]"

definition common_prefix_bits_len :: "hash_value \<Rightarrow> hash_value \<Rightarrow> nat" where
  "common_prefix_bits_len self other =
     length (takeWhile (\<lambda>(x, y). x = y) (zip (iter_bits self) (iter_bits other)))"

record 'h sparse_merkle_leaf_node =
  leaf_key :: hash_value
  leaf_value_hash :: 'h

text \<open>The internal hasher and placeholder of the sparse tree, and the hash of a leaf.\<close>

record 'h sparse_hasher = "'h hasher" +
  leaf_node_hash :: "hash_value \<Rightarrow> 'h \<Rightarrow> 'h"

definition leaf_node_hash_of :: "'h sparse_hasher \<Rightarrow> 'h sparse_merkle_leaf_node \<Rightarrow> 'h" where
  "leaf_node_hash_of H leaf = leaf_node_hash H (leaf_key leaf) (leaf_value_hash leaf)"

record 'h sparse_merkle_proof =
  smp_leaf :: "'h sparse_merkle_leaf_node option"
  smp_siblings :: "'h list"

datatype 'h node_in_proof = LeafNode "'h sparse_merkle_leaf_node" | OtherNode 'h

definition node_in_proof_hash :: "'h sparse_hasher \<Rightarrow> 'h node_in_proof \<Rightarrow> 'h" where
  "node_in_proof_hash H n = (case n of LeafNode leaf \<Rightarrow> leaf_node_hash_of H leaf | OtherNode hash \<Rightarrow> hash)"

record 'h sparse_merkle_proof_ext =
  smpe_leaf :: "'h sparse_merkle_leaf_node option"
  smpe_siblings :: "'h node_in_proof list"

definition proof_from_ext :: "'h sparse_hasher \<Rightarrow> 'h sparse_merkle_proof_ext \<Rightarrow> 'h sparse_merkle_proof" where
  "proof_from_ext H proof_ext =
     \<lparr>smp_leaf = smpe_leaf proof_ext, smp_siblings = map (node_in_proof_hash H) (smpe_siblings proof_ext)\<rparr>"

definition sparse_step :: "'h sparse_hasher \<Rightarrow> 'h \<times> bool \<Rightarrow> 'h \<Rightarrow> 'h" where
  "sparse_step H = (\<lambda>(sibling_hash, b) hash.
     if b then node_hash H sibling_hash hash else node_hash H hash sibling_hash)"

text \<open>The overflow-checked subtraction of two lengths.\<close>

definition sub_len :: "nat \<Rightarrow> nat \<Rightarrow> (nat, 'e) result" where
  "sub_len x y = (if y \<le> x then Ok (x - y) else Panic)"

definition verify_by_hash ::
  "'h sparse_hasher \<Rightarrow> 'h sparse_merkle_proof \<Rightarrow> 'h \<Rightarrow> hash_value \<Rightarrow> 'h option \<Rightarrow> (unit, anyhow) result" where
  "verify_by_hash H self expected_root_hash element_key element_hash =
     and_then (ensure (length (smp_siblings self) \<le> LENGTH_IN_BITS)
       (Msg ''Sparse Merkle Tree proof has more than 256 siblings.'')) (\<lambda>_.
     and_then
       (case (element_hash, smp_leaf self) of
          (Some hash, Some leaf) \<Rightarrow>
            and_then (ensure (element_key = leaf_key leaf) (Msg ''Keys do not match.'')) (\<lambda>_.
            ensure (hash = leaf_value_hash leaf) (Msg ''Value hashes do not match.''))
        | (Some hash, None) \<Rightarrow> Err (Msg ''Expected inclusion proof. Found non-inclusion proof.'')
        | (None, Some leaf) \<Rightarrow>
            and_then (ensure (element_key \<noteq> leaf_key leaf)
              (Msg ''Expected non-inclusion proof, but key exists in proof.'')) (\<lambda>_.
            ensure (common_prefix_bits_len element_key (leaf_key leaf) \<ge> length (smp_siblings self))
              (Msg ''Key would not have ended up in the subtree.''))
        | (None, None) \<Rightarrow> Ok ()) (\<lambda>_.
     let current_hash = (case smp_leaf self of None \<Rightarrow> placeholder H | Some leaf \<Rightarrow> leaf_node_hash_of H leaf) in
     and_then (sub_len LENGTH_IN_BITS (length (smp_siblings self))) (\<lambda>skip.
     let actual_root_hash = fold (sparse_step H)
           (zip (smp_siblings self) (drop skip (rev (iter_bits element_key)))) current_hash
     in ensure (actual_root_hash = expected_root_hash) (Msg ''Root hashes do not match.''))))"

text \<open>\<open>verify\<close> hashes the value first; \<open>value_hash\<close> is the hash of a value.\<close>

definition sparse_verify ::
  "'h sparse_hasher \<Rightarrow> ('v \<Rightarrow> 'h) \<Rightarrow> 'h sparse_merkle_proof \<Rightarrow> 'h \<Rightarrow> hash_value \<Rightarrow> 'v option \<Rightarrow> (unit, anyhow) result" where
  "sparse_verify H value_hash self expected_root_hash element_key element_value =
     verify_by_hash H self expected_root_hash element_key (map_option value_hash element_value)"

definition ext_verify_by_hash ::
  "'h sparse_hasher \<Rightarrow> 'h sparse_merkle_proof_ext \<Rightarrow> 'h \<Rightarrow> hash_value \<Rightarrow> 'h option \<Rightarrow> (unit, anyhow) result" where
  "ext_verify_by_hash H self expected_root_hash element_key element_hash =
     verify_by_hash H (proof_from_ext H self) expected_root_hash element_key element_hash"

definition ext_verify ::
  "'h sparse_hasher \<Rightarrow> ('v \<Rightarrow> 'h) \<Rightarrow> 'h sparse_merkle_proof_ext \<Rightarrow> 'h \<Rightarrow> hash_value \<Rightarrow> 'v option \<Rightarrow> (unit, anyhow) result" where
  "ext_verify H value_hash self expected_root_hash element_key element_value =
     sparse_verify H value_hash (proof_from_ext H self) expected_root_hash element_key element_value"

text \<open>The proof of the left part of the tree, up to the last known leaf.\<close>

record 'h sparse_merkle_range_proof =
  smr_right_siblings :: "'h list"

fun sparse_range_loop ::
  "'h sparse_hasher \<Rightarrow> bool list \<Rightarrow> 'h list \<Rightarrow> 'h list \<Rightarrow> 'h \<Rightarrow> ('h, anyhow) result" where
  "sparse_range_loop H [] lefts rights current_hash = Ok current_hash"
| "sparse_range_loop H (b # bs) lefts rights current_hash =
     (if b then
        case lefts of
          [] \<Rightarrow> Err (Msg ''Missing left sibling.'')
        | left_hash # lefts \<Rightarrow> sparse_range_loop H bs lefts rights (node_hash H left_hash current_hash)
      else
        case rights of
          [] \<Rightarrow> Err (Msg ''Missing right sibling.'')
        | right_hash # rights \<Rightarrow> sparse_range_loop H bs lefts rights (node_hash H current_hash right_hash))"

definition sparse_range_verify ::
  "'h sparse_hasher \<Rightarrow> 'h sparse_merkle_range_proof \<Rightarrow> 'h \<Rightarrow> 'h sparse_merkle_leaf_node \<Rightarrow> 'h list \<Rightarrow> (unit, anyhow) result" where
  "sparse_range_verify H self expected_root_hash rightmost_known_leaf left_siblings =
     (let num_siblings = length left_siblings + length (smr_right_siblings self) in
      and_then (sub_len LENGTH_IN_BITS num_siblings) (\<lambda>skip.
      and_then (sparse_range_loop H
        (drop skip (rev (iter_bits (leaf_key rightmost_known_leaf))))
        left_siblings (smr_right_siblings self) (leaf_node_hash_of H rightmost_known_leaf)) (\<lambda>current_hash.
      ensure (current_hash = expected_root_hash) (Msg ''Root hashes do not match.''))))"

section \<open>Specification\<close>

datatype 'h trie = Empty | Leaf hash_value 'h | Branch "'h trie" "'h trie"

primrec trie_hash :: "'h sparse_hasher \<Rightarrow> 'h trie \<Rightarrow> 'h" where
  "trie_hash H Empty = placeholder H"
| "trie_hash H (Leaf k v) = leaf_node_hash H k v"
| "trie_hash H (Branch l r) = node_hash H (trie_hash H l) (trie_hash H r)"

text \<open>The subtree where the search for a key ends, and the siblings on its way from the root.\<close>

fun search :: "'h trie \<Rightarrow> bool list \<Rightarrow> 'h trie" where
  "search (Branch l r) (b # bs) = search (if b then r else l) bs"
| "search t bs = t"

fun search_siblings :: "'h sparse_hasher \<Rightarrow> 'h trie \<Rightarrow> bool list \<Rightarrow> 'h list" where
  "search_siblings H (Branch l r) (b # bs) =
     (if b then trie_hash H l # search_siblings H r bs else trie_hash H r # search_siblings H l bs)"
| "search_siblings H t bs = []"

definition trie_lookup :: "'h trie \<Rightarrow> hash_value \<Rightarrow> 'h option" where
  "trie_lookup t k = (case search t (iter_bits k) of Leaf k' v \<Rightarrow> if k' = k then Some v else None | _ \<Rightarrow> None)"

text \<open>Every leaf is where the bits of its key lead, and no path is longer than a key.\<close>

primrec trie_wf :: "bool list \<Rightarrow> 'h trie \<Rightarrow> bool" where
  "trie_wf path Empty \<longleftrightarrow> length path \<le> LENGTH_IN_BITS"
| "trie_wf path (Leaf k v) \<longleftrightarrow> length path \<le> LENGTH_IN_BITS \<and> take (length path) (iter_bits k) = path"
| "trie_wf path (Branch l r) \<longleftrightarrow> trie_wf (path @ [False]) l \<and> trie_wf (path @ [True]) r"

definition search_proof :: "'h sparse_hasher \<Rightarrow> 'h trie \<Rightarrow> hash_value \<Rightarrow> 'h sparse_merkle_proof" where
  "search_proof H t k =
     \<lparr>smp_leaf = (case search t (iter_bits k) of Leaf k' v \<Rightarrow> Some \<lparr>leaf_key = k', leaf_value_hash = v\<rparr> | _ \<Rightarrow> None),
      smp_siblings = rev (search_siblings H t (iter_bits k))\<rparr>"

text \<open>The hashes of the subtrees to the left and to the right of the path to a key, from the bottom up.\<close>

definition side_hashes :: "bool \<Rightarrow> ('h \<times> bool) list \<Rightarrow> 'h list" where
  "side_hashes b ps = map fst (filter (\<lambda>p. snd p = b) ps)"

definition left_hashes :: "'h sparse_hasher \<Rightarrow> 'h trie \<Rightarrow> hash_value \<Rightarrow> 'h list" where
  "left_hashes H t k = rev (side_hashes True (zip (search_siblings H t (iter_bits k)) (iter_bits k)))"

definition right_hashes :: "'h sparse_hasher \<Rightarrow> 'h trie \<Rightarrow> hash_value \<Rightarrow> 'h list" where
  "right_hashes H t k = rev (side_hashes False (zip (search_siblings H t (iter_bits k)) (iter_bits k)))"

text \<open>Node hashes, leaf hashes and the placeholder never collide.\<close>

definition sparse_collision_free :: "'h sparse_hasher \<Rightarrow> bool" where
  "sparse_collision_free H \<longleftrightarrow>
     (\<forall>a b c d. node_hash H a b = node_hash H c d \<longrightarrow> a = c \<and> b = d) \<and>
     (\<forall>k v k' v'. leaf_node_hash H k v = leaf_node_hash H k' v' \<longrightarrow> k = k' \<and> v = v') \<and>
     (\<forall>a b k v. node_hash H a b \<noteq> placeholder H \<and> leaf_node_hash H k v \<noteq> placeholder H \<and>
        node_hash H a b \<noteq> leaf_node_hash H k v)"

section \<open>The path of a proof\<close>

lemma length_iter_bits [simp]: "length (iter_bits k) = LENGTH_IN_BITS"
  by (simp add: iter_bits_def)

primrec path_hash :: "'h sparse_hasher \<Rightarrow> (('h \<times> bool) list) \<Rightarrow> 'h \<Rightarrow> 'h" where
  "path_hash H [] e = e"
| "path_hash H (p # ps) e = sparse_step H p (path_hash H ps e)"

lemma fold_path: "fold (sparse_step H) (rev ps) e = path_hash H ps e"
  by (induction ps) simp_all

text \<open>The bits that a proof with \<open>ss\<close> siblings uses are the first ones of the key.\<close>

lemma proof_bits:
  assumes "length ss \<le> length bs"
  shows "zip (rev ss) (drop (length bs - length ss) (rev bs)) = rev (zip ss (take (length ss) bs))"
  using assms by (simp add: rev_take [symmetric] zip_rev)

lemma sparse_node_eq:
  assumes "sparse_collision_free H"
  shows "node_hash H a b = node_hash H c d \<longleftrightarrow> a = c \<and> b = d"
    and "leaf_node_hash H k v = leaf_node_hash H k' v' \<longleftrightarrow> k = k' \<and> v = v'"
  using assms unfolding sparse_collision_free_def by blast+

lemma sparse_node_neq:
  assumes "sparse_collision_free H"
  shows "node_hash H a b \<noteq> placeholder H" "placeholder H \<noteq> node_hash H a b"
    "leaf_node_hash H k v \<noteq> placeholder H" "placeholder H \<noteq> leaf_node_hash H k v"
    "node_hash H a b \<noteq> leaf_node_hash H k v" "leaf_node_hash H k v \<noteq> node_hash H a b"
  using assms unfolding sparse_collision_free_def by metis+

text \<open>A path that hashes to a trie ends where the search of its bits ends, and has the siblings of that search.\<close>

lemma path_search:
  assumes "sparse_collision_free H" and e: "\<And>a b. e \<noteq> node_hash H a b"
  shows "path_hash H (zip ss bs) e = trie_hash H t \<Longrightarrow> length ss \<le> length bs \<Longrightarrow>
    e = trie_hash H (search t bs) \<and> ss = search_siblings H t bs"
proof (induction t arbitrary: ss bs)
  case (Branch l r)
  show ?case
  proof (cases ss)
    case Nil
    with Branch.prems(1) e show ?thesis by simp
  next
    case (Cons s ss')
    then obtain b bs' where bs: "bs = b # bs'" using Branch.prems(2) by (cases bs) auto
    show ?thesis
    proof (cases b)
      case True
      with Branch.prems Cons bs Branch.IH(2) [of ss' bs'] show ?thesis
        by (simp add: sparse_step_def sparse_node_eq(1) [OF assms(1)])
    next
      case False
      with Branch.prems Cons bs Branch.IH(1) [of ss' bs'] show ?thesis
        by (simp add: sparse_step_def sparse_node_eq(1) [OF assms(1)])
    qed
  qed
next
  case Empty
  then have "ss = []"
    by (cases ss; cases bs) (auto simp: sparse_step_def sparse_node_neq [OF assms(1)] split: if_splits)
  with Empty show ?case by simp
next
  case (Leaf k v)
  then have "ss = []"
    by (cases ss; cases bs) (auto simp: sparse_step_def sparse_node_neq [OF assms(1)] split: if_splits)
  with Leaf show ?case by simp
qed

lemma search_path: "path_hash H (zip (search_siblings H t bs) bs) (trie_hash H (search t bs)) = trie_hash H t"
  by (induction H t bs rule: search_siblings.induct) (auto simp: sparse_step_def)

lemma search_siblings_length: "length (search_siblings H t bs) \<le> length bs"
  by (induction H t bs rule: search_siblings.induct) auto

text \<open>In a well-formed trie the search ends in a leaf or in nothing, and the leaf shares the path.\<close>

lemma search_wf:
  assumes "trie_wf path t" and "length path + length bs = LENGTH_IN_BITS"
  shows "\<exists>path'. trie_wf path' (search t bs) \<and> path' = path @ take (length (search_siblings H t bs)) bs \<and>
    (\<forall>l r. search t bs \<noteq> Branch l r)"
  using assms
proof (induction t arbitrary: path bs)
  case (Branch l r)
  have deep: "trie_wf p t \<Longrightarrow> length p \<le> LENGTH_IN_BITS" for p and t :: "'a trie"
    by (induction t arbitrary: p) (auto, fastforce)
  show ?case
  proof (cases bs)
    case Nil
    with Branch.prems deep [of "path @ [False]" l] show ?thesis by simp
  next
    case (Cons b bs')
    with Branch show ?thesis by (cases b) force+
  qed
qed auto

section \<open>Properties\<close>

lemma verify_root:
  assumes "verify_by_hash H prf root k vh = Ok ()"
  shows "length (smp_siblings prf) \<le> LENGTH_IN_BITS \<and>
    path_hash H (zip (rev (smp_siblings prf)) (iter_bits k))
      (case smp_leaf prf of None \<Rightarrow> placeholder H | Some leaf \<Rightarrow> leaf_node_hash_of H leaf) = root"
proof -
  define ss where "ss = rev (smp_siblings prf)"
  from assms have len: "length ss \<le> length (iter_bits k)"
    by (simp add: verify_by_hash_def and_then_eq_Ok ensure_eq_Ok ss_def)
  have "zip ss (take (length ss) (iter_bits k)) = zip ss (iter_bits k)" 
    by (rule nth_equalityI) simp_all
  with assms proof_bits [OF len] show ?thesis
    by (auto simp: verify_by_hash_def and_then_eq_Ok ensure_eq_Ok Let_def ss_def fold_path sub_len_def)
qed

lemma common_prefix:
  assumes "take n (iter_bits k) = take n (iter_bits k')" and "n \<le> LENGTH_IN_BITS"
  shows "n \<le> common_prefix_bits_len k k'"
proof -
  have "iter_bits k ! i = iter_bits k' ! i" if "i < n" for i
    using assms(1) that by (metis nth_take)
  then show ?thesis
    unfolding common_prefix_bits_len_def
    by (intro length_takeWhile_less_P_nth) (use assms(2) in auto)
qed

text \<open>
  \<^bold>\<open>C9.\<close> State proofs are sound and complete. Against the root hash of a well-formed trie there is a proof
  that key \<open>k\<close> has the value hash \<open>vh\<close> (or, for \<open>None\<close>, that it is absent) exactly if the trie says so.
  No proof, however it was made, shows a wrong value, a value for an absent key, or the absence of a present one.
\<close>

theorem sparse_proof_exact:
  assumes "trie_wf [] t" and "sparse_collision_free H"
  shows "(\<exists>prf. verify_by_hash H prf (trie_hash H t) k vh = Ok ()) \<longleftrightarrow> trie_lookup t k = vh"
proof
  assume "\<exists>prf. verify_by_hash H prf (trie_hash H t) k vh = Ok ()"
  then obtain p where ok: "verify_by_hash H p (trie_hash H t) k vh = Ok ()" ..
  define e where "e = (case smp_leaf p of None \<Rightarrow> placeholder H | Some leaf \<Rightarrow> leaf_node_hash_of H leaf)"
  have "e \<noteq> node_hash H a b" for a b
    by (simp add: e_def leaf_node_hash_of_def sparse_node_neq [OF assms(2)] split: option.split)
  with verify_root [OF ok] path_search [OF assms(2), of e "rev (smp_siblings p)" "iter_bits k" t]
  have e: "e = trie_hash H (search t (iter_bits k))" by (simp add: e_def)
  show "trie_lookup t k = vh"
  proof (cases "smp_leaf p")
    case None
    with ok have "vh = None" by (cases vh) (auto simp: verify_by_hash_def and_then_eq_Ok)
    with None e show ?thesis
      by (cases "search t (iter_bits k)") (simp_all add: e_def trie_lookup_def sparse_node_neq [OF assms(2)])
  next
    case (Some leaf)
    with e have "search t (iter_bits k) = Leaf (leaf_key leaf) (leaf_value_hash leaf)"
      by (cases "search t (iter_bits k)")
        (auto simp: e_def leaf_node_hash_of_def sparse_node_neq [OF assms(2)] sparse_node_eq [OF assms(2)])
    with ok Some show ?thesis
      by (cases vh) (auto simp: verify_by_hash_def and_then_eq_Ok ensure_eq_Ok trie_lookup_def)
  qed
next
  assume vh: "trie_lookup t k = vh"
  define bs where "bs = iter_bits k"
  define n where "n = length (search_siblings H t bs)"
  have n: "n \<le> LENGTH_IN_BITS" using search_siblings_length [of H t bs] by (simp add: n_def bs_def)
  from search_wf [OF assms(1), of bs H] have wf: "trie_wf (take n bs) (search t bs)"
    and leaf: "\<forall>l r. search t bs \<noteq> Branch l r" by (auto simp: bs_def n_def)
  have "zip (search_siblings H t bs) (take n bs) = zip (search_siblings H t bs) bs"
    by (rule nth_equalityI) (simp_all add: n_def)
  then have root: "fold (sparse_step H)
      (zip (rev (search_siblings H t bs)) (drop (LENGTH_IN_BITS - n) (rev bs))) (trie_hash H (search t bs)) = trie_hash H t"
    using proof_bits [of "search_siblings H t bs" bs] search_siblings_length [of H t bs] search_path [of H t bs]
    by (simp add: n_def fold_path bs_def)
  have "verify_by_hash H (search_proof H t k) (trie_hash H t) k vh = Ok ()"
  proof (cases "search t bs")
    case Empty
    with vh root n show ?thesis
      by (auto simp: verify_by_hash_def search_proof_def trie_lookup_def bs_def [symmetric] n_def [symmetric] ensure_def Let_def
          sub_len_def)
  next
    case (Leaf k' v)
    with wf n have "n \<le> common_prefix_bits_len k k'"
      by (intro common_prefix) (auto simp: bs_def min_absorb2)
    with Leaf vh root n show ?thesis
      by (cases "k' = k") (auto simp: verify_by_hash_def search_proof_def trie_lookup_def bs_def [symmetric]
          n_def [symmetric] ensure_def Let_def sub_len_def leaf_node_hash_of_def)
  qed (use leaf in blast)
  then show "\<exists>prf. verify_by_hash H prf (trie_hash H t) k vh = Ok ()" ..
qed

definition demo_sparse :: "nat list sparse_hasher" where
  "demo_sparse = \<lparr>node_hash = \<lambda>a b. 1 # length a # a @ b, placeholder = [0],
     leaf_node_hash = \<lambda>k v. 2 # unat k # v\<rparr>"

lemma demo_sparse_free: "sparse_collision_free demo_sparse"
  by (auto simp: sparse_collision_free_def demo_sparse_def word_unat_eq_iff)

lemma zero_bits: "iter_bits 0 = replicate LENGTH_IN_BITS False"
  by (rule nth_equalityI) (simp_all add: iter_bits_def get_bit_def)

theorem sparse_proof_exact_witness:
  "trie_wf [] (Branch (Leaf 0 [7 :: nat]) Empty) \<and>
   (\<exists>pr. verify_by_hash demo_sparse pr (trie_hash demo_sparse (Branch (Leaf 0 [7]) Empty)) 0 (Some [7]) = Ok ()) \<and>
   \<not> (\<exists>pr. verify_by_hash demo_sparse pr (trie_hash demo_sparse (Branch (Leaf 0 [7]) Empty)) 0 None = Ok ())"
proof -
  have wf: "trie_wf [] (Branch (Leaf 0 [7 :: nat]) Empty)" by (simp add: zero_bits LENGTH_IN_BITS_def)
  have "trie_lookup (Branch (Leaf 0 [7 :: nat]) Empty) 0 = Some [7]"
    by (simp add: trie_lookup_def zero_bits LENGTH_IN_BITS_def numeral_eq_Suc)
  with wf sparse_proof_exact [OF wf demo_sparse_free, of 0 "Some [7]"] sparse_proof_exact [OF wf demo_sparse_free, of 0 None]
  show ?thesis by auto
qed

text \<open>Checking a proof of one key never panics, whatever was sent: the guard on the siblings covers the subtraction.\<close>

theorem sparse_verify_never_panics: "verify_by_hash H prf root k vh \<noteq> Panic"
  by (auto simp: verify_by_hash_def result_simps Let_def sub_len_def split: option.split)

section \<open>The left part of a tree\<close>

text \<open>The loop takes one sibling for each bit, from the left ones or from the right ones.\<close>

lemma side_hashes_Cons [simp]:
  "side_hashes b [] = []" "side_hashes b ((h, b') # ps) = (if b' = b then h # side_hashes b ps else side_hashes b ps)"
  by (simp_all add: side_hashes_def)

lemma range_loop_Ok:
  "sparse_range_loop H bs lefts rights c = Ok h \<longleftrightarrow>
     (\<exists>ss. length ss = length bs \<and> (\<exists>lefts' rights'. lefts = side_hashes True (zip ss bs) @ lefts' \<and>
        rights = side_hashes False (zip ss bs) @ rights') \<and> h = fold (sparse_step H) (zip ss bs) c)"
proof (induction bs arbitrary: lefts rights c)
  case (Cons b bs)
  have split: "(\<exists>ss. length ss = length (b # bs) \<and> P ss) \<longleftrightarrow> (\<exists>s ss. length ss = length bs \<and> P (s # ss))" for P :: "'a list \<Rightarrow> bool"
    unfolding length_Cons length_Suc_conv by blast
  show ?case
  proof (cases b)
    case True
    show ?thesis unfolding split by (cases lefts) (use True in \<open>auto simp: Cons.IH sparse_step_def [of H] Cons_eq_append_conv\<close>)
  next
    case False
    show ?thesis unfolding split by (cases rights) (use False in \<open>auto simp: Cons.IH sparse_step_def [of H] Cons_eq_append_conv\<close>)
  qed
qed auto

lemma side_hashes_length: "length (side_hashes True ps) + length (side_hashes False ps) = length ps"
  by (induction ps) auto

lemma zip_take_length: "zip ss (take (length ss) bs) = zip ss bs"
  by (rule nth_equalityI) simp_all

lemma side_hashes_rev: "side_hashes b (rev ps) = rev (side_hashes b ps)"
  by (simp add: side_hashes_def rev_filter rev_map)

lemma range_verify_Ok:
  "sparse_range_verify H rprf root leaf lefts = Ok () \<longleftrightarrow>
     (\<exists>ss. length ss \<le> LENGTH_IN_BITS \<and>
        lefts = rev (side_hashes True (zip ss (iter_bits (leaf_key leaf)))) \<and>
        smr_right_siblings rprf = rev (side_hashes False (zip ss (iter_bits (leaf_key leaf)))) \<and>
        path_hash H (zip ss (iter_bits (leaf_key leaf))) (leaf_node_hash_of H leaf) = root)"
    (is "?ok \<longleftrightarrow> (\<exists>ss. ?proof ss)")
proof -
  let ?bs = "iter_bits (leaf_key leaf)" and ?rights = "smr_right_siblings rprf"
  let ?n = "length lefts + length (smr_right_siblings rprf)" and ?e = "leaf_node_hash_of H leaf"
  let ?loop = "sparse_range_loop H (drop (LENGTH_IN_BITS - ?n) (rev ?bs)) lefts ?rights ?e"
  have sides: "length lefts + length ?rights = length ss"
    if "lefts = rev (side_hashes True (zip ss ?bs))" "?rights = rev (side_hashes False (zip ss ?bs))"
      "length ss \<le> LENGTH_IN_BITS" for ss
    using that side_hashes_length [of "zip ss ?bs"] by simp
  have "?ok \<longleftrightarrow> ?n \<le> LENGTH_IN_BITS \<and> ?loop = Ok root"
    by (auto simp: sparse_range_verify_def sub_len_def and_then_eq_Ok ensure_eq_Ok Let_def)
  also have "\<dots> \<longleftrightarrow> (\<exists>ss. ?proof ss)"
  proof
    assume loop: "?n \<le> LENGTH_IN_BITS \<and> ?loop = Ok root"
    define us where "us = drop (LENGTH_IN_BITS - ?n) (rev ?bs)"
    have len: "length us = ?n" using loop by (simp add: us_def)
    from loop have "sparse_range_loop H us lefts ?rights ?e = Ok root" by (simp add: us_def)
    then obtain ss lefts' rights' where ss: "length ss = length us" "lefts = side_hashes True (zip ss us) @ lefts'"
      "?rights = side_hashes False (zip ss us) @ rights'" "root = fold (sparse_step H) (zip ss us) ?e"
      unfolding range_loop_Ok by blast
    have "length (side_hashes True (zip ss us)) + length (side_hashes False (zip ss us)) = ?n"
      using side_hashes_length [of "zip ss us"] ss(1) len by simp
    moreover have "length lefts = length (side_hashes True (zip ss us)) + length lefts'"
      by (subst ss(2)) simp
    moreover have "length ?rights = length (side_hashes False (zip ss us)) + length rights'"
      by (subst ss(3)) simp
    ultimately have rest: "lefts' = []" "rights' = []" by simp_all
    have zip: "zip ss us = rev (zip (rev ss) ?bs)"
      using proof_bits [of "rev ss" ?bs, unfolded zip_take_length] ss(1) len loop by (simp add: us_def)
    have "?proof (rev ss)"
      using ss rest len loop by (simp add: zip side_hashes_rev fold_path)
    then show "\<exists>ss. ?proof ss" ..
  next
    assume "\<exists>ss. ?proof ss"
    then obtain ss where len: "length ss \<le> LENGTH_IN_BITS" and lefts: "lefts = rev (side_hashes True (zip ss ?bs))"
      and rights: "?rights = rev (side_hashes False (zip ss ?bs))" and root: "path_hash H (zip ss ?bs) ?e = root" by blast
    have n: "?n = length ss" by (rule sides [OF lefts rights len])
    define us where "us = drop (LENGTH_IN_BITS - length ss) (rev ?bs)"
    have zip: "zip (rev ss) us = rev (zip ss ?bs)"
      using proof_bits [of ss ?bs, unfolded zip_take_length] len by (simp add: us_def)
    have "lefts = side_hashes True (zip (rev ss) us) @ []" "?rights = side_hashes False (zip (rev ss) us) @ []"
      unfolding zip side_hashes_rev append_Nil2 by (rule lefts, rule rights)
    moreover have "root = fold (sparse_step H) (zip (rev ss) us) ?e" unfolding zip fold_path by (rule root [symmetric])
    moreover have "length (rev ss) = length us" using len by (simp add: us_def)
    ultimately have "sparse_range_loop H us lefts ?rights ?e = Ok root" unfolding range_loop_Ok by blast
    then show "?n \<le> LENGTH_IN_BITS \<and> ?loop = Ok root" unfolding n us_def using len by blast
  qed
  finally show ?thesis .
qed

text \<open>
  \<^bold>\<open>C26.\<close> The proof of the left part of a tree is exact. Against the root hash of a trie it is accepted exactly if the
  trie has the last known leaf, the caller's siblings are the hashes of the subtrees left of the path to it, and the
  siblings of the proof those of the subtrees right of it, each from the bottom up: a sender can neither change the part
  that was already received nor hide a subtree. The check panics exactly if the siblings are together more than the bits
  of a key.
\<close>

theorem sparse_range_proof_exact:
  assumes "sparse_collision_free H"
  shows "(sparse_range_verify H rprf (trie_hash H t) leaf lefts = Ok () \<longleftrightarrow>
      trie_lookup t (leaf_key leaf) = Some (leaf_value_hash leaf) \<and>
      lefts = left_hashes H t (leaf_key leaf) \<and> smr_right_siblings rprf = right_hashes H t (leaf_key leaf)) \<and>
    (sparse_range_verify H rprf root leaf lefts = Panic \<longleftrightarrow>
      LENGTH_IN_BITS < length lefts + length (smr_right_siblings rprf))"
proof -
  let ?bs = "iter_bits (leaf_key leaf)" and ?e = "leaf_node_hash_of H leaf"
  have e: "?e \<noteq> node_hash H a b" for a b by (simp add: leaf_node_hash_of_def sparse_node_neq [OF assms])
  have found: "?e = trie_hash H (search t ?bs) \<longleftrightarrow> trie_lookup t (leaf_key leaf) = Some (leaf_value_hash leaf)"
    by (cases "search t ?bs")
      (auto simp: leaf_node_hash_of_def trie_lookup_def sparse_node_neq [OF assms] sparse_node_eq [OF assms])
  have path: "length ss \<le> LENGTH_IN_BITS \<and> path_hash H (zip ss ?bs) ?e = trie_hash H t \<longleftrightarrow>
      ss = search_siblings H t ?bs \<and> trie_lookup t (leaf_key leaf) = Some (leaf_value_hash leaf)" for ss
  proof
    assume "length ss \<le> LENGTH_IN_BITS \<and> path_hash H (zip ss ?bs) ?e = trie_hash H t"
    then have "?e = trie_hash H (search t ?bs) \<and> ss = search_siblings H t ?bs"
      by (intro path_search [OF assms e]) simp_all
    with found show "ss = search_siblings H t ?bs \<and> trie_lookup t (leaf_key leaf) = Some (leaf_value_hash leaf)" by blast
  next
    assume "ss = search_siblings H t ?bs \<and> trie_lookup t (leaf_key leaf) = Some (leaf_value_hash leaf)"
    then have ss: "ss = search_siblings H t ?bs" and "?e = trie_hash H (search t ?bs)" using found by blast+
    moreover have "length ss \<le> LENGTH_IN_BITS" unfolding ss using search_siblings_length [of H t ?bs] by simp
    ultimately show "length ss \<le> LENGTH_IN_BITS \<and> path_hash H (zip ss ?bs) ?e = trie_hash H t"
      using search_path [of H t ?bs] by metis
  qed
  have "sparse_range_loop H bs ls rs c \<noteq> Panic" for bs ls rs c
    by (induction H bs ls rs c rule: sparse_range_loop.induct) (auto split: list.split)
  then have "sparse_range_verify H rprf root leaf lefts = Panic \<longleftrightarrow>
      LENGTH_IN_BITS < length lefts + length (smr_right_siblings rprf)"
    by (auto simp: sparse_range_verify_def sub_len_def result_simps Let_def)
  then show ?thesis
    unfolding range_verify_Ok left_hashes_def right_hashes_def using path by metis
qed

theorem sparse_range_proof_exact_witness:
  "sparse_range_verify demo_sparse \<lparr>smr_right_siblings = [[0]]\<rparr> (trie_hash demo_sparse (Branch (Leaf 0 [7 :: nat]) Empty))
     \<lparr>leaf_key = 0, leaf_value_hash = [7]\<rparr> [] = Ok ()"
proof -
  let ?t = "Branch (Leaf 0 [7 :: nat]) Empty"
  have bits: "iter_bits 0 = False # replicate 255 False" by (simp add: zero_bits LENGTH_IN_BITS_def numeral_eq_Suc)
  have "trie_lookup ?t 0 = Some [7]" "left_hashes demo_sparse ?t 0 = []" "right_hashes demo_sparse ?t 0 = [[0]]"
    by (simp_all add: trie_lookup_def left_hashes_def right_hashes_def side_hashes_def bits) (simp add: demo_sparse_def)
  with sparse_range_proof_exact [OF demo_sparse_free, of "\<lparr>smr_right_siblings = [[0]]\<rparr>" ?t "\<lparr>leaf_key = 0, leaf_value_hash = [7]\<rparr>" "[]"]
  show ?thesis by simp
qed

end
