(* ===== verification/Epoch_Change.thy ===== *)
theory Epoch_Change
  imports Merkle_Accumulator
begin

text \<open>
  \<open>src/types/src/epoch_change.rs\<close>, \<open>waypoint.rs\<close>, \<open>epoch_state.rs\<close>, \<open>trusted_state.rs\<close> and
  \<open>state_proof.rs\<close>: how a light client moves its trusted view of the chain forward. The Rust trait
  \<open>Verifier\<close> has three implementations; a \<open>&dyn Verifier\<close> is the record of its three methods, and
  the locale \<open>verifier_iface\<close> holds what every implementation promises.
\<close>

section \<open>Model\<close>

record verifier_dyn =
  dyn_verify :: "ledger_info_with_signatures \<Rightarrow> (unit, anyhow) result"
  dyn_epoch_change_verification_required :: "u64 \<Rightarrow> bool"
  dyn_is_ledger_info_stale :: "ledger_info \<Rightarrow> bool"

subsection \<open>Waypoints\<close>

record waypoint =
  wp_version :: version
  wp_value :: hash_value

definition converter_new :: "ledger_info \<Rightarrow> waypoint_converter" where
  "converter_new li =
     \<lparr>wc_epoch = li_epoch li, wc_root_hash = transaction_accumulator_hash li, wc_version = li_version li,
      wc_timestamp_usecs = bi_timestamp_usecs (commit_info li), wc_next_epoch_state = li_next_epoch_state li\<rparr>"

definition new_any :: "'c ledger_crypto_scheme \<Rightarrow> ledger_info \<Rightarrow> waypoint" where
  "new_any C li = \<lparr>wp_version = li_version li, wp_value = waypoint_hash C (converter_new li)\<rparr>"

definition new_epoch_boundary :: "'c ledger_crypto_scheme \<Rightarrow> ledger_info \<Rightarrow> (waypoint, anyhow) result" where
  "new_epoch_boundary C li = and_then (ensure (ends_epoch li) (Msg ''No validator set'')) (\<lambda>_. Ok (new_any C li))"

definition wp_verify :: "'c ledger_crypto_scheme \<Rightarrow> waypoint \<Rightarrow> ledger_info \<Rightarrow> (unit, anyhow) result" where
  "wp_verify C self li =
     and_then (ensure (li_version li = wp_version self) (Msg ''Waypoint version mismatch'')) (\<lambda>_.
     ensure (waypoint_hash C (converter_new li) = wp_value self) (Msg ''Waypoint value mismatch''))"

definition waypoint_dyn :: "'c ledger_crypto_scheme \<Rightarrow> waypoint \<Rightarrow> verifier_dyn" where
  "waypoint_dyn C self =
     \<lparr>dyn_verify = \<lambda>lis. wp_verify C self (lis_ledger_info lis),
      dyn_epoch_change_verification_required = \<lambda>_. True,
      dyn_is_ledger_info_stale = \<lambda>li. li_version li < wp_version self\<rparr>"

subsection \<open>Epoch states\<close>

definition es_verify ::
  "'c ledger_crypto_scheme \<Rightarrow> epoch_state \<Rightarrow> ledger_info_with_signatures \<Rightarrow> (unit, anyhow) result" where
  "es_verify C self lis =
     and_then (ensure (es_epoch self = li_epoch (lis_ledger_info lis)) (Msg ''LedgerInfo has unexpected epoch'')) (\<lambda>_.
     map_err FromVerify (lis_verify_signatures C lis (es_verifier self)))"

definition epoch_state_dyn :: "'c ledger_crypto_scheme \<Rightarrow> epoch_state \<Rightarrow> verifier_dyn" where
  "epoch_state_dyn C self =
     \<lparr>dyn_verify = es_verify C self,
      dyn_epoch_change_verification_required = \<lambda>e. es_epoch self < e,
      dyn_is_ledger_info_stale = \<lambda>li. li_epoch li < es_epoch self\<rparr>"

subsection \<open>Epoch change proofs\<close>

record epoch_change_proof =
  ledger_info_with_sigs :: "ledger_info_with_signatures list"
  more_changes :: bool

definition ecp_epoch :: "epoch_change_proof \<Rightarrow> (u64, anyhow) result" where
  "ecp_epoch self =
     (case ledger_info_with_sigs self of
        [] \<Rightarrow> Err (Msg ''Empty EpochChangeProof'')
      | lis # _ \<Rightarrow> Ok (li_epoch (lis_ledger_info lis)))"

fun verify_changes ::
  "'c ledger_crypto_scheme \<Rightarrow> verifier_dyn \<Rightarrow> ledger_info_with_signatures list \<Rightarrow> (unit, anyhow) result" where
  "verify_changes C verifier_ref [] = Ok ()"
| "verify_changes C verifier_ref (lis # rest) =
     and_then (dyn_verify verifier_ref lis) (\<lambda>_.
     and_then (ok_or (Msg ''LedgerInfo does not carry a ValidatorSet'') (li_next_epoch_state (lis_ledger_info lis))) (\<lambda>next.
     verify_changes C (epoch_state_dyn C next) rest))"

definition ecp_verify ::
  "'c ledger_crypto_scheme \<Rightarrow> epoch_change_proof \<Rightarrow> verifier_dyn \<Rightarrow> (ledger_info_with_signatures, anyhow) result" where
  "ecp_verify C self verifier =
     (let infos = ledger_info_with_sigs self in
      and_then (ensure (infos \<noteq> []) (Msg ''The EpochChangeProof is empty'')) (\<lambda>_.
      and_then (ensure (\<not> dyn_is_ledger_info_stale verifier (lis_ledger_info (last infos)))
        (Msg ''The EpochChangeProof is stale'')) (\<lambda>_.
      and_then (verify_changes C verifier
        (dropWhile (\<lambda>lis. dyn_is_ledger_info_stale verifier (lis_ledger_info lis)) infos)) (\<lambda>_.
      Ok (last infos)))))"

subsection \<open>Trusted states\<close>

datatype trusted_state = EpochWaypoint waypoint | EpochState waypoint epoch_state

datatype trusted_state_change =
  VersionChange trusted_state | EpochChange trusted_state ledger_info_with_signatures | NoChange

record state_proof =
  latest_li_w_sigs :: ledger_info_with_signatures
  epoch_changes :: epoch_change_proof

definition from_epoch_waypoint :: "waypoint \<Rightarrow> trusted_state" where
  "from_epoch_waypoint epoch_waypoint = EpochWaypoint epoch_waypoint"

definition try_from_epoch_change_li ::
  "'c ledger_crypto_scheme \<Rightarrow> ledger_info \<Rightarrow> hash_value in_memory_accumulator \<Rightarrow> (trusted_state, anyhow) result" where
  "try_from_epoch_change_li C epoch_change_li accumulator =
     and_then (verify_consistency accumulator epoch_change_li) (\<lambda>_.
     and_then (ok_or (Msg ''No EpochState in LedgerInfo; it must not be on an epoch boundary'')
       (li_next_epoch_state epoch_change_li)) (\<lambda>e.
     and_then (new_epoch_boundary C epoch_change_li) (\<lambda>w.
     Ok (EpochState w e))))"

definition is_epoch_waypoint :: "trusted_state \<Rightarrow> bool" where
  "is_epoch_waypoint self = (case self of EpochWaypoint _ \<Rightarrow> True | EpochState _ _ \<Rightarrow> False)"

definition ts_waypoint :: "trusted_state \<Rightarrow> waypoint" where
  "ts_waypoint self = (case self of EpochWaypoint w \<Rightarrow> w | EpochState w _ \<Rightarrow> w)"

definition ts_version :: "trusted_state \<Rightarrow> version" where
  "ts_version self = wp_version (ts_waypoint self)"

definition trusted_state_dyn :: "'c ledger_crypto_scheme \<Rightarrow> trusted_state \<Rightarrow> verifier_dyn" where
  "trusted_state_dyn C self =
     (case self of EpochWaypoint w \<Rightarrow> waypoint_dyn C w | EpochState _ e \<Rightarrow> epoch_state_dyn C e)"

definition verify_and_ratchet_inner ::
  "'c ledger_crypto_scheme \<Rightarrow> trusted_state \<Rightarrow> ledger_info_with_signatures \<Rightarrow> epoch_change_proof \<Rightarrow>
   (trusted_state_change, anyhow) result" where
  "verify_and_ratchet_inner C self latest_li ecp =
     (let curr_version = ts_version self;
          target = lis_ledger_info latest_li in
      and_then (ensure (li_version target \<ge> curr_version)
        (Msg ''The target latest ledger info version is stale'')) (\<lambda>_.
      if dyn_epoch_change_verification_required (trusted_state_dyn C self) (bi_next_block_epoch (commit_info target)) then
        and_then (ecp_verify C ecp (trusted_state_dyn C self)) (\<lambda>epoch_change_li.
        and_then (ok_or (Msg ''A valid EpochChangeProof will never return a non-epoch change ledger info'')
          (li_next_epoch_state (lis_ledger_info epoch_change_li))) (\<lambda>new_epoch_state.
        let new_epoch = es_epoch new_epoch_state in
        and_then
          (if epoch_change_li = latest_li then Ok latest_li
           else if li_epoch target = new_epoch then
             and_then (es_verify C new_epoch_state latest_li) (\<lambda>_. Ok latest_li)
           else if li_epoch target > new_epoch \<and> more_changes ecp then Ok epoch_change_li
           else Err (Msg ''Inconsistent epoch change proof and latest ledger info'')) (\<lambda>verified_ledger_info.
        let new_waypoint = new_any C (lis_ledger_info verified_ledger_info)
        in Ok (EpochChange (EpochState new_waypoint new_epoch_state) epoch_change_li))))
      else
        (case self of
           EpochWaypoint _ \<Rightarrow> Err (Msg ''EpochWaypoint can only verify an epoch change ledger info'')
         | EpochState curr_waypoint curr_epoch_state \<Rightarrow>
             let new_waypoint = new_any C target in
             if wp_version new_waypoint = wp_version curr_waypoint then
               and_then (ensure (new_waypoint = curr_waypoint) (Msg ''LedgerInfo does not match verified state'')) (\<lambda>_.
               Ok NoChange)
             else
               and_then (es_verify C curr_epoch_state latest_li) (\<lambda>_.
               Ok (VersionChange (EpochState new_waypoint curr_epoch_state))))))"

definition verify_and_ratchet ::
  "'c ledger_crypto_scheme \<Rightarrow> trusted_state \<Rightarrow> state_proof \<Rightarrow> (trusted_state_change, anyhow) result" where
  "verify_and_ratchet C self sp = verify_and_ratchet_inner C self (latest_li_w_sigs sp) (epoch_changes sp)"

definition new_state :: "trusted_state_change \<Rightarrow> trusted_state option" where
  "new_state self = (case self of VersionChange t \<Rightarrow> Some t | EpochChange t _ \<Rightarrow> Some t | NoChange \<Rightarrow> None)"

definition is_epoch_change :: "trusted_state_change \<Rightarrow> bool" where
  "is_epoch_change self = (case self of EpochChange _ _ \<Rightarrow> True | _ \<Rightarrow> False)"

definition is_no_change :: "trusted_state_change \<Rightarrow> bool" where
  "is_no_change self \<longleftrightarrow> self = NoChange"

section \<open>What a verifier promises\<close>

text \<open>Each info is accepted by the verifier before it, and carries the next one.\<close>

fun chained :: "'c ledger_crypto_scheme \<Rightarrow> verifier_dyn \<Rightarrow> ledger_info_with_signatures list \<Rightarrow> bool" where
  "chained C v [] \<longleftrightarrow> True"
| "chained C v (lis # rest) \<longleftrightarrow>
     dyn_verify v lis = Ok () \<and>
     (case li_next_epoch_state (lis_ledger_info lis) of None \<Rightarrow> False | Some e \<Rightarrow> chained C (epoch_state_dyn C e) rest)"

lemma verify_changes_chained: "verify_changes C v infos = Ok () \<longleftrightarrow> chained C v infos"
  by (induction C v infos rule: verify_changes.induct) (auto simp: result_simps split: option.split)

text \<open>A verifier never accepts what it calls stale.\<close>

locale verifier_iface =
  fixes C :: "'c ledger_crypto_scheme" and v :: verifier_dyn
  assumes accepted_not_stale: "dyn_verify v lis = Ok () \<Longrightarrow> \<not> dyn_is_ledger_info_stale v (lis_ledger_info lis)"
begin

text \<open>
  An epoch change proof is accepted exactly if it ends in an info the verifier does not know yet, and
  the part from the first such info on is chained. A prefix the client already has does no harm.
\<close>

lemma ecp_verify_iff:
  "ecp_verify C ecp v = Ok lis \<longleftrightarrow>
     (\<exists>old new. ledger_info_with_sigs ecp = old @ new \<and> new \<noteq> [] \<and> lis = last new \<and>
        (\<forall>x \<in> set old. dyn_is_ledger_info_stale v (lis_ledger_info x)) \<and> chained C v new \<and>
        \<not> dyn_is_ledger_info_stale v (lis_ledger_info lis))"
proof
  assume "ecp_verify C ecp v = Ok lis"
  then have ne: "ledger_info_with_sigs ecp \<noteq> []" and lis: "lis = last (ledger_info_with_sigs ecp)"
    and fresh: "\<not> dyn_is_ledger_info_stale v (lis_ledger_info lis)"
    and ok: "chained C v (dropWhile (\<lambda>l. dyn_is_ledger_info_stale v (lis_ledger_info l)) (ledger_info_with_sigs ecp))"
    by (auto simp: ecp_verify_def Let_def and_then_eq_Ok ensure_eq_Ok verify_changes_chained)
  let ?P = "\<lambda>l. dyn_is_ledger_info_stale v (lis_ledger_info l)"
  have "dropWhile ?P (ledger_info_with_sigs ecp) \<noteq> []"
    using ne fresh lis by (auto simp: dropWhile_eq_Nil_conv)
  with lis have "lis = last (dropWhile ?P (ledger_info_with_sigs ecp))"
    by (metis takeWhile_dropWhile_id last_append)
  with \<open>dropWhile ?P (ledger_info_with_sigs ecp) \<noteq> []\<close> ok fresh
  show "\<exists>old new. ledger_info_with_sigs ecp = old @ new \<and> new \<noteq> [] \<and> lis = last new \<and>
        (\<forall>x \<in> set old. ?P x) \<and> chained C v new \<and> \<not> ?P lis"
    by (intro exI [of _ "takeWhile ?P (ledger_info_with_sigs ecp)"] exI [of _ "dropWhile ?P (ledger_info_with_sigs ecp)"])
      (auto dest: set_takeWhileD)
next
  assume "\<exists>old new. ledger_info_with_sigs ecp = old @ new \<and> new \<noteq> [] \<and> lis = last new \<and>
        (\<forall>x \<in> set old. dyn_is_ledger_info_stale v (lis_ledger_info x)) \<and> chained C v new \<and>
        \<not> dyn_is_ledger_info_stale v (lis_ledger_info lis)"
  then obtain old x rest where infos: "ledger_info_with_sigs ecp = old @ x # rest" "lis = last (x # rest)"
    "\<forall>x \<in> set old. dyn_is_ledger_info_stale v (lis_ledger_info x)" "chained C v (x # rest)"
    "\<not> dyn_is_ledger_info_stale v (lis_ledger_info lis)"
    by (auto simp: neq_Nil_conv)
  moreover have "\<not> dyn_is_ledger_info_stale v (lis_ledger_info x)"
    using infos(4) accepted_not_stale [of x] by simp
  ultimately have "dropWhile (\<lambda>l. dyn_is_ledger_info_stale v (lis_ledger_info l)) (ledger_info_with_sigs ecp) = x # rest"
    by (simp add: dropWhile_append2)
  with infos show "ecp_verify C ecp v = Ok lis"
    using verify_changes_chained [of C v "x # rest"]
    by (simp add: ecp_verify_def Let_def ensure_def del: verify_changes.simps chained.simps)
qed

end

interpretation wpv: verifier_iface C "waypoint_dyn C w" for C :: "'c ledger_crypto_scheme" and w
  by unfold_locales (auto simp: waypoint_dyn_def wp_verify_def result_simps)

interpretation esv: verifier_iface C "epoch_state_dyn C e" for C :: "'c ledger_crypto_scheme" and e
  by unfold_locales (auto simp: epoch_state_dyn_def es_verify_def result_simps)

interpretation tsv: verifier_iface C "trusted_state_dyn C t" for C :: "'c ledger_crypto_scheme" and t
  by unfold_locales (auto simp: trusted_state_dyn_def wpv.accepted_not_stale esv.accepted_not_stale
      dest: wpv.accepted_not_stale esv.accepted_not_stale split: trusted_state.splits)

section \<open>The chain a client follows\<close>

text \<open>
  \<open>canonical\<close> holds of what a waypoint commits to in the real chain's ledger infos. The view is that of
  a client who trusts the validators: the quorum of an epoch that the chain started signs ledger
  infos of that epoch only if they are canonical; no other data has the waypoint hash of a canonical
  info; epochs grow; and the info that ends an epoch has the highest version so far.
\<close>

definition chain_view :: "'c ledger_crypto_scheme \<Rightarrow> (waypoint_converter \<Rightarrow> bool) \<Rightarrow> bool" where
  "chain_view C canonical \<longleftrightarrow>
     (\<forall>c e lis. canonical c \<and> wc_next_epoch_state c = Some e \<and> li_epoch (lis_ledger_info lis) = es_epoch e \<and>
        lis_verify_signatures C lis (es_verifier e) = Ok () \<longrightarrow> canonical (converter_new (lis_ledger_info lis))) \<and>
     (\<forall>c c'. canonical c \<and> waypoint_hash C c' = waypoint_hash C c \<longrightarrow> c' = c) \<and>
     (\<forall>c e. canonical c \<and> wc_next_epoch_state c = Some e \<longrightarrow> wc_epoch c < es_epoch e) \<and>
     (\<forall>c c'. canonical c \<and> canonical c' \<and> wc_next_epoch_state c \<noteq> None \<and> wc_epoch c' \<le> wc_epoch c \<longrightarrow>
        wc_version c' \<le> wc_version c)"

definition commits_to :: "'c ledger_crypto_scheme \<Rightarrow> waypoint \<Rightarrow> waypoint_converter \<Rightarrow> bool" where
  "commits_to C w c \<longleftrightarrow> wp_version w = wc_version c \<and> wp_value w = waypoint_hash C c"

definition started :: "(waypoint_converter \<Rightarrow> bool) \<Rightarrow> epoch_state \<Rightarrow> bool" where
  "started canonical e \<longleftrightarrow> (\<exists>c. canonical c \<and> wc_next_epoch_state c = Some e)"

definition trusted :: "'c ledger_crypto_scheme \<Rightarrow> (waypoint_converter \<Rightarrow> bool) \<Rightarrow> trusted_state \<Rightarrow> bool" where
  "trusted C canonical t \<longleftrightarrow>
     (case t of
        EpochWaypoint w \<Rightarrow> \<exists>c. canonical c \<and> commits_to C w c
      | EpochState w e \<Rightarrow> started canonical e \<and> (\<exists>c. canonical c \<and> commits_to C w c \<and> wc_epoch c \<le> es_epoch e))"

lemma converter_new_simps [simp]:
  "wc_epoch (converter_new li) = li_epoch li" "wc_version (converter_new li) = li_version li"
  "wc_next_epoch_state (converter_new li) = li_next_epoch_state li"
  by (simp_all add: converter_new_def)

lemma commits_to_new_any [simp]: "commits_to C (new_any C li) (converter_new li)"
  by (simp add: commits_to_def new_any_def)

lemma es_verify_canonical:
  assumes "chain_view C canonical" and "started canonical e" and "es_verify C e lis = Ok ()"
  shows "canonical (converter_new (lis_ledger_info lis))" and "li_epoch (lis_ledger_info lis) = es_epoch e"
proof -
  from assms(3) show epoch: "li_epoch (lis_ledger_info lis) = es_epoch e" by (simp add: es_verify_def result_simps)
  from assms(2) obtain c where "canonical c" "wc_next_epoch_state c = Some e" by (auto simp: started_def)
  with assms(1,3) epoch show "canonical (converter_new (lis_ledger_info lis))"
    unfolding chain_view_def es_verify_def by (auto simp: result_simps)
qed

lemma chained_canonical:
  assumes "chain_view C canonical"
  shows "started canonical e \<Longrightarrow> chained C (epoch_state_dyn C e) infos \<Longrightarrow> infos \<noteq> [] \<Longrightarrow>
    canonical (converter_new (lis_ledger_info (last infos)))"
proof (induction infos arbitrary: e)
  case (Cons lis rest)
  from Cons.prems(2) obtain e' where e': "es_verify C e lis = Ok ()" "li_next_epoch_state (lis_ledger_info lis) = Some e'"
    "chained C (epoch_state_dyn C e') rest"
    by (auto simp: epoch_state_dyn_def split: option.splits)
  note canon = es_verify_canonical(1) [OF assms Cons.prems(1) e'(1)]
  then have "started canonical e'" using e'(2) by (auto simp: started_def intro!: exI [of _ "converter_new (lis_ledger_info lis)"])
  with Cons.IH e'(3) canon show ?case by auto
qed simp

lemma trusted_dyn_verify:
  assumes "chain_view C canonical" and "trusted C canonical t" and "dyn_verify (trusted_state_dyn C t) lis = Ok ()"
  shows "canonical (converter_new (lis_ledger_info lis))"
proof (cases t)
  case (EpochWaypoint w)
  with assms obtain c where "canonical c" "waypoint_hash C (converter_new (lis_ledger_info lis)) = waypoint_hash C c"
    by (auto simp: trusted_def commits_to_def trusted_state_dyn_def waypoint_dyn_def wp_verify_def result_simps)
  moreover from this assms(1) have "converter_new (lis_ledger_info lis) = c" unfolding chain_view_def by blast
  ultimately show ?thesis by simp
next
  case (EpochState w e)
  with assms(2,3) es_verify_canonical(1) [OF assms(1), of e lis] show ?thesis
    by (auto simp: trusted_def trusted_state_dyn_def epoch_state_dyn_def)
qed

lemma ecp_verify_canonical:
  assumes "chain_view C canonical" and "trusted C canonical t" and "ecp_verify C ecp (trusted_state_dyn C t) = Ok lis"
  shows "canonical (converter_new (lis_ledger_info lis))"
    and "\<not> dyn_is_ledger_info_stale (trusted_state_dyn C t) (lis_ledger_info lis)"
proof -
  from assms(3) [unfolded tsv.ecp_verify_iff] obtain x rest where
    new: "lis = last (x # rest)" "chained C (trusted_state_dyn C t) (x # rest)"
      "\<not> dyn_is_ledger_info_stale (trusted_state_dyn C t) (lis_ledger_info lis)"
    by (auto simp: neq_Nil_conv)
  then show "\<not> dyn_is_ledger_info_stale (trusted_state_dyn C t) (lis_ledger_info lis)" by blast
  from new(2) obtain e where e: "dyn_verify (trusted_state_dyn C t) x = Ok ()"
    "li_next_epoch_state (lis_ledger_info x) = Some e" "chained C (epoch_state_dyn C e) rest"
    by (auto split: option.splits)
  note canon = trusted_dyn_verify [OF assms(1,2) e(1)]
  then have "started canonical e" using e(2) by (auto simp: started_def intro!: exI [of _ "converter_new (lis_ledger_info x)"])
  with chained_canonical [OF assms(1) _ e(3)] canon new(1) show "canonical (converter_new (lis_ledger_info lis))"
    by auto
qed

text \<open>The last info of an epoch that the client does not know yet is not behind the client.\<close>

lemma fresh_version:
  assumes "chain_view C canonical" and "trusted C canonical t" and "canonical (converter_new li)"
    and "li_next_epoch_state li = Some e" and "\<not> dyn_is_ledger_info_stale (trusted_state_dyn C t) li"
  shows "ts_version t \<le> li_version li"
proof (cases t)
  case (EpochWaypoint w)
  with assms(5) show ?thesis by (simp add: trusted_state_dyn_def waypoint_dyn_def ts_version_def ts_waypoint_def)
next
  case (EpochState w e')
  with assms(2) obtain c where c: "canonical c" "wp_version w = wc_version c" "wc_epoch c \<le> es_epoch e'"
    by (auto simp: trusted_def commits_to_def)
  have "es_epoch e' \<le> li_epoch li"
    using EpochState assms(5) by (simp add: trusted_state_dyn_def epoch_state_dyn_def not_less)
  with c(3) have "wc_epoch c \<le> wc_epoch (converter_new li)" by simp
  with assms(1,3,4) c(1) have "wc_version c \<le> wc_version (converter_new li)"
    unfolding chain_view_def by (metis converter_new_simps(3) option.distinct(1))
  with EpochState c(2) show ?thesis by (simp add: ts_version_def ts_waypoint_def)
qed

text \<open>
  \<^bold>\<open>C5.\<close> A light client never leaves the real chain and never goes back. From a trusted state, whatever state
  proof it is sent, if \<open>verify_and_ratchet\<close> accepts it, the new state is trusted again, its version is not
  lower, and where the state does not change the ledger info that was sent is the one already trusted.
\<close>

theorem ratchet_stays_canonical:
  assumes "chain_view C canonical" and "trusted C canonical t" and "verify_and_ratchet C t sp = Ok change"
  shows "case new_state change of
      Some t' \<Rightarrow> trusted C canonical t' \<and> ts_version t \<le> ts_version t' \<and> \<not> is_epoch_waypoint t'
    | None \<Rightarrow> canonical (converter_new (lis_ledger_info (latest_li_w_sigs sp)))"
proof -
  define li where "li = latest_li_w_sigs sp"
  note run = assms(3) [unfolded verify_and_ratchet_def verify_and_ratchet_inner_def Let_def, folded li_def]
  have fresh: "ts_version t \<le> li_version (lis_ledger_info li)" using run by (simp add: result_simps)
  show ?thesis
  proof (cases "dyn_epoch_change_verification_required (trusted_state_dyn C t) (bi_next_block_epoch (commit_info (lis_ledger_info li)))")
    case True
    with run obtain ecl e vli where
      ecl: "ecp_verify C (epoch_changes sp) (trusted_state_dyn C t) = Ok ecl" "li_next_epoch_state (lis_ledger_info ecl) = Some e"
      and vli: "vli = li \<and> ecl = li \<or> vli = li \<and> es_verify C e li = Ok () \<or> vli = ecl"
      and change: "change = EpochChange (EpochState (new_any C (lis_ledger_info vli)) e) ecl"
      by (auto simp: result_simps split: if_splits)
    note canon = ecp_verify_canonical [OF assms(1,2) ecl(1)]
    have e: "started canonical e" using canon(1) ecl(2) by (auto simp: started_def intro!: exI [of _ "converter_new (lis_ledger_info ecl)"])
    have "li_epoch (lis_ledger_info ecl) < es_epoch e"
      using assms(1) canon(1) ecl(2) unfolding chain_view_def by (metis converter_new_simps(1,3))
    with vli canon(1) es_verify_canonical [OF assms(1) e, of li]
    have "canonical (converter_new (lis_ledger_info vli)) \<and> li_epoch (lis_ledger_info vli) \<le> es_epoch e" by auto
    moreover have "ts_version t \<le> li_version (lis_ledger_info vli)"
      using vli fresh fresh_version [OF assms(1,2) canon(1) ecl(2) canon(2)] by auto
    ultimately show ?thesis using e
      by (auto simp: change new_state_def trusted_def ts_version_def ts_waypoint_def is_epoch_waypoint_def new_any_def
          intro!: exI [of _ "converter_new (lis_ledger_info vli)"] commits_to_new_any [unfolded new_any_def])
  next
    case False
    then obtain w e where t: "t = EpochState w e"
      by (cases t) (auto simp: trusted_state_dyn_def waypoint_dyn_def)
    then obtain c where c: "started canonical e" "canonical c" "commits_to C w c" using assms(2) by (auto simp: trusted_def)
    show ?thesis
    proof (cases "wp_version (new_any C (lis_ledger_info li)) = wp_version w")
      case same: True
      with run False t have "new_any C (lis_ledger_info li) = w" "change = NoChange" by (auto simp: result_simps)
      with c have "waypoint_hash C (converter_new (lis_ledger_info li)) = waypoint_hash C c"
        by (auto simp: commits_to_def new_any_def)
      with assms(1) c(2) have "converter_new (lis_ledger_info li) = c" unfolding chain_view_def by blast
      with c(2) \<open>change = NoChange\<close> show ?thesis by (simp add: new_state_def li_def)
    next
      case other: False
      with run False t have ok: "es_verify C e li = Ok ()"
        and change: "change = VersionChange (EpochState (new_any C (lis_ledger_info li)) e)" by (auto simp: result_simps)
      from es_verify_canonical [OF assms(1) c(1) ok] c(1) fresh show ?thesis
        by (auto simp: change new_state_def trusted_def ts_version_def ts_waypoint_def is_epoch_waypoint_def new_any_def
            intro!: exI [of _ "converter_new (lis_ledger_info li)"] commits_to_new_any [unfolded new_any_def])
    qed
  qed
qed

text \<open>A chain of two infos: genesis, which starts epoch 1, and an info of epoch 1 that its validators signed.\<close>

definition demo_genesis :: ledger_info where
  "demo_genesis = li_new (bi_new 0 0 0 0 0 0 (Some \<lparr>es_epoch = 1, es_verifier = demo_verifier\<rparr>)) 0"

definition demo_next :: ledger_info where
  "demo_next = li_new (bi_new 1 5 0 3 7 100 None) 0"

definition demo_crypto :: ledger_crypto where
  "demo_crypto =
     \<lparr>bls_pk_aggregate = \<lambda>_. Some 0, bls_sig_aggregate = \<lambda>_. Some 0, bls_verify_li = \<lambda>s li k. li = demo_next,
      waypoint_hash = \<lambda>c. if c = converter_new demo_genesis then 0 else if c = converter_new demo_next then 1 else 2\<rparr>"

definition demo_canonical :: "waypoint_converter \<Rightarrow> bool" where
  "demo_canonical c \<longleftrightarrow> c = converter_new demo_genesis \<or> c = converter_new demo_next"

lemma demo_li_fields:
  "li_epoch demo_genesis = 0" "li_version demo_genesis = 0" "li_epoch demo_next = 1" "li_version demo_next = 7"
  "li_next_epoch_state demo_genesis = Some \<lparr>es_epoch = 1, es_verifier = demo_verifier\<rparr>" "li_next_epoch_state demo_next = None"
  by (simp_all add: demo_genesis_def demo_next_def li_new_def bi_new_def)

lemma demo_converters: "converter_new demo_genesis \<noteq> converter_new demo_next"
proof
  assume "converter_new demo_genesis = converter_new demo_next"
  then have "wc_version (converter_new demo_genesis) = wc_version (converter_new demo_next)" by simp
  then show False by (simp add: demo_li_fields)
qed

lemma demo_chain_view: "chain_view demo_crypto demo_canonical"
proof -
  have "lis_ledger_info lis = demo_next" if "lis_verify_signatures demo_crypto lis v = Ok ()" for lis v
    using that by (auto simp: lis_verify_signatures_def demo_crypto_def verify_multi_signatures_def result_simps split: if_splits)
  moreover have "waypoint_hash demo_crypto c' = waypoint_hash demo_crypto c \<Longrightarrow> demo_canonical c \<Longrightarrow> c' = c" for c c'
    using demo_converters by (auto simp: demo_crypto_def demo_canonical_def split: if_splits)
  ultimately show ?thesis
    unfolding chain_view_def by (fastforce simp: demo_canonical_def demo_li_fields)
qed

theorem ratchet_stays_canonical_witness:
  "\<exists>t change t'. trusted demo_crypto demo_canonical t \<and>
     verify_and_ratchet demo_crypto t
       \<lparr>latest_li_w_sigs = lis_new demo_next (agg_new \<lparr>inner = [208]\<rparr> (Some 5)),
        epoch_changes = \<lparr>ledger_info_with_sigs = [], more_changes = False\<rparr>\<rparr> = Ok change \<and>
     new_state change = Some t' \<and> trusted demo_crypto demo_canonical t' \<and> ts_version t < ts_version t'"
proof -
  let ?e = "\<lparr>es_epoch = 1, es_verifier = demo_verifier\<rparr>"
  let ?t = "EpochState (new_any demo_crypto demo_genesis) ?e"
  let ?t' = "EpochState (new_any demo_crypto demo_next) ?e"
  let ?sp = "\<lparr>latest_li_w_sigs = lis_new demo_next (agg_new \<lparr>inner = [208]\<rparr> (Some 5)),
        epoch_changes = \<lparr>ledger_info_with_sigs = [], more_changes = False\<rparr>\<rparr>"
  have t: "trusted demo_crypto demo_canonical ?t"
    using demo_li_fields by (auto simp: trusted_def started_def demo_canonical_def
        intro!: exI [of _ "converter_new demo_genesis"] exI [of _ "converter_new demo_genesis"])
  have sig: "es_verify demo_crypto ?e (lis_new demo_next (agg_new \<lparr>inner = [208]\<rparr> (Some 5))) = Ok ()"
    using demo_quorum [of "bls_verify_li demo_crypto" demo_next 5] demo_li_fields
    by (simp add: es_verify_def lis_verify_signatures_def lis_new_def demo_crypto_def ensure_def)
  have ok: "verify_and_ratchet demo_crypto ?t ?sp = Ok (VersionChange ?t')"
    using sig demo_li_fields
    by (simp add: verify_and_ratchet_def verify_and_ratchet_inner_def lis_new_def ts_version_def ts_waypoint_def new_any_def
        trusted_state_dyn_def epoch_state_dyn_def bi_next_block_epoch_def ensure_def Let_def)
  have "trusted demo_crypto demo_canonical ?t'"
    using ratchet_stays_canonical [OF demo_chain_view t ok] by (simp add: new_state_def)
  moreover have "ts_version ?t < ts_version ?t'"
    by (simp add: ts_version_def ts_waypoint_def new_any_def demo_li_fields)
  moreover have "new_state (VersionChange ?t') = Some ?t'" by (simp add: new_state_def)
  ultimately show ?thesis using t ok by blast
qed

end
