(* ===== verification/Proof_Of_Store.thy ===== *)
theory Proof_Of_Store
  imports Ledger_Types
begin

text \<open>
  Batches of the quorum store and their certificates: \<open>BatchId\<close>, \<open>BatchInfo\<close>, \<open>SignedBatchInfo\<close> and
  \<open>ProofOfStore\<close> of \<open>consensus-types/src/proof_of_store.rs\<close>, the \<open>ValidatorSigner\<close> of
  \<open>types/src/validator_signer.rs\<close> and the \<open>Payload\<close> of \<open>consensus-types/src/common.rs\<close>.

  The signature schemes and hash functions are the fields of a record that extends \<^typ>\<open>ledger_crypto\<close>; signing
  may fail (\<open>CryptoMaterialError\<close>) and then returns \<^term>\<open>None\<close>. The proof cache is a \<open>mini_moka\<close> cache: a
  lookup returns the value inserted last or, once the entry is evicted, nothing, so the cache is a map and
  eviction removes entries from it. A signed transaction is its byte string. The wall clock is an argument.
\<close>

section \<open>Validator signer\<close>

type_synonym private_key = "256 word"
type_synonym signed_transaction = "u8 list"

record validator_signer =
  signer_author :: account_address
  signer_private_key :: private_key

definition vs_signer_new :: "account_address \<Rightarrow> private_key \<Rightarrow> validator_signer" where
  "vs_signer_new author private_key = \<lparr>signer_author = author, signer_private_key = private_key\<rparr>"

definition signer_sign ::
  "(private_key \<Rightarrow> 'm \<Rightarrow> signature option) \<Rightarrow> validator_signer \<Rightarrow> 'm \<Rightarrow> signature option" where
  "signer_sign sign self message = sign (signer_private_key self) message"

definition signer_public_key :: "(private_key \<Rightarrow> public_key) \<Rightarrow> validator_signer \<Rightarrow> public_key" where
  "signer_public_key pk_of self = pk_of (signer_private_key self)"

section \<open>Batches\<close>

record batch_id =
  bid_id :: u64
  bid_nonce :: u64

definition batch_id_new :: "u64 \<Rightarrow> batch_id" where
  "batch_id_new nonce = \<lparr>bid_id = 0, bid_nonce = nonce\<rparr>"

definition batch_id_increment :: "batch_id \<Rightarrow> (batch_id, 'e) result" where
  "batch_id_increment self = and_then (add_p (bid_id self) 1) (\<lambda>i. Ok (self\<lparr>bid_id := i\<rparr>))"

definition batch_id_less :: "batch_id \<Rightarrow> batch_id \<Rightarrow> bool" where
  "batch_id_less self other \<longleftrightarrow>
     (if bid_nonce self = bid_nonce other then bid_id self < bid_id other else bid_nonce self < bid_nonce other)"

record batch_info =
  batch_author :: account_address
  batch_id_of :: batch_id
  batch_epoch :: u64
  batch_expiration :: u64
  batch_digest :: hash_value
  batch_num_txns :: u64
  batch_num_bytes :: u64
  batch_gas_bucket_start :: u64

definition batch_is_expired :: "u64 \<Rightarrow> batch_info \<Rightarrow> bool" where
  "batch_is_expired now_usecs self \<longleftrightarrow> batch_expiration self < now_usecs"

record quorum_store_crypto = ledger_crypto +
  bls_verify_batch :: "signature \<Rightarrow> batch_info \<Rightarrow> public_key \<Rightarrow> bool"
  bls_sign_batch :: "private_key \<Rightarrow> batch_info \<Rightarrow> signature option"
  batch_payload_hash :: "account_address \<Rightarrow> signed_transaction list \<Rightarrow> hash_value"

record signed_batch_info =
  sbi_info :: batch_info
  sbi_signer :: account_address
  sbi_signature :: signature

definition sbi_new ::
  "'c quorum_store_crypto_scheme \<Rightarrow> batch_info \<Rightarrow> validator_signer \<Rightarrow> signed_batch_info option" where
  "sbi_new C info signer =
     map_option (\<lambda>sig. \<lparr>sbi_info = info, sbi_signer = signer_author signer, sbi_signature = sig\<rparr>)
       (signer_sign (bls_sign_batch C) signer info)"

definition sbi_verify ::
  "'c quorum_store_crypto_scheme \<Rightarrow> u64 \<Rightarrow> signed_batch_info \<Rightarrow> account_address \<Rightarrow> u64 \<Rightarrow> validator_verifier \<Rightarrow>
   (unit, anyhow) result" where
  "sbi_verify C now_usecs self sender max_batch_expiry_gap_usecs validator =
     (if sender \<noteq> sbi_signer self then Err (Msg ''Sender mismatch signer'')
      else and_then (add_p now_usecs max_batch_expiry_gap_usecs) (\<lambda>bound.
        if bound < batch_expiration (sbi_info self) then Err (Msg ''Batch expiration too far in future'')
        else map_err FromVerify
          (vv_verify (bls_verify_batch C) validator (sbi_signer self) (sbi_info self) (sbi_signature self))))"

fun sbi_verify_all ::
  "'c quorum_store_crypto_scheme \<Rightarrow> u64 \<Rightarrow> account_address \<Rightarrow> u64 \<Rightarrow> validator_verifier \<Rightarrow> signed_batch_info list \<Rightarrow>
   (unit, anyhow) result" where
  "sbi_verify_all C now_usecs sender gap validator [] = Ok ()"
| "sbi_verify_all C now_usecs sender gap validator (info # rest) =
     and_then (sbi_verify C now_usecs info sender gap validator) (\<lambda>_.
     sbi_verify_all C now_usecs sender gap validator rest)"

definition sbi_msg_verify ::
  "'c quorum_store_crypto_scheme \<Rightarrow> u64 \<Rightarrow> signed_batch_info list \<Rightarrow> account_address \<Rightarrow> nat \<Rightarrow> u64 \<Rightarrow>
   validator_verifier \<Rightarrow> (unit, anyhow) result" where
  "sbi_msg_verify C now_usecs signed_infos sender max_num_batches gap validator =
     and_then (ensure (signed_infos \<noteq> []) (Msg ''Empty message'')) (\<lambda>_.
     and_then (ensure (length signed_infos \<le> max_num_batches) (Msg ''Too many batches'')) (\<lambda>_.
     sbi_verify_all C now_usecs sender gap validator signed_infos))"

text \<open>The epoch of a non-empty list of batches, when they agree on it.\<close>

definition common_epoch :: "u64 list \<Rightarrow> (u64, anyhow) result" where
  "common_epoch epochs =
     and_then (ensure (epochs \<noteq> []) (Msg ''Empty message'')) (\<lambda>_.
     and_then (ensure (\<forall>e \<in> set epochs. e = hd epochs) (Msg ''Epoch mismatch'')) (\<lambda>_.
     Ok (hd epochs)))"

definition sbi_msg_epoch :: "signed_batch_info list \<Rightarrow> (u64, anyhow) result" where
  "sbi_msg_epoch signed_infos = common_epoch (map (batch_epoch \<circ> sbi_info) signed_infos)"

section \<open>Proofs of store\<close>

type_synonym proof_cache = "batch_info \<rightharpoonup> aggregate_signature"

record proof_of_store =
  pos_info :: batch_info
  multi_signature :: aggregate_signature

definition pos_new :: "batch_info \<Rightarrow> aggregate_signature \<Rightarrow> proof_of_store" where
  "pos_new info sig = \<lparr>pos_info = info, multi_signature = sig\<rparr>"

definition pos_verify ::
  "'c quorum_store_crypto_scheme \<Rightarrow> proof_of_store \<Rightarrow> validator_verifier \<Rightarrow> proof_cache \<Rightarrow>
   proof_cache \<times> (unit, anyhow) result" where
  "pos_verify C self validator cache =
     (if cache (pos_info self) = Some (multi_signature self) then (cache, Ok ())
      else let result = map_err (Context ''Failed to verify ProofOfStore'') (map_err FromVerify
             (verify_multi_signatures (bls_pk_aggregate C) (bls_verify_batch C) validator (pos_info self)
               (multi_signature self)))
           in (if is_ok result then cache(pos_info self \<mapsto> multi_signature self) else cache, result))"

fun pos_verify_all ::
  "'c quorum_store_crypto_scheme \<Rightarrow> validator_verifier \<Rightarrow> proof_cache \<Rightarrow> proof_of_store list \<Rightarrow>
   proof_cache \<times> (unit, anyhow) result" where
  "pos_verify_all C validator cache [] = (cache, Ok ())"
| "pos_verify_all C validator cache (p # rest) =
     (case pos_verify C p validator cache of
        (cache', Ok _) \<Rightarrow> pos_verify_all C validator cache' rest
      | (cache', r) \<Rightarrow> (cache', r))"

definition pos_msg_verify ::
  "'c quorum_store_crypto_scheme \<Rightarrow> proof_of_store list \<Rightarrow> nat \<Rightarrow> validator_verifier \<Rightarrow> proof_cache \<Rightarrow>
   proof_cache \<times> (unit, anyhow) result" where
  "pos_msg_verify C proofs max_num_proofs validator cache =
     (if proofs = [] then (cache, Err (Msg ''Empty message''))
      else if max_num_proofs < length proofs then (cache, Err (Msg ''Too many proofs''))
      else pos_verify_all C validator cache proofs)"

definition pos_msg_epoch :: "proof_of_store list \<Rightarrow> (u64, anyhow) result" where
  "pos_msg_epoch proofs = common_epoch (map (batch_epoch \<circ> pos_info) proofs)"

section \<open>Payloads\<close>

text \<open>
  The fetching status that \<open>ProofWithData\<close> carries beside its proofs is not serialised and none of the functions
  below reads it, so a \<open>ProofWithData\<close> is its list of proofs.
\<close>

datatype block_payload =
    DirectMempool "signed_transaction list"
  | InQuorumStore "proof_of_store list"
  | InQuorumStoreWithLimit "proof_of_store list" "u64 option"
  | QuorumStoreInlineHybrid "(batch_info \<times> signed_transaction list) list" "proof_of_store list" "u64 option"

definition transform_to_quorum_store_v2 :: "block_payload \<Rightarrow> u64 option \<Rightarrow> (block_payload, 'e) result" where
  "transform_to_quorum_store_v2 self max_txns =
     (case self of
        InQuorumStore proofs \<Rightarrow> Ok (InQuorumStoreWithLimit proofs max_txns)
      | QuorumStoreInlineHybrid inline proofs _ \<Rightarrow> Ok (QuorumStoreInlineHybrid inline proofs max_txns)
      | InQuorumStoreWithLimit _ _ \<Rightarrow> Panic
      | DirectMempool _ \<Rightarrow> Panic)"

definition payload_empty :: "bool \<Rightarrow> bool \<Rightarrow> block_payload" where
  "payload_empty quorum_store_enabled allow_batches_without_pos_in_proposal =
     (if quorum_store_enabled then
        if allow_batches_without_pos_in_proposal then QuorumStoreInlineHybrid [] [] None else InQuorumStore []
      else DirectMempool [])"

text \<open>\<open>Iterator::sum\<close> over \<open>usize\<close>: the overflow check of \<open>+\<close> applies to each step.\<close>

definition sum_usize :: "u64 list \<Rightarrow> (u64, 'e) result" where
  "sum_usize xs = fold (\<lambda>x acc. and_then acc (\<lambda>s. add_p s x)) xs (Ok 0)"

definition proofs_len :: "proof_of_store list \<Rightarrow> (u64, 'e) result" where
  "proofs_len proofs = sum_usize (map (batch_num_txns \<circ> pos_info) proofs)"

definition payload_len :: "block_payload \<Rightarrow> (u64, 'e) result" where
  "payload_len self =
     (case self of
        DirectMempool txns \<Rightarrow> Ok (of_nat (length txns))
      | InQuorumStore proofs \<Rightarrow> proofs_len proofs
      | InQuorumStoreWithLimit proofs _ \<Rightarrow> proofs_len proofs
      | QuorumStoreInlineHybrid inline proofs _ \<Rightarrow>
          and_then (proofs_len proofs) (\<lambda>n.
          and_then (sum_usize (map (\<lambda>(_, txns). of_nat (length txns)) inline)) (\<lambda>m. add_p n m)))"

fun payload_is_empty :: "block_payload \<Rightarrow> bool" where
  "payload_is_empty (DirectMempool txns) = (txns = [])"
| "payload_is_empty (InQuorumStore proofs) = (proofs = [])"
| "payload_is_empty (InQuorumStoreWithLimit proofs _) = (proofs = [])"
| "payload_is_empty (QuorumStoreInlineHybrid inline proofs _) = (proofs = [] \<and> inline = [])"

fun is_direct :: "block_payload \<Rightarrow> bool" where
  "is_direct (DirectMempool _) = True"
| "is_direct _ = False"

text \<open>
  \<open>verify_with_cache\<close> selects the proofs whose cached signature differs and verifies them with a parallel
  \<open>try_for_each\<close>; here they are verified in list order.
\<close>

definition verify_with_cache ::
  "'c quorum_store_crypto_scheme \<Rightarrow> proof_of_store list \<Rightarrow> validator_verifier \<Rightarrow> proof_cache \<Rightarrow>
   proof_cache \<times> (unit, anyhow) result" where
  "verify_with_cache C proofs validator cache =
     pos_verify_all C validator cache
       (filter (\<lambda>p. case cache (pos_info p) of None \<Rightarrow> True | Some sig \<Rightarrow> sig \<noteq> multi_signature p) proofs)"

fun check_inline :: "'c quorum_store_crypto_scheme \<Rightarrow> (batch_info \<times> signed_transaction list) list \<Rightarrow> (unit, anyhow) result" where
  "check_inline C [] = Ok ()"
| "check_inline C ((batch, txns) # rest) =
     (if batch_payload_hash C (batch_author batch) txns \<noteq> batch_digest batch
      then Err (Msg ''Hash of the received inline batch does not match the digest value'')
      else check_inline C rest)"

definition payload_verify ::
  "'c quorum_store_crypto_scheme \<Rightarrow> block_payload \<Rightarrow> validator_verifier \<Rightarrow> proof_cache \<Rightarrow> bool \<Rightarrow>
   proof_cache \<times> (unit, anyhow) result" where
  "payload_verify C self validator cache quorum_store_enabled =
     (case (quorum_store_enabled, self) of
        (False, DirectMempool _) \<Rightarrow> (cache, Ok ())
      | (True, InQuorumStore proofs) \<Rightarrow> verify_with_cache C proofs validator cache
      | (True, InQuorumStoreWithLimit proofs _) \<Rightarrow> verify_with_cache C proofs validator cache
      | (True, QuorumStoreInlineHybrid inline proofs _) \<Rightarrow>
          (case verify_with_cache C proofs validator cache of
             (cache', Ok _) \<Rightarrow> (cache', check_inline C inline)
           | (cache', r) \<Rightarrow> (cache', r))
      | _ \<Rightarrow> (cache, Err (Msg ''Wrong payload type'')))"

section \<open>The proof cache never changes a verdict\<close>

definition pos_valid :: "'c quorum_store_crypto_scheme \<Rightarrow> validator_verifier \<Rightarrow> batch_info \<Rightarrow> aggregate_signature \<Rightarrow> bool" where
  "pos_valid C validator info sig \<longleftrightarrow>
     verify_multi_signatures (bls_pk_aggregate C) (bls_verify_batch C) validator info sig = Ok ()"

text \<open>Every cached signature verified under the validator set.\<close>

definition cache_sound :: "'c quorum_store_crypto_scheme \<Rightarrow> validator_verifier \<Rightarrow> proof_cache \<Rightarrow> bool" where
  "cache_sound C validator cache \<longleftrightarrow> (\<forall>info sig. cache info = Some sig \<longrightarrow> pos_valid C validator info sig)"

lemma cache_sound_evict: "cache_sound C v cache \<Longrightarrow> cache_sound C v (cache |` kept)"
  by (auto simp: cache_sound_def restrict_map_def split: if_splits)

lemma pos_verify_sound:
  assumes "cache_sound C v cache" and "pos_verify C p v cache = (cache', r)"
  shows "cache_sound C v cache'" and "r = Ok () \<longleftrightarrow> pos_valid C v (pos_info p) (multi_signature p)"
    and "dom cache \<subseteq> dom cache'"
  using assms
  by (cases "verify_multi_signatures (bls_pk_aggregate C) (bls_verify_batch C) v (pos_info p) (multi_signature p)";
      auto simp: pos_verify_def cache_sound_def pos_valid_def Let_def split: if_splits)+

lemma pos_verify_all_sound:
  assumes "cache_sound C v cache" and "pos_verify_all C v cache ps = (cache', r)"
  shows "cache_sound C v cache' \<and> (r = Ok () \<longleftrightarrow> (\<forall>p \<in> set ps. pos_valid C v (pos_info p) (multi_signature p)))"
  using assms
proof (induction ps arbitrary: cache)
  case (Cons p ps)
  obtain c1 r1 where step: "pos_verify C p v cache = (c1, r1)" by (cases "pos_verify C p v cache")
  note one = pos_verify_sound [OF Cons.prems(1) step]
  show ?case
  proof (cases r1)
    case (Ok u)
    with Cons.prems(2) step have "pos_verify_all C v c1 ps = (cache', r)" by simp
    from Cons.IH [OF one(1) this] Ok one(2) show ?thesis by auto
  qed (use Cons.prems(2) step one in auto)
qed auto

lemma verify_with_cache_sound:
  assumes "cache_sound C v cache" and "verify_with_cache C ps v cache = (cache', r)"
  shows "cache_sound C v cache' \<and> (r = Ok () \<longleftrightarrow> (\<forall>p \<in> set ps. pos_valid C v (pos_info p) (multi_signature p)))"
proof -
  let ?unverified = "filter (\<lambda>p. case cache (pos_info p) of None \<Rightarrow> True | Some sig \<Rightarrow> sig \<noteq> multi_signature p) ps"
  have "pos_verify_all C v cache ?unverified = (cache', r)" using assms(2) by (simp add: verify_with_cache_def)
  note all = pos_verify_all_sound [OF assms(1) this]
  have "pos_valid C v (pos_info p) (multi_signature p)" if "p \<in> set ps" "p \<notin> set ?unverified" for p
    using that assms(1) by (auto simp: cache_sound_def split: option.splits)
  with all show ?thesis by auto
qed

definition payload_proofs :: "block_payload \<Rightarrow> proof_of_store list" where
  "payload_proofs p =
     (case p of DirectMempool _ \<Rightarrow> [] | InQuorumStore ps \<Rightarrow> ps | InQuorumStoreWithLimit ps _ \<Rightarrow> ps
      | QuorumStoreInlineHybrid _ ps _ \<Rightarrow> ps)"

definition payload_inline :: "block_payload \<Rightarrow> (batch_info \<times> signed_transaction list) list" where
  "payload_inline p = (case p of QuorumStoreInlineHybrid inline _ _ \<Rightarrow> inline | _ \<Rightarrow> [])"

lemma check_inline_Ok:
  "check_inline C inline = Ok () \<longleftrightarrow>
     (\<forall>(batch, txns) \<in> set inline. batch_payload_hash C (batch_author batch) txns = batch_digest batch)"
  by (induction C inline rule: check_inline.induct) auto

lemma payload_verify_sound:
  assumes "cache_sound C v cache" and "payload_verify C pl v cache b = (cache', r)"
  shows "cache_sound C v cache'"
    and "r = Ok () \<longleftrightarrow> (b \<longleftrightarrow> \<not> is_direct pl) \<and>
      (\<forall>p \<in> set (payload_proofs pl). pos_valid C v (pos_info p) (multi_signature p)) \<and>
      (\<forall>(batch, txns) \<in> set (payload_inline pl). batch_payload_hash C (batch_author batch) txns = batch_digest batch)"
proof -
  obtain c1 r1 where step: "verify_with_cache C (payload_proofs pl) v cache = (c1, r1)"
    by (cases "verify_with_cache C (payload_proofs pl) v cache")
  note one = verify_with_cache_sound [OF assms(1) step]
  show "cache_sound C v cache'"
    using assms one step
    by (auto simp: payload_verify_def payload_proofs_def split: block_payload.splits bool.splits result.splits)
  show "r = Ok () \<longleftrightarrow> (b \<longleftrightarrow> \<not> is_direct pl) \<and>
      (\<forall>p \<in> set (payload_proofs pl). pos_valid C v (pos_info p) (multi_signature p)) \<and>
      (\<forall>(batch, txns) \<in> set (payload_inline pl). batch_payload_hash C (batch_author batch) txns = batch_digest batch)"
    using assms(2) one step
    by (cases pl; cases b; cases r1)
      (auto simp: payload_verify_def payload_proofs_def payload_inline_def check_inline_Ok)
qed

text \<open>
  \<^bold>\<open>C31.\<close> A proof cache only saves work. Start from a cache all of whose entries verified under the validator set,
  and let any of them be evicted: verifying a payload with it keeps that invariant and accepts exactly the payloads
  that are accepted with an empty cache. Every proof of store in an accepted payload carries the signatures of
  validators with a quorum of the voting power.
\<close>

theorem proof_cache_transparent:
  assumes "cache_sound C v cache" and "wf_verifier v"
  shows "cache_sound C v (fst (payload_verify C pl v (cache |` kept) b)) \<and>
    (snd (payload_verify C pl v (cache |` kept) b) = Ok () \<longleftrightarrow> snd (payload_verify C pl v Map.empty b) = Ok ()) \<and>
    (snd (payload_verify C pl v (cache |` kept) b) = Ok () \<longrightarrow>
      (\<forall>p \<in> set (payload_proofs pl).
        unat (quorum_voting_power v) \<le> sum (vpower v) (address ` set (signers_of v (multi_signature p)))))"
proof (intro conjI impI ballI)
  have empty: "cache_sound C v Map.empty" by (simp add: cache_sound_def)
  note kept = cache_sound_evict [OF assms(1), of kept]
  show "cache_sound C v (fst (payload_verify C pl v (cache |` kept) b))"
    by (rule payload_verify_sound(1) [OF kept prod.collapse [symmetric]])
  show "snd (payload_verify C pl v (cache |` kept) b) = Ok () \<longleftrightarrow> snd (payload_verify C pl v Map.empty b) = Ok ()"
    unfolding payload_verify_sound(2) [OF kept prod.collapse [symmetric]]
      payload_verify_sound(2) [OF empty prod.collapse [symmetric]] ..
  fix p
  assume "snd (payload_verify C pl v (cache |` kept) b) = Ok ()" "p \<in> set (payload_proofs pl)"
  then have "pos_valid C v (pos_info p) (multi_signature p)"
    using payload_verify_sound(2) [OF kept prod.collapse [symmetric]] by blast
  then show "unat (quorum_voting_power v) \<le> sum (vpower v) (address ` set (signers_of v (multi_signature p)))"
    unfolding pos_valid_def by (rule verify_multi_signatures_quorum(3) [OF _ assms(2)])
qed

definition demo_batch :: batch_info where
  "demo_batch =
     \<lparr>batch_author = 1, batch_id_of = batch_id_new 9, batch_epoch = 1, batch_expiration = 100, batch_digest = 3,
      batch_num_txns = 1, batch_num_bytes = 10, batch_gas_bucket_start = 0\<rparr>"

definition demo_store_crypto :: quorum_store_crypto where
  "demo_store_crypto =
     \<lparr>bls_pk_aggregate = \<lambda>_. Some 0, bls_sig_aggregate = \<lambda>_. Some 0, bls_verify_li = \<lambda>s li k. False,
      waypoint_hash = \<lambda>_. 0, bls_verify_batch = \<lambda>s m k. s = 5, bls_sign_batch = \<lambda>_ _. Some 5,
      batch_payload_hash = \<lambda>_ _. 3\<rparr>"

definition demo_pos :: proof_of_store where
  "demo_pos = pos_new demo_batch (agg_new \<lparr>inner = [208]\<rparr> (Some 5))"

lemma demo_pos_valid: "pos_valid demo_store_crypto demo_verifier (pos_info demo_pos) (multi_signature demo_pos)"
  using demo_quorum [of "bls_verify_batch demo_store_crypto" demo_batch 5]
  by (simp add: pos_valid_def demo_store_crypto_def demo_pos_def pos_new_def)

theorem proof_cache_transparent_witness:
  "let cache = [pos_info demo_pos \<mapsto> multi_signature demo_pos]; pl = InQuorumStore [demo_pos] in
     cache_sound demo_store_crypto demo_verifier cache \<and>
     snd (payload_verify demo_store_crypto pl demo_verifier cache True) = Ok () \<and>
     snd (payload_verify demo_store_crypto pl demo_verifier (cache |` {}) True) = Ok () \<and>
     unat (quorum_voting_power demo_verifier) \<le> sum (vpower demo_verifier) (address ` set (signers_of demo_verifier (multi_signature demo_pos)))"
proof -
  let ?cache = "[pos_info demo_pos \<mapsto> multi_signature demo_pos]"
  let ?pl = "InQuorumStore [demo_pos]"
  have sound: "cache_sound demo_store_crypto demo_verifier ?cache"
    using demo_pos_valid by (auto simp: cache_sound_def split: if_splits)
  have hit: "snd (payload_verify demo_store_crypto ?pl demo_verifier ?cache True) = Ok ()"
    by (simp add: payload_verify_def verify_with_cache_def)
  have wf: "wf_verifier demo_verifier" by (rule vv_new_wf [OF demo_new demo_distinct(1,2)])
  note t = proof_cache_transparent [OF sound wf, of ?pl _ True]
  from t [of UNIV] hit have "snd (payload_verify demo_store_crypto ?pl demo_verifier Map.empty True) = Ok ()"
    and "unat (quorum_voting_power demo_verifier) \<le> sum (vpower demo_verifier) (address ` set (signers_of demo_verifier (multi_signature demo_pos)))"
    by (simp_all add: payload_proofs_def)
  with t [of "{}"] sound hit show ?thesis by (simp add: Let_def)
qed

end
