(* ===== verification/Consensus_Types.thy ===== *)
theory Consensus_Types
  imports Epoch_Change Proof_Of_Store
begin

text \<open>
  The messages of the consensus protocol (\<open>consensus/consensus-types/src\<close>): vote data, quorum certificates, timeouts
  and timeout certificates, blocks, votes, vote proposals, safety data and synchronisation information.

  \<open>consensus_crypto\<close> collects the hash functions and signature operations on these messages. A message derives its
  equality in the code, and so do the records here. \<open>debug_assert!\<close> and \<open>debug_checked_verify!\<close> are compiled out of
  release builds and have no counterpart.
\<close>

section \<open>Vote data\<close>

record vote_data =
  proposed :: block_info
  parent_of :: block_info

definition vd_new :: "block_info \<Rightarrow> block_info \<Rightarrow> vote_data" where
  "vd_new prop par = \<lparr>proposed = prop, parent_of = par\<rparr>"

definition vd_verify :: "vote_data \<Rightarrow> (unit, anyhow) result" where
  "vd_verify self =
     and_then (ensure (bi_epoch (parent_of self) = bi_epoch (proposed self))
       (Msg ''Parent and proposed epochs do not match'')) (\<lambda>_.
     and_then (ensure (bi_round (parent_of self) < bi_round (proposed self))
       (Msg ''Proposed round is less than parent round'')) (\<lambda>_.
     and_then (ensure (bi_timestamp_usecs (parent_of self) \<le> bi_timestamp_usecs (proposed self))
       (Msg ''Proposed happened before parent'')) (\<lambda>_.
     ensure (bi_version (proposed self) = 0 \<or> bi_version (parent_of self) \<le> bi_version (proposed self))
       (Msg ''Proposed version is less than parent version''))))"

definition is_for_nil :: "vote_data \<Rightarrow> bool" where
  "is_for_nil self \<longleftrightarrow> bi_timestamp_usecs (proposed self) = bi_timestamp_usecs (parent_of self)"

section \<open>Quorum certificates\<close>

record quorum_cert =
  qc_vote_data :: vote_data
  signed_ledger_info :: ledger_info_with_signatures

definition qc_new :: "vote_data \<Rightarrow> ledger_info_with_signatures \<Rightarrow> quorum_cert" where
  "qc_new vd lis = \<lparr>qc_vote_data = vd, signed_ledger_info = lis\<rparr>"

abbreviation "certified_block qc \<equiv> proposed (qc_vote_data qc)"
abbreviation "parent_block qc \<equiv> parent_of (qc_vote_data qc)"
abbreviation "qc_li qc \<equiv> lis_ledger_info (signed_ledger_info qc)"
abbreviation "qc_commit_info qc \<equiv> commit_info (qc_li qc)"

definition qc_ends_epoch :: "quorum_cert \<Rightarrow> bool" where
  "qc_ends_epoch self \<longleftrightarrow> ends_epoch (qc_li self)"

record timeout_signing_repr =
  tsr_epoch :: u64
  tsr_round :: round
  tsr_hqc_round :: round

section \<open>Block data\<close>

type_synonym author = account_address
type_synonym validator_transaction = "u8 list"

datatype proposal_ext =
  ProposalExtV0 "validator_transaction list" block_payload author "(round \<times> author) list"

datatype block_type =
    Proposal block_payload author "(round \<times> author) list"
  | NilBlock "(round \<times> author) list"
  | Genesis
  | ProposalExt proposal_ext
  | DAGBlock author "(round \<times> author) list" "validator_transaction list" block_payload "hash_value list" hash_value bit_vec

record block_data =
  bd_epoch :: u64
  bd_round :: round
  bd_timestamp_usecs :: u64
  bd_quorum_cert :: quorum_cert
  bd_block_type :: block_type

record consensus_crypto = quorum_store_crypto +
  vote_data_hash :: "vote_data \<Rightarrow> hash_value"
  block_data_hash :: "block_data \<Rightarrow> hash_value"
  transaction_node_hash :: "hash_value \<Rightarrow> hash_value \<Rightarrow> hash_value"
  bls_public_key :: "private_key \<Rightarrow> public_key"
  bls_sign_li :: "private_key \<Rightarrow> ledger_info \<Rightarrow> signature option"
  bls_verify_block :: "signature \<Rightarrow> block_data \<Rightarrow> public_key \<Rightarrow> bool"
  bls_sign_block :: "private_key \<Rightarrow> block_data \<Rightarrow> signature option"
  bls_verify_timeout :: "signature \<Rightarrow> timeout_signing_repr \<Rightarrow> public_key \<Rightarrow> bool"
  bls_verify_timeouts :: "signature \<Rightarrow> timeout_signing_repr list \<Rightarrow> public_key list \<Rightarrow> bool"
  bls_sign_timeout :: "private_key \<Rightarrow> timeout_signing_repr \<Rightarrow> signature option"

definition certificate_for_genesis_from_ledger_info ::
  "'c consensus_crypto_scheme \<Rightarrow> ledger_info \<Rightarrow> hash_value \<Rightarrow> (quorum_cert, 'e) result" where
  "certificate_for_genesis_from_ledger_info C li genesis_id =
     and_then (unwrap_some (checked_add (li_epoch li) 1)) (\<lambda>epoch.
     let ancestor = bi_new epoch 0 genesis_id (transaction_accumulator_hash li) (li_version li)
           (bi_timestamp_usecs (commit_info li)) None;
         vd = vd_new ancestor ancestor
     in and_then (unwrap_some (li_next_epoch_state li)) (\<lambda>es.
        Ok (qc_new vd (lis_new (li_new ancestor (vote_data_hash C vd))
          (agg_new (with_num_bits (of_nat (vv_len (es_verifier es)))) None)))))"

definition qc_verify :: "'c consensus_crypto_scheme \<Rightarrow> quorum_cert \<Rightarrow> validator_verifier \<Rightarrow> (unit, anyhow) result" where
  "qc_verify C self validator =
     and_then (ensure (consensus_data_hash (qc_li self) = vote_data_hash C (qc_vote_data self))
       (Msg ''Quorum Cert hash mismatch LedgerInfo'')) (\<lambda>_.
     if bi_round (certified_block self) = 0 then
       and_then (ensure (parent_block self = certified_block self)
         (Msg ''Genesis QC has inconsistent parent block with certified block'')) (\<lambda>_.
       and_then (ensure (certified_block self = qc_commit_info self)
         (Msg ''Genesis QC has inconsistent commit block with certified block'')) (\<lambda>_.
       ensure (lis_get_num_voters (signed_ledger_info self) = 0)
         (Msg ''Genesis QC should not carry signatures'')))
     else
       and_then (map_err (Context ''Fail to verify QuorumCert'') (map_err FromVerify
         (lis_verify_signatures C (signed_ledger_info self) validator))) (\<lambda>_.
       vd_verify (qc_vote_data self)))"

definition create_merged_with_executed_state ::
  "quorum_cert \<Rightarrow> ledger_info_with_signatures \<Rightarrow> (quorum_cert, anyhow) result" where
  "create_merged_with_executed_state self executed =
     and_then (ensure (match_ordered_only (qc_commit_info self) (commit_info (lis_ledger_info executed)))
       (Msg ''Block info from QC and executed LI need to match'')) (\<lambda>_.
     Ok (qc_new (qc_vote_data self) executed))"

definition bd_author :: "block_data \<Rightarrow> author option" where
  "bd_author self =
     (case bd_block_type self of
        Proposal _ author _ \<Rightarrow> Some author
      | DAGBlock author _ _ _ _ _ _ \<Rightarrow> Some author
      | ProposalExt (ProposalExtV0 _ _ author _) \<Rightarrow> Some author
      | _ \<Rightarrow> None)"

definition bd_parent_id :: "block_data \<Rightarrow> hash_value" where
  "bd_parent_id self =
     (case bd_block_type self of
        DAGBlock _ _ _ _ _ parent_block_id _ \<Rightarrow> parent_block_id
      | _ \<Rightarrow> bi_id (certified_block (bd_quorum_cert self)))"

definition bd_payload :: "block_data \<Rightarrow> block_payload option" where
  "bd_payload self =
     (case bd_block_type self of
        Proposal pl _ _ \<Rightarrow> Some pl
      | DAGBlock _ _ _ pl _ _ _ \<Rightarrow> Some pl
      | ProposalExt (ProposalExtV0 _ pl _ _) \<Rightarrow> Some pl
      | _ \<Rightarrow> None)"

definition bd_validator_txns :: "block_data \<Rightarrow> validator_transaction list option" where
  "bd_validator_txns self =
     (case bd_block_type self of
        ProposalExt (ProposalExtV0 txns _ _ _) \<Rightarrow> Some txns
      | DAGBlock _ _ txns _ _ _ _ \<Rightarrow> Some txns
      | _ \<Rightarrow> None)"

definition bd_dag_nodes :: "block_data \<Rightarrow> hash_value list option" where
  "bd_dag_nodes self = (case bd_block_type self of DAGBlock _ _ _ _ nodes _ _ \<Rightarrow> Some nodes | _ \<Rightarrow> None)"

definition bd_is_genesis_block :: "block_data \<Rightarrow> bool" where
  "bd_is_genesis_block self \<longleftrightarrow> (case bd_block_type self of Genesis \<Rightarrow> True | _ \<Rightarrow> False)"

definition bd_is_nil_block :: "block_data \<Rightarrow> bool" where
  "bd_is_nil_block self \<longleftrightarrow> (case bd_block_type self of NilBlock _ \<Rightarrow> True | _ \<Rightarrow> False)"

definition bd_failed_authors :: "block_data \<Rightarrow> (round \<times> author) list option" where
  "bd_failed_authors self =
     (case bd_block_type self of
        Proposal _ _ failed \<Rightarrow> Some failed
      | NilBlock failed \<Rightarrow> Some failed
      | DAGBlock _ failed _ _ _ _ _ \<Rightarrow> Some failed
      | ProposalExt (ProposalExtV0 _ _ _ failed) \<Rightarrow> Some failed
      | Genesis \<Rightarrow> None)"

definition bd_new_genesis :: "u64 \<Rightarrow> quorum_cert \<Rightarrow> (block_data, 'e) result" where
  "bd_new_genesis timestamp_usecs qc =
     and_then (add_p (bi_epoch (certified_block qc)) 1) (\<lambda>epoch.
     Ok \<lparr>bd_epoch = epoch, bd_round = 0, bd_timestamp_usecs = timestamp_usecs, bd_quorum_cert = qc,
         bd_block_type = Genesis\<rparr>)"

definition bd_new_genesis_from_ledger_info :: "ledger_info \<Rightarrow> (block_data, 'e) result" where
  "bd_new_genesis_from_ledger_info li =
     and_then (assert_p (ends_epoch li)) (\<lambda>_.
     let ancestor = bi_new (li_epoch li) 0 0 (transaction_accumulator_hash li) (li_version li)
           (bi_timestamp_usecs (commit_info li)) None;
         genesis_quorum_cert = qc_new (vd_new ancestor ancestor) (lis_new (li_new ancestor 0) agg_empty)
     in bd_new_genesis (bi_timestamp_usecs (commit_info li)) genesis_quorum_cert)"

definition bd_new_nil :: "round \<Rightarrow> quorum_cert \<Rightarrow> (round \<times> author) list \<Rightarrow> block_data" where
  "bd_new_nil round qc failed_authors =
     \<lparr>bd_epoch = bi_epoch (certified_block qc), bd_round = round,
      bd_timestamp_usecs = bi_timestamp_usecs (certified_block qc), bd_quorum_cert = qc,
      bd_block_type = NilBlock failed_authors\<rparr>"

definition bd_new_for_dag ::
  "u64 \<Rightarrow> round \<Rightarrow> u64 \<Rightarrow> validator_transaction list \<Rightarrow> block_payload \<Rightarrow> author \<Rightarrow> (round \<times> author) list \<Rightarrow>
   hash_value \<Rightarrow> bit_vec \<Rightarrow> hash_value list \<Rightarrow> block_data" where
  "bd_new_for_dag epoch round timestamp_usecs validator_txns pl author failed_authors parent_block_id parents_bitvec
     node_digests =
     \<lparr>bd_epoch = epoch, bd_round = round, bd_timestamp_usecs = timestamp_usecs,
      bd_quorum_cert = qc_new (vd_new bi_empty bi_empty)
        (lis_new (li_new bi_empty 0) (agg_new \<lparr>inner = []\<rparr> None)),
      bd_block_type = DAGBlock author failed_authors validator_txns pl node_digests parent_block_id parents_bitvec\<rparr>"

definition bd_new_proposal ::
  "block_payload \<Rightarrow> author \<Rightarrow> (round \<times> author) list \<Rightarrow> round \<Rightarrow> u64 \<Rightarrow> quorum_cert \<Rightarrow> block_data" where
  "bd_new_proposal pl author failed_authors round timestamp_usecs qc =
     \<lparr>bd_epoch = bi_epoch (certified_block qc), bd_round = round, bd_timestamp_usecs = timestamp_usecs,
      bd_quorum_cert = qc, bd_block_type = Proposal pl author failed_authors\<rparr>"

definition bd_new_proposal_ext ::
  "validator_transaction list \<Rightarrow> block_payload \<Rightarrow> author \<Rightarrow> (round \<times> author) list \<Rightarrow> round \<Rightarrow> u64 \<Rightarrow> quorum_cert \<Rightarrow>
   block_data" where
  "bd_new_proposal_ext validator_txns pl author failed_authors round timestamp_usecs qc =
     \<lparr>bd_epoch = bi_epoch (certified_block qc), bd_round = round, bd_timestamp_usecs = timestamp_usecs,
      bd_quorum_cert = qc, bd_block_type = ProposalExt (ProposalExtV0 validator_txns pl author failed_authors)\<rparr>"

definition is_reconfiguration_suffix :: "block_data \<Rightarrow> bool" where
  "is_reconfiguration_suffix self \<longleftrightarrow> has_reconfiguration (certified_block (bd_quorum_cert self))"

section \<open>Timeouts\<close>

record two_chain_timeout =
  to_epoch :: u64
  to_round :: round
  to_quorum_cert :: quorum_cert

definition to_new :: "u64 \<Rightarrow> round \<Rightarrow> quorum_cert \<Rightarrow> two_chain_timeout" where
  "to_new epoch round qc = \<lparr>to_epoch = epoch, to_round = round, to_quorum_cert = qc\<rparr>"

definition hqc_round :: "two_chain_timeout \<Rightarrow> round" where
  "hqc_round self = bi_round (certified_block (to_quorum_cert self))"

definition signing_format :: "two_chain_timeout \<Rightarrow> timeout_signing_repr" where
  "signing_format self = \<lparr>tsr_epoch = to_epoch self, tsr_round = to_round self, tsr_hqc_round = hqc_round self\<rparr>"

definition to_sign :: "'c consensus_crypto_scheme \<Rightarrow> two_chain_timeout \<Rightarrow> validator_signer \<Rightarrow> signature option" where
  "to_sign C self signer = signer_sign (bls_sign_timeout C) signer (signing_format self)"

definition to_verify :: "'c consensus_crypto_scheme \<Rightarrow> two_chain_timeout \<Rightarrow> validator_verifier \<Rightarrow> (unit, anyhow) result" where
  "to_verify C self validators =
     and_then (ensure (hqc_round self < to_round self) (Msg ''Timeout round should be larger than the QC round'')) (\<lambda>_.
     qc_verify C (to_quorum_cert self) validators)"

record aggregate_signature_with_rounds =
  asr_sig :: aggregate_signature
  asr_rounds :: "round list"

definition asr_new :: "aggregate_signature \<Rightarrow> round list \<Rightarrow> (aggregate_signature_with_rounds, 'e) result" where
  "asr_new sig rounds =
     and_then (assert_p (get_num_voters sig = length rounds)) (\<lambda>_. Ok \<lparr>asr_sig = sig, asr_rounds = rounds\<rparr>)"

definition asr_empty :: aggregate_signature_with_rounds where
  "asr_empty = \<lparr>asr_sig = agg_empty, asr_rounds = []\<rparr>"

definition get_voters_and_rounds ::
  "aggregate_signature_with_rounds \<Rightarrow> account_address list \<Rightarrow> (account_address \<times> round) list" where
  "get_voters_and_rounds self addresses = zip (get_signers_addresses (asr_sig self) addresses) (asr_rounds self)"

record two_chain_timeout_certificate =
  tc_timeout :: two_chain_timeout
  signatures_with_rounds :: aggregate_signature_with_rounds

definition tc_new :: "two_chain_timeout \<Rightarrow> two_chain_timeout_certificate" where
  "tc_new timeout = \<lparr>tc_timeout = timeout, signatures_with_rounds = asr_empty\<rparr>"

abbreviation "tc_epoch tc \<equiv> to_epoch (tc_timeout tc)"
abbreviation "tc_round tc \<equiv> to_round (tc_timeout tc)"
abbreviation "highest_hqc_round tc \<equiv> hqc_round (tc_timeout tc)"

definition max_round :: "round list \<Rightarrow> round option" where
  "max_round rounds = (case rounds of [] \<Rightarrow> None | r # rs \<Rightarrow> Some (fold max rs r))"

definition tc_messages :: "two_chain_timeout_certificate \<Rightarrow> validator_verifier \<Rightarrow> timeout_signing_repr list" where
  "tc_messages self validators =
     map (\<lambda>(_, round). \<lparr>tsr_epoch = tc_epoch self, tsr_round = tc_round self, tsr_hqc_round = round\<rparr>)
       (get_voters_and_rounds (signatures_with_rounds self) (get_ordered_account_addresses validators))"

definition tc_verify ::
  "'c consensus_crypto_scheme \<Rightarrow> two_chain_timeout_certificate \<Rightarrow> validator_verifier \<Rightarrow> (unit, anyhow) result" where
  "tc_verify C self validators =
     and_then (to_verify C (tc_timeout self) validators) (\<lambda>_.
     and_then (map_err FromVerify (verify_aggregate_signatures (bls_verify_timeouts C) validators
       (tc_messages self validators) (asr_sig (signatures_with_rounds self)))) (\<lambda>_.
     and_then (unwrap_some (max_round (asr_rounds (signatures_with_rounds self)))) (\<lambda>signed_hqc.
     ensure (highest_hqc_round self = signed_hqc) (Msg ''Inconsistent hqc round''))))"

text \<open>\<open>PartialSignaturesWithRound\<close>: an ordered map, as an association list in ascending order of the address.\<close>

type_synonym partial_signatures_with_round = "(account_address \<times> (round \<times> signature)) list"

fun psr_add_signature ::
  "partial_signatures_with_round \<Rightarrow> account_address \<Rightarrow> round \<Rightarrow> signature \<Rightarrow> partial_signatures_with_round" where
  "psr_add_signature [] validator round sig = [(validator, (round, sig))]"
| "psr_add_signature ((a, x) # rest) validator round sig =
     (if a = validator then (a, x) # rest
      else if validator < a then (validator, (round, sig)) # (a, x) # rest
      else (a, x) # psr_add_signature rest validator round sig)"

definition get_partial_sig_with_rounds ::
  "partial_signatures_with_round \<Rightarrow> (account_address \<rightharpoonup> nat) \<Rightarrow> partial_signatures \<times> round list" where
  "get_partial_sig_with_rounds self index_of =
     (let (partial, index_to_rounds) =
        fold (\<lambda>(address, (round, sig)) (partial, rounds).
          case index_of address of
            Some index \<Rightarrow> (ps_add_signature partial address sig, btree_insert index round rounds)
          | None \<Rightarrow> (partial, rounds)) self ([], [])
      in (partial, map snd index_to_rounds))"

record two_chain_timeout_with_partial_signatures =
  tps_timeout :: two_chain_timeout
  tps_signatures :: partial_signatures_with_round

definition tps_new :: "two_chain_timeout \<Rightarrow> two_chain_timeout_with_partial_signatures" where
  "tps_new timeout = \<lparr>tps_timeout = timeout, tps_signatures = []\<rparr>"

definition tps_signers :: "two_chain_timeout_with_partial_signatures \<Rightarrow> author list" where
  "tps_signers self = map fst (tps_signatures self)"

definition tps_add ::
  "two_chain_timeout_with_partial_signatures \<Rightarrow> author \<Rightarrow> two_chain_timeout \<Rightarrow> signature \<Rightarrow>
   two_chain_timeout_with_partial_signatures" where
  "tps_add self author timeout sig =
     \<lparr>tps_timeout = (if hqc_round timeout > hqc_round (tps_timeout self) then timeout else tps_timeout self),
      tps_signatures = psr_add_signature (tps_signatures self) author (hqc_round timeout) sig\<rparr>"

definition tps_aggregate_signatures ::
  "'c consensus_crypto_scheme \<Rightarrow> two_chain_timeout_with_partial_signatures \<Rightarrow> validator_verifier \<Rightarrow>
   (two_chain_timeout_certificate, verify_error) result" where
  "tps_aggregate_signatures C self verifier =
     (let (partial_sig, ordered_rounds) =
        get_partial_sig_with_rounds (tps_signatures self) (address_to_validator_index verifier)
      in and_then (aggregate_signatures (bls_sig_aggregate C) verifier partial_sig) (\<lambda>aggregated_sig.
         and_then (asr_new aggregated_sig ordered_rounds) (\<lambda>sigs.
         Ok \<lparr>tc_timeout = tps_timeout self, signatures_with_rounds = sigs\<rparr>)))"

section \<open>Votes\<close>

record vote =
  vote_vote_data :: vote_data
  vote_author :: author
  vote_ledger_info :: ledger_info
  vote_signature :: signature
  vote_two_chain_timeout :: "(two_chain_timeout \<times> signature) option"

definition vote_new_with_signature :: "vote_data \<Rightarrow> author \<Rightarrow> ledger_info \<Rightarrow> signature \<Rightarrow> vote" where
  "vote_new_with_signature vd author li sig =
     \<lparr>vote_vote_data = vd, vote_author = author, vote_ledger_info = li, vote_signature = sig,
      vote_two_chain_timeout = None\<rparr>"

definition vote_new ::
  "'c consensus_crypto_scheme \<Rightarrow> vote_data \<Rightarrow> author \<Rightarrow> ledger_info \<Rightarrow> validator_signer \<Rightarrow> vote option" where
  "vote_new C vd author ledger_info_placeholder signer =
     (let li = set_consensus_data_hash ledger_info_placeholder (vote_data_hash C vd)
      in map_option (vote_new_with_signature vd author li) (signer_sign (bls_sign_li C) signer li))"

definition add_2chain_timeout :: "vote \<Rightarrow> two_chain_timeout \<Rightarrow> signature \<Rightarrow> vote" where
  "add_2chain_timeout self timeout sig = self\<lparr>vote_two_chain_timeout := Some (timeout, sig)\<rparr>"

abbreviation "vote_epoch v \<equiv> bi_epoch (proposed (vote_vote_data v))"
abbreviation "vote_round v \<equiv> bi_round (proposed (vote_vote_data v))"

definition generate_2chain_timeout :: "vote \<Rightarrow> quorum_cert \<Rightarrow> two_chain_timeout" where
  "generate_2chain_timeout self qc = to_new (vote_epoch self) (vote_round self) qc"

definition is_timeout :: "vote \<Rightarrow> bool" where
  "is_timeout self \<longleftrightarrow> vote_two_chain_timeout self \<noteq> None"

definition vote_verify :: "'c consensus_crypto_scheme \<Rightarrow> vote \<Rightarrow> validator_verifier \<Rightarrow> (unit, anyhow) result" where
  "vote_verify C self validator =
     and_then (ensure (consensus_data_hash (vote_ledger_info self) = vote_data_hash C (vote_vote_data self))
       (Msg ''Vote hash mismatch with LedgerInfo'')) (\<lambda>_.
     and_then (map_err (Context ''Failed to verify Vote'') (map_err FromVerify
       (vv_verify (bls_verify_li C) validator (vote_author self) (vote_ledger_info self) (vote_signature self)))) (\<lambda>_.
     and_then (case vote_two_chain_timeout self of
         None \<Rightarrow> Ok ()
       | Some (timeout, sig) \<Rightarrow>
           and_then (ensure (to_epoch timeout = vote_epoch self \<and> to_round timeout = vote_round self)
             (Msg ''2-chain timeout has different (epoch, round) than Vote'')) (\<lambda>_.
           and_then (to_verify C timeout validator) (\<lambda>_.
           map_err (Context ''Failed to verify 2-chain timeout signature'') (map_err FromVerify
             (vv_verify (bls_verify_timeout C) validator (vote_author self) (signing_format timeout) sig))))) (\<lambda>_.
     vd_verify (vote_vote_data self))))"

section \<open>Safety data\<close>

record safety_data =
  sd_epoch :: u64
  last_voted_round :: round
  preferred_round :: round
  one_chain_round :: round
  last_vote :: "vote option"

definition sd_new :: "u64 \<Rightarrow> round \<Rightarrow> round \<Rightarrow> round \<Rightarrow> vote option \<Rightarrow> safety_data" where
  "sd_new epoch voted preferred one_chain vote =
     \<lparr>sd_epoch = epoch, last_voted_round = voted, preferred_round = preferred, one_chain_round = one_chain,
      last_vote = vote\<rparr>"

end
