(* ===== verification/Blocks.thy ===== *)
theory Blocks
  imports Consensus_Types
begin

text \<open>
  Blocks, vote proposals and synchronisation information (\<open>block.rs\<close>, \<open>vote_proposal.rs\<close> and \<open>sync_info.rs\<close> of
  \<open>consensus/consensus-types/src\<close>): how a block is built, signed and checked, and the vote data that execution or
  ordering attaches to it. The wall clock is an argument of the well-formedness check.
\<close>

section \<open>Blocks\<close>

record block =
  block_id :: hash_value
  block_data_of :: block_data
  block_signature :: "signature option"

abbreviation "block_round b \<equiv> bd_round (block_data_of b)"
abbreviation "block_epoch b \<equiv> bd_epoch (block_data_of b)"
abbreviation "block_qc b \<equiv> bd_quorum_cert (block_data_of b)"

definition payload_size :: "block \<Rightarrow> nat" where
  "payload_size self =
     (case bd_payload (block_data_of self) of
        None \<Rightarrow> 0
      | Some (InQuorumStore proofs) \<Rightarrow> length proofs
      | Some (DirectMempool _) \<Rightarrow> 0
      | Some (InQuorumStoreWithLimit proofs _) \<Rightarrow> length proofs
      | Some (QuorumStoreInlineHybrid inline proofs _) \<Rightarrow> length inline + length proofs)"

definition gen_block_info :: "block \<Rightarrow> hash_value \<Rightarrow> version \<Rightarrow> epoch_state option \<Rightarrow> block_info" where
  "gen_block_info self executed_state_id ver next_epoch_state =
     bi_new (block_epoch self) (block_round self) (block_id self) executed_state_id ver
       (bd_timestamp_usecs (block_data_of self)) next_epoch_state"

definition make_genesis_block_from_ledger_info ::
  "'c consensus_crypto_scheme \<Rightarrow> ledger_info \<Rightarrow> (block, 'e) result" where
  "make_genesis_block_from_ledger_info C li =
     map_ok (\<lambda>bd. \<lparr>block_id = block_data_hash C bd, block_data_of = bd, block_signature = None\<rparr>)
       (bd_new_genesis_from_ledger_info li)"

definition block_new_nil ::
  "'c consensus_crypto_scheme \<Rightarrow> round \<Rightarrow> quorum_cert \<Rightarrow> (round \<times> author) list \<Rightarrow> block" where
  "block_new_nil C round qc failed_authors =
     (let bd = bd_new_nil round qc failed_authors
      in \<lparr>block_id = block_data_hash C bd, block_data_of = bd, block_signature = None\<rparr>)"

definition block_new_for_dag ::
  "'c consensus_crypto_scheme \<Rightarrow> u64 \<Rightarrow> round \<Rightarrow> u64 \<Rightarrow> validator_transaction list \<Rightarrow> block_payload \<Rightarrow> author \<Rightarrow>
   (round \<times> author) list \<Rightarrow> hash_value \<Rightarrow> bit_vec \<Rightarrow> hash_value list \<Rightarrow> block" where
  "block_new_for_dag C epoch round timestamp validator_txns pl author failed_authors parent_block_id parents_bitvec
     node_digests =
     (let bd = bd_new_for_dag epoch round timestamp validator_txns pl author failed_authors parent_block_id
            parents_bitvec node_digests
      in \<lparr>block_id = block_data_hash C bd, block_data_of = bd, block_signature = None\<rparr>)"

definition new_proposal_from_block_data_and_signature ::
  "'c consensus_crypto_scheme \<Rightarrow> block_data \<Rightarrow> signature \<Rightarrow> block" where
  "new_proposal_from_block_data_and_signature C bd sig =
     \<lparr>block_id = block_data_hash C bd, block_data_of = bd, block_signature = Some sig\<rparr>"

definition new_proposal_from_block_data ::
  "'c consensus_crypto_scheme \<Rightarrow> block_data \<Rightarrow> validator_signer \<Rightarrow> block option" where
  "new_proposal_from_block_data C bd signer =
     map_option (new_proposal_from_block_data_and_signature C bd) (signer_sign (bls_sign_block C) signer bd)"

definition block_new_proposal ::
  "'c consensus_crypto_scheme \<Rightarrow> block_payload \<Rightarrow> round \<Rightarrow> u64 \<Rightarrow> quorum_cert \<Rightarrow> validator_signer \<Rightarrow>
   (round \<times> author) list \<Rightarrow> block option" where
  "block_new_proposal C pl round timestamp_usecs qc signer failed_authors =
     new_proposal_from_block_data C
       (bd_new_proposal pl (signer_author signer) failed_authors round timestamp_usecs qc) signer"

definition block_new_proposal_ext ::
  "'c consensus_crypto_scheme \<Rightarrow> validator_transaction list \<Rightarrow> block_payload \<Rightarrow> round \<Rightarrow> u64 \<Rightarrow> quorum_cert \<Rightarrow>
   validator_signer \<Rightarrow> (round \<times> author) list \<Rightarrow> block option" where
  "block_new_proposal_ext C validator_txns pl round timestamp_usecs qc signer failed_authors =
     new_proposal_from_block_data C
       (bd_new_proposal_ext validator_txns pl (signer_author signer) failed_authors round timestamp_usecs qc) signer"

text \<open>Deserialisation recomputes the identifier from the block data.\<close>

definition block_deserialize :: "'c consensus_crypto_scheme \<Rightarrow> block_data \<Rightarrow> signature option \<Rightarrow> block" where
  "block_deserialize C bd sig = \<lparr>block_id = block_data_hash C bd, block_data_of = bd, block_signature = sig\<rparr>"

definition validate_signed ::
  "'c consensus_crypto_scheme \<Rightarrow> block \<Rightarrow> author \<Rightarrow> validator_verifier \<Rightarrow> (unit, anyhow) result" where
  "validate_signed C self author validator =
     and_then (ok_or (Msg ''Missing signature in Proposal'') (block_signature self)) (\<lambda>sig.
     and_then (map_err FromVerify (vv_verify (bls_verify_block C) validator author (block_data_of self) sig)) (\<lambda>_.
     qc_verify C (block_qc self) validator))"

definition validate_signature ::
  "'c consensus_crypto_scheme \<Rightarrow> block \<Rightarrow> validator_verifier \<Rightarrow> (unit, anyhow) result" where
  "validate_signature C self validator =
     (case bd_block_type (block_data_of self) of
        Genesis \<Rightarrow> Err (Msg ''We should not accept genesis from others'')
      | NilBlock _ \<Rightarrow> qc_verify C (block_qc self) validator
      | Proposal _ author _ \<Rightarrow> validate_signed C self author validator
      | ProposalExt (ProposalExtV0 _ _ author _) \<Rightarrow> validate_signed C self author validator
      | DAGBlock _ _ _ _ _ _ _ \<Rightarrow> Err (Msg ''We should not accept DAG block from others''))"

fun check_failed_rounds :: "round \<Rightarrow> round \<Rightarrow> (round \<times> author) list \<Rightarrow> (unit, anyhow) result" where
  "check_failed_rounds bound succ_round [] = Ok ()"
| "check_failed_rounds bound succ_round ((round, _) # rest) =
     and_then (ensure (bound < round \<and> round < succ_round) (Msg ''Incorrect round in failed authors'')) (\<lambda>_.
     check_failed_rounds round succ_round rest)"

definition TIMEBOUND :: u64 where
  "TIMEBOUND = 300000000"

definition check_failed_authors :: "block \<Rightarrow> (unit, anyhow) result" where
  "check_failed_authors self =
     (let parent_round = bi_round (certified_block (block_qc self)) in
      case bd_failed_authors (block_data_of self) of
        None \<Rightarrow> Ok ()
      | Some failed_authors \<Rightarrow>
          and_then (add_p (block_round self) (if bd_is_nil_block (block_data_of self) then 1 else 0)) (\<lambda>succ_round.
          and_then (add_p parent_round 1) (\<lambda>after_parent.
          and_then (ok_or (Msg ''Block round is smaller than the round of its parent'')
            (checked_sub succ_round after_parent)) (\<lambda>skipped_rounds.
          and_then (ensure (length failed_authors \<le> unat skipped_rounds)
            (Msg ''Block has more failed authors than missed rounds'')) (\<lambda>_.
          check_failed_rounds parent_round succ_round failed_authors)))))"

definition check_timestamp :: "u64 \<Rightarrow> block \<Rightarrow> (unit, anyhow) result" where
  "check_timestamp now_usecs self =
     (let par = certified_block (block_qc self); timestamp = bd_timestamp_usecs (block_data_of self) in
      if bd_is_nil_block (block_data_of self) \<or> has_reconfiguration par then
        ensure (timestamp = bi_timestamp_usecs par)
          (Msg ''Nil/reconfig suffix block must have same timestamp as parent'')
      else
        and_then (ensure (bi_timestamp_usecs par < timestamp)
          (Msg ''Blocks must have strictly increasing timestamps'')) (\<lambda>_.
        ensure (timestamp \<le> saturating_add now_usecs TIMEBOUND)
          (Msg ''Blocks must not be too far in the future'')))"

definition verify_well_formed :: "u64 \<Rightarrow> block \<Rightarrow> (unit, anyhow) result" where
  "verify_well_formed now_usecs self =
     (let par = certified_block (block_qc self) in
      and_then (ensure (\<not> bd_is_genesis_block (block_data_of self)) (Msg ''We must not accept genesis from others'')) (\<lambda>_.
      and_then (ensure (bi_round par < block_round self)
        (Msg ''Block must have a greater round than the block of its parent'')) (\<lambda>_.
      and_then (ensure (bi_epoch par = block_epoch self) (Msg ''block and its parent should be in the same epoch'')) (\<lambda>_.
      and_then (ensure (has_reconfiguration par \<longrightarrow>
          (case bd_payload (block_data_of self) of None \<Rightarrow> True | Some p \<Rightarrow> payload_is_empty p))
        (Msg ''Reconfiguration suffix should not carry payload'')) (\<lambda>_.
      and_then (check_failed_authors self) (\<lambda>_.
      and_then (check_timestamp now_usecs self) (\<lambda>_.
      ensure (\<not> qc_ends_epoch (block_qc self))
        (Msg ''Block cannot be proposed in an epoch that has ended''))))))))"

definition previous_bitvec :: "block \<Rightarrow> bit_vec" where
  "previous_bitvec self =
     (case bd_block_type (block_data_of self) of
        DAGBlock _ _ _ _ _ _ parents_bitvec \<Rightarrow> parents_bitvec
      | _ \<Rightarrow> validator_bitmask (lis_signatures (signed_ledger_info (block_qc self))))"

fun position_of :: "account_address list \<Rightarrow> account_address \<Rightarrow> nat option" where
  "position_of [] a = None"
| "position_of (v # vs) a = (if v = a then Some 0 else map_option Suc (position_of vs a))"

fun failed_authors_to_indices ::
  "account_address list \<Rightarrow> (round \<times> author) list \<Rightarrow> (u32 list, 'e) result" where
  "failed_authors_to_indices validators [] = Ok []"
| "failed_authors_to_indices validators ((_, failed_author) # rest) =
     and_then (unwrap_some (position_of validators failed_author)) (\<lambda>index.
     and_then (assert_p (index < 2 ^ 32)) (\<lambda>_.
     and_then (failed_authors_to_indices validators rest) (\<lambda>indices.
     Ok (of_nat index # indices))))"

record block_metadata =
  bm_id :: hash_value
  bm_epoch :: u64
  bm_round :: round
  bm_proposer :: account_address
  bm_previous_block_votes_bitvec :: bit_vec
  bm_failed_proposer_indices :: "u32 list"
  bm_timestamp_usecs :: u64

definition new_block_metadata :: "block \<Rightarrow> account_address list \<Rightarrow> (block_metadata, 'e) result" where
  "new_block_metadata self validators =
     and_then (case bd_failed_authors (block_data_of self) of
         None \<Rightarrow> Ok []
       | Some failed \<Rightarrow> failed_authors_to_indices validators failed) (\<lambda>indices.
     Ok \<lparr>bm_id = block_id self, bm_epoch = block_epoch self, bm_round = block_round self,
         bm_proposer = (case bd_author (block_data_of self) of None \<Rightarrow> 0 | Some a \<Rightarrow> a),
         bm_previous_block_votes_bitvec = previous_bitvec self, bm_failed_proposer_indices = indices,
         bm_timestamp_usecs = bd_timestamp_usecs (block_data_of self)\<rparr>)"

section \<open>Vote proposals\<close>

record vote_proposal =
  vp_accumulator_extension_proof :: "hash_value accumulator_extension_proof"
  vp_block :: block
  vp_next_epoch_state :: "epoch_state option"
  vp_decoupled_execution :: bool

definition vote_data_ordering_only :: "vote_proposal \<Rightarrow> vote_data" where
  "vote_data_ordering_only self =
     vd_new (gen_block_info (vp_block self) ACCUMULATOR_PLACEHOLDER_HASH 0 (vp_next_epoch_state self))
       (certified_block (block_qc (vp_block self)))"

definition vote_data_with_extension_proof :: "vote_proposal \<Rightarrow> hash_value in_memory_accumulator \<Rightarrow> vote_data" where
  "vote_data_with_extension_proof self new_tree =
     vd_new (gen_block_info (vp_block self) (root_hash new_tree) (acc_version new_tree) (vp_next_epoch_state self))
       (certified_block (block_qc (vp_block self)))"

definition gen_vote_data :: "'c consensus_crypto_scheme \<Rightarrow> vote_proposal \<Rightarrow> (vote_data, anyhow) result" where
  "gen_vote_data C self =
     (if vp_decoupled_execution self then Ok (vote_data_ordering_only self)
      else and_then (extension_proof_verify (transaction_hasher (transaction_node_hash C))
             (vp_accumulator_extension_proof self) (bi_executed_state_id (certified_block (block_qc (vp_block self)))))
           (\<lambda>new_tree. Ok (vote_data_with_extension_proof self new_tree)))"

section \<open>Synchronisation information\<close>

record sync_info =
  highest_quorum_cert :: quorum_cert
  si_highest_ordered_cert :: "quorum_cert option"
  highest_commit_cert :: quorum_cert
  highest_2chain_timeout_cert :: "two_chain_timeout_certificate option"

definition si_new_decoupled ::
  "quorum_cert \<Rightarrow> quorum_cert \<Rightarrow> quorum_cert \<Rightarrow> two_chain_timeout_certificate option \<Rightarrow> sync_info" where
  "si_new_decoupled hqc hoc hcc htc =
     \<lparr>highest_quorum_cert = hqc,
      si_highest_ordered_cert = (if hoc \<noteq> hqc then Some hoc else None),
      highest_commit_cert = hcc,
      highest_2chain_timeout_cert =
        (case htc of Some tc \<Rightarrow> if tc_round tc > bi_round (certified_block hqc) then Some tc else None | None \<Rightarrow> None)\<rparr>"

definition si_new :: "quorum_cert \<Rightarrow> quorum_cert \<Rightarrow> two_chain_timeout_certificate option \<Rightarrow> sync_info" where
  "si_new hqc hoc htc = si_new_decoupled hqc hoc hoc htc"

definition highest_ordered_cert :: "sync_info \<Rightarrow> quorum_cert" where
  "highest_ordered_cert self =
     (case si_highest_ordered_cert self of None \<Rightarrow> highest_quorum_cert self | Some c \<Rightarrow> c)"

definition highest_certified_round :: "sync_info \<Rightarrow> round" where
  "highest_certified_round self = bi_round (certified_block (highest_quorum_cert self))"

definition highest_timeout_round :: "sync_info \<Rightarrow> round" where
  "highest_timeout_round self = (case highest_2chain_timeout_cert self of None \<Rightarrow> 0 | Some tc \<Rightarrow> tc_round tc)"

definition highest_ordered_round :: "sync_info \<Rightarrow> round" where
  "highest_ordered_round self = bi_round (qc_commit_info (highest_ordered_cert self))"

definition highest_commit_round :: "sync_info \<Rightarrow> round" where
  "highest_commit_round self = bi_round (qc_commit_info (highest_commit_cert self))"

definition highest_round :: "sync_info \<Rightarrow> round" where
  "highest_round self = max (highest_certified_round self) (highest_timeout_round self)"

definition si_epoch :: "sync_info \<Rightarrow> u64" where
  "si_epoch self = bi_epoch (certified_block (highest_quorum_cert self))"

definition si_verify_certs :: "'c consensus_crypto_scheme \<Rightarrow> sync_info \<Rightarrow> validator_verifier \<Rightarrow> (unit, anyhow) result" where
  "si_verify_certs C self validator =
     and_then (qc_verify C (highest_quorum_cert self) validator) (\<lambda>_.
     and_then (case si_highest_ordered_cert self of None \<Rightarrow> Ok () | Some cert \<Rightarrow> qc_verify C cert validator) (\<lambda>_.
     and_then (if bi_round (qc_commit_info (highest_commit_cert self)) > 0
       then qc_verify C (highest_commit_cert self) validator else Ok ()) (\<lambda>_.
     case highest_2chain_timeout_cert self of None \<Rightarrow> Ok () | Some tc \<Rightarrow> tc_verify C tc validator)))"

definition si_verify :: "'c consensus_crypto_scheme \<Rightarrow> sync_info \<Rightarrow> validator_verifier \<Rightarrow> (unit, anyhow) result" where
  "si_verify C self validator =
     (let epoch = si_epoch self in
      and_then (ensure (epoch = bi_epoch (certified_block (highest_ordered_cert self)))
        (Msg ''Multi epoch in SyncInfo - HOC and HQC'')) (\<lambda>_.
      and_then (ensure (epoch = bi_epoch (qc_commit_info (highest_commit_cert self)))
        (Msg ''Multi epoch in SyncInfo - HOC and HCC'')) (\<lambda>_.
      and_then (ensure (case highest_2chain_timeout_cert self of None \<Rightarrow> True | Some tc \<Rightarrow> epoch = tc_epoch tc)
        (Msg ''Multi epoch in SyncInfo - TC and HQC'')) (\<lambda>_.
      and_then (ensure (bi_round (certified_block (highest_quorum_cert self)) \<ge> bi_round (certified_block (highest_ordered_cert self)))
        (Msg ''HQC has lower round than HOC'')) (\<lambda>_.
      and_then (ensure (bi_round (certified_block (highest_ordered_cert self)) \<ge> highest_commit_round self)
        (Msg ''HOC has lower round than HLI'')) (\<lambda>_.
      and_then (ensure (qc_commit_info (highest_ordered_cert self) \<noteq> bi_empty) (Msg ''HOC has no committed block'')) (\<lambda>_.
      and_then (ensure (qc_commit_info (highest_commit_cert self) \<noteq> bi_empty) (Msg ''HLI has empty commit info'')) (\<lambda>_.
      map_err (Context ''Fail to verify SyncInfo'') (si_verify_certs C self validator)))))))))"

definition has_newer_certificates :: "sync_info \<Rightarrow> sync_info \<Rightarrow> bool" where
  "has_newer_certificates self other \<longleftrightarrow>
     highest_certified_round self > highest_certified_round other \<or>
     highest_timeout_round self > highest_timeout_round other \<or>
     highest_ordered_round self > highest_ordered_round other \<or>
     highest_commit_round self > highest_commit_round other"

end
