(* ===== verification/Safety_Storage.thy ===== *)
theory Safety_Storage
  imports Blocks
begin

text \<open>
  The persistent state behind the safety rules: \<open>consensus/safety-rules/src/persistent_safety_storage.rs\<close> on top of
  the key/value interface \<open>secure/storage/src/kv_storage.rs\<close>, with the errors of both crates.

  The backends (memory, file, Vault) differ in how a call fails, so the store carries the answers of the backend to
  the calls to come: a call is served, fails without effect, or fails after its write took effect (a reply that is
  lost on the way). No answer left means the call is served. The safety data is read back through its stored form, a
  JSON value, because the code reads it at two different types; the other values are read back at the type they were
  written with.
\<close>

section \<open>Operations that update a state and may fail\<close>

type_synonym ('s, 'a, 'e) op = "'s \<Rightarrow> ('a, 'e) result \<times> 's"

definition bind_op :: "('s, 'a, 'e) op \<Rightarrow> ('a \<Rightarrow> ('s, 'b, 'e) op) \<Rightarrow> ('s, 'b, 'e) op" where
  "bind_op m f s = (case m s of (Ok x, s') \<Rightarrow> f x s' | (Err e, s') \<Rightarrow> (Err e, s') | (Panic, s') \<Rightarrow> (Panic, s'))"

definition lift_op :: "('a, 'e) result \<Rightarrow> ('s, 'a, 'e) op" where
  "lift_op r s = (r, s)"

definition gets_op :: "('s \<Rightarrow> ('a, 'e) result) \<Rightarrow> ('s, 'a, 'e) op" where
  "gets_op f s = (f s, s)"

definition modify_op :: "('s \<Rightarrow> 's) \<Rightarrow> ('s, unit, 'e) op" where
  "modify_op f s = (Ok (), f s)"

definition map_err_op :: "('e \<Rightarrow> ('a, 'f) result) \<Rightarrow> ('s, 'a, 'e) op \<Rightarrow> ('s, 'a, 'f) op" where
  "map_err_op f m s = (case m s of (Ok x, s') \<Rightarrow> (Ok x, s') | (Err e, s') \<Rightarrow> (f e, s') | (Panic, s') \<Rightarrow> (Panic, s'))"

named_theorems op_simps \<open>success of composed operations\<close>

lemma bind_op_Ok [op_simps]:
  "bind_op m f s = (Ok y, s') \<longleftrightarrow> (\<exists>x s1. m s = (Ok x, s1) \<and> f x s1 = (Ok y, s'))"
  by (auto simp: bind_op_def split: prod.splits result.splits)

lemma lift_op_Ok [op_simps]: "lift_op r s = (Ok y, s') \<longleftrightarrow> r = Ok y \<and> s' = s"
  by (auto simp: lift_op_def)

lemma gets_op_Ok [op_simps]: "gets_op f s = (Ok y, s') \<longleftrightarrow> f s = Ok y \<and> s' = s"
  by (auto simp: gets_op_def)

lemma modify_op_Ok [op_simps]: "modify_op f s = (Ok u, s') \<longleftrightarrow> s' = f s"
  by (auto simp: modify_op_def)

lemma bind_op_eq [simp]:
  "m s = (Ok x, s1) \<Longrightarrow> bind_op m f s = f x s1"
  "m s = (Err e, s1) \<Longrightarrow> bind_op m f s = (Err e, s1)"
  "m s = (Panic, s1) \<Longrightarrow> bind_op m f s = (Panic, s1)"
  by (simp_all add: bind_op_def)

text \<open>A property of the state that every part of a composition keeps is kept by the composition.\<close>

lemma bind_op_inv:
  assumes "I (snd (m s))" and "\<And>x s1. m s = (Ok x, s1) \<Longrightarrow> I s1 \<Longrightarrow> I (snd (f x s1))"
  shows "I (snd (bind_op m f s))"
  using assms by (auto simp: bind_op_def split: prod.splits result.splits)

section \<open>Errors\<close>

datatype storage_error =
    EntropyError string
  | StorageInternalError string
  | KeyAlreadyExists string
  | KeyNotSet string
  | PermissionDenied
  | StorageSerializationError string
  | KeyVersionNotFound string string

text \<open>The text of an error message, by what it formats.\<close>

datatype err_text = Text string | OfStorage storage_error | OfAnyhow anyhow | OfBlockInfo block_info | OfLedgerInfo ledger_info
  | OfKey public_key | OfAddress account_address

datatype sr_error =
    IncorrectEpoch u64 u64
  | IncorrectRound u64
  | IncorrectLastVotedRound u64 u64
  | IncorrectPreferredRound u64 u64
  | InvalidAccumulatorExtension err_text
  | InvalidEpochChangeProof err_text
  | InternalError err_text
  | InvalidLedgerInfo
  | InvalidProposal err_text
  | InvalidQuorumCertificate err_text
  | NotInitialized string
  | SecureStorageMissingDataError err_text
  | SecureStorageUnexpectedError err_text
  | SerializationError err_text
  | ValidatorKeyNotFound err_text
  | ValidatorNotInSet err_text
  | VoteProposalSignatureNotFound
  | NotSafeToVote u64 u64 u64 u64
  | NotSafeToTimeout u64 u64 u64 u64
  | InvalidTimeoutCertificate err_text
  | InconsistentExecutionResult err_text err_text
  | InvalidOrderedLedgerInfo err_text
  | WaypointOutOfDate u64 u64 u64 u64
  | InvalidTimeout err_text

definition from_storage_error :: "storage_error \<Rightarrow> ('a, sr_error) result" where
  "from_storage_error error =
     (case error of
        PermissionDenied \<Rightarrow> Panic
      | KeyVersionNotFound _ _ \<Rightarrow> Err (SecureStorageMissingDataError (OfStorage error))
      | KeyNotSet _ \<Rightarrow> Err (SecureStorageMissingDataError (OfStorage error))
      | _ \<Rightarrow> Err (SecureStorageUnexpectedError (OfStorage error)))"

section \<open>The key/value store\<close>

datatype storage_answer = Served | Failed storage_error | LostReply storage_error

record secure_store =
  kv_consensus_key :: "private_key option"
  kv_owner_account :: "account_address option"
  kv_safety_data :: "safety_data option"
  kv_waypoint :: "waypoint option"
  kv_answers :: "storage_answer list"

definition next_answer :: "secure_store \<Rightarrow> storage_answer \<times> secure_store" where
  "next_answer s = (case kv_answers s of [] \<Rightarrow> (Served, s) | a # rest \<Rightarrow> (a, s\<lparr>kv_answers := rest\<rparr>))"

definition kv_get :: "string \<Rightarrow> (secure_store \<Rightarrow> 'v option) \<Rightarrow> (secure_store, 'v, storage_error) op" where
  "kv_get key field s =
     (case next_answer s of
        (Served, s') \<Rightarrow> (ok_or (KeyNotSet key) (field s), s')
      | (Failed e, s') \<Rightarrow> (Err e, s')
      | (LostReply e, s') \<Rightarrow> (Err e, s'))"

definition kv_set :: "(secure_store \<Rightarrow> secure_store) \<Rightarrow> (secure_store, unit, storage_error) op" where
  "kv_set update s =
     (case next_answer s of
        (Served, s') \<Rightarrow> (Ok (), update s')
      | (Failed e, s') \<Rightarrow> (Err e, s')
      | (LostReply e, s') \<Rightarrow> (Err e, update s'))"

section \<open>Stored values\<close>

text \<open>
  Values are stored as JSON (\<open>serde_json::to_value\<close> and \<open>from_value\<close> in \<open>secure/storage/src/on_disk.rs\<close> and
  \<open>vault.rs\<close>), in the representation that serde documents for the derived instances: a struct is an object with its
  fields by name, an absent \<open>Option\<close> is null, and an enum, \<open>Result\<close> included, is an object with the name of the variant
  as its only key. The objects of a vote and of an error are leaves here.
\<close>

datatype json = JNull | JNumber u64 | JObject "(string \<times> json) list" | JVote vote | JError sr_error

definition de_u64 :: "json \<Rightarrow> (u64, string) result" where
  "de_u64 j = (case j of JNumber n \<Rightarrow> Ok n | _ \<Rightarrow> Err ''invalid type, expected u64'')"

definition de_vote :: "json \<Rightarrow> (vote, string) result" where
  "de_vote j = (case j of JVote v \<Rightarrow> Ok v | _ \<Rightarrow> Err ''invalid type, expected struct Vote'')"

definition de_error :: "json \<Rightarrow> (sr_error, string) result" where
  "de_error j = (case j of JError e \<Rightarrow> Ok e | _ \<Rightarrow> Err ''invalid type, expected enum Error'')"

definition de_option :: "(json \<Rightarrow> ('a, string) result) \<Rightarrow> json \<Rightarrow> ('a option, string) result" where
  "de_option de j = (case j of JNull \<Rightarrow> Ok None | _ \<Rightarrow> map_ok Some (de j))"

text \<open>A field by name, with the value for its absence where there is one.\<close>

definition de_field ::
  "string \<Rightarrow> 'a option \<Rightarrow> (json \<Rightarrow> ('a, string) result) \<Rightarrow> (string \<times> json) list \<Rightarrow> ('a, string) result" where
  "de_field name absent de obj =
     (case map_of obj name of
        Some j \<Rightarrow> de j
      | None \<Rightarrow> (case absent of Some v \<Rightarrow> Ok v | None \<Rightarrow> Err (''missing field '' @ name)))"

definition ser_safety_data :: "safety_data \<Rightarrow> json" where
  "ser_safety_data sd =
     JObject [(''epoch'', JNumber (sd_epoch sd)), (''last_voted_round'', JNumber (last_voted_round sd)),
       (''preferred_round'', JNumber (preferred_round sd)), (''one_chain_round'', JNumber (one_chain_round sd)),
       (''last_vote'', case last_vote sd of None \<Rightarrow> JNull | Some v \<Rightarrow> JVote v)]"

text \<open>\<open>one_chain_round\<close> is marked \<open>#[serde(default)]\<close>: data written before the field existed is still read.\<close>

definition de_safety_data :: "json \<Rightarrow> (safety_data, string) result" where
  "de_safety_data j =
     (case j of
        JObject obj \<Rightarrow>
          and_then (de_field ''epoch'' None de_u64 obj) (\<lambda>epoch.
          and_then (de_field ''last_voted_round'' None de_u64 obj) (\<lambda>voted.
          and_then (de_field ''preferred_round'' None de_u64 obj) (\<lambda>preferred.
          and_then (de_field ''one_chain_round'' (Some 0) de_u64 obj) (\<lambda>one_chain.
          map_ok (sd_new epoch voted preferred one_chain) (de_field ''last_vote'' (Some None) (de_option de_vote) obj)))))
      | _ \<Rightarrow> Err ''invalid type, expected struct SafetyData'')"

definition de_result ::
  "(json \<Rightarrow> ('a, string) result) \<Rightarrow> (json \<Rightarrow> ('e, string) result) \<Rightarrow> json \<Rightarrow> (('a, 'e) result, string) result" where
  "de_result de_ok de_err j =
     (case j of
        JObject [(variant, value)] \<Rightarrow>
          (if variant = ''Ok'' then map_ok Ok (de_ok value)
           else if variant = ''Err'' then map_ok Err (de_err value)
           else Err (''unknown variant '' @ variant))
      | JObject _ \<Rightarrow> Err ''invalid value: map, expected map with a single key''
      | _ \<Rightarrow> Err ''invalid type, expected string or map'')"

text \<open>\<open>get\<close> at the type of the decoder; a value that cannot be decoded is a serialisation error.\<close>

definition kv_get_as ::
  "string \<Rightarrow> (json \<Rightarrow> ('v, string) result) \<Rightarrow> (secure_store \<Rightarrow> json option) \<Rightarrow> (secure_store, 'v, storage_error) op" where
  "kv_get_as key de field =
     bind_op (kv_get key field) (\<lambda>j. lift_op (map_err StorageSerializationError (de j)))"

definition safety_data_value :: "secure_store \<Rightarrow> json option" where
  "safety_data_value st = map_option ser_safety_data (kv_safety_data st)"

section \<open>Persistent safety storage\<close>

record persistent_safety_storage =
  enable_cached_safety_data :: bool
  cached_safety_data :: "safety_data option"
  internal_store :: secure_store

definition on_store :: "(secure_store, 'a, 'e) op \<Rightarrow> (persistent_safety_storage, 'a, 'e) op" where
  "on_store m self = (case m (internal_store self) of (r, st) \<Rightarrow> (r, self\<lparr>internal_store := st\<rparr>))"

definition ps_new :: "secure_store \<Rightarrow> bool \<Rightarrow> persistent_safety_storage" where
  "ps_new store cached = \<lparr>enable_cached_safety_data = cached, cached_safety_data = None, internal_store = store\<rparr>"

definition ps_author :: "(persistent_safety_storage, author, sr_error) op" where
  "ps_author = map_err_op from_storage_error (on_store (kv_get ''owner_account'' kv_owner_account))"

definition consensus_key_for_version ::
  "'c consensus_crypto_scheme \<Rightarrow> public_key \<Rightarrow> (persistent_safety_storage, private_key, sr_error) op" where
  "consensus_key_for_version C ver =
     bind_op (map_err_op from_storage_error (on_store (kv_get ''consensus'' kv_consensus_key))) (\<lambda>key.
     lift_op (if bls_public_key C key \<noteq> ver then Err (SecureStorageMissingDataError (OfKey ver)) else Ok key))"

text \<open>
  Without the cache, the expression \<open>get(SAFETY_DATA).map(|v| v.value)?\<close> is itself the returned \<open>Result\<close>, so the
  value is read at type \<open>Result<SafetyData, Error>\<close>, and the result that was decoded is returned.
\<close>

definition ps_safety_data :: "(persistent_safety_storage, safety_data, sr_error) op" where
  "ps_safety_data self =
     (if \<not> enable_cached_safety_data self then
        bind_op (map_err_op from_storage_error
            (on_store (kv_get_as ''safety_data'' (de_result de_safety_data de_error) safety_data_value))) lift_op self
      else case cached_safety_data self of
        Some sd \<Rightarrow> (Ok sd, self)
      | None \<Rightarrow>
          bind_op (map_err_op from_storage_error (on_store (kv_get_as ''safety_data'' de_safety_data safety_data_value)))
            (\<lambda>sd. bind_op (modify_op (\<lambda>s. s\<lparr>cached_safety_data := Some sd\<rparr>)) (\<lambda>_. lift_op (Ok sd))) self)"

definition ps_set_safety_data :: "safety_data \<Rightarrow> (persistent_safety_storage, unit, sr_error) op" where
  "ps_set_safety_data data self =
     (case on_store (kv_set (\<lambda>st. st\<lparr>kv_safety_data := Some data\<rparr>)) self of
        (Ok _, s') \<Rightarrow> (Ok (), s'\<lparr>cached_safety_data := Some data\<rparr>)
      | (Err e, s') \<Rightarrow> (Err (SecureStorageUnexpectedError (OfStorage e)), s'\<lparr>cached_safety_data := None\<rparr>)
      | (Panic, s') \<Rightarrow> (Panic, s'))"

definition ps_waypoint :: "(persistent_safety_storage, waypoint, sr_error) op" where
  "ps_waypoint = map_err_op from_storage_error (on_store (kv_get ''waypoint'' kv_waypoint))"

definition ps_set_waypoint :: "waypoint \<Rightarrow> (persistent_safety_storage, unit, sr_error) op" where
  "ps_set_waypoint wp = map_err_op from_storage_error (on_store (kv_set (\<lambda>st. st\<lparr>kv_waypoint := Some wp\<rparr>)))"

text \<open>The outcome of writing the consensus key is looked at only for \<open>KeyAlreadyExists\<close>.\<close>

definition initialize_keys_and_accounts :: "author \<Rightarrow> private_key \<Rightarrow> (secure_store, unit, sr_error) op" where
  "initialize_keys_and_accounts author key st =
     (case kv_set (\<lambda>st. st\<lparr>kv_consensus_key := Some key\<rparr>) st of
        (Err (KeyAlreadyExists _), st') \<Rightarrow> (Ok (), st')
      | (_, st') \<Rightarrow> map_err_op from_storage_error (kv_set (\<lambda>st. st\<lparr>kv_owner_account := Some author\<rparr>)) st')"

text \<open>Every \<open>expect\<close> is a panic; what was written before it stays in the store.\<close>

definition ps_initialize ::
  "author \<Rightarrow> private_key \<Rightarrow> waypoint \<Rightarrow> bool \<Rightarrow> (secure_store, persistent_safety_storage, 'e) op" where
  "ps_initialize author key wp cached store =
     (case initialize_keys_and_accounts author key store of
        (Ok _, store') \<Rightarrow>
          (let sd = sd_new 1 0 0 0 None;
               ps = \<lparr>enable_cached_safety_data = cached, cached_safety_data = Some sd, internal_store = store'\<rparr>
           in case bind_op (ps_set_safety_data sd) (\<lambda>_. ps_set_waypoint wp) ps of
                (Ok _, ps') \<Rightarrow> (Ok ps', internal_store ps')
              | (_, ps') \<Rightarrow> (Panic, internal_store ps'))
      | (_, store') \<Rightarrow> (Panic, store'))"

section \<open>What is stored and what is cached\<close>

text \<open>A cached copy of the safety data equals the stored one.\<close>

definition ps_coherent :: "persistent_safety_storage \<Rightarrow> bool" where
  "ps_coherent s \<longleftrightarrow> (\<forall>sd. cached_safety_data s = Some sd \<longrightarrow> kv_safety_data (internal_store s) = Some sd)"

abbreviation "stored_safety_data s \<equiv> kv_safety_data (internal_store s)"

lemma next_answer_fields:
  "next_answer s = (a, s') \<Longrightarrow> kv_safety_data s' = kv_safety_data s \<and> kv_waypoint s' = kv_waypoint s \<and>
     kv_owner_account s' = kv_owner_account s \<and> kv_consensus_key s' = kv_consensus_key s \<and>
     set (kv_answers s') \<subseteq> set (kv_answers s)"
  by (auto simp: next_answer_def split: list.splits)

lemma next_answer_in: "next_answer s = (LostReply e, s') \<Longrightarrow> LostReply e \<in> set (kv_answers s)"
  by (auto simp: next_answer_def split: list.splits)

lemma kv_get_fields:
  "kv_get key field s = (r, s') \<Longrightarrow> kv_safety_data s' = kv_safety_data s \<and> kv_waypoint s' = kv_waypoint s \<and>
     kv_owner_account s' = kv_owner_account s \<and> kv_consensus_key s' = kv_consensus_key s \<and>
     set (kv_answers s') \<subseteq> set (kv_answers s)"
proof -
  assume get: "kv_get key field s = (r, s')"
  obtain a t where "next_answer s = (a, t)" by (cases "next_answer s")
  with get have "s' = t" by (cases a) (simp_all add: kv_get_def)
  with next_answer_fields \<open>next_answer s = (a, t)\<close> show ?thesis by blast
qed

lemma kv_get_Ok: "kv_get key field s = (Ok v, s') \<Longrightarrow> field s = Some v"
  by (auto simp: kv_get_def split: prod.splits storage_answer.splits) (metis ok_or.simps option.exhaust result.distinct(1) result.inject(1))

text \<open>Reading leaves what is stored and what is cached as it is.\<close>

definition same_store :: "persistent_safety_storage \<Rightarrow> persistent_safety_storage \<Rightarrow> bool" where
  "same_store s s' \<longleftrightarrow>
     enable_cached_safety_data s' = enable_cached_safety_data s \<and> stored_safety_data s' = stored_safety_data s \<and>
     kv_waypoint (internal_store s') = kv_waypoint (internal_store s) \<and>
     kv_owner_account (internal_store s') = kv_owner_account (internal_store s) \<and>
     kv_consensus_key (internal_store s') = kv_consensus_key (internal_store s) \<and>
     set (kv_answers (internal_store s')) \<subseteq> set (kv_answers (internal_store s))"

lemma from_storage_error_not_Ok [simp]: "from_storage_error e \<noteq> Ok v" "Ok v \<noteq> from_storage_error e"
  by (cases e; simp add: from_storage_error_def)+

lemma on_store_eq:
  assumes "m (internal_store s) = (r, st)"
  shows "map_err_op f (on_store m) s =
    (case r of Ok v \<Rightarrow> Ok v | Err e \<Rightarrow> f e | Panic \<Rightarrow> Panic, s\<lparr>internal_store := st\<rparr>)"
  using assms by (cases r) (simp_all add: map_err_op_def on_store_def)

lemma on_store_get:
  assumes "map_err_op from_storage_error (on_store (kv_get key field)) s = (r, s')"
  shows "same_store s s'" and "cached_safety_data s' = cached_safety_data s"
    and "r = Ok v \<Longrightarrow> field (internal_store s) = Some v"
proof -
  obtain r1 st where get: "kv_get key field (internal_store s) = (r1, st)" by (cases "kv_get key field (internal_store s)")
  with assms have s': "s' = s\<lparr>internal_store := st\<rparr>"
    and r: "r = (case r1 of Ok v \<Rightarrow> Ok v | Err e \<Rightarrow> from_storage_error e | Panic \<Rightarrow> Panic)"
    by (simp_all add: on_store_eq)
  from kv_get_fields [OF get] s' show "same_store s s'" "cached_safety_data s' = cached_safety_data s"
    by (simp_all add: same_store_def)
  assume "r = Ok v"
  with r have "r1 = Ok v" by (cases r1) simp_all
  with get kv_get_Ok show "field (internal_store s) = Some v" by fast
qed

lemma on_store_read:
  "map_err_op from_storage_error (on_store (kv_get key field)) s = (r, s') \<Longrightarrow>
     same_store s s' \<and> cached_safety_data s' = cached_safety_data s"
  by (rule conjI [OF on_store_get(1,2)])

lemma ps_author_op: "ps_author s = (r, s') \<Longrightarrow> same_store s s' \<and> cached_safety_data s' = cached_safety_data s"
  unfolding ps_author_def by (rule on_store_read)

lemma ps_author_Ok: "ps_author s = (Ok a, s') \<Longrightarrow> kv_owner_account (internal_store s) = Some a"
  unfolding ps_author_def by (rule on_store_get(3) [OF _ refl])

lemma ps_waypoint_op: "ps_waypoint s = (r, s') \<Longrightarrow> same_store s s' \<and> cached_safety_data s' = cached_safety_data s"
  unfolding ps_waypoint_def by (rule on_store_read)

lemma ps_waypoint_Ok: "ps_waypoint s = (Ok a, s') \<Longrightarrow> kv_waypoint (internal_store s) = Some a"
  unfolding ps_waypoint_def by (rule on_store_get(3) [OF _ refl])

lemma consensus_key_op:
  assumes "consensus_key_for_version C ver s = (r, s')"
  shows "same_store s s' \<and> cached_safety_data s' = cached_safety_data s"
proof -
  let ?get = "map_err_op from_storage_error (on_store (kv_get ''consensus'' kv_consensus_key))"
  obtain r1 s1 where get: "?get s = (r1, s1)" by (cases "?get s")
  with assms have "s' = s1" by (cases r1) (simp_all add: consensus_key_for_version_def lift_op_def)
  with on_store_read [OF get] show ?thesis by simp
qed

lemma consensus_key_Ok:
  assumes "consensus_key_for_version C ver s = (Ok key, s')"
  shows "kv_consensus_key (internal_store s) = Some key" and "bls_public_key C key = ver"
proof -
  from assms obtain s1 where
    get: "map_err_op from_storage_error (on_store (kv_get ''consensus'' kv_consensus_key)) s = (Ok key, s1)"
    and "bls_public_key C key = ver"
    by (auto simp: consensus_key_for_version_def op_simps split: if_splits)
  then show "kv_consensus_key (internal_store s) = Some key" "bls_public_key C key = ver"
    using on_store_get(3) [OF get refl] by simp_all
qed

text \<open>
  The safety data is read back as it was written. At the type of a \<open>Result\<close> it cannot be read: its object has several
  keys.
\<close>

lemma safety_data_roundtrip: "de_safety_data (ser_safety_data sd) = Ok sd"
  by (simp add: de_safety_data_def ser_safety_data_def de_field_def de_u64_def de_option_def de_vote_def sd_new_def
      split: option.split)

lemma safety_data_is_no_result:
  "de_result de_ok de_err (ser_safety_data sd) = Err ''invalid value: map, expected map with a single key''"
  by (simp add: de_result_def ser_safety_data_def)

lemma kv_get_safety_data: "kv_get_as ''safety_data'' de_safety_data safety_data_value = kv_get ''safety_data'' kv_safety_data"
proof
  fix st show "kv_get_as ''safety_data'' de_safety_data safety_data_value st = kv_get ''safety_data'' kv_safety_data st"
    by (cases "kv_safety_data st")
      (simp_all add: kv_get_as_def kv_get_def safety_data_value_def bind_op_def lift_op_def safety_data_roundtrip
        split: prod.split storage_answer.split)
qed

lemma kv_get_result_of_safety_data:
  "kv_get_as ''safety_data'' (de_result de_safety_data de_error) safety_data_value =
     bind_op (kv_get ''safety_data'' kv_safety_data)
       (\<lambda>_. lift_op (Err (StorageSerializationError ''invalid value: map, expected map with a single key'')))"
proof
  fix st show "kv_get_as ''safety_data'' (de_result de_safety_data de_error) safety_data_value st =
     bind_op (kv_get ''safety_data'' kv_safety_data)
       (\<lambda>_. lift_op (Err (StorageSerializationError ''invalid value: map, expected map with a single key''))) st"
    by (cases "kv_safety_data st")
      (simp_all add: kv_get_as_def kv_get_def safety_data_value_def bind_op_def lift_op_def safety_data_is_no_result
        split: prod.split storage_answer.split)
qed

lemma ps_safety_data_eq:
  "ps_safety_data self =
     (if \<not> enable_cached_safety_data self then
        bind_op (map_err_op from_storage_error (on_store (kv_get ''safety_data'' kv_safety_data)))
          (\<lambda>_. lift_op (from_storage_error (StorageSerializationError ''invalid value: map, expected map with a single key''))) self
      else case cached_safety_data self of
        Some sd \<Rightarrow> (Ok sd, self)
      | None \<Rightarrow>
          bind_op (map_err_op from_storage_error (on_store (kv_get ''safety_data'' kv_safety_data)))
            (\<lambda>sd. bind_op (modify_op (\<lambda>s. s\<lparr>cached_safety_data := Some sd\<rparr>)) (\<lambda>_. lift_op (Ok sd))) self)"
proof -
  let ?e = "StorageSerializationError ''invalid value: map, expected map with a single key''"
  let ?get = "kv_get ''safety_data'' kv_safety_data"
  have "bind_op (map_err_op from_storage_error (on_store (bind_op ?get (\<lambda>_. lift_op (Err ?e))))) lift_op self =
    bind_op (map_err_op from_storage_error (on_store ?get))
      (\<lambda>_. lift_op (from_storage_error ?e :: (safety_data, sr_error) result)) self"
  proof -
    obtain r st where get: "?get (internal_store self) = (r, st)" by (cases "?get (internal_store self)")
    show ?thesis
    proof (cases r)
      case (Err e)
      with get show ?thesis by (cases e) (simp_all add: bind_op_def map_err_op_def on_store_def from_storage_error_def)
    qed (use get in \<open>simp_all add: bind_op_def map_err_op_def on_store_def lift_op_def from_storage_error_def\<close>)
  qed
  then show ?thesis
    unfolding ps_safety_data_def kv_get_safety_data kv_get_result_of_safety_data by simp
qed

lemma ps_safety_data_op:
  assumes "ps_safety_data s = (r, s')" and "ps_coherent s"
  shows "same_store s s'" and "ps_coherent s'" and "r = Ok sd \<Longrightarrow> stored_safety_data s = Some sd"
    and "r = Ok sd \<Longrightarrow> enable_cached_safety_data s"
proof -
  let ?get = "map_err_op from_storage_error (on_store (kv_get ''safety_data'' kv_safety_data))"
  obtain r1 s1 where get: "?get s = (r1, s1)" by (cases "?get s")
  note g = on_store_read [OF get] and v = on_store_get(3) [OF get]
  have keep: "ps_coherent s1" using g assms(2) by (simp add: ps_coherent_def same_store_def)
  consider "\<not> enable_cached_safety_data s" | "enable_cached_safety_data s" "cached_safety_data s = None"
    | d where "enable_cached_safety_data s" "cached_safety_data s = Some d" by fastforce
  then have "same_store s s' \<and> ps_coherent s' \<and> (r = Ok sd \<longrightarrow> stored_safety_data s = Some sd \<and> enable_cached_safety_data s)"
  proof cases
    case 1
    then have "s' = s1" "r \<noteq> Ok sd"
      using assms(1) get by (cases r1; auto simp: ps_safety_data_eq lift_op_def)+
    with g keep show ?thesis by simp
  next
    case 2
    show ?thesis
    proof (cases r1)
      case (Ok d)
      with 2 assms(1) get have "r = Ok d" "s' = s1\<lparr>cached_safety_data := Some d\<rparr>"
        by (simp_all add: ps_safety_data_eq lift_op_def bind_op_def modify_op_def)
      with 2 g v [OF Ok] show ?thesis by (auto simp: same_store_def ps_coherent_def)
    qed (use 2 assms(1) get g keep in \<open>auto simp: ps_safety_data_eq\<close>)
  next
    case 3
    with assms show ?thesis by (auto simp: ps_safety_data_eq same_store_def ps_coherent_def)
  qed
  then show "same_store s s'" "ps_coherent s'" "r = Ok sd \<Longrightarrow> stored_safety_data s = Some sd"
    "r = Ok sd \<Longrightarrow> enable_cached_safety_data s" by simp_all
qed

lemma ps_safety_data_uncached: "\<not> enable_cached_safety_data s \<Longrightarrow> fst (ps_safety_data s) \<noteq> Ok sd"
  by (auto simp: ps_safety_data_eq bind_op_def lift_op_def from_storage_error_def split: prod.splits result.splits)

text \<open>
  A write either stores the data, or leaves the store as it was; it reports success only in the first case, and
  reports failure in the first case only when the reply is lost.
\<close>

definition may_lose_reply :: "persistent_safety_storage \<Rightarrow> bool" where
  "may_lose_reply s \<longleftrightarrow> (\<exists>e. LostReply e \<in> set (kv_answers (internal_store s)))"

lemma ps_set_safety_data_op:
  assumes "ps_set_safety_data data s = (r, s')"
  shows "ps_coherent s'" and "stored_safety_data s' = Some data \<or> stored_safety_data s' = stored_safety_data s \<and> r \<noteq> Ok u"
    and "r = Ok u \<Longrightarrow> stored_safety_data s' = Some data"
    and "enable_cached_safety_data s' = enable_cached_safety_data s"
    and "kv_waypoint (internal_store s') = kv_waypoint (internal_store s)"
    and "kv_owner_account (internal_store s') = kv_owner_account (internal_store s)"
    and "kv_consensus_key (internal_store s') = kv_consensus_key (internal_store s)"
    and "set (kv_answers (internal_store s')) \<subseteq> set (kv_answers (internal_store s))"
    and "r = Ok () \<or> stored_safety_data s' = stored_safety_data s \<or> may_lose_reply s"
proof -
  obtain a st where ans: "next_answer (internal_store s) = (a, st)" by (cases "next_answer (internal_store s)")
  note fields = next_answer_fields [OF ans]
  have "stored_safety_data s' = Some data \<and> cached_safety_data s' = Some data \<and> r = Ok () \<or>
     stored_safety_data s' = stored_safety_data s \<and> cached_safety_data s' = None \<and> \<not> is_ok r \<or>
     stored_safety_data s' = Some data \<and> cached_safety_data s' = None \<and> \<not> is_ok r \<and> may_lose_reply s"
    using assms ans fields next_answer_in [of "internal_store s"]
    by (cases a) (auto simp: ps_set_safety_data_def on_store_def kv_set_def may_lose_reply_def)
  then show "ps_coherent s'" "stored_safety_data s' = Some data \<or> stored_safety_data s' = stored_safety_data s \<and> r \<noteq> Ok u"
    "r = Ok u \<Longrightarrow> stored_safety_data s' = Some data"
    "r = Ok () \<or> stored_safety_data s' = stored_safety_data s \<or> may_lose_reply s"
    by (auto simp: ps_coherent_def)
  show "enable_cached_safety_data s' = enable_cached_safety_data s"
    "kv_waypoint (internal_store s') = kv_waypoint (internal_store s)"
    "kv_owner_account (internal_store s') = kv_owner_account (internal_store s)"
    "kv_consensus_key (internal_store s') = kv_consensus_key (internal_store s)"
    "set (kv_answers (internal_store s')) \<subseteq> set (kv_answers (internal_store s))"
    using assms ans fields by (cases a; auto simp: ps_set_safety_data_def on_store_def kv_set_def)+
qed

lemma ps_set_waypoint_op:
  assumes "ps_set_waypoint wp s = (r, s')"
  shows "stored_safety_data s' = stored_safety_data s" and "cached_safety_data s' = cached_safety_data s"
    and "enable_cached_safety_data s' = enable_cached_safety_data s"
    and "kv_waypoint (internal_store s') \<in> {Some wp, kv_waypoint (internal_store s)}"
    and "kv_owner_account (internal_store s') = kv_owner_account (internal_store s)"
    and "kv_consensus_key (internal_store s') = kv_consensus_key (internal_store s)"
    and "set (kv_answers (internal_store s')) \<subseteq> set (kv_answers (internal_store s))"
proof -
  obtain a st where ans: "next_answer (internal_store s) = (a, st)" by (cases "next_answer (internal_store s)")
  note fields = next_answer_fields [OF ans]
  have s': "s' = s\<lparr>internal_store := st\<lparr>kv_waypoint := Some wp\<rparr>\<rparr> \<or> s' = s\<lparr>internal_store := st\<rparr>"
    using assms ans by (cases a) (auto simp: ps_set_waypoint_def map_err_op_def on_store_def kv_set_def)
  from s' fields show "stored_safety_data s' = stored_safety_data s" "cached_safety_data s' = cached_safety_data s"
    "enable_cached_safety_data s' = enable_cached_safety_data s"
    "kv_waypoint (internal_store s') \<in> {Some wp, kv_waypoint (internal_store s)}"
    "kv_owner_account (internal_store s') = kv_owner_account (internal_store s)"
    "kv_consensus_key (internal_store s') = kv_consensus_key (internal_store s)"
    "set (kv_answers (internal_store s')) \<subseteq> set (kv_answers (internal_store s))"
    by auto
qed

text \<open>Initialising a store writes its fields one after the other; it succeeds only with all of them written.\<close>

lemma kv_set_waypoint:
  assumes "kv_set update t = (r, t')" and "\<And>u. kv_waypoint (update u) = kv_waypoint u"
  shows "kv_waypoint t' = kv_waypoint t"
proof -
  obtain a u where ans: "next_answer t = (a, u)" by (cases "next_answer t")
  with assms(1) have "t' = u \<or> t' = update u" by (cases a) (simp_all add: kv_set_def)
  with assms(2) next_answer_fields [OF ans] show ?thesis by auto
qed

lemma initialize_keys_waypoint:
  assumes "initialize_keys_and_accounts author key st = (r, st')"
  shows "kv_waypoint st' = kv_waypoint st"
proof -
  let ?owner = "kv_set (\<lambda>st. st\<lparr>kv_owner_account := Some author\<rparr>)"
  obtain q t where q: "kv_set (\<lambda>st. st\<lparr>kv_consensus_key := Some key\<rparr>) st = (q, t)"
    by (cases "kv_set (\<lambda>st. st\<lparr>kv_consensus_key := Some key\<rparr>) st")
  obtain q' t' where q': "?owner t = (q', t')" by (cases "?owner t")
  have "snd (map_err_op f ?owner t) = t'" for f :: "storage_error \<Rightarrow> (unit, sr_error) result"
    using q' by (cases q') (simp_all add: map_err_op_def)
  moreover have "st' = t \<or> st' = snd (map_err_op from_storage_error ?owner t)"
  proof (cases q)
    case (Err e)
    with assms q show ?thesis by (cases e) (simp_all add: initialize_keys_and_accounts_def)
  qed (use assms q in \<open>simp_all add: initialize_keys_and_accounts_def\<close>)
  ultimately have "st' = t \<or> st' = t'" by simp
  moreover have "kv_waypoint t = kv_waypoint st" by (rule kv_set_waypoint [OF q]) simp
  moreover have "kv_waypoint t' = kv_waypoint t" by (rule kv_set_waypoint [OF q']) simp
  ultimately show ?thesis by auto
qed

lemma ps_initialize_op:
  assumes "ps_initialize author key wp cached st = (r, st')"
  shows "kv_waypoint st' \<in> {Some wp, kv_waypoint st}" and "r = Ok ps \<Longrightarrow> ps_coherent ps \<and> internal_store ps = st'"
proof -
  let ?sd = "sd_new 1 0 0 0 None"
  obtain q st1 where init: "initialize_keys_and_accounts author key st = (q, st1)"
    by (cases "initialize_keys_and_accounts author key st")
  let ?ps = "\<lparr>enable_cached_safety_data = cached, cached_safety_data = Some ?sd, internal_store = st1\<rparr>"
  obtain q1 ps1 where set: "ps_set_safety_data ?sd ?ps = (q1, ps1)" by (cases "ps_set_safety_data ?sd ?ps")
  obtain q2 ps2 where wp: "ps_set_waypoint wp ps1 = (q2, ps2)" by (cases "ps_set_waypoint wp ps1")
  note keys = initialize_keys_waypoint [OF init] and sd = ps_set_safety_data_op(1,5) [OF set] and w = ps_set_waypoint_op [OF wp]
  have "st' = internal_store ps2 \<and> (r = Ok ps \<longrightarrow> ps = ps2) \<or> st' \<in> {st1, internal_store ps1} \<and> r = Panic"
  proof (cases q)
    case (Ok x)
    with assms init set wp show ?thesis
      by (cases q1; cases q2) (auto simp: ps_initialize_def Let_def)
  qed (use assms init in \<open>auto simp: ps_initialize_def\<close>)
  then have st': "st' \<in> {st1, internal_store ps1, internal_store ps2}" and Ok: "r = Ok ps \<Longrightarrow> ps = ps2 \<and> st' = internal_store ps2"
    by auto
  from st' keys sd(2) w(4) show "kv_waypoint st' \<in> {Some wp, kv_waypoint st}" by auto
  assume "r = Ok ps"
  with Ok sd(1) w(1,2) show "ps_coherent ps \<and> internal_store ps = st'" by (simp add: ps_coherent_def)
qed

end
