(* ===== verification/Safety_Rules.thy ===== *)
theory Safety_Rules
  imports Safety_Storage
begin

text \<open>
  The safety rules of a validator (\<open>consensus/safety-rules/src/safety_rules.rs\<close> and \<open>safety_rules_2chain.rs\<close>): the
  only code that holds the consensus key. Every operation of \<open>TSafetyRules\<close> is modelled with its checks in the order
  of the code; \<open>run_and_log\<close> only adds metrics and logging. An operation maps the state of the safety rules to a
  result and the next state, and the state after an error is the one the code leaves behind.
\<close>

section \<open>State\<close>

record safety_rules =
  persistent_storage :: persistent_safety_storage
  sr_validator_signer :: "validator_signer option"
  sr_epoch_state :: "epoch_state option"

definition sr_new :: "persistent_safety_storage \<Rightarrow> safety_rules" where
  "sr_new storage = \<lparr>persistent_storage = storage, sr_validator_signer = None, sr_epoch_state = None\<rparr>"

definition on_storage :: "(persistent_safety_storage, 'a, 'e) op \<Rightarrow> (safety_rules, 'a, 'e) op" where
  "on_storage m self = (case m (persistent_storage self) of (r, ps) \<Rightarrow> (r, self\<lparr>persistent_storage := ps\<rparr>))"

abbreviation "stored s \<equiv> stored_safety_data (persistent_storage s)"

section \<open>Checks and updates\<close>

definition next_round :: "round \<Rightarrow> (round, sr_error) result" where
  "next_round round = ok_or (IncorrectRound round) (checked_add round 1)"

definition sr_signer :: "safety_rules \<Rightarrow> (validator_signer, sr_error) result" where
  "sr_signer self = ok_or (NotInitialized ''validator_signer'') (sr_validator_signer self)"

definition epoch_state_of :: "safety_rules \<Rightarrow> (epoch_state, sr_error) result" where
  "epoch_state_of self = ok_or (NotInitialized ''epoch_state'') (sr_epoch_state self)"

definition sr_sign ::
  "(private_key \<Rightarrow> 'm \<Rightarrow> signature option) \<Rightarrow> safety_rules \<Rightarrow> 'm \<Rightarrow> (signature, sr_error) result" where
  "sr_sign sign self message =
     and_then (sr_signer self) (\<lambda>signer.
     ok_or (SerializationError (Text ''CryptoMaterialError'')) (signer_sign sign signer message))"

definition observe_qc :: "quorum_cert \<Rightarrow> safety_data \<Rightarrow> bool \<times> safety_data" where
  "observe_qc qc sd =
     (let one_chain = bi_round (certified_block qc);
          two_chain = bi_round (parent_block qc);
          (updated1, sd1) = (if one_chain > one_chain_round sd then (True, sd\<lparr>one_chain_round := one_chain\<rparr>) else (False, sd));
          (updated2, sd2) = (if two_chain > preferred_round sd1 then (True, sd1\<lparr>preferred_round := two_chain\<rparr>) else (updated1, sd1))
      in (updated2, sd2))"

definition verify_and_update_preferred_round ::
  "quorum_cert \<Rightarrow> safety_data \<Rightarrow> (bool \<times> safety_data, sr_error) result" where
  "verify_and_update_preferred_round qc sd =
     (let preferred = preferred_round sd; one_chain = bi_round (certified_block qc) in
      if one_chain < preferred then Err (IncorrectPreferredRound one_chain preferred) else Ok (observe_qc qc sd))"

definition verify_author :: "safety_rules \<Rightarrow> author option \<Rightarrow> (unit, sr_error) result" where
  "verify_author self author =
     and_then (sr_signer self) (\<lambda>signer.
     and_then (ok_or (InvalidProposal (Text ''No author found in the proposal'')) author) (\<lambda>a.
     if signer_author signer \<noteq> a then Err (InvalidProposal (Text ''Proposal author is not validator signer!''))
     else Ok ()))"

definition verify_epoch :: "u64 \<Rightarrow> safety_data \<Rightarrow> (unit, sr_error) result" where
  "verify_epoch epoch sd = (if epoch \<noteq> sd_epoch sd then Err (IncorrectEpoch epoch (sd_epoch sd)) else Ok ())"

definition verify_and_update_last_vote_round :: "round \<Rightarrow> safety_data \<Rightarrow> (safety_data, sr_error) result" where
  "verify_and_update_last_vote_round round sd =
     (if round \<le> last_voted_round sd then Err (IncorrectLastVotedRound round (last_voted_round sd))
      else Ok (sd\<lparr>last_voted_round := round\<rparr>))"

definition verify_qc :: "'c consensus_crypto_scheme \<Rightarrow> safety_rules \<Rightarrow> quorum_cert \<Rightarrow> (unit, sr_error) result" where
  "verify_qc C self qc =
     and_then (epoch_state_of self) (\<lambda>es.
     map_err (\<lambda>e. InvalidQuorumCertificate (OfAnyhow e)) (qc_verify C qc (es_verifier es)))"

definition verify_tc ::
  "'c consensus_crypto_scheme \<Rightarrow> safety_rules \<Rightarrow> two_chain_timeout_certificate \<Rightarrow> (unit, sr_error) result" where
  "verify_tc C self tc =
     and_then (epoch_state_of self) (\<lambda>es.
     map_err (\<lambda>e. InvalidTimeoutCertificate (OfAnyhow e)) (tc_verify C tc (es_verifier es)))"

definition verify_tc_opt ::
  "'c consensus_crypto_scheme \<Rightarrow> safety_rules \<Rightarrow> two_chain_timeout_certificate option \<Rightarrow> (unit, sr_error) result" where
  "verify_tc_opt C self maybe_tc = (case maybe_tc of None \<Rightarrow> Ok () | Some tc \<Rightarrow> verify_tc C self tc)"

definition safe_to_timeout ::
  "two_chain_timeout \<Rightarrow> two_chain_timeout_certificate option \<Rightarrow> safety_data \<Rightarrow> (unit, sr_error) result" where
  "safe_to_timeout timeout maybe_tc sd =
     (let round = to_round timeout; qc_round = hqc_round timeout;
          tc_rnd = (case maybe_tc of None \<Rightarrow> 0 | Some tc \<Rightarrow> tc_round tc) in
      and_then (next_round qc_round) (\<lambda>after_qc.
      and_then (if round = after_qc then Ok True else map_ok (\<lambda>after_tc. round = after_tc) (next_round tc_rnd)) (\<lambda>consecutive.
      if consecutive \<and> qc_round \<ge> one_chain_round sd then Ok ()
      else Err (NotSafeToTimeout round qc_round tc_rnd (one_chain_round sd)))))"

definition safe_to_vote :: "block \<Rightarrow> two_chain_timeout_certificate option \<Rightarrow> (unit, sr_error) result" where
  "safe_to_vote b maybe_tc =
     (let round = block_round b; qc_round = bi_round (certified_block (block_qc b));
          tc_rnd = (case maybe_tc of None \<Rightarrow> 0 | Some tc \<Rightarrow> tc_round tc);
          hqc_rnd = (case maybe_tc of None \<Rightarrow> 0 | Some tc \<Rightarrow> highest_hqc_round tc) in
      and_then (next_round qc_round) (\<lambda>after_qc.
      and_then (if round = after_qc then Ok True
                else map_ok (\<lambda>after_tc. round = after_tc \<and> qc_round \<ge> hqc_rnd) (next_round tc_rnd)) (\<lambda>safe.
      if safe then Ok () else Err (NotSafeToVote round qc_round tc_rnd hqc_rnd))))"

definition construct_ledger_info_2chain :: "block \<Rightarrow> hash_value \<Rightarrow> (ledger_info, sr_error) result" where
  "construct_ledger_info_2chain b data_hash =
     and_then (next_round (bi_round (certified_block (block_qc b)))) (\<lambda>next.
     let info = (if next = block_round b then certified_block (block_qc b) else bi_empty)
     in Ok (li_new info data_hash))"

section \<open>Operations\<close>

definition verify_proposal ::
  "'c consensus_crypto_scheme \<Rightarrow> u64 \<Rightarrow> vote_proposal \<Rightarrow> (safety_rules, vote_data, sr_error) op" where
  "verify_proposal C now_usecs vp =
     (let b = vp_block vp in
      bind_op (on_storage ps_safety_data) (\<lambda>sd.
      bind_op (lift_op (verify_epoch (block_epoch b) sd)) (\<lambda>_.
      bind_op (gets_op (\<lambda>s. verify_qc C s (block_qc b))) (\<lambda>_.
      bind_op (gets_op epoch_state_of) (\<lambda>es.
      bind_op (lift_op (map_err (\<lambda>e. InvalidProposal (OfAnyhow e)) (validate_signature C b (es_verifier es)))) (\<lambda>_.
      bind_op (lift_op (map_err (\<lambda>e. InvalidProposal (OfAnyhow e)) (verify_well_formed now_usecs b))) (\<lambda>_.
      lift_op (map_err (\<lambda>e. InvalidAccumulatorExtension (OfAnyhow e)) (gen_vote_data C vp)))))))))"

text \<open>The part of voting after the checks of the proposal: the voting rules, the new vote and its persistence.\<close>

definition cast_vote ::
  "'c consensus_crypto_scheme \<Rightarrow> block \<Rightarrow> two_chain_timeout_certificate option \<Rightarrow> vote_data \<Rightarrow> safety_data \<Rightarrow>
   (safety_rules, vote, sr_error) op" where
  "cast_vote C b maybe_tc vd sd =
     bind_op (lift_op (verify_and_update_last_vote_round (block_round b) sd)) (\<lambda>sd1.
     bind_op (lift_op (safe_to_vote b maybe_tc)) (\<lambda>_.
     let sd2 = snd (observe_qc (block_qc b) sd1) in
     bind_op (gets_op sr_signer) (\<lambda>signer.
     bind_op (lift_op (construct_ledger_info_2chain b (vote_data_hash C vd))) (\<lambda>li.
     bind_op (gets_op (\<lambda>s. sr_sign (bls_sign_li C) s li)) (\<lambda>sig.
     let vote = vote_new_with_signature vd (signer_author signer) li sig in
     bind_op (on_storage (ps_set_safety_data (sd2\<lparr>last_vote := Some vote\<rparr>))) (\<lambda>_.
     lift_op (Ok vote)))))))"

definition guarded_construct_and_sign_vote_two_chain ::
  "'c consensus_crypto_scheme \<Rightarrow> u64 \<Rightarrow> vote_proposal \<Rightarrow> two_chain_timeout_certificate option \<Rightarrow>
   (safety_rules, vote, sr_error) op" where
  "guarded_construct_and_sign_vote_two_chain C now_usecs vp maybe_tc =
     bind_op (gets_op sr_signer) (\<lambda>_.
     bind_op (verify_proposal C now_usecs vp) (\<lambda>vd.
     bind_op (gets_op (\<lambda>s. verify_tc_opt C s maybe_tc)) (\<lambda>_.
     bind_op (on_storage ps_safety_data) (\<lambda>sd.
     case last_vote sd of
       Some vote \<Rightarrow> if vote_round vote = block_round (vp_block vp) then lift_op (Ok vote)
                    else cast_vote C (vp_block vp) maybe_tc vd sd
     | None \<Rightarrow> cast_vote C (vp_block vp) maybe_tc vd sd))))"

definition guarded_sign_timeout_with_qc ::
  "'c consensus_crypto_scheme \<Rightarrow> two_chain_timeout \<Rightarrow> two_chain_timeout_certificate option \<Rightarrow>
   (safety_rules, signature, sr_error) op" where
  "guarded_sign_timeout_with_qc C timeout maybe_tc =
     bind_op (gets_op sr_signer) (\<lambda>_.
     bind_op (on_storage ps_safety_data) (\<lambda>sd.
     bind_op (lift_op (verify_epoch (to_epoch timeout) sd)) (\<lambda>_.
     bind_op (gets_op epoch_state_of) (\<lambda>es.
     bind_op (lift_op (map_err (\<lambda>e. InvalidTimeout (OfAnyhow e)) (to_verify C timeout (es_verifier es)))) (\<lambda>_.
     bind_op (gets_op (\<lambda>s. verify_tc_opt C s maybe_tc)) (\<lambda>_.
     bind_op (lift_op (safe_to_timeout timeout maybe_tc sd)) (\<lambda>_.
     bind_op (if to_round timeout < last_voted_round sd
              then lift_op (Err (IncorrectLastVotedRound (to_round timeout) (last_voted_round sd)))
              else if to_round timeout > last_voted_round sd
              then bind_op (lift_op (verify_and_update_last_vote_round (to_round timeout) sd)) (\<lambda>sd1.
                   on_storage (ps_set_safety_data sd1))
              else lift_op (Ok ())) (\<lambda>_.
     gets_op (\<lambda>s. sr_sign (bls_sign_timeout C) s (signing_format timeout))))))))))"

definition guarded_sign_proposal ::
  "'c consensus_crypto_scheme \<Rightarrow> block_data \<Rightarrow> (safety_rules, signature, sr_error) op" where
  "guarded_sign_proposal C bd =
     bind_op (gets_op sr_signer) (\<lambda>_.
     bind_op (gets_op (\<lambda>s. verify_author s (bd_author bd))) (\<lambda>_.
     bind_op (on_storage ps_safety_data) (\<lambda>sd.
     bind_op (lift_op (verify_epoch (bd_epoch bd) sd)) (\<lambda>_.
     bind_op (lift_op (ensure (last_voted_round sd < bd_round bd)
       (InvalidProposal (Text ''Proposed round is not higher than last voted round'')))) (\<lambda>_.
     bind_op (gets_op (\<lambda>s. verify_qc C s (bd_quorum_cert bd))) (\<lambda>_.
     bind_op (lift_op (verify_and_update_preferred_round (bd_quorum_cert bd) sd)) (\<lambda>_.
     gets_op (\<lambda>s. sr_sign (bls_sign_block C) s bd))))))))"

definition guarded_sign_commit_vote ::
  "'c consensus_crypto_scheme \<Rightarrow> ledger_info_with_signatures \<Rightarrow> ledger_info \<Rightarrow> (safety_rules, signature, sr_error) op" where
  "guarded_sign_commit_vote C lis new_li =
     bind_op (gets_op sr_signer) (\<lambda>_.
     let old_li = lis_ledger_info lis in
     bind_op (lift_op (ensure (is_ordered_only (commit_info old_li)) (InvalidOrderedLedgerInfo (OfLedgerInfo old_li)))) (\<lambda>_.
     bind_op (lift_op (ensure (match_ordered_only (commit_info old_li) (commit_info new_li))
       (InconsistentExecutionResult (OfBlockInfo (commit_info old_li)) (OfBlockInfo (commit_info new_li))))) (\<lambda>_.
     bind_op (gets_op epoch_state_of) (\<lambda>es.
     bind_op (lift_op (map_err (\<lambda>e. InvalidQuorumCertificate (OfAnyhow (FromVerify e)))
       (lis_verify_signatures C lis (es_verifier es)))) (\<lambda>_.
     gets_op (\<lambda>s. sr_sign (bls_sign_li C) s new_li))))))"

record consensus_state =
  cs_safety_data :: safety_data
  cs_waypoint :: waypoint
  cs_in_validator_set :: bool

text \<open>The author is read only for a trace record; whether tracing is on is an argument.\<close>

definition guarded_consensus_state :: "bool \<Rightarrow> (safety_rules, consensus_state, sr_error) op" where
  "guarded_consensus_state trace_enabled =
     bind_op (on_storage ps_waypoint) (\<lambda>_.
     bind_op (on_storage ps_safety_data) (\<lambda>_.
     bind_op (if trace_enabled then bind_op (on_storage ps_author) (\<lambda>_. lift_op (Ok ())) else lift_op (Ok ())) (\<lambda>_.
     bind_op (on_storage ps_safety_data) (\<lambda>sd.
     bind_op (on_storage ps_waypoint) (\<lambda>wp.
     gets_op (\<lambda>s. Ok \<lparr>cs_safety_data = sd, cs_waypoint = wp, cs_in_validator_set = is_ok (sr_signer s)\<rparr>))))))"

text \<open>The end of initialisation: find the consensus key of the epoch, or forget the signer.\<close>

definition reconcile_key :: "'c consensus_crypto_scheme \<Rightarrow> epoch_state \<Rightarrow> author \<Rightarrow> (safety_rules, unit, sr_error) op" where
  "reconcile_key C es author self =
     (case get_public_key (es_verifier es) author of
        None \<Rightarrow> (Err (ValidatorNotInSet (OfAddress author)), self\<lparr>sr_validator_signer := None\<rparr>)
      | Some expected_key \<Rightarrow>
          if map_option (signer_public_key (bls_public_key C)) (sr_validator_signer self) = Some expected_key then (Ok (), self)
          else case on_storage (consensus_key_for_version C expected_key) self of
            (Ok key, s') \<Rightarrow> (Ok (), s'\<lparr>sr_validator_signer := Some (vs_signer_new author key)\<rparr>)
          | (Err (SecureStorageMissingDataError e), s') \<Rightarrow>
              (Err (ValidatorKeyNotFound e), s'\<lparr>sr_validator_signer := None\<rparr>)
          | (Err e, s') \<Rightarrow> (Err e, s'\<lparr>sr_validator_signer := None\<rparr>)
          | (Panic, s') \<Rightarrow> (Panic, s'))"

definition guarded_initialize ::
  "'c consensus_crypto_scheme \<Rightarrow> epoch_change_proof \<Rightarrow> (safety_rules, unit, sr_error) op" where
  "guarded_initialize C ecp =
     bind_op (on_storage ps_waypoint) (\<lambda>wp.
     bind_op (lift_op (map_err (\<lambda>e. InvalidEpochChangeProof (OfAnyhow e)) (ecp_verify C ecp (waypoint_dyn C wp)))) (\<lambda>last_li.
     let li = lis_ledger_info last_li in
     bind_op (lift_op (ok_or InvalidLedgerInfo (li_next_epoch_state li))) (\<lambda>es.
     bind_op (lift_op (map_err (\<lambda>e. InternalError (OfAnyhow e)) (new_epoch_boundary C li))) (\<lambda>new_wp.
     bind_op (if wp_version new_wp > wp_version wp then on_storage (ps_set_waypoint new_wp) else lift_op (Ok ())) (\<lambda>_.
     bind_op (on_storage ps_safety_data) (\<lambda>sd.
     bind_op (if sd_epoch sd > es_epoch es
              then lift_op (Err (WaypointOutOfDate (wp_version wp) (wp_version new_wp) (sd_epoch sd) (es_epoch es)))
              else if sd_epoch sd < es_epoch es then on_storage (ps_set_safety_data (sd_new (es_epoch es) 0 0 0 None))
              else lift_op (Ok ())) (\<lambda>_.
     bind_op (modify_op (\<lambda>s. s\<lparr>sr_epoch_state := Some es\<rparr>)) (\<lambda>_.
     bind_op (on_storage ps_author) (\<lambda>author.
     reconcile_key C es author)))))))))"

section \<open>Effect on the stored data\<close>

definition sr_coherent :: "safety_rules \<Rightarrow> bool" where
  "sr_coherent s \<longleftrightarrow> ps_coherent (persistent_storage s)"

text \<open>Two states with the same stored data, signer and epoch.\<close>

definition sr_same :: "safety_rules \<Rightarrow> safety_rules \<Rightarrow> bool" where
  "sr_same s s' \<longleftrightarrow>
     same_store (persistent_storage s) (persistent_storage s') \<and> sr_coherent s' \<and>
     sr_validator_signer s' = sr_validator_signer s \<and> sr_epoch_state s' = sr_epoch_state s"

definition reading :: "(safety_rules, 'a, 'e) op \<Rightarrow> bool" where
  "reading m \<longleftrightarrow> (\<forall>s. sr_coherent s \<longrightarrow> sr_same s (snd (m s)))"

lemma sr_same_trans: "sr_same s t \<Longrightarrow> sr_same t u \<Longrightarrow> sr_same s u"
  by (auto simp: sr_same_def same_store_def)

lemma sr_same_refl: "sr_coherent s \<Longrightarrow> sr_same s s"
  by (simp add: sr_same_def same_store_def)

lemma sr_same_coherent: "sr_same s t \<Longrightarrow> sr_coherent t"
  by (simp add: sr_same_def)

lemma sr_same_fields:
  "sr_same s t \<Longrightarrow> stored t = stored s" "sr_same s t \<Longrightarrow> sr_validator_signer t = sr_validator_signer s"
  "sr_same s t \<Longrightarrow> sr_epoch_state t = sr_epoch_state s"
  "sr_same s t \<Longrightarrow> kv_waypoint (internal_store (persistent_storage t)) = kv_waypoint (internal_store (persistent_storage s))"
  "sr_same s t \<Longrightarrow> may_lose_reply (persistent_storage t) \<Longrightarrow> may_lose_reply (persistent_storage s)"
  "sr_same s t \<Longrightarrow> kv_owner_account (internal_store (persistent_storage t)) = kv_owner_account (internal_store (persistent_storage s))"
  by (auto simp: sr_same_def same_store_def may_lose_reply_def)

lemma readingD: "reading m \<Longrightarrow> sr_coherent s \<Longrightarrow> m s = (r, s') \<Longrightarrow> sr_same s s'"
  by (force simp: reading_def)

lemma reading_lift [intro!]: "reading (lift_op r)"
  by (simp add: reading_def lift_op_def sr_same_refl)

lemma reading_gets [intro!]: "reading (gets_op f)"
  by (simp add: reading_def gets_op_def sr_same_refl)

lemma reading_bind [intro]: "reading m \<Longrightarrow> (\<And>x. reading (f x)) \<Longrightarrow> reading (bind_op m f)"
  unfolding reading_def
  by (auto simp: bind_op_def split: prod.splits result.splits)
    (metis snd_conv sr_same_coherent sr_same_trans)+

lemma reading_storage:
  assumes "\<And>ps r ps'. m ps = (r, ps') \<Longrightarrow> ps_coherent ps \<Longrightarrow> same_store ps ps' \<and> ps_coherent ps'"
  shows "reading (on_storage m)"
  using assms by (auto simp: reading_def on_storage_def sr_same_def sr_coherent_def split: prod.splits)

lemma reading_cached:
  assumes "\<And>ps r ps'. m ps = (r, ps') \<Longrightarrow> same_store ps ps' \<and> cached_safety_data ps' = cached_safety_data ps"
  shows "reading (on_storage m)"
  by (rule reading_storage) (use assms in \<open>auto simp: ps_coherent_def same_store_def\<close>)

lemma reading_safety_data [intro!]: "reading (on_storage ps_safety_data)"
  by (rule reading_storage) (blast dest: ps_safety_data_op)

lemma reading_author [intro!]: "reading (on_storage ps_author)"
  by (rule reading_cached) (rule ps_author_op)

lemma reading_waypoint [intro!]: "reading (on_storage ps_waypoint)"
  by (rule reading_cached) (rule ps_waypoint_op)

lemma reading_key [intro!]: "reading (on_storage (consensus_key_for_version C ver))"
  by (rule reading_cached) (rule consensus_key_op)

lemma reading_verify_proposal: "reading (verify_proposal C now_usecs vp)"
  unfolding verify_proposal_def Let_def by (intro reading_bind reading_lift reading_gets reading_safety_data)

lemma reading_sign_proposal: "reading (guarded_sign_proposal C bd)"
  unfolding guarded_sign_proposal_def by (intro reading_bind reading_lift reading_gets reading_safety_data)

lemma reading_sign_commit_vote: "reading (guarded_sign_commit_vote C lis new_li)"
  unfolding guarded_sign_commit_vote_def Let_def by (intro reading_bind reading_lift reading_gets)

lemma reading_consensus_state: "reading (guarded_consensus_state trace_enabled)"
  unfolding guarded_consensus_state_def
  by (intro reading_bind reading_lift reading_gets reading_safety_data reading_waypoint)
    (auto intro: reading_bind)

lemma safety_data_read:
  assumes "on_storage ps_safety_data s = (Ok sd, s')" and "sr_coherent s"
  shows "sr_same s s'" and "stored s = Some sd"
proof -
  show "sr_same s s'" using readingD [OF reading_safety_data assms(2,1)] .
  from assms show "stored s = Some sd"
    by (auto simp: on_storage_def sr_coherent_def split: prod.splits dest: ps_safety_data_op(3) [OF _ _ refl])
qed

text \<open>What a successful check of a proposal establishes.\<close>

lemma verify_proposal_Ok:
  assumes "verify_proposal C now_usecs vp s = (Ok vd, s')" and "sr_coherent s"
  obtains sd es where "stored s = Some sd" and "sd_epoch sd = block_epoch (vp_block vp)"
    and "sr_epoch_state s = Some es" and "qc_verify C (block_qc (vp_block vp)) (es_verifier es) = Ok ()"
    and "validate_signature C (vp_block vp) (es_verifier es) = Ok ()"
    and "verify_well_formed now_usecs (vp_block vp) = Ok ()" and "gen_vote_data C vp = Ok vd"
proof -
  from assms(1) obtain sd s1 where sd: "on_storage ps_safety_data s = (Ok sd, s1)"
    and epoch: "verify_epoch (block_epoch (vp_block vp)) sd = Ok ()"
    and qc: "verify_qc C s1 (block_qc (vp_block vp)) = Ok ()"
    and rest: "\<exists>es. epoch_state_of s1 = Ok es \<and> validate_signature C (vp_block vp) (es_verifier es) = Ok ()"
      "verify_well_formed now_usecs (vp_block vp) = Ok ()" "gen_vote_data C vp = Ok vd"
    by (auto simp: verify_proposal_def Let_def op_simps result_simps)
  note same = safety_data_read [OF sd assms(2)]
  from epoch have "sd_epoch sd = block_epoch (vp_block vp)" by (auto simp: verify_epoch_def split: if_splits)
  moreover from rest(1) sr_same_fields(3) [OF same(1)] obtain es where es: "sr_epoch_state s = Some es"
    "validate_signature C (vp_block vp) (es_verifier es) = Ok ()"
    by (cases "sr_epoch_state s") (auto simp: epoch_state_of_def)
  moreover from qc es(1) sr_same_fields(3) [OF same(1)] have "qc_verify C (block_qc (vp_block vp)) (es_verifier es) = Ok ()"
    by (auto simp: verify_qc_def epoch_state_of_def result_simps)
  ultimately show thesis using that same(2) rest(2,3) by blast
qed

lemma bind_lift_cases:
  assumes "bind_op (lift_op x) f s = (r, s')"
  obtains y where "x = Ok y" "f y s = (r, s')" | "s' = s" "\<not> is_ok r"
  using assms by (cases x) (auto simp: bind_op_def lift_op_def)

lemma bind_gets_cases:
  assumes "bind_op (gets_op g) f s = (r, s')"
  obtains y where "g s = Ok y" "f y s = (r, s')" | "s' = s" "\<not> is_ok r"
  using assms by (cases "g s") (auto simp: bind_op_def gets_op_def)

lemma bind_reading_cases:
  assumes "bind_op m f s = (r, s')" and "reading m" and "sr_coherent s"
  obtains y s1 where "m s = (Ok y, s1)" "sr_same s s1" "f y s1 = (r, s')" | "sr_same s s'" "\<not> is_ok r"
proof (cases "m s")
  case (Pair r1 s1)
  have "sr_same s s1" using readingD [OF assms(2,3) Pair] .
  with assms(1) Pair that show thesis by (cases r1) (auto simp: bind_op_def)
qed

text \<open>The vote that a validator casts and the safety data it stores with it.\<close>

definition new_vote ::
  "'c consensus_crypto_scheme \<Rightarrow> block \<Rightarrow> two_chain_timeout_certificate option \<Rightarrow> vote_data \<Rightarrow> safety_data \<Rightarrow> vote \<Rightarrow>
   safety_data \<Rightarrow> bool" where
  "new_vote C b maybe_tc vd sd v sd' \<longleftrightarrow>
     last_voted_round sd < block_round b \<and> safe_to_vote b maybe_tc = Ok () \<and>
     vote_vote_data v = vd \<and> vote_two_chain_timeout v = None \<and>
     construct_ledger_info_2chain b (vote_data_hash C vd) = Ok (vote_ledger_info v) \<and>
     sd' = (snd (observe_qc (block_qc b) (sd\<lparr>last_voted_round := block_round b\<rparr>)))\<lparr>last_vote := Some v\<rparr>"

lemma set_safety_data_write:
  assumes "on_storage (ps_set_safety_data data) s = (r, s')"
  shows "sr_coherent s'" and "stored s' = Some data \<or> stored s' = stored s \<and> r \<noteq> Ok u"
    and "r = Ok u \<Longrightarrow> stored s' = Some data"
    and "sr_validator_signer s' = sr_validator_signer s" and "sr_epoch_state s' = sr_epoch_state s"
    and "kv_waypoint (internal_store (persistent_storage s')) = kv_waypoint (internal_store (persistent_storage s))"
    and "r = Ok () \<or> stored s' = stored s \<or> may_lose_reply (persistent_storage s)"
    and "may_lose_reply (persistent_storage s') \<Longrightarrow> may_lose_reply (persistent_storage s)"
    and "kv_owner_account (internal_store (persistent_storage s')) = kv_owner_account (internal_store (persistent_storage s))"
proof -
  obtain ps where wr: "ps_set_safety_data data (persistent_storage s) = (r, ps)" and s': "s' = s\<lparr>persistent_storage := ps\<rparr>"
    using assms by (cases "ps_set_safety_data data (persistent_storage s)") (simp add: on_storage_def)
  note op = ps_set_safety_data_op [OF wr]
  show "sr_coherent s'" using op(1) s' by (simp add: sr_coherent_def)
  show "stored s' = Some data \<or> stored s' = stored s \<and> r \<noteq> Ok u" using op(2) s' by simp
  show "r = Ok u \<Longrightarrow> stored s' = Some data" using op(3) s' by simp
  show "sr_validator_signer s' = sr_validator_signer s" "sr_epoch_state s' = sr_epoch_state s" using s' by simp_all
  show "kv_waypoint (internal_store (persistent_storage s')) = kv_waypoint (internal_store (persistent_storage s))"
    using op(5) s' by simp
  show "r = Ok () \<or> stored s' = stored s \<or> may_lose_reply (persistent_storage s)" using op(9) s' by auto
  show "may_lose_reply (persistent_storage s') \<Longrightarrow> may_lose_reply (persistent_storage s)"
    using op(8) s' by (auto simp: may_lose_reply_def)
  show "kv_owner_account (internal_store (persistent_storage s')) = kv_owner_account (internal_store (persistent_storage s))"
    using op(6) s' by simp
qed

lemma cast_vote_op:
  assumes "cast_vote C b maybe_tc vd sd s = (r, s')" and "sr_coherent s"
  shows "sr_coherent s'" and "sr_validator_signer s' = sr_validator_signer s" and "sr_epoch_state s' = sr_epoch_state s"
    and "kv_waypoint (internal_store (persistent_storage s')) = kv_waypoint (internal_store (persistent_storage s))"
    and "stored s' = stored s \<and> \<not> is_ok r \<or>
      (\<exists>v sd'. new_vote C b maybe_tc vd sd v sd' \<and> stored s' = Some sd' \<and> (is_ok r \<longrightarrow> r = Ok v))"
    and "kv_owner_account (internal_store (persistent_storage s')) = kv_owner_account (internal_store (persistent_storage s))"
proof -
  have "s' = s \<and> \<not> is_ok r \<or>
    (\<exists>v sd' r1. new_vote C b maybe_tc vd sd v sd' \<and> on_storage (ps_set_safety_data sd') s = (r1, s') \<and>
      (is_ok r \<longrightarrow> r = Ok v \<and> r1 = Ok ()))"
    using assms(1) unfolding cast_vote_def Let_def
  proof (elim bind_lift_cases bind_gets_cases)
    fix sd1 u signer li sig
    assume a: "verify_and_update_last_vote_round (block_round b) sd = Ok sd1" "safe_to_vote b maybe_tc = Ok u"
      "construct_ledger_info_2chain b (vote_data_hash C vd) = Ok li"
    let ?v = "vote_new_with_signature vd (signer_author signer) li sig"
    let ?sd = "(snd (observe_qc (block_qc b) sd1))\<lparr>last_vote := Some ?v\<rparr>"
    assume wr: "bind_op (on_storage (ps_set_safety_data ?sd)) (\<lambda>_. lift_op (Ok ?v)) s = (r, s')"
    from a have "new_vote C b maybe_tc vd sd ?v ?sd"
      by (auto simp: new_vote_def verify_and_update_last_vote_round_def vote_new_with_signature_def split: if_splits)
    moreover from wr obtain r1 where "on_storage (ps_set_safety_data ?sd) s = (r1, s')" "is_ok r \<longrightarrow> r = Ok ?v \<and> r1 = Ok ()"
      by (cases "on_storage (ps_set_safety_data ?sd) s"; cases "fst (on_storage (ps_set_safety_data ?sd) s)")
        (auto simp: lift_op_def)
    ultimately show ?thesis by blast
  qed simp_all
  then show "sr_coherent s'" "sr_validator_signer s' = sr_validator_signer s" "sr_epoch_state s' = sr_epoch_state s"
    "kv_waypoint (internal_store (persistent_storage s')) = kv_waypoint (internal_store (persistent_storage s))"
    "stored s' = stored s \<and> \<not> is_ok r \<or>
      (\<exists>v sd'. new_vote C b maybe_tc vd sd v sd' \<and> stored s' = Some sd' \<and> (is_ok r \<longrightarrow> r = Ok v))"
    "kv_owner_account (internal_store (persistent_storage s')) = kv_owner_account (internal_store (persistent_storage s))"
    using assms(2) by (auto dest: set_safety_data_write)
qed

definition proposal_ok ::
  "'c consensus_crypto_scheme \<Rightarrow> u64 \<Rightarrow> vote_proposal \<Rightarrow> validator_verifier \<Rightarrow> safety_data \<Rightarrow> vote_data \<Rightarrow> bool" where
  "proposal_ok C now_usecs vp verifier sd vd \<longleftrightarrow>
     sd_epoch sd = block_epoch (vp_block vp) \<and> qc_verify C (block_qc (vp_block vp)) verifier = Ok () \<and>
     validate_signature C (vp_block vp) verifier = Ok () \<and> verify_well_formed now_usecs (vp_block vp) = Ok () \<and>
     gen_vote_data C vp = Ok vd"

definition tc_ok ::
  "'c consensus_crypto_scheme \<Rightarrow> two_chain_timeout_certificate option \<Rightarrow> validator_verifier \<Rightarrow> bool" where
  "tc_ok C maybe_tc verifier \<longleftrightarrow> (case maybe_tc of None \<Rightarrow> True | Some tc \<Rightarrow> tc_verify C tc verifier = Ok ())"

lemma verify_tc_opt_Ok:
  "sr_epoch_state s = Some es \<Longrightarrow> verify_tc_opt C s maybe_tc = Ok () \<longleftrightarrow> tc_ok C maybe_tc (es_verifier es)"
  by (cases maybe_tc) (auto simp: verify_tc_opt_def verify_tc_def tc_ok_def epoch_state_of_def result_simps)

text \<open>
  Voting either hands out the stored vote of the round again, or casts a new vote after all checks; a new vote is
  stored before it is handed out.
\<close>

definition vote_cast ::
  "'c consensus_crypto_scheme \<Rightarrow> u64 \<Rightarrow> vote_proposal \<Rightarrow> two_chain_timeout_certificate option \<Rightarrow> validator_verifier \<Rightarrow>
   safety_data \<Rightarrow> vote \<Rightarrow> safety_data \<Rightarrow> bool" where
  "vote_cast C now_usecs vp maybe_tc verifier sd v sd' \<longleftrightarrow>
     (\<exists>vd. proposal_ok C now_usecs vp verifier sd vd \<and> tc_ok C maybe_tc verifier \<and>
       new_vote C (vp_block vp) maybe_tc vd sd v sd')"

text \<open>The parts of the state that only \<open>initialize\<close> and a restart change.\<close>

definition kept :: "safety_rules \<Rightarrow> safety_rules \<Rightarrow> bool" where
  "kept s s' \<longleftrightarrow> sr_coherent s' \<and> sr_validator_signer s' = sr_validator_signer s \<and> sr_epoch_state s' = sr_epoch_state s \<and>
     kv_waypoint (internal_store (persistent_storage s')) = kv_waypoint (internal_store (persistent_storage s)) \<and>
     kv_owner_account (internal_store (persistent_storage s')) = kv_owner_account (internal_store (persistent_storage s))"

lemma sr_same_kept: "sr_same s s' \<Longrightarrow> kept s s'"
  using sr_same_fields sr_same_coherent by (auto simp: kept_def)

lemma kept_trans: "sr_same s t \<Longrightarrow> kept t u \<Longrightarrow> kept s u"
  using sr_same_fields by (auto simp: kept_def)

text \<open>
  Rules for a postcondition \<open>Q\<close> on result and state of an operation that reads, checks and then goes on: \<open>Q\<close> must
  allow for a failure at any of the checks.
\<close>

definition allows_failure :: "(('a, 'e) result \<Rightarrow> safety_rules \<Rightarrow> bool) \<Rightarrow> safety_rules \<Rightarrow> bool" where
  "allows_failure Q s \<longleftrightarrow> (\<forall>r t. sr_same s t \<longrightarrow> \<not> is_ok r \<longrightarrow> Q r t)"

lemma allows_failure_same: "allows_failure Q s \<Longrightarrow> sr_same s t \<Longrightarrow> allows_failure Q t"
  by (auto simp: allows_failure_def dest: sr_same_trans)

lemma post_read:
  assumes "bind_op m f s = (r, s')" and "sr_coherent s" and "reading m" and "allows_failure Q s"
    and "\<And>x t. m s = (Ok x, t) \<Longrightarrow> sr_same s t \<Longrightarrow> f x t = (r, s') \<Longrightarrow> Q r s'"
  shows "Q r s'"
  using assms by (elim bind_reading_cases) (auto simp: allows_failure_def)

lemma post_lift:
  assumes "bind_op (lift_op x) f s = (r, s')" and "sr_coherent s" and "allows_failure Q s"
    and "\<And>y. x = Ok y \<Longrightarrow> f y s = (r, s') \<Longrightarrow> Q r s'"
  shows "Q r s'"
  using assms by (elim bind_lift_cases) (auto simp: allows_failure_def dest: sr_same_refl)

lemma post_gets:
  assumes "bind_op (gets_op g) f s = (r, s')" and "sr_coherent s" and "allows_failure Q s"
    and "\<And>y. g s = Ok y \<Longrightarrow> f y s = (r, s') \<Longrightarrow> Q r s'"
  shows "Q r s'"
  using assms by (elim bind_gets_cases) (auto simp: allows_failure_def dest: sr_same_refl)

definition vote_outcome ::
  "'c consensus_crypto_scheme \<Rightarrow> u64 \<Rightarrow> vote_proposal \<Rightarrow> two_chain_timeout_certificate option \<Rightarrow> safety_rules \<Rightarrow>
   (vote, sr_error) result \<Rightarrow> safety_rules \<Rightarrow> bool" where
  "vote_outcome C now_usecs vp maybe_tc s r s' \<longleftrightarrow> kept s s' \<and>
     (stored s' = stored s \<and>
        (is_ok r \<longrightarrow> (\<exists>sd v. stored s = Some sd \<and> r = Ok v \<and> last_vote sd = Some v \<and>
          vote_round v = block_round (vp_block vp) \<and> sd_epoch sd = block_epoch (vp_block vp))) \<or>
      (\<exists>es sd v sd'. sr_epoch_state s = Some es \<and> stored s = Some sd \<and> stored s' = Some sd' \<and>
        vote_cast C now_usecs vp maybe_tc (es_verifier es) sd v sd' \<and> (is_ok r \<longrightarrow> r = Ok v)))"

lemma vote_outcome_failure: "allows_failure (vote_outcome C now_usecs vp maybe_tc s) s"
  by (auto simp: allows_failure_def vote_outcome_def sr_same_kept sr_same_fields)

lemma cast_vote_outcome:
  assumes "cast_vote C (vp_block vp) maybe_tc vd sd t = (r, s')" and "sr_same s t"
    and "sr_epoch_state s = Some es" and "stored s = Some sd"
    and "proposal_ok C now_usecs vp (es_verifier es) sd vd" and "tc_ok C maybe_tc (es_verifier es)"
  shows "vote_outcome C now_usecs vp maybe_tc s r s'"
proof -
  note op = cast_vote_op [OF assms(1) sr_same_coherent [OF assms(2)]]
  have "kept s s'" by (rule kept_trans [OF assms(2)]) (use op(1-4,6) in \<open>simp add: kept_def\<close>)
  with op(5) assms(3-6) sr_same_fields(1) [OF assms(2)] show ?thesis
    unfolding vote_outcome_def vote_cast_def by metis
qed

lemma vote_after_checks:
  assumes "verify_proposal C now_usecs vp s = (Ok vd, t)" and "sr_coherent s" and "sr_same s t"
    and "verify_tc_opt C t maybe_tc = Ok ()" and "on_storage ps_safety_data t = (Ok sd, u)" and "sr_same t u"
    and "(case last_vote sd of
        Some vote \<Rightarrow> if vote_round vote = block_round (vp_block vp) then lift_op (Ok vote)
          else cast_vote C (vp_block vp) maybe_tc vd sd
      | None \<Rightarrow> cast_vote C (vp_block vp) maybe_tc vd sd) u = (r, s')"
  shows "vote_outcome C now_usecs vp maybe_tc s r s'"
proof -
  obtain es where sd: "stored s = Some sd" "sr_epoch_state s = Some es" "proposal_ok C now_usecs vp (es_verifier es) sd vd"
    using verify_proposal_Ok [OF assms(1,2)] safety_data_read(2) [OF assms(5) sr_same_coherent [OF assms(3)]]
      sr_same_fields(1) [OF assms(3)] unfolding proposal_ok_def by (metis option.inject)
  have "tc_ok C maybe_tc (es_verifier es)"
    using assms(4) verify_tc_opt_Ok sd(2) sr_same_fields(3) [OF assms(3)] by metis
  note cast = cast_vote_outcome [OF _ sr_same_trans [OF assms(3,6)] sd(2,1,3) this]
  from assms(7) cast sd sr_same_trans [OF assms(3,6)] show ?thesis
    by (auto simp: lift_op_def vote_outcome_def sr_same_kept sr_same_fields proposal_ok_def
        split: option.splits if_splits)
qed

lemma vote_op:
  assumes "guarded_construct_and_sign_vote_two_chain C now_usecs vp maybe_tc s = (r, s')" and "sr_coherent s"
  shows "vote_outcome C now_usecs vp maybe_tc s r s'"
  using assms(1) unfolding guarded_construct_and_sign_vote_two_chain_def
  apply (rule post_gets [OF _ assms(2) vote_outcome_failure])
  apply (erule post_read [OF _ assms(2) reading_verify_proposal vote_outcome_failure])
  subgoal for signer vd t
    apply (erule post_gets [OF _ sr_same_coherent allows_failure_same [OF vote_outcome_failure]], assumption+)
    apply (erule post_read [OF _ sr_same_coherent reading_safety_data allows_failure_same [OF vote_outcome_failure]], assumption+)
    using vote_after_checks [OF _ assms(2)] by simp
  done

text \<open>A timeout is signed only after the round was stored as voted.\<close>

definition timeout_ok ::
  "'c consensus_crypto_scheme \<Rightarrow> two_chain_timeout \<Rightarrow> two_chain_timeout_certificate option \<Rightarrow> validator_verifier \<Rightarrow>
   safety_data \<Rightarrow> bool" where
  "timeout_ok C timeout maybe_tc verifier sd \<longleftrightarrow>
     sd_epoch sd = to_epoch timeout \<and> to_verify C timeout verifier = Ok () \<and> tc_ok C maybe_tc verifier \<and>
     safe_to_timeout timeout maybe_tc sd = Ok () \<and> last_voted_round sd \<le> to_round timeout"

definition timeout_outcome ::
  "'c consensus_crypto_scheme \<Rightarrow> two_chain_timeout \<Rightarrow> two_chain_timeout_certificate option \<Rightarrow> safety_rules \<Rightarrow>
   (signature, sr_error) result \<Rightarrow> safety_rules \<Rightarrow> bool" where
  "timeout_outcome C timeout maybe_tc s r s' \<longleftrightarrow> kept s s' \<and>
     (stored s' = stored s \<and> \<not> is_ok r \<or>
      (\<exists>es sd. sr_epoch_state s = Some es \<and> stored s = Some sd \<and> timeout_ok C timeout maybe_tc (es_verifier es) sd \<and>
        stored s' = Some (sd\<lparr>last_voted_round := to_round timeout\<rparr>)))"

lemma timeout_outcome_failure: "allows_failure (timeout_outcome C timeout maybe_tc s) s"
  by (auto simp: allows_failure_def timeout_outcome_def sr_same_kept sr_same_fields)

lemma timeout_write:
  assumes "bind_op (if to_round timeout < last_voted_round sd
      then lift_op (Err (IncorrectLastVotedRound (to_round timeout) (last_voted_round sd)))
      else if to_round timeout > last_voted_round sd
      then bind_op (lift_op (verify_and_update_last_vote_round (to_round timeout) sd)) (\<lambda>sd1.
           on_storage (ps_set_safety_data sd1))
      else lift_op (Ok ())) (\<lambda>_. gets_op f) t = (r, s')"
    and "sr_same s t" and "sr_epoch_state s = Some es" and "stored s = Some sd"
    and "last_voted_round sd \<le> to_round timeout \<Longrightarrow> timeout_ok C timeout maybe_tc (es_verifier es) sd"
  shows "timeout_outcome C timeout maybe_tc s r s'"
proof (cases "to_round timeout" "last_voted_round sd" rule: linorder_cases)
  case less
  with assms(1) have "s' = t" "\<not> is_ok r" by (auto simp: bind_op_def lift_op_def)
  with assms(2) show ?thesis by (simp add: timeout_outcome_def sr_same_kept sr_same_fields)
next
  case equal
  with assms(1) have "s' = t" by (simp add: bind_op_def lift_op_def gets_op_def)
  moreover have "sd\<lparr>last_voted_round := to_round timeout\<rparr> = sd" using equal by simp
  ultimately show ?thesis
    using assms(2-5) equal sr_same_kept [OF assms(2)] sr_same_fields(1) [OF assms(2)] by (simp add: timeout_outcome_def)
next
  case greater
  let ?sd = "sd\<lparr>last_voted_round := to_round timeout\<rparr>"
  obtain r1 u where wr: "on_storage (ps_set_safety_data ?sd) t = (r1, u)" by (cases "on_storage (ps_set_safety_data ?sd) t")
  have "verify_and_update_last_vote_round (to_round timeout) sd = Ok ?sd"
    using greater by (simp add: verify_and_update_last_vote_round_def)
  moreover have "\<not> to_round timeout < last_voted_round sd" using greater by simp
  ultimately have "bind_op (on_storage (ps_set_safety_data ?sd)) (\<lambda>_. gets_op f) t = (r, s')"
    using greater assms(1) by (simp add: bind_op_def lift_op_def)
  with wr have su: "s' = u" "is_ok r \<longrightarrow> r1 = Ok ()" by (cases r1; auto simp: gets_op_def)+
  note op = set_safety_data_write [OF wr]
  have "kept s s'" by (rule kept_trans [OF assms(2)]) (use op(1,4-6,9) su in \<open>simp add: kept_def\<close>)
  moreover have "stored s' = Some ?sd \<or> stored s' = stored s \<and> \<not> is_ok r"
    using op(2) [of "()"] su sr_same_fields(1) [OF assms(2)] by auto
  moreover have "timeout_ok C timeout maybe_tc (es_verifier es) sd" using assms(5) greater by simp
  ultimately show ?thesis using assms(3,4) unfolding timeout_outcome_def by blast
qed

lemma timeout_op:
  assumes "guarded_sign_timeout_with_qc C timeout maybe_tc s = (r, s')" and "sr_coherent s"
  shows "timeout_outcome C timeout maybe_tc s r s'"
  using assms(1) unfolding guarded_sign_timeout_with_qc_def
  apply (rule post_gets [OF _ assms(2) timeout_outcome_failure])
  apply (erule post_read [OF _ assms(2) reading_safety_data timeout_outcome_failure])
  subgoal premises p for signer sd t
  proof -
    note coh = sr_same_coherent [OF p(3)] and fails = allows_failure_same [OF timeout_outcome_failure p(3)]
    have sd: "stored s = Some sd" using safety_data_read(2) [OF p(2) assms(2)] .
    show ?thesis
      using p(4)
      apply (rule post_lift [OF _ coh fails])
      apply (erule post_gets [OF _ coh fails])
      apply (erule post_lift [OF _ coh fails])
      apply (erule post_gets [OF _ coh fails])
      apply (erule post_lift [OF _ coh fails])
      subgoal premises q for u1 es u2 u3 u4
      proof (rule timeout_write [OF q(6) p(3) _ sd])
        show es: "sr_epoch_state s = Some es"
          using q(2) sr_same_fields(3) [OF p(3)] by (cases "sr_epoch_state s") (auto simp: epoch_state_of_def)
        have "tc_ok C maybe_tc (es_verifier es)"
          using q(4) verify_tc_opt_Ok es sr_same_fields(3) [OF p(3)] by (metis unit.exhaust)
        then show "timeout_ok C timeout maybe_tc (es_verifier es) sd" if "last_voted_round sd \<le> to_round timeout"
          using that q(1,3,5) by (auto simp: timeout_ok_def verify_epoch_def result_simps split: if_splits)
      qed
      done
  qed
  done

text \<open>
  Initialisation moves to the epoch that a verified epoch change proof leads to. It starts that epoch with empty
  safety data when it is later than the stored one. If the reply to that write is lost, the old epoch state stays.
\<close>

abbreviation "stored_waypoint s \<equiv> kv_waypoint (internal_store (persistent_storage s))"

definition epoch_reset :: "safety_rules \<Rightarrow> epoch_state \<Rightarrow> safety_rules \<Rightarrow> bool" where
  "epoch_reset s es s' \<longleftrightarrow>
     (\<exists>sd. stored s = Some sd \<and> sd_epoch sd < es_epoch es \<and> stored s' = Some (sd_new (es_epoch es) 0 0 0 None))"

definition epoch_entered :: "safety_rules \<Rightarrow> epoch_state \<Rightarrow> safety_rules \<Rightarrow> bool" where
  "epoch_entered s es s' \<longleftrightarrow>
     stored s' = stored s \<and> sr_epoch_state s' = sr_epoch_state s \<or>
     epoch_reset s es s' \<and> sr_epoch_state s' = sr_epoch_state s \<and> may_lose_reply (persistent_storage s) \<or>
     (stored s' = stored s \<and> (\<exists>sd. stored s = Some sd \<and> sd_epoch sd = es_epoch es) \<or> epoch_reset s es s') \<and>
       sr_epoch_state s' = Some es"

definition init_outcome :: "'c consensus_crypto_scheme \<Rightarrow> epoch_change_proof \<Rightarrow> safety_rules \<Rightarrow> safety_rules \<Rightarrow> bool" where
  "init_outcome C ecp s s' \<longleftrightarrow> sr_coherent s' \<and>
     (stored s' = stored s \<and> sr_epoch_state s' = sr_epoch_state s \<and> stored_waypoint s' = stored_waypoint s \<or>
      (\<exists>wp lis es. stored_waypoint s = Some wp \<and> ecp_verify C ecp (waypoint_dyn C wp) = Ok lis \<and>
        li_next_epoch_state (lis_ledger_info lis) = Some es \<and>
        stored_waypoint s' \<in> {Some wp, Some (new_any C (lis_ledger_info lis))} \<and> epoch_entered s es s'))"

lemma reconcile_key_op:
  assumes "reconcile_key C es author s = (r, s')" and "sr_coherent s"
  shows "sr_coherent s'" and "stored s' = stored s" and "stored_waypoint s' = stored_waypoint s"
    and "sr_epoch_state s' = sr_epoch_state s"
proof -
  have "\<exists>t signer. sr_same s t \<and> s' = t\<lparr>sr_validator_signer := signer\<rparr>"
  proof (cases "get_public_key (es_verifier es) author")
    case None
    with assms show ?thesis by (auto simp: reconcile_key_def intro!: exI [of _ s] sr_same_refl)
  next
    case (Some key)
    obtain r1 t where t: "on_storage (consensus_key_for_version C key) s = (r1, t)"
      by (cases "on_storage (consensus_key_for_version C key) s")
    have same: "sr_same s t" using readingD [OF reading_key assms(2) t] .
    have "s' = s\<lparr>sr_validator_signer := sr_validator_signer s\<rparr> \<or> (\<exists>signer. s' = t\<lparr>sr_validator_signer := signer\<rparr>)"
      using assms(1) Some t
      by (auto simp: reconcile_key_def split: if_splits result.splits sr_error.splits)
        (metis safety_rules.surjective safety_rules.update_convs(2))
    with same sr_same_refl [OF assms(2)] show ?thesis by blast
  qed
  then obtain t signer where "sr_same s t" "s' = t\<lparr>sr_validator_signer := signer\<rparr>" by blast
  with sr_same_fields [of s t] sr_same_coherent [of s t]
  show "sr_coherent s'" "stored s' = stored s" "stored_waypoint s' = stored_waypoint s" "sr_epoch_state s' = sr_epoch_state s"
    by (simp_all add: sr_coherent_def)
qed

lemma enter_epoch_op:
  assumes "bind_op (modify_op (\<lambda>s. s\<lparr>sr_epoch_state := Some es\<rparr>)) (\<lambda>_. bind_op (on_storage ps_author) (\<lambda>author.
      reconcile_key C es author)) t = (r, s')" and "sr_coherent t"
  shows "sr_coherent s'" and "stored s' = stored t" and "stored_waypoint s' = stored_waypoint t"
    and "sr_epoch_state s' = Some es"
proof -
  let ?t = "t\<lparr>sr_epoch_state := Some es\<rparr>"
  have coh: "sr_coherent ?t" using assms(2) by (simp add: sr_coherent_def)
  have "bind_op (on_storage ps_author) (reconcile_key C es) ?t = (r, s')"
    using assms(1) by (simp add: bind_op_def modify_op_def)
  then show "sr_coherent s'" "stored s' = stored t" "stored_waypoint s' = stored_waypoint t" "sr_epoch_state s' = Some es"
    by (elim bind_reading_cases [OF _ reading_author coh];
        force dest: reconcile_key_op sr_same_fields sr_same_coherent)+
qed

lemma start_epoch_op:
  assumes "bind_op (if sd_epoch sd > es_epoch es then lift_op (Err err)
      else if sd_epoch sd < es_epoch es then on_storage (ps_set_safety_data (sd_new (es_epoch es) 0 0 0 None))
      else lift_op (Ok ())) (\<lambda>_. bind_op (modify_op (\<lambda>s. s\<lparr>sr_epoch_state := Some es\<rparr>)) (\<lambda>_.
      bind_op (on_storage ps_author) (\<lambda>author. reconcile_key C es author))) t = (r, s')"
    and "sr_coherent t" and "stored t = Some sd"
  shows "sr_coherent s' \<and> stored_waypoint s' = stored_waypoint t \<and> epoch_entered t es s'"
proof (cases "sd_epoch sd" "es_epoch es" rule: linorder_cases)
  case greater
  then have "s' = t" using assms(1) by (simp add: bind_op_def lift_op_def)
  with assms(2) show ?thesis by (simp add: epoch_entered_def)
next
  case equal
  with assms(1) have "bind_op (modify_op (\<lambda>s. s\<lparr>sr_epoch_state := Some es\<rparr>)) (\<lambda>_.
      bind_op (on_storage ps_author) (\<lambda>author. reconcile_key C es author)) t = (r, s')"
    by (simp add: bind_op_def lift_op_def)
  from enter_epoch_op [OF this assms(2)] equal assms(3) show ?thesis by (simp add: epoch_entered_def)
next
  case less
  then have not_gt: "\<not> es_epoch es < sd_epoch sd" by simp
  let ?sd = "sd_new (es_epoch es) 0 0 0 None"
  obtain r1 u where wr: "on_storage (ps_set_safety_data ?sd) t = (r1, u)" by (cases "on_storage (ps_set_safety_data ?sd) t")
  note op = set_safety_data_write [OF wr]
  have reset: "stored u = Some ?sd \<Longrightarrow> epoch_reset t es u" using less assms(3) by (simp add: epoch_reset_def)
  show ?thesis
  proof (cases r1)
    case (Ok x)
    with wr less not_gt assms(1) have "bind_op (modify_op (\<lambda>s. s\<lparr>sr_epoch_state := Some es\<rparr>)) (\<lambda>_.
      bind_op (on_storage ps_author) (\<lambda>author. reconcile_key C es author)) u = (r, s')" by simp
    note en = enter_epoch_op [OF this op(1)]
    have "epoch_reset t es s'" using reset op(3) Ok en(2) by (simp add: epoch_reset_def)
    with en op(6) show ?thesis by (simp add: epoch_entered_def)
  next
    case (Err e)
    with wr less not_gt assms(1) have "s' = u" by simp
    with Err op(1,2,5-7) reset show ?thesis by (auto simp: epoch_entered_def)
  next
    case Panic
    with wr less not_gt assms(1) have "s' = u" by simp
    with Panic op(1,2,5-7) reset show ?thesis by (auto simp: epoch_entered_def)
  qed
qed

lemma set_waypoint_write:
  assumes "on_storage (ps_set_waypoint wp) s = (r, s')" and "sr_coherent s"
  shows "sr_coherent s'" and "stored s' = stored s" and "sr_epoch_state s' = sr_epoch_state s"
    and "stored_waypoint s' \<in> {Some wp, stored_waypoint s}"
    and "may_lose_reply (persistent_storage s') \<Longrightarrow> may_lose_reply (persistent_storage s)"
proof -
  obtain ps where wr: "ps_set_waypoint wp (persistent_storage s) = (r, ps)" and s': "s' = s\<lparr>persistent_storage := ps\<rparr>"
    using assms by (cases "ps_set_waypoint wp (persistent_storage s)") (simp add: on_storage_def)
  note op = ps_set_waypoint_op [OF wr]
  show "sr_coherent s'" using op(1,2) s' assms(2) by (simp add: sr_coherent_def ps_coherent_def)
  show "stored s' = stored s" "sr_epoch_state s' = sr_epoch_state s" using op(1) s' by simp_all
  show "stored_waypoint s' \<in> {Some wp, stored_waypoint s}" using op(4) s' by simp
  show "may_lose_reply (persistent_storage s') \<Longrightarrow> may_lose_reply (persistent_storage s)"
    using op(7) s' by (auto simp: may_lose_reply_def)
qed

lemma init_outcome_failure: "allows_failure (\<lambda>r. init_outcome C ecp s) s"
  by (auto simp: allows_failure_def init_outcome_def sr_same_fields sr_same_coherent)

text \<open>From a state that agrees with the first one on the stored data and the epoch state.\<close>

lemma epoch_entered_from:
  assumes "epoch_entered t es s'" and "stored t = stored s" and "sr_epoch_state t = sr_epoch_state s"
    and "may_lose_reply (persistent_storage t) \<Longrightarrow> may_lose_reply (persistent_storage s)"
  shows "epoch_entered s es s'"
  using assms by (auto simp: epoch_entered_def epoch_reset_def)

lemma init_tail_op:
  assumes "bind_op (if wp_version new_wp > wp_version wp then on_storage (ps_set_waypoint new_wp) else lift_op (Ok ())) (\<lambda>_.
      bind_op (on_storage ps_safety_data) (\<lambda>sd. bind_op (if sd_epoch sd > es_epoch es then lift_op (Err (err sd))
        else if sd_epoch sd < es_epoch es then on_storage (ps_set_safety_data (sd_new (es_epoch es) 0 0 0 None))
        else lift_op (Ok ())) (\<lambda>_. bind_op (modify_op (\<lambda>s. s\<lparr>sr_epoch_state := Some es\<rparr>)) (\<lambda>_.
        bind_op (on_storage ps_author) (\<lambda>author. reconcile_key C es author))))) t = (r, s')"
    and "sr_coherent t"
  shows "sr_coherent s' \<and> stored_waypoint s' \<in> {stored_waypoint t, Some new_wp} \<and> epoch_entered t es s'"
proof -
  define m where "m = (if wp_version new_wp > wp_version wp then on_storage (ps_set_waypoint new_wp) else lift_op (Ok ()))"
  obtain r1 u where u: "m t = (r1, u)" by (cases "m t")
  have w: "sr_coherent u" "stored u = stored t" "sr_epoch_state u = sr_epoch_state t"
    "stored_waypoint u \<in> {Some new_wp, stored_waypoint t}"
    "may_lose_reply (persistent_storage u) \<Longrightarrow> may_lose_reply (persistent_storage t)"
    using u assms(2) set_waypoint_write [OF _ assms(2), of new_wp r1 u] by (auto simp: m_def lift_op_def split: if_splits)
  note run = assms(1) [folded m_def]
  show ?thesis
  proof (cases "is_ok r1")
    case False
    with run u have "s' = u" by (cases r1) auto
    with w show ?thesis by (auto simp: epoch_entered_def)
  next
    case True
    define k where "k = (\<lambda>sd. bind_op (if sd_epoch sd > es_epoch es then lift_op (Err (err sd))
        else if sd_epoch sd < es_epoch es then on_storage (ps_set_safety_data (sd_new (es_epoch es) 0 0 0 None))
        else lift_op (Ok ())) (\<lambda>_. bind_op (modify_op (\<lambda>s. s\<lparr>sr_epoch_state := Some es\<rparr>)) (\<lambda>_.
        bind_op (on_storage ps_author) (\<lambda>author. reconcile_key C es author))))"
    from True run u have "bind_op (on_storage ps_safety_data) k u = (r, s')" unfolding k_def by (cases r1) auto
    then show ?thesis
    proof (elim bind_reading_cases [OF _ reading_safety_data w(1)])
      assume "sr_same u s'"
      with w show ?thesis by (auto simp: epoch_entered_def sr_same_fields dest: sr_same_coherent)
    next
      fix sd v assume read: "on_storage ps_safety_data u = (Ok sd, v)" and v: "sr_same u v" and "k sd v = (r, s')"
      note f = sr_same_fields [OF v]
      have "stored v = Some sd" using safety_data_read(2) [OF read w(1)] f(1) by simp
      from start_epoch_op [OF \<open>k sd v = (r, s')\<close> [unfolded k_def] sr_same_coherent [OF v] this]
      have "sr_coherent s'" "stored_waypoint s' = stored_waypoint v" "epoch_entered v es s'" by simp_all
      with epoch_entered_from [of v es s' t] f w show ?thesis by auto
    qed
  qed
qed

lemma init_op:
  assumes "guarded_initialize C ecp s = (r, s')" and "sr_coherent s"
  shows "init_outcome C ecp s s'"
  using assms(1) unfolding guarded_initialize_def Let_def
  apply (rule post_read [OF _ assms(2) reading_waypoint init_outcome_failure])
  subgoal premises p for wp t
  proof -
    note coh = sr_same_coherent [OF p(2)] and fails = allows_failure_same [OF init_outcome_failure p(2)]
      and f = sr_same_fields [OF p(2)]
    have wp: "stored_waypoint s = Some wp"
      using p(1) ps_waypoint_Ok by (auto simp: on_storage_def split: prod.splits)
    show ?thesis
      using p(3)
      apply (rule post_lift [OF _ coh fails])
      apply (erule post_lift [OF _ coh fails])
      apply (erule post_lift [OF _ coh fails])
      subgoal premises q for lis es new_wp
      proof -
        have verified: "ecp_verify C ecp (waypoint_dyn C wp) = Ok lis" "li_next_epoch_state (lis_ledger_info lis) = Some es"
          "new_wp = new_any C (lis_ledger_info lis)"
          using q(1-3) by (auto simp: result_simps new_epoch_boundary_def)
        from init_tail_op [OF q(4) coh] f wp verified epoch_entered_from [of t es s' s]
        show ?thesis unfolding init_outcome_def by auto
      qed
      done
  qed
  done

end
