(* ===== verification/Voting.thy ===== *)
theory Voting
  imports Safety_Rules
begin

text \<open>
  What the safety rules guarantee to the rest of the system, whatever requests they receive: the requests of
  \<open>consensus/safety-rules/src/serializer.rs\<close> are served in any order and number, storage calls fail or lose their
  reply, and the process restarts between requests on the storage that \<open>safety_rules_manager.rs\<close> opens. The start-up
  code is modelled with all its configurations; the results on votes are for restarts that keep the storage, because a
  start that initialises it again forgets the votes.
\<close>

section \<open>Requests\<close>

datatype safety_rules_input =
    ConsensusState bool
  | Initialize epoch_change_proof
  | SignProposal block_data
  | SignTimeoutWithQC two_chain_timeout "two_chain_timeout_certificate option"
  | ConstructAndSignVoteTwoChain u64 vote_proposal "two_chain_timeout_certificate option"
  | SignCommitVote ledger_info_with_signatures ledger_info

datatype safety_rules_output =
    StateOut "(consensus_state, sr_error) result"
  | UnitOut "(unit, sr_error) result"
  | ProposalOut "(signature, sr_error) result"
  | TimeoutOut "(signature, sr_error) result"
  | VoteOut "(vote, sr_error) result"
  | CommitOut "(signature, sr_error) result"

text \<open>The environment of a call (tracing and the clock) is part of the request here.\<close>

definition handle_message ::
  "'c consensus_crypto_scheme \<Rightarrow> safety_rules_input \<Rightarrow> safety_rules \<Rightarrow> safety_rules_output \<times> safety_rules" where
  "handle_message C input self =
     (case input of
        ConsensusState trace_enabled \<Rightarrow> apfst StateOut (guarded_consensus_state trace_enabled self)
      | Initialize ecp \<Rightarrow> apfst UnitOut (guarded_initialize C ecp self)
      | SignProposal bd \<Rightarrow> apfst ProposalOut (guarded_sign_proposal C bd self)
      | SignTimeoutWithQC timeout maybe_tc \<Rightarrow> apfst TimeoutOut (guarded_sign_timeout_with_qc C timeout maybe_tc self)
      | ConstructAndSignVoteTwoChain now_usecs vp maybe_tc \<Rightarrow>
          apfst VoteOut (guarded_construct_and_sign_vote_two_chain C now_usecs vp maybe_tc self)
      | SignCommitVote lis new_li \<Rightarrow> apfst CommitOut (guarded_sign_commit_vote C lis new_li self))"

section \<open>Start-up\<close>

text \<open>
  The configuration of the safety rules, as far as start-up reads it (\<open>config/src/config/safety_rules_config.rs\<close>,
  \<open>base_config.rs\<close>, \<open>identity_config.rs\<close>). A file or another storage that the configuration points to is given by what
  reading it yields.
\<close>

datatype secure_backend = InMemoryStorage | Vault | OnDiskStorage

record identity_blob =
  ib_account_address :: "account_address option"
  ib_consensus_private_key :: "private_key option"

datatype waypoint_config = WpFromConfig waypoint | WpFromFile "waypoint option" | WpFromStorage "waypoint option" | WpNone

definition wpc_waypoint :: "waypoint_config \<Rightarrow> (waypoint, 'e) result" where
  "wpc_waypoint self =
     (case self of
        WpFromConfig wp \<Rightarrow> Ok wp
      | WpFromFile (Some wp) \<Rightarrow> Ok wp
      | WpFromFile None \<Rightarrow> Panic
      | WpFromStorage (Some wp) \<Rightarrow> Ok wp
      | WpFromStorage None \<Rightarrow> Panic
      | WpNone \<Rightarrow> Panic)"

datatype initial_safety_rules_config = FromFile "identity_blob option" waypoint_config | InitialNone

record safety_rules_test_config =
  test_author :: author
  test_consensus_key :: "private_key option"
  test_waypoint :: "waypoint option"

record safety_rules_config =
  cfg_backend :: secure_backend
  cfg_test :: "safety_rules_test_config option"
  cfg_enable_cached_safety_data :: bool
  cfg_initial :: initial_safety_rules_config

text \<open>Opening a backend finds what was stored, except in memory, where a new store is empty.\<close>

definition backend_into :: "secure_backend \<Rightarrow> secure_store \<Rightarrow> secure_store" where
  "backend_into backend st =
     (case backend of
        InMemoryStorage \<Rightarrow>
          \<lparr>kv_consensus_key = None, kv_owner_account = None, kv_safety_data = None, kv_waypoint = None, kv_answers = kv_answers st\<rparr>
      | _ \<Rightarrow> st)"

text \<open>Only Vault is asked whether it is available.\<close>

definition kv_available :: "secure_backend \<Rightarrow> (secure_store, unit, storage_error) op" where
  "kv_available backend st =
     (case backend of
        Vault \<Rightarrow>
          (case next_answer st of
             (Served, st') \<Rightarrow> (Ok (), st')
           | (Failed e, st') \<Rightarrow> (Err e, st')
           | (LostReply e, st') \<Rightarrow> (Err e, st'))
      | _ \<Rightarrow> (Ok (), st))"

definition initialize_from ::
  "initial_safety_rules_config \<Rightarrow> bool \<Rightarrow> (secure_store, persistent_safety_storage, 'e) op" where
  "initialize_from initial_config cached st =
     (case initial_config of
        InitialNone \<Rightarrow> (Panic, st)
      | FromFile None _ \<Rightarrow> (Panic, st)
      | FromFile (Some blob) wpc \<Rightarrow>
          (case (wpc_waypoint wpc :: (waypoint, unit) result) of
             Ok wp \<Rightarrow>
               (case (ib_account_address blob, ib_consensus_private_key blob) of
                  (Some author, Some key) \<Rightarrow> ps_initialize author key wp cached st
                | _ \<Rightarrow> (Panic, st))
           | _ \<Rightarrow> (Panic, st)))"

text \<open>
  \<open>storage\<close> opens the persistent storage at start-up: a test configuration always initialises it; otherwise, if the
  owner account cannot be read, a storage that comes with an initial configuration is initialised, even over existing
  data.
\<close>

definition open_storage :: "safety_rules_config \<Rightarrow> (secure_store, persistent_safety_storage, 'e) op" where
  "open_storage cfg store =
     (case kv_available (cfg_backend cfg) (backend_into (cfg_backend cfg) store) of
        (Ok _, st) \<Rightarrow>
          (case cfg_test cfg of
             Some test_config \<Rightarrow>
               (case (test_consensus_key test_config, test_waypoint test_config) of
                  (Some key, Some wp) \<Rightarrow>
                    ps_initialize (test_author test_config) key wp (cfg_enable_cached_safety_data cfg) st
                | _ \<Rightarrow> (Panic, st))
           | None \<Rightarrow>
               (case ps_author (ps_new st (cfg_enable_cached_safety_data cfg)) of
                  (Ok _, ps) \<Rightarrow> (Ok ps, internal_store ps)
                | (Err _, ps) \<Rightarrow>
                    initialize_from (cfg_initial cfg) (cfg_enable_cached_safety_data cfg)
                      (backend_into (cfg_backend cfg) (internal_store ps))
                | (Panic, ps) \<Rightarrow> (Panic, internal_store ps)))
      | (_, st) \<Rightarrow> (Panic, st))"

section \<open>Well-formed safety data\<close>

text \<open>
  A vote is consistent with the safety data it is stored in: same epoch, a round already voted, signed for the hash of
  its vote data, and it commits the parent exactly when the parent is of the preceding round.
\<close>

definition vote_wf :: "'c consensus_crypto_scheme \<Rightarrow> safety_data \<Rightarrow> vote \<Rightarrow> bool" where
  "vote_wf C sd v \<longleftrightarrow>
     vote_epoch v = sd_epoch sd \<and> bi_epoch (parent_of (vote_vote_data v)) = sd_epoch sd \<and>
     vote_round v \<le> last_voted_round sd \<and> bi_round (parent_of (vote_vote_data v)) < vote_round v \<and>
     bi_round (parent_of (vote_vote_data v)) \<le> one_chain_round sd \<and>
     consensus_data_hash (vote_ledger_info v) = vote_data_hash C (vote_vote_data v) \<and>
     commit_info (vote_ledger_info v) =
       (if bi_round (parent_of (vote_vote_data v)) + 1 = vote_round v then parent_of (vote_vote_data v) else bi_empty) \<and>
     vote_two_chain_timeout v = None"

definition sd_wf :: "'c consensus_crypto_scheme \<Rightarrow> safety_data \<Rightarrow> bool" where
  "sd_wf C sd \<longleftrightarrow>
     preferred_round sd \<le> one_chain_round sd \<and>
     (one_chain_round sd = 0 \<or> one_chain_round sd < last_voted_round sd) \<and>
     (\<forall>v. last_vote sd = Some v \<longrightarrow> vote_wf C sd v)"

definition sr_wf :: "'c consensus_crypto_scheme \<Rightarrow> safety_rules \<Rightarrow> bool" where
  "sr_wf C s \<longleftrightarrow> sr_coherent s \<and> (\<forall>sd. stored s = Some sd \<longrightarrow> sd_wf C sd)"

lemma gen_vote_data_Ok:
  assumes "gen_vote_data C vp = Ok vd"
  shows "bi_epoch (proposed vd) = block_epoch (vp_block vp)" and "bi_round (proposed vd) = block_round (vp_block vp)"
    and "bi_id (proposed vd) = block_id (vp_block vp)" and "parent_of vd = certified_block (block_qc (vp_block vp))"
  using assms
  by (auto simp: gen_vote_data_def vote_data_ordering_only_def vote_data_with_extension_proof_def vd_new_def
      gen_block_info_def bi_new_def result_simps split: if_splits)

lemma verify_well_formed_Ok:
  assumes "verify_well_formed now_usecs b = Ok ()"
  shows "bi_round (certified_block (block_qc b)) < block_round b" and "bi_epoch (certified_block (block_qc b)) = block_epoch b"
    and "\<not> qc_ends_epoch (block_qc b)"
  using assms by (auto simp: verify_well_formed_def Let_def result_simps)

lemma next_round_Ok: "next_round r = Ok x \<longleftrightarrow> x = r + 1 \<and> unat r + 1 < 2 ^ 64"
  by (auto simp: next_round_def checked_add_def)

lemma qc_verify_rounds:
  assumes "qc_verify C qc verifier = Ok ()"
  shows "bi_round (parent_block qc) \<le> bi_round (certified_block qc)"
  using assms by (auto simp: qc_verify_def vd_verify_def result_simps split: if_splits)

lemma observe_qc_fields:
  "sd_epoch (snd (observe_qc qc sd)) = sd_epoch sd" "last_voted_round (snd (observe_qc qc sd)) = last_voted_round sd"
  "one_chain_round (snd (observe_qc qc sd)) = max (one_chain_round sd) (bi_round (certified_block qc))"
  "preferred_round (snd (observe_qc qc sd)) = max (preferred_round sd) (bi_round (parent_block qc))"
  by (auto simp: observe_qc_def Let_def max_def split: prod.splits if_splits)

lemma vote_cast_facts:
  assumes "vote_cast C now_usecs vp maybe_tc verifier sd v sd'"
  shows "vote_epoch v = sd_epoch sd" and "vote_round v = block_round (vp_block vp)"
    and "last_voted_round sd < vote_round v" and "last_vote sd' = Some v" and "sd_epoch sd' = sd_epoch sd"
    and "last_voted_round sd' = vote_round v"
    and "one_chain_round sd' = max (one_chain_round sd) (bi_round (parent_of (vote_vote_data v)))"
    and "preferred_round sd' = max (preferred_round sd) (bi_round (parent_block (block_qc (vp_block vp))))"
    and "parent_of (vote_vote_data v) = certified_block (block_qc (vp_block vp))"
    and "bi_round (parent_of (vote_vote_data v)) < vote_round v" and "bi_epoch (parent_of (vote_vote_data v)) = sd_epoch sd"
    and "qc_verify C (block_qc (vp_block vp)) verifier = Ok ()" and "tc_ok C maybe_tc verifier"
    and "safe_to_vote (vp_block vp) maybe_tc = Ok ()"
    and "construct_ledger_info_2chain (vp_block vp) (vote_data_hash C (vote_vote_data v)) = Ok (vote_ledger_info v)"
    and "vote_two_chain_timeout v = None"
proof -
  have ok: "proposal_ok C now_usecs vp verifier sd (vote_vote_data v)" "tc_ok C maybe_tc verifier"
    "new_vote C (vp_block vp) maybe_tc (vote_vote_data v) sd v sd'"
    using assms by (auto simp: vote_cast_def new_vote_def)
  note gen = gen_vote_data_Ok [of C vp "vote_vote_data v"] and wf = verify_well_formed_Ok [of now_usecs "vp_block vp"]
  from ok gen wf show "vote_epoch v = sd_epoch sd" "vote_round v = block_round (vp_block vp)"
    "last_voted_round sd < vote_round v" "last_vote sd' = Some v" "sd_epoch sd' = sd_epoch sd"
    "last_voted_round sd' = vote_round v"
    "one_chain_round sd' = max (one_chain_round sd) (bi_round (parent_of (vote_vote_data v)))"
    "preferred_round sd' = max (preferred_round sd) (bi_round (parent_block (block_qc (vp_block vp))))"
    "parent_of (vote_vote_data v) = certified_block (block_qc (vp_block vp))"
    "bi_round (parent_of (vote_vote_data v)) < vote_round v" "bi_epoch (parent_of (vote_vote_data v)) = sd_epoch sd"
    "qc_verify C (block_qc (vp_block vp)) verifier = Ok ()" "tc_ok C maybe_tc verifier"
    "safe_to_vote (vp_block vp) maybe_tc = Ok ()"
    "construct_ledger_info_2chain (vp_block vp) (vote_data_hash C (vote_vote_data v)) = Ok (vote_ledger_info v)"
    "vote_two_chain_timeout v = None"
    by (simp_all add: new_vote_def proposal_ok_def observe_qc_fields)
qed

lemma vote_cast_wf:
  assumes "vote_cast C now_usecs vp maybe_tc verifier sd v sd'" and "sd_wf C sd"
  shows "sd_wf C sd'"
proof -
  note f = vote_cast_facts [OF assms(1)]
  have li: "vote_ledger_info v = li_new (if bi_round (parent_of (vote_vote_data v)) + 1 = vote_round v
      then parent_of (vote_vote_data v) else bi_empty) (vote_data_hash C (vote_vote_data v))"
    using f(15) f(2,9) by (auto simp: construct_ledger_info_2chain_def Let_def result_simps next_round_Ok)
  have "vote_wf C sd' v"
    using f li by (simp add: vote_wf_def li_new_def)
  moreover have "preferred_round sd' \<le> one_chain_round sd'"
    using assms(2) qc_verify_rounds [OF f(12)] f(7-9) by (auto simp: sd_wf_def max_def)
  moreover have "one_chain_round sd' < last_voted_round sd'"
    using assms(2) f(3,6,7,10) by (auto simp: sd_wf_def max_def)
  ultimately show ?thesis using f(4) by (simp add: sd_wf_def)
qed

lemma timeout_wf:
  assumes "sd_wf C sd" and "last_voted_round sd \<le> r"
  shows "sd_wf C (sd\<lparr>last_voted_round := r\<rparr>)"
  using assms by (auto simp: sd_wf_def vote_wf_def)

lemma reset_wf: "sd_wf C (sd_new e 0 0 0 None)"
  by (simp add: sd_wf_def sd_new_def)

section \<open>Steps on the stored data\<close>

text \<open>
  The abstract view of the safety rules: the safety data that is stored, and what may happen to it. Every request
  refines one step of this relation, whatever the storage answers.
\<close>

inductive sd_step :: "'c consensus_crypto_scheme \<Rightarrow> safety_data \<Rightarrow> safety_data \<Rightarrow> bool" for C where
  stutter: "sd_step C sd sd"
| voted: "vote_cast C now_usecs vp maybe_tc verifier sd v sd' \<Longrightarrow> sd_step C sd sd'"
| timed_out: "timeout_ok C timeout maybe_tc verifier sd \<Longrightarrow> sd_step C sd (sd\<lparr>last_voted_round := to_round timeout\<rparr>)"
| new_epoch: "sd_epoch sd < e \<Longrightarrow> sd_step C sd (sd_new e 0 0 0 None)"

inductive_cases sd_stepE: "sd_step C sd sd'"

lemma sd_step_wf: "sd_step C sd sd' \<Longrightarrow> sd_wf C sd \<Longrightarrow> sd_wf C sd'"
  by (erule sd_stepE) (auto simp: vote_cast_wf timeout_wf timeout_ok_def reset_wf)

lemma sd_step_mono:
  assumes "sd_step C sd sd'"
  shows "sd_epoch sd < sd_epoch sd' \<or>
    sd_epoch sd = sd_epoch sd' \<and> last_voted_round sd \<le> last_voted_round sd' \<and> one_chain_round sd \<le> one_chain_round sd' \<and>
      preferred_round sd \<le> preferred_round sd'"
  using assms
proof (cases rule: sd_step.cases)
  case (voted now_usecs vp maybe_tc verifier v)
  with vote_cast_facts [OF this] show ?thesis by simp
qed (auto simp: timeout_ok_def sd_new_def)

definition refines_step :: "'c consensus_crypto_scheme \<Rightarrow> safety_rules \<Rightarrow> safety_rules \<Rightarrow> bool" where
  "refines_step C s s' \<longleftrightarrow> sr_coherent s' \<and>
     (stored s' = stored s \<or> (\<exists>sd sd'. stored s = Some sd \<and> stored s' = Some sd' \<and> sd_step C sd sd'))"

lemma refines_same: "sr_same s s' \<Longrightarrow> refines_step C s s'"
  by (simp add: refines_step_def sr_same_fields sr_same_coherent)

lemma refines_vote: "vote_outcome C now_usecs vp maybe_tc s r s' \<Longrightarrow> refines_step C s s'"
  by (auto simp: vote_outcome_def refines_step_def kept_def intro: sd_step.voted)

lemma refines_timeout: "timeout_outcome C timeout maybe_tc s r s' \<Longrightarrow> refines_step C s s'"
  by (auto simp: timeout_outcome_def refines_step_def kept_def intro: sd_step.timed_out)

lemma refines_init: "init_outcome C ecp s s' \<Longrightarrow> refines_step C s s'"
  by (auto simp: init_outcome_def refines_step_def epoch_entered_def epoch_reset_def intro: sd_step.new_epoch)

lemma handle_refines:
  assumes "handle_message C input s = (out, s')" and "sr_coherent s"
  shows "refines_step C s s'"
proof (cases input)
  case (ConsensusState trace_enabled)
  with assms readingD [OF reading_consensus_state, of s] show ?thesis
    by (cases "guarded_consensus_state trace_enabled s") (auto simp: handle_message_def intro: refines_same)
next
  case (Initialize ecp)
  with assms init_op [of C ecp s] show ?thesis
    by (cases "guarded_initialize C ecp s") (auto simp: handle_message_def intro: refines_init)
next
  case (SignProposal bd)
  with assms readingD [OF reading_sign_proposal [of C bd], of s] show ?thesis
    by (cases "guarded_sign_proposal C bd s") (auto simp: handle_message_def intro: refines_same)
next
  case (SignTimeoutWithQC timeout maybe_tc)
  with assms timeout_op [of C timeout maybe_tc s] show ?thesis
    by (cases "guarded_sign_timeout_with_qc C timeout maybe_tc s") (auto simp: handle_message_def intro: refines_timeout)
next
  case (ConstructAndSignVoteTwoChain now_usecs vp maybe_tc)
  with assms vote_op [of C now_usecs vp maybe_tc s] show ?thesis
    by (cases "guarded_construct_and_sign_vote_two_chain C now_usecs vp maybe_tc s")
      (auto simp: handle_message_def intro: refines_vote)
next
  case (SignCommitVote lis new_li)
  with assms readingD [OF reading_sign_commit_vote [of C lis new_li], of s] show ?thesis
    by (cases "guarded_sign_commit_vote C lis new_li s") (auto simp: handle_message_def intro: refines_same)
qed

section \<open>Runs\<close>

datatype sr_event = Request safety_rules_input | Restart safety_rules_config

text \<open>
  A restart opens the storage that survived, with whatever configuration the process is given; if it cannot be opened,
  the process stays without one.
\<close>

definition sr_restart :: "safety_rules_config \<Rightarrow> safety_rules \<Rightarrow> safety_rules" where
  "sr_restart cfg s =
     (case (open_storage cfg (internal_store (persistent_storage s)) :: (_, unit) result \<times> _) of
        (Ok ps, _) \<Rightarrow> sr_new ps
      | (_, st) \<Rightarrow> sr_new (ps_new st (cfg_enable_cached_safety_data cfg)))"

primrec run :: "'c consensus_crypto_scheme \<Rightarrow> sr_event list \<Rightarrow> safety_rules \<Rightarrow> safety_rules_output list \<times> safety_rules" where
  "run C [] s = ([], s)"
| "run C (e # events) s =
     (case e of
        Request input \<Rightarrow>
          (case handle_message C input s of (out, s1) \<Rightarrow>
            (case run C events s1 of (outs, s2) \<Rightarrow> (out # outs, s2)))
      | Restart cfg \<Rightarrow> run C events (sr_restart cfg s))"

text \<open>
  A start that does not initialise the storage again: the backend is persistent, there is no test configuration, and
  with an initial configuration the read of the owner account does not fail (a failed read initialises the storage
  over the data it holds, see the section on configurations that do not work).
\<close>

definition keeps_storage :: "safety_rules_config \<Rightarrow> safety_rules \<Rightarrow> bool" where
  "keeps_storage cfg s \<longleftrightarrow> cfg_backend cfg \<noteq> InMemoryStorage \<and> cfg_test cfg = None \<and>
     (cfg_initial cfg = InitialNone \<or>
      (case fst (ps_author (ps_new (snd (kv_available (cfg_backend cfg) (internal_store (persistent_storage s))))
                 (cfg_enable_cached_safety_data cfg))) of
         Err _ \<Rightarrow> False | _ \<Rightarrow> True))"

primrec keeps_run :: "'c consensus_crypto_scheme \<Rightarrow> sr_event list \<Rightarrow> safety_rules \<Rightarrow> bool" where
  "keeps_run C [] s \<longleftrightarrow> True"
| "keeps_run C (e # events) s \<longleftrightarrow>
     (case e of
        Request input \<Rightarrow> keeps_run C events (snd (handle_message C input s))
      | Restart cfg \<Rightarrow> keeps_storage cfg s \<and> keeps_run C events (sr_restart cfg s))"

text \<open>With a store that answers and holds an owner account, every production configuration keeps the storage.\<close>

lemma served_start_keeps:
  assumes "kv_answers (internal_store (persistent_storage s)) = []"
    and "kv_owner_account (internal_store (persistent_storage s)) = Some author"
    and "cfg_backend cfg \<noteq> InMemoryStorage" and "cfg_test cfg = None"
  shows "keeps_storage cfg s"
  using assms
  by (cases "cfg_backend cfg")
    (simp_all add: keeps_storage_def kv_available_def next_answer_def ps_author_def map_err_op_def on_store_def kv_get_def
      ps_new_def)

lemma kv_available_fields:
  assumes "kv_available backend st = (r, st')"
  shows "kv_safety_data st' = kv_safety_data st" and "kv_waypoint st' = kv_waypoint st"
    and "kv_owner_account st' = kv_owner_account st" and "kv_consensus_key st' = kv_consensus_key st"
    and "set (kv_answers st') \<subseteq> set (kv_answers st)"
proof -
  obtain a u where ans: "next_answer st = (a, u)" by (cases "next_answer st")
  have "st' = st \<or> st' = u" using assms ans by (cases backend; cases a) (simp_all add: kv_available_def)
  with next_answer_fields [OF ans]
  show "kv_safety_data st' = kv_safety_data st" "kv_waypoint st' = kv_waypoint st"
    "kv_owner_account st' = kv_owner_account st" "kv_consensus_key st' = kv_consensus_key st"
    "set (kv_answers st') \<subseteq> set (kv_answers st)" by auto
qed

lemma restart_kept:
  assumes "keeps_storage cfg s"
  obtains ps where "sr_restart cfg s = sr_new ps" and "cached_safety_data ps = None"
    and "same_store (ps_new (internal_store (persistent_storage s)) (cfg_enable_cached_safety_data cfg)) ps"
proof -
  let ?cached = "cfg_enable_cached_safety_data cfg" and ?store = "internal_store (persistent_storage s)"
  have cfg: "cfg_backend cfg \<noteq> InMemoryStorage" "cfg_test cfg = None" using assms by (simp_all add: keeps_storage_def)
  then have into: "backend_into (cfg_backend cfg) st = st" for st
    by (cases "cfg_backend cfg") (simp_all add: backend_into_def)
  obtain r0 st where av: "kv_available (cfg_backend cfg) ?store = (r0, st)" by (cases "kv_available (cfg_backend cfg) ?store")
  obtain r ps where ps: "ps_author (ps_new st ?cached) = (r, ps)" by (cases "ps_author (ps_new st ?cached)")
  note avf = kv_available_fields [OF av] and psf = ps_author_op [OF ps]
  have r: "cfg_initial cfg = InitialNone" if "r = Err e" for e
    using assms av ps that by (auto simp: keeps_storage_def)
  have ps1: "cached_safety_data ps = None" "same_store (ps_new ?store ?cached) ps"
    using psf avf by (auto simp: ps_new_def same_store_def)
  have ps2: "same_store (ps_new ?store ?cached) (ps_new (internal_store ps) ?cached)"
    "same_store (ps_new ?store ?cached) (ps_new st ?cached)"
    using ps1(2) avf by (auto simp: ps_new_def same_store_def)
  have "sr_restart cfg s = sr_new ps \<or> sr_restart cfg s = sr_new (ps_new (internal_store ps) ?cached) \<or>
    sr_restart cfg s = sr_new (ps_new st ?cached)"
    using av ps r cfg(2)
    by (cases r0; cases r) (auto simp: sr_restart_def open_storage_def into initialize_from_def)
  then show thesis using that ps1 ps2 by (auto simp: ps_new_def)
qed

lemma restart_refines:
  assumes "keeps_storage cfg s"
  shows "refines_step C s (sr_restart cfg s)"
proof -
  obtain ps where "sr_restart cfg s = sr_new ps" "cached_safety_data ps = None"
    "same_store (ps_new (internal_store (persistent_storage s)) (cfg_enable_cached_safety_data cfg)) ps"
    using restart_kept [OF assms] .
  then show ?thesis by (simp add: refines_step_def sr_new_def sr_coherent_def ps_coherent_def same_store_def ps_new_def)
qed

lemma refines_wf: "refines_step C s s' \<Longrightarrow> sr_wf C s \<Longrightarrow> sr_wf C s'"
  by (auto simp: refines_step_def sr_wf_def dest: sd_step_wf)

text \<open>Progress of the stored data: a later epoch, or the same epoch with no round lowered.\<close>

definition sd_le :: "safety_data \<Rightarrow> safety_data \<Rightarrow> bool" where
  "sd_le sd sd' \<longleftrightarrow> sd_epoch sd < sd_epoch sd' \<or>
     sd_epoch sd = sd_epoch sd' \<and> last_voted_round sd \<le> last_voted_round sd' \<and> one_chain_round sd \<le> one_chain_round sd' \<and>
       preferred_round sd \<le> preferred_round sd'"

lemma sd_le_trans: "sd_le a b \<Longrightarrow> sd_le b c \<Longrightarrow> sd_le a c"
  by (auto simp: sd_le_def)

lemma refines_le: "refines_step C s s' \<Longrightarrow> stored s = Some sd \<Longrightarrow> \<exists>sd'. stored s' = Some sd' \<and> sd_le sd sd'"
  using sd_step_mono by (fastforce simp: refines_step_def sd_le_def)

lemma event_cases:
  assumes "run C (e # events) s = (outs, s')" and "sr_coherent s" and "keeps_run C (e # events) s"
  obtains s1 where "refines_step C s s1" "run C events s1 = (outs, s')" "keeps_run C events s1"
  | input out s1 outs1 where "e = Request input" "handle_message C input s = (out, s1)" "refines_step C s s1"
      "run C events s1 = (outs1, s')" "outs = out # outs1" "keeps_run C events s1"
proof (cases e)
  case (Request input)
  obtain out s1 where h: "handle_message C input s = (out, s1)" by (cases "handle_message C input s")
  obtain outs1 s2 where "run C events s1 = (outs1, s2)" by (cases "run C events s1")
  with assms(1,3) h Request that(2) [OF _ h handle_refines [OF h assms(2)]] show thesis by simp
next
  case (Restart cfg)
  with assms(3) have "keeps_storage cfg s" by simp
  with assms(1,3) Restart that(1) [OF restart_refines] show thesis by simp
qed

lemma run_wf:
  "run C events s = (outs, s') \<Longrightarrow> sr_wf C s \<Longrightarrow> keeps_run C events s \<Longrightarrow>
     sr_wf C s' \<and> (\<forall>sd. stored s = Some sd \<longrightarrow> (\<exists>sd'. stored s' = Some sd' \<and> sd_le sd sd'))"
proof (induction events arbitrary: s outs)
  case (Cons e events)
  have coh: "sr_coherent s" using Cons.prems(2) by (simp add: sr_wf_def)
  obtain s1 outs1 where s1: "refines_step C s s1" "run C events s1 = (outs1, s')" "keeps_run C events s1"
    using event_cases [OF Cons.prems(1) coh Cons.prems(3)] by metis
  note rest = Cons.IH [OF s1(2) refines_wf [OF s1(1) Cons.prems(2)] s1(3)]
  then show ?case using refines_le [OF s1(1)] sd_le_trans by blast
qed (auto simp: sd_le_def)

text \<open>Votes that were handed out are of an earlier epoch or round than the stored vote, or are the stored vote.\<close>

definition behind :: "safety_data \<Rightarrow> vote \<Rightarrow> bool" where
  "behind sd v \<longleftrightarrow> vote_epoch v < sd_epoch sd \<or>
     vote_epoch v = sd_epoch sd \<and> (\<exists>lv. last_vote sd = Some lv \<and> (v = lv \<or> vote_round v < vote_round lv))"

definition covered :: "safety_data option \<Rightarrow> vote set \<Rightarrow> bool" where
  "covered stored_data votes \<longleftrightarrow>
     (\<forall>v \<in> votes. \<exists>sd. stored_data = Some sd \<and> behind sd v) \<and>
     (\<forall>v \<in> votes. \<forall>w \<in> votes. vote_epoch v = vote_epoch w \<and> vote_round v = vote_round w \<longrightarrow> v = w)"

lemma behind_step:
  assumes "sd_step C sd sd'" and "sd_wf C sd" and "behind sd w"
  shows "behind sd' w"
  using assms(1)
proof (cases rule: sd_step.cases)
  case (voted now_usecs vp maybe_tc verifier v)
  note f = vote_cast_facts [OF this]
  have "vote_round lv < vote_round v" if "last_vote sd = Some lv" for lv
    using that assms(2) f(3) by (auto simp: sd_wf_def vote_wf_def)
  with assms(3) f(4,5) show ?thesis by (auto simp: behind_def)
next
  case (new_epoch e)
  with assms(3) show ?thesis by (auto simp: behind_def sd_new_def)
qed (use assms(3) in \<open>simp_all add: behind_def\<close>)

lemma covered_step: "sd_step C sd sd' \<Longrightarrow> sd_wf C sd \<Longrightarrow> covered (Some sd) votes \<Longrightarrow> covered (Some sd') votes"
  by (simp add: covered_def behind_step)

lemma covered_refines: "refines_step C s s' \<Longrightarrow> sr_wf C s \<Longrightarrow> covered (stored s) votes \<Longrightarrow> covered (stored s') votes"
  by (auto simp: refines_step_def sr_wf_def dest: covered_step)

text \<open>A vote is stored when it is handed out.\<close>

lemma vote_released:
  assumes "handle_message C input s = (VoteOut (Ok v), s')" and "sr_wf C s"
  shows "\<exists>sd. stored s' = Some sd \<and> last_vote sd = Some v"
proof -
  obtain now_usecs vp maybe_tc where "input = ConstructAndSignVoteTwoChain now_usecs vp maybe_tc"
    using assms(1) by (cases input) (auto simp: handle_message_def apfst_def map_prod_def split: prod.splits)
  with assms(1) have "guarded_construct_and_sign_vote_two_chain C now_usecs vp maybe_tc s = (Ok v, s')"
    by (cases "guarded_construct_and_sign_vote_two_chain C now_usecs vp maybe_tc s") (simp add: handle_message_def)
  from vote_op [OF this] assms(2) show ?thesis
    by (auto simp: vote_outcome_def sr_wf_def dest: vote_cast_facts(4))
qed

lemma covered_insert:
  assumes "covered (Some sd) votes" and "last_vote sd = Some v" and "sd_wf C sd"
  shows "covered (Some sd) (insert v votes)"
proof -
  have epoch: "vote_epoch v = sd_epoch sd" using assms(2,3) by (simp add: sd_wf_def vote_wf_def)
  have "w = v" if "w \<in> votes" "vote_epoch w = vote_epoch v" "vote_round w = vote_round v" for w
  proof -
    from that(1) assms(1) have "behind sd w" by (auto simp: covered_def)
    with that(2,3) epoch assms(2) show ?thesis by (auto simp: behind_def)
  qed
  moreover have "behind sd v" using epoch assms(2) by (simp add: behind_def)
  ultimately show ?thesis using assms(1) unfolding covered_def by (metis insert_iff)
qed

definition votes_of :: "safety_rules_output list \<Rightarrow> vote set" where
  "votes_of outs = {v. VoteOut (Ok v) \<in> set outs}"

lemma run_covered:
  "run C events s = (outs, s') \<Longrightarrow> sr_wf C s \<Longrightarrow> covered (stored s) votes \<Longrightarrow> keeps_run C events s \<Longrightarrow> covered (stored s') (votes \<union> votes_of outs)"
proof (induction events arbitrary: s outs votes)
  case (Cons e events)
  have coh: "sr_coherent s" using Cons.prems(2) by (simp add: sr_wf_def)
  show ?case
  proof (rule event_cases [OF Cons.prems(1) coh Cons.prems(4)])
    fix s1 assume "refines_step C s s1" "run C events s1 = (outs, s')" "keeps_run C events s1"
    with Cons show ?thesis by (blast intro: refines_wf covered_refines)
  next
    fix input out s1 outs1
    assume h: "handle_message C input s = (out, s1)" and r: "refines_step C s s1"
      and rest: "run C events s1 = (outs1, s')" "outs = out # outs1" "keeps_run C events s1"
    note wf = refines_wf [OF r Cons.prems(2)] and cov = covered_refines [OF r Cons.prems(2,3)]
    let ?new = "{v. out = VoteOut (Ok v)}"
    have "covered (stored s1) (votes \<union> ?new)"
    proof (cases "\<exists>v. out = VoteOut (Ok v)")
      case True
      then obtain v where v: "out = VoteOut (Ok v)" by blast
      from vote_released [OF h [unfolded v] Cons.prems(2)] obtain sd where "stored s1 = Some sd" "last_vote sd = Some v" by blast
      with covered_insert [of sd votes v C] cov wf v show ?thesis by (simp add: sr_wf_def)
    qed (use cov in simp)
    moreover have "votes \<union> ?new \<union> votes_of outs1 = votes \<union> votes_of outs" using rest(2) by (auto simp: votes_of_def)
    ultimately show ?thesis using Cons.IH [OF rest(1) wf, of "votes \<union> ?new"] rest(3) by simp
  qed
qed (simp add: votes_of_def)

text \<open>
  \<^bold>\<open>C4.\<close> No equivocation. A validator whose stored safety data is well formed never hands out two different votes for
  the same epoch and round, whatever requests it serves in whatever order, whichever storage calls fail or lose their
  reply, and however often the process restarts, with or without an initial configuration, as long as no restart
  initialises the storage again. Votes that were signed but not handed out, because storing them failed, are not
  counted.
\<close>

theorem no_equivocation:
  assumes "sr_wf C s" and "keeps_run C events s" and "run C events s = (outs, s')"
    and "VoteOut (Ok v) \<in> set outs" and "VoteOut (Ok w) \<in> set outs"
    and "vote_epoch v = vote_epoch w" and "vote_round v = vote_round w"
  shows "v = w"
proof -
  have "covered (stored s') (votes_of outs)" using run_covered [OF assms(3,1), of "{}"] assms(2) by (simp add: covered_def)
  with assms(4-7) show ?thesis by (simp add: covered_def votes_of_def)
qed

text \<open>
  \<^bold>\<open>C10.\<close> The safety data keeps its shape. Every run in which no restart initialises the storage again preserves
  well-formedness, whatever requests, storage failures and lost replies it has: the preferred round is at most the
  one-chain round, which is below the last voted round unless it is zero, and the stored vote belongs to the stored
  epoch, to a round already voted, and commits its parent exactly when the rounds are consecutive. The epoch never
  goes back, and within an epoch no stored round does.
\<close>

theorem safety_data_well_formed:
  assumes "sr_wf C s" and "keeps_run C events s" and "run C events s = (outs, s')"
  shows "sr_wf C s' \<and> (\<forall>sd. stored s = Some sd \<longrightarrow> (\<exists>sd'. stored s' = Some sd' \<and> sd_le sd sd'))"
  using run_wf [OF assms(3,1,2)] .

section \<open>Initialisation follows the chain\<close>

definition rules_trusted :: "'c consensus_crypto_scheme \<Rightarrow> (waypoint_converter \<Rightarrow> bool) \<Rightarrow> safety_rules \<Rightarrow> bool" where
  "rules_trusted C canonical s \<longleftrightarrow>
     (\<forall>wp. stored_waypoint s = Some wp \<longrightarrow> trusted C canonical (EpochWaypoint wp)) \<and>
     (\<forall>es. sr_epoch_state s = Some es \<longrightarrow> started canonical es)"

lemma trusted_kept: "kept s s' \<Longrightarrow> rules_trusted C canonical s \<Longrightarrow> rules_trusted C canonical s'"
  by (simp add: kept_def rules_trusted_def)

lemma trusted_init:
  assumes "init_outcome C ecp s s'" and "chain_view C canonical" and "rules_trusted C canonical s"
  shows "rules_trusted C canonical s'"
proof -
  consider "sr_epoch_state s' = sr_epoch_state s" "stored_waypoint s' = stored_waypoint s"
    | wp lis es where "stored_waypoint s = Some wp" "ecp_verify C ecp (waypoint_dyn C wp) = Ok lis"
      "li_next_epoch_state (lis_ledger_info lis) = Some es"
      "stored_waypoint s' \<in> {Some wp, Some (new_any C (lis_ledger_info lis))}" "epoch_entered s es s'"
    using assms(1) unfolding init_outcome_def by blast
  then show ?thesis
  proof cases
    case 1
    with assms(3) show ?thesis by (simp add: rules_trusted_def)
  next
    case 2
    have wp: "trusted C canonical (EpochWaypoint wp)" using assms(3) 2(1) by (simp add: rules_trusted_def)
    have canon: "canonical (converter_new (lis_ledger_info lis))"
      by (rule ecp_verify_canonical(1) [OF assms(2) wp]) (use 2(2) in \<open>simp add: trusted_state_dyn_def\<close>)
    then have "trusted C canonical (EpochWaypoint (new_any C (lis_ledger_info lis)))"
      unfolding trusted_def by (auto intro!: exI [of _ "converter_new (lis_ledger_info lis)"])
    moreover have "started canonical es"
      using canon 2(3) unfolding started_def by (auto intro!: exI [of _ "converter_new (lis_ledger_info lis)"])
    ultimately show ?thesis
      using 2(4,5) wp assms(3) by (auto simp: rules_trusted_def epoch_entered_def)
  qed
qed

lemma trusted_handle:
  assumes "handle_message C input s = (out, s')" and "sr_coherent s" and "chain_view C canonical"
    and "rules_trusted C canonical s"
  shows "rules_trusted C canonical s'"
proof (cases "\<exists>ecp. input = Initialize ecp")
  case True
  then obtain ecp where "input = Initialize ecp" by blast
  with assms(1) have "guarded_initialize C ecp s = (fst (guarded_initialize C ecp s), s')"
    by (cases "guarded_initialize C ecp s") (simp add: handle_message_def)
  from trusted_init [OF init_op [OF this assms(2)] assms(3,4)] show ?thesis .
next
  case False
  have "kept s s'"
  proof (cases input)
    case (ConsensusState trace_enabled)
    with assms(1) readingD [OF reading_consensus_state assms(2)] show ?thesis
      by (cases "guarded_consensus_state trace_enabled s") (auto simp: handle_message_def intro: sr_same_kept)
  next
    case (SignProposal bd)
    with assms(1) readingD [OF reading_sign_proposal [of C bd] assms(2)] show ?thesis
      by (cases "guarded_sign_proposal C bd s") (auto simp: handle_message_def intro: sr_same_kept)
  next
    case (SignTimeoutWithQC timeout maybe_tc)
    with assms(1) timeout_op [OF _ assms(2), of C timeout maybe_tc] show ?thesis
      by (cases "guarded_sign_timeout_with_qc C timeout maybe_tc s") (auto simp: handle_message_def timeout_outcome_def)
  next
    case (ConstructAndSignVoteTwoChain now_usecs vp maybe_tc)
    with assms(1) vote_op [OF _ assms(2), of C now_usecs vp maybe_tc] show ?thesis
      by (cases "guarded_construct_and_sign_vote_two_chain C now_usecs vp maybe_tc s")
        (auto simp: handle_message_def vote_outcome_def)
  next
    case (SignCommitVote lis new_li)
    with assms(1) readingD [OF reading_sign_commit_vote [of C lis new_li] assms(2)] show ?thesis
      by (cases "guarded_sign_commit_vote C lis new_li s") (auto simp: handle_message_def intro: sr_same_kept)
  qed (use False in simp)
  then show ?thesis using assms(4) by (rule trusted_kept)
qed

text \<open>A configuration whose waypoints, used when it initialises the storage, commit to the chain.\<close>

definition trusted_config ::
  "'c consensus_crypto_scheme \<Rightarrow> (waypoint_converter \<Rightarrow> bool) \<Rightarrow> safety_rules_config \<Rightarrow> bool" where
  "trusted_config C canonical cfg \<longleftrightarrow>
     (\<forall>test wp. cfg_test cfg = Some test \<and> test_waypoint test = Some wp \<longrightarrow> trusted C canonical (EpochWaypoint wp)) \<and>
     (\<forall>blob wpc wp. cfg_initial cfg = FromFile blob wpc \<and> wpc_waypoint wpc = (Ok wp :: (waypoint, unit) result) \<longrightarrow>
        trusted C canonical (EpochWaypoint wp))"

text \<open>A start leaves the waypoint as it is, loses it, or writes the one of the configuration.\<close>

definition configured_waypoint :: "safety_rules_config \<Rightarrow> waypoint \<Rightarrow> bool" where
  "configured_waypoint cfg wp \<longleftrightarrow>
     (\<exists>test. cfg_test cfg = Some test \<and> test_waypoint test = Some wp) \<or>
     (\<exists>blob wpc. cfg_initial cfg = FromFile blob wpc \<and> wpc_waypoint wpc = (Ok wp :: (waypoint, unit) result))"

lemma backend_into_waypoint: "kv_waypoint (backend_into backend st) \<in> {None, kv_waypoint st}"
  by (cases backend) (simp_all add: backend_into_def)

lemma initialize_from_op:
  assumes "initialize_from (cfg_initial cfg) cached st = (r, st')"
  shows "kv_waypoint st' = kv_waypoint st \<or> (\<exists>wp. kv_waypoint st' = Some wp \<and> configured_waypoint cfg wp)"
    and "r = Ok ps \<Longrightarrow> ps_coherent ps \<and> internal_store ps = st'"
proof -
  have "r = Panic \<and> st' = st \<or> (\<exists>author key wp. configured_waypoint cfg wp \<and> ps_initialize author key wp cached st = (r, st'))"
    using assms
    by (auto simp: initialize_from_def configured_waypoint_def split: initial_safety_rules_config.splits option.splits result.splits)
  then show "kv_waypoint st' = kv_waypoint st \<or> (\<exists>wp. kv_waypoint st' = Some wp \<and> configured_waypoint cfg wp)"
    "r = Ok ps \<Longrightarrow> ps_coherent ps \<and> internal_store ps = st'"
    using ps_initialize_op by fastforce+
qed

lemma open_storage_op:
  assumes "open_storage cfg store = (r, st')"
  shows "kv_waypoint st' \<in> {None, kv_waypoint store} \<or> (\<exists>wp. kv_waypoint st' = Some wp \<and> configured_waypoint cfg wp)"
    and "r = Ok ps \<Longrightarrow> ps_coherent ps \<and> internal_store ps = st'"
proof -
  let ?cached = "cfg_enable_cached_safety_data cfg" and ?into = "backend_into (cfg_backend cfg)"
  obtain r0 st where av: "kv_available (cfg_backend cfg) (?into store) = (r0, st)"
    by (cases "kv_available (cfg_backend cfg) (?into store)")
  obtain r1 ps1 where author: "ps_author (ps_new st ?cached) = (r1, ps1)" by (cases "ps_author (ps_new st ?cached)")
  have st: "kv_waypoint st \<in> {None, kv_waypoint store}"
    using kv_available_fields(2) [OF av] backend_into_waypoint [of "cfg_backend cfg" store] by simp
  have ps1: "kv_waypoint (internal_store ps1) = kv_waypoint st" "ps_coherent ps1"
    using ps_author_op [OF author] by (simp_all add: same_store_def ps_new_def ps_coherent_def)
  consider "st' = st" "r = Panic" | "st' = internal_store ps1" "r = Ok ps1 \<or> r = Panic"
    | test author key wp where "cfg_test cfg = Some test" "test_waypoint test = Some wp"
        "ps_initialize author key wp ?cached st = (r, st')"
    | "initialize_from (cfg_initial cfg) ?cached (?into (internal_store ps1)) = (r, st')"
  proof (cases r0)
    case (Ok u)
    show thesis
    proof (cases "cfg_test cfg")
      case None
      with Ok assms av author that(2,4) show thesis by (cases r1) (simp_all add: open_storage_def)
    next
      case (Some test)
      with Ok assms av have "(case (test_consensus_key test, test_waypoint test) of
          (Some key, Some wp) \<Rightarrow> ps_initialize (test_author test) key wp ?cached st | _ \<Rightarrow> (Panic, st)) = (r, st')"
        by (simp add: open_storage_def)
      with that(1,3) Some show thesis by (cases "test_consensus_key test"; cases "test_waypoint test") auto
    qed
  qed (use assms av that(1) in \<open>simp_all add: open_storage_def\<close>)
  then have "(kv_waypoint st' \<in> {None, kv_waypoint store} \<or> (\<exists>wp. kv_waypoint st' = Some wp \<and> configured_waypoint cfg wp)) \<and>
    (r = Ok ps \<longrightarrow> ps_coherent ps \<and> internal_store ps = st')"
  proof cases
    case 1
    with st show ?thesis by simp
  next
    case 2
    with st ps1 show ?thesis by auto
  next
    case 3
    have "configured_waypoint cfg wp" using 3(1,2) by (auto simp: configured_waypoint_def)
    with ps_initialize_op [OF 3(3)] st show ?thesis by auto
  next
    case 4
    have "kv_waypoint (?into (internal_store ps1)) \<in> {None, kv_waypoint store}"
      using backend_into_waypoint [of "cfg_backend cfg" "internal_store ps1"] st ps1(1) by auto
    with initialize_from_op [OF 4] show ?thesis by auto
  qed
  then show "kv_waypoint st' \<in> {None, kv_waypoint store} \<or> (\<exists>wp. kv_waypoint st' = Some wp \<and> configured_waypoint cfg wp)"
    "r = Ok ps \<Longrightarrow> ps_coherent ps \<and> internal_store ps = st'" by blast+
qed

lemma restart_any:
  shows "sr_coherent (sr_restart cfg s)" and "sr_epoch_state (sr_restart cfg s) = None"
    and "stored_waypoint (sr_restart cfg s) \<in> {None, stored_waypoint s} \<or>
      (\<exists>wp. stored_waypoint (sr_restart cfg s) = Some wp \<and> configured_waypoint cfg wp)"
proof -
  let ?open = "open_storage cfg (internal_store (persistent_storage s)) :: (persistent_safety_storage, unit) result \<times> secure_store"
  obtain r st where r: "?open = (r, st)" by (cases ?open)
  have "\<exists>ps. sr_restart cfg s = sr_new ps \<and> ps_coherent ps \<and> internal_store ps = st"
  proof (cases r)
    case (Ok ps)
    with r open_storage_op(2) [OF r] show ?thesis by (auto simp: sr_restart_def)
  qed (use r in \<open>auto simp: sr_restart_def ps_new_def ps_coherent_def\<close>)
  then obtain ps where ps: "sr_restart cfg s = sr_new ps" "ps_coherent ps" "internal_store ps = st" by blast
  from ps open_storage_op(1) [OF r] show "sr_coherent (sr_restart cfg s)" "sr_epoch_state (sr_restart cfg s) = None"
    "stored_waypoint (sr_restart cfg s) \<in> {None, stored_waypoint s} \<or>
      (\<exists>wp. stored_waypoint (sr_restart cfg s) = Some wp \<and> configured_waypoint cfg wp)"
    by (simp_all add: sr_coherent_def sr_new_def)
qed

lemma trusted_restart:
  assumes "rules_trusted C canonical s" and "trusted_config C canonical cfg"
  shows "rules_trusted C canonical (sr_restart cfg s)"
proof -
  have "trusted C canonical (EpochWaypoint wp)" if "configured_waypoint cfg wp" for wp
    using assms(2) that unfolding trusted_config_def configured_waypoint_def by blast
  then show ?thesis
    using assms(1) restart_any(2,3) [of cfg s] by (auto simp: rules_trusted_def)
qed

text \<open>
  \<^bold>\<open>C11.\<close> The safety rules only ever work for epochs of the real chain. If the stored waypoint commits to the chain that
  the validators signed and the current epoch state, if any, was started on it, the same holds after any run: an
  epoch change proof that is accepted leads to an epoch of that chain. Restarts may initialise the storage again, as
  long as the waypoints of their configurations commit to that chain.
\<close>

theorem epochs_stay_canonical:
  assumes "chain_view C canonical" and "rules_trusted C canonical s" and "sr_coherent s" and "run C events s = (outs, s')"
    and "\<And>cfg. Restart cfg \<in> set events \<Longrightarrow> trusted_config C canonical cfg"
  shows "rules_trusted C canonical s'"
  using assms(2-)
proof (induction events arbitrary: s outs)
  case (Cons e events)
  show ?case
  proof (cases e)
    case (Request input)
    obtain out s1 where h: "handle_message C input s = (out, s1)" by (cases "handle_message C input s")
    obtain outs1 where run1: "run C events s1 = (outs1, s')"
      using Cons.prems(3) Request h by (cases "run C events s1") simp
    have coh: "sr_coherent s1" using handle_refines [OF h Cons.prems(2)] by (simp add: refines_step_def)
    show ?thesis
      by (rule Cons.IH [OF trusted_handle [OF h Cons.prems(2) assms(1) Cons.prems(1)] coh run1]) (simp add: Cons.prems(4))
  next
    case (Restart cfg)
    have "trusted_config C canonical cfg" using Cons.prems(4) Restart by simp
    from trusted_restart [OF Cons.prems(1) this] show ?thesis
      by (rule Cons.IH [OF _ restart_any(1)]) (use Cons.prems(3,4) Restart in simp_all)
  qed
qed simp

section \<open>Start-up and configurations that do not work\<close>

text \<open>
  \<^bold>\<open>C29.\<close> One failed read at start-up erases the safety data. When the storage comes with an initial configuration and the
  first read of the owner account fails with a transient error, \<open>storage\<close> initialises the store over the existing
  data: whatever epoch, last voted round and vote were stored, the validator starts again at epoch 1 and round 0.
  (Vault is asked before whether it is available, and says so.)
\<close>

theorem failed_read_erases_safety_data:
  "\<exists>ps. open_storage
      \<lparr>cfg_backend = backend, cfg_test = None, cfg_enable_cached_safety_data = cached,
       cfg_initial = FromFile (Some \<lparr>ib_account_address = Some author, ib_consensus_private_key = Some key\<rparr>) (WpFromConfig wp)\<rparr>
      (store\<lparr>kv_answers := (if backend = Vault then [Served] else []) @ [Failed (StorageInternalError reason)]\<rparr>) =
      ((Ok ps :: (_, 'e) result), internal_store ps) \<and> stored_safety_data ps = Some (sd_new 1 0 0 0 None)"
  by (cases backend)
    (simp_all add: open_storage_def kv_available_def backend_into_def initialize_from_def wpc_waypoint_def ps_author_def ps_new_def
      map_err_op_def on_store_def kv_get_def next_answer_def from_storage_error_def ps_initialize_def
      initialize_keys_and_accounts_def kv_set_def ps_set_safety_data_def Let_def bind_op_def ps_set_waypoint_def)

definition uncached :: "safety_rules \<Rightarrow> bool" where
  "uncached s \<longleftrightarrow> \<not> enable_cached_safety_data (persistent_storage s)"

lemma uncached_read: "uncached s \<Longrightarrow> on_storage ps_safety_data s \<noteq> (Ok sd, t)"
  using ps_safety_data_uncached [of "persistent_storage s" sd]
  by (auto simp: uncached_def on_storage_def split: prod.splits)

lemma uncached_waypoint: "uncached s \<Longrightarrow> on_storage ps_waypoint s = (r, t) \<Longrightarrow> uncached t"
  by (auto simp: uncached_def on_storage_def same_store_def split: prod.splits dest!: ps_waypoint_op)

lemma uncached_set_waypoint: "uncached s \<Longrightarrow> on_storage (ps_set_waypoint wp) s = (r, t) \<Longrightarrow> uncached t"
  by (auto simp: uncached_def on_storage_def split: prod.splits dest!: ps_set_waypoint_op(3))

lemma uncached_stuck:
  assumes "uncached s"
  shows "guarded_construct_and_sign_vote_two_chain C now_usecs vp maybe_tc s \<noteq> (Ok v, s')"
    and "guarded_sign_timeout_with_qc C timeout maybe_tc s \<noteq> (Ok sig, s')"
    and "guarded_sign_proposal C bd s \<noteq> (Ok sig, s')" and "guarded_consensus_state trace_enabled s \<noteq> (Ok cs, s')"
    and "guarded_initialize C ecp s \<noteq> (Ok (), s')"
  using assms uncached_read
  by (auto simp: guarded_construct_and_sign_vote_two_chain_def verify_proposal_def guarded_sign_timeout_with_qc_def
      guarded_sign_proposal_def guarded_consensus_state_def guarded_initialize_def Let_def op_simps
      split: if_splits dest: uncached_waypoint uncached_set_waypoint)
    (blast dest: uncached_waypoint uncached_set_waypoint uncached_read)+

text \<open>
  \<^bold>\<open>C30.\<close> Without the cache the safety rules are stuck: with \<open>enable_cached_safety_data\<close> off, no request to initialise, to
  vote, to sign a proposal or a timeout, or to report the state is ever granted.
\<close>

theorem uncached_rules_are_stuck:
  assumes "\<not> enable_cached_safety_data (persistent_storage s)" and "handle_message C input s = (out, s')"
  shows "out \<noteq> UnitOut (Ok ()) \<and> out \<noteq> VoteOut (Ok v) \<and> out \<noteq> ProposalOut (Ok sig) \<and> out \<noteq> TimeoutOut (Ok sig) \<and> out \<noteq> StateOut (Ok cs)"
  using assms(2)
  by (cases input) (auto simp: handle_message_def apfst_def map_prod_def uncached_stuck [OF assms(1) [folded uncached_def]]
      split: prod.splits)

section \<open>A vote that may be cast is cast\<close>

lemma checked_add_below: "x < y \<Longrightarrow> checked_add x 1 = Some (x + 1)" for x :: "'a::len word"
proof -
  assume "x < y"
  then have "unat x < unat y" by (simp add: word_less_nat_alt)
  moreover have "unat y < 2 ^ LENGTH('a)" by (rule unsigned_less)
  ultimately have "unat x + 1 < 2 ^ LENGTH('a)" by linarith
  moreover have "unat (1 :: 'a word) = 1" by simp
  ultimately show ?thesis by (simp add: checked_add_def)
qed

text \<open>A storage that answers, with the cache on.\<close>

definition serving :: "safety_rules \<Rightarrow> bool" where
  "serving s \<longleftrightarrow> enable_cached_safety_data (persistent_storage s) \<and> kv_answers (internal_store (persistent_storage s)) = []"

lemma served_safety_data:
  assumes "stored s = Some sd" and "sr_coherent s" and "serving s"
  shows "\<exists>s1. on_storage ps_safety_data s = (Ok sd, s1) \<and> sr_same s s1 \<and> serving s1"
proof -
  have "\<exists>s1. on_storage ps_safety_data s = (Ok sd, s1) \<and> serving s1"
    using assms
    by (cases "cached_safety_data (persistent_storage s)")
      (auto simp: on_storage_def ps_safety_data_eq sr_coherent_def ps_coherent_def map_err_op_def on_store_def kv_get_def
        next_answer_def bind_op_def modify_op_def lift_op_def serving_def)
  with readingD [OF reading_safety_data assms(2)] show ?thesis by blast
qed

lemma served_write: "serving s \<Longrightarrow> \<exists>s1. on_storage (ps_set_safety_data data) s = (Ok (), s1) \<and> serving s1"
  by (auto simp: on_storage_def ps_set_safety_data_def on_store_def kv_set_def next_answer_def serving_def)

lemma verify_proposal_served:
  assumes "proposal_ok C now_usecs vp (es_verifier es) sd vd" and "sr_epoch_state s = Some es"
    and "stored s = Some sd" and "sr_coherent s" and "serving s"
  shows "\<exists>s1. verify_proposal C now_usecs vp s = (Ok vd, s1) \<and> sr_same s s1 \<and> serving s1"
proof -
  obtain s1 where s1: "on_storage ps_safety_data s = (Ok sd, s1)" "sr_same s s1" "serving s1"
    using served_safety_data [OF assms(3-5)] by blast
  then have "sr_epoch_state s1 = Some es" using assms(2) sr_same_fields(3) by metis
  with s1 assms(1) have "verify_proposal C now_usecs vp s = (Ok vd, s1)"
    by (simp add: verify_proposal_def Let_def proposal_ok_def lift_op_def gets_op_def verify_epoch_def verify_qc_def
        epoch_state_of_def)
  with s1 show ?thesis by blast
qed

text \<open>After the checks, only the voting rules decide.\<close>

lemma vote_served:
  assumes "proposal_ok C now_usecs vp (es_verifier es) sd vd" and "tc_ok C maybe_tc (es_verifier es)"
    and state: "sr_coherent s" "stored s = Some sd" "serving s" "sr_epoch_state s = Some es"
      "sr_validator_signer s = Some signer"
  shows "\<exists>s2. sr_same s s2 \<and> serving s2 \<and> guarded_construct_and_sign_vote_two_chain C now_usecs vp maybe_tc s =
    (case last_vote sd of
       Some vote \<Rightarrow> if vote_round vote = block_round (vp_block vp) then (Ok vote, s2)
                    else cast_vote C (vp_block vp) maybe_tc vd sd s2
     | None \<Rightarrow> cast_vote C (vp_block vp) maybe_tc vd sd s2)"
proof -
  obtain s1 where s1: "verify_proposal C now_usecs vp s = (Ok vd, s1)" "sr_same s s1" "serving s1"
    using verify_proposal_served [OF assms(1) state(4,2,1,3)] by blast
  note f1 = sr_same_fields [OF s1(2)]
  obtain s2 where s2: "on_storage ps_safety_data s1 = (Ok sd, s2)" "sr_same s1 s2" "serving s2"
    using served_safety_data [OF _ sr_same_coherent [OF s1(2)] s1(3)] f1(1) state(2) by auto
  have "guarded_construct_and_sign_vote_two_chain C now_usecs vp maybe_tc s =
    (case last_vote sd of
       Some vote \<Rightarrow> if vote_round vote = block_round (vp_block vp) then (Ok vote, s2)
                    else cast_vote C (vp_block vp) maybe_tc vd sd s2
     | None \<Rightarrow> cast_vote C (vp_block vp) maybe_tc vd sd s2)"
    using s1(1) s2(1) state(5) verify_tc_opt_Ok [of s1 es C maybe_tc] assms(2) f1(3) state(4)
    by (cases "last_vote sd") (simp_all add: guarded_construct_and_sign_vote_two_chain_def gets_op_def sr_signer_def lift_op_def)
  with sr_same_trans [OF s1(2) s2(2)] s2(3) show ?thesis by blast
qed

lemma cast_vote_served:
  assumes "last_voted_round sd < block_round b" and "safe_to_vote b maybe_tc = Ok ()"
    and "construct_ledger_info_2chain b (vote_data_hash C vd) = Ok li" and "sr_validator_signer s = Some signer"
    and "bls_sign_li C (signer_private_key signer) li = Some sig" and "serving s"
  shows "\<exists>s1. cast_vote C b maybe_tc vd sd s = (Ok (vote_new_with_signature vd (signer_author signer) li sig), s1) \<and> serving s1"
proof -
  let ?v = "vote_new_with_signature vd (signer_author signer) li sig"
  let ?sd = "(snd (observe_qc (block_qc b) (sd\<lparr>last_voted_round := block_round b\<rparr>)))\<lparr>last_vote := Some ?v\<rparr>"
  obtain s1 where "on_storage (ps_set_safety_data ?sd) s = (Ok (), s1)" "serving s1" using served_write [OF assms(6)] by blast
  with assms(1-5) show ?thesis
    by (simp add: cast_vote_def lift_op_def gets_op_def Let_def verify_and_update_last_vote_round_def sr_signer_def sr_sign_def
        signer_sign_def not_le [symmetric])
qed

text \<open>The vote data of an ordered proposal is well formed.\<close>

lemma ordered_vote_data_verifies:
  assumes "verify_well_formed now_usecs (vp_block vp) = Ok ()" and "vp_decoupled_execution vp"
    and "gen_vote_data C vp = Ok vd"
  shows "vd_verify vd = Ok ()"
proof -
  have "bi_timestamp_usecs (certified_block (block_qc (vp_block vp))) \<le> bd_timestamp_usecs (block_data_of (vp_block vp))"
    using assms(1) by (auto simp: verify_well_formed_def check_timestamp_def Let_def result_simps split: if_splits)
  moreover have "bi_timestamp_usecs (proposed vd) = bd_timestamp_usecs (block_data_of (vp_block vp))" "bi_version (proposed vd) = 0"
    using assms(2,3) by (auto simp: gen_vote_data_def vote_data_ordering_only_def vd_new_def gen_block_info_def bi_new_def)
  ultimately show ?thesis
    using gen_vote_data_Ok [OF assms(3)] verify_well_formed_Ok [OF assms(1)] by (simp add: vd_verify_def ensure_def)
qed

lemma vote_granted:
  assumes "proposal_ok C now_usecs vp (es_verifier es) sd vd" and "tc_ok C maybe_tc (es_verifier es)"
    and "last_voted_round sd < block_round (vp_block vp)"
    and rule: "block_round (vp_block vp) = bi_round (certified_block (block_qc (vp_block vp))) + 1 \<or>
      (\<exists>tc. maybe_tc = Some tc \<and> block_round (vp_block vp) = tc_round tc + 1 \<and> tc_round tc < - 1 \<and>
        highest_hqc_round tc \<le> bi_round (certified_block (block_qc (vp_block vp))))"
    and state: "sr_wf C s" "stored s = Some sd" "serving s" "sr_epoch_state s = Some es"
      "sr_validator_signer s = Some signer"
    and li: "li = li_new (if bi_round (certified_block (block_qc (vp_block vp))) + 1 = block_round (vp_block vp)
        then certified_block (block_qc (vp_block vp)) else bi_empty) (vote_data_hash C vd)"
    and sig: "bls_sign_li C (signer_private_key signer) li = Some sig"
  shows "\<exists>s'. guarded_construct_and_sign_vote_two_chain C now_usecs vp maybe_tc s =
      (Ok (vote_new_with_signature vd (signer_author signer) li sig), s') \<and> serving s'"
proof -
  have coh: "sr_coherent s" and wf: "sd_wf C sd" using state(1,2) by (simp_all add: sr_wf_def)
  let ?b = "vp_block vp" let ?qr = "bi_round (certified_block (block_qc (vp_block vp)))"
  have less: "?qr < block_round ?b"
    using assms(1) verify_well_formed_Ok(1) [of now_usecs "vp_block vp"] by (simp add: proposal_ok_def)
  then have nxt: "next_round ?qr = Ok (?qr + 1)" by (simp add: next_round_def checked_add_below)
  have safe: "safe_to_vote ?b maybe_tc = Ok ()"
    using rule nxt by (auto simp: safe_to_vote_def Let_def next_round_def checked_add_below)
  have li': "construct_ledger_info_2chain ?b (vote_data_hash C vd) = Ok li"
    using nxt li by (simp add: construct_ledger_info_2chain_def)
  obtain s2 where s2: "sr_same s s2" "serving s2" "guarded_construct_and_sign_vote_two_chain C now_usecs vp maybe_tc s =
    (case last_vote sd of
       Some vote \<Rightarrow> if vote_round vote = block_round ?b then (Ok vote, s2) else cast_vote C ?b maybe_tc vd sd s2
     | None \<Rightarrow> cast_vote C ?b maybe_tc vd sd s2)"
    using vote_served [OF assms(1,2) coh state(2-5)] by blast
  let ?v = "vote_new_with_signature vd (signer_author signer) li sig"
  obtain s3 where cast: "cast_vote C ?b maybe_tc vd sd s2 = (Ok ?v, s3)" "serving s3"
    using cast_vote_served [OF assms(3) safe li' _ sig s2(2)] sr_same_fields(2) [OF s2(1)] state(5) by auto
  have "vote_round lv \<noteq> block_round ?b" if "last_vote sd = Some lv" for lv
    using that wf assms(3) by (auto simp: sd_wf_def vote_wf_def)
  then have "guarded_construct_and_sign_vote_two_chain C now_usecs vp maybe_tc s = (Ok ?v, s3)"
    using s2(3) cast by (cases "last_vote sd") simp_all
  with cast(2) show ?thesis by blast
qed

text \<open>
  \<^bold>\<open>C12.\<close> Voting makes progress. Let the storage answer, let the validator hold its key, and let a proposal pass the
  checks for an epoch of which it is a member. If its round follows the round of its quorum certificate, or follows the
  round of a valid timeout certificate whose highest quorum certificate is not above it, and the validator has not
  voted in that round or a later one, then a vote for it is handed out, and every validator of the epoch accepts the
  vote.
\<close>

theorem safe_proposal_gets_vote:
  assumes "proposal_ok C now_usecs vp (es_verifier es) sd vd" and "vp_decoupled_execution vp"
    and "tc_ok C maybe_tc (es_verifier es)" and "last_voted_round sd < block_round (vp_block vp)"
    and rule: "block_round (vp_block vp) = bi_round (certified_block (block_qc (vp_block vp))) + 1 \<or>
      (\<exists>tc. maybe_tc = Some tc \<and> block_round (vp_block vp) = tc_round tc + 1 \<and> tc_round tc < - 1 \<and>
        highest_hqc_round tc \<le> bi_round (certified_block (block_qc (vp_block vp))))"
    and state: "sr_wf C s" "stored s = Some sd" "serving s" "sr_epoch_state s = Some es"
      "sr_validator_signer s = Some signer"
    and key: "get_public_key (es_verifier es) (signer_author signer) = Some key"
      "\<And>li. \<exists>sig. bls_sign_li C (signer_private_key signer) li = Some sig \<and> bls_verify_li C sig li key"
  shows "\<exists>v s'. guarded_construct_and_sign_vote_two_chain C now_usecs vp maybe_tc s = (Ok v, s') \<and>
    vote_vote_data v = vd \<and> vote_verify C v (es_verifier es) = Ok ()"
proof -
  let ?b = "vp_block vp" let ?qr = "bi_round (certified_block (block_qc (vp_block vp)))"
  define li where "li = li_new (if ?qr + 1 = block_round ?b then certified_block (block_qc ?b) else bi_empty) (vote_data_hash C vd)"
  obtain sig where sig: "bls_sign_li C (signer_private_key signer) li = Some sig" "bls_verify_li C sig li key"
    using key(2) by blast
  let ?v = "vote_new_with_signature vd (signer_author signer) li sig"
  have "\<exists>s'. guarded_construct_and_sign_vote_two_chain C now_usecs vp maybe_tc s = (Ok ?v, s')"
    using vote_granted [OF assms(1,3,4) rule state li_def sig(1)] by blast
  moreover have "vote_verify C ?v (es_verifier es) = Ok ()"
    using ordered_vote_data_verifies [of now_usecs vp C vd] assms(1,2) key(1) sig(2)
    by (simp add: vote_verify_def vote_new_with_signature_def ensure_def vv_verify_def proposal_ok_def li_def li_new_def)
  ultimately show ?thesis by (auto simp: vote_new_with_signature_def)
qed

section \<open>A concrete validator\<close>

definition demo_cc :: consensus_crypto where
  "demo_cc =
     \<lparr>bls_pk_aggregate = \<lambda>_. Some 0, bls_sig_aggregate = \<lambda>_. Some 0, bls_verify_li = \<lambda>s li k. s = 5,
      waypoint_hash = \<lambda>_. 0, bls_verify_batch = \<lambda>_ _ _. False, bls_sign_batch = \<lambda>_ _. None,
      batch_payload_hash = \<lambda>_ _. 0, vote_data_hash = \<lambda>vd. bi_id (proposed vd),
      block_data_hash = \<lambda>bd. 100 + ucast (bd_round bd), transaction_node_hash = \<lambda>_ _. 0, bls_public_key = \<lambda>_. 11,
      bls_sign_li = \<lambda>_ _. Some 5, bls_verify_block = \<lambda>_ _ _. False, bls_sign_block = \<lambda>_ _. None,
      bls_verify_timeout = \<lambda>_ _ _. True, bls_verify_timeouts = \<lambda>_ _ _. True, bls_sign_timeout = \<lambda>_ _. Some 6\<rparr>"

definition demo_genesis_info :: block_info where
  "demo_genesis_info = bi_new 1 0 8 9 0 100 None"

definition demo_genesis_qc :: quorum_cert where
  "demo_genesis_qc = qc_new (vd_new demo_genesis_info demo_genesis_info)
     (lis_new (li_new demo_genesis_info 8) (agg_new \<lparr>inner = [0]\<rparr> None))"

definition demo_proposal :: vote_proposal where
  "demo_proposal =
     \<lparr>vp_accumulator_extension_proof = \<lparr>ext_frozen_subtree_roots = [], ext_num_leaves = 0, ext_leaves = []\<rparr>,
      vp_block = block_new_nil demo_cc 1 demo_genesis_qc [], vp_next_epoch_state = None, vp_decoupled_execution = True\<rparr>"

definition demo_rules :: safety_rules where
  "demo_rules =
     \<lparr>persistent_storage =
        \<lparr>enable_cached_safety_data = True, cached_safety_data = None,
         internal_store = \<lparr>kv_consensus_key = Some 1, kv_owner_account = Some 1, kv_safety_data = Some (sd_new 1 0 0 0 None),
           kv_waypoint = None, kv_answers = []\<rparr>\<rparr>,
      sr_validator_signer = Some (vs_signer_new 1 1), sr_epoch_state = Some \<lparr>es_epoch = 1, es_verifier = demo_verifier\<rparr>\<rparr>"

lemma demo_qc_verify: "qc_verify demo_cc demo_genesis_qc v = Ok ()"
  by (simp add: qc_verify_def demo_genesis_qc_def qc_new_def vd_new_def lis_new_def li_new_def demo_cc_def demo_genesis_info_def
      bi_new_def lis_get_num_voters_def get_num_voters_def agg_new_def count_ones_def byte_count_ones_def ensure_def)

lemma demo_well_formed: "verify_well_formed now_usecs (vp_block demo_proposal) = Ok ()"
  by (simp add: verify_well_formed_def demo_proposal_def block_new_nil_def bd_new_nil_def Let_def ensure_def
      bd_is_genesis_block_def demo_genesis_qc_def qc_new_def vd_new_def demo_genesis_info_def bi_new_def has_reconfiguration_def
      check_failed_authors_def bd_failed_authors_def bd_is_nil_block_def add_p_def checked_add_def checked_sub_def
      check_timestamp_def qc_ends_epoch_def ends_epoch_def lis_new_def li_new_def)


lemma demo_proposal_ok:
  "proposal_ok demo_cc 0 demo_proposal demo_verifier (sd_new 1 0 0 0 None) (vote_data_ordering_only demo_proposal)"
  using demo_well_formed [of 0] demo_qc_verify [of demo_verifier]
  by (simp add: proposal_ok_def gen_vote_data_def validate_signature_def)
    (simp add: demo_proposal_def block_new_nil_def bd_new_nil_def Let_def demo_genesis_qc_def qc_new_def vd_new_def
      demo_genesis_info_def bi_new_def sd_new_def)

lemma demo_rounds:
  "block_round (vp_block demo_proposal) = 1" "bi_round (certified_block (block_qc (vp_block demo_proposal))) = 0"
  by (simp_all add: demo_proposal_def block_new_nil_def bd_new_nil_def Let_def demo_genesis_qc_def qc_new_def vd_new_def
      demo_genesis_info_def bi_new_def)

lemma demo_rules_wf: "sr_wf demo_cc demo_rules"
  by (simp add: demo_rules_def sr_wf_def sr_coherent_def ps_coherent_def reset_wf)

theorem safe_proposal_gets_vote_witness:
  "\<exists>v s'. guarded_construct_and_sign_vote_two_chain demo_cc 0 demo_proposal None demo_rules = (Ok v, s') \<and>
     vote_vote_data v = vote_data_ordering_only demo_proposal \<and> vote_verify demo_cc v demo_verifier = Ok ()"
proof -
  let ?es = "\<lparr>es_epoch = 1, es_verifier = demo_verifier\<rparr>" and ?sd = "sd_new 1 0 0 0 None"
  have ok: "proposal_ok demo_cc 0 demo_proposal (es_verifier ?es) ?sd (vote_data_ordering_only demo_proposal)"
    using demo_proposal_ok by simp
  have "\<exists>v s'. guarded_construct_and_sign_vote_two_chain demo_cc 0 demo_proposal None demo_rules = (Ok v, s') \<and>
     vote_vote_data v = vote_data_ordering_only demo_proposal \<and> vote_verify demo_cc v (es_verifier ?es) = Ok ()"
  proof (rule safe_proposal_gets_vote [OF ok _ _ _ _ demo_rules_wf])
    show "sr_validator_signer demo_rules = Some (vs_signer_new 1 1)" "stored demo_rules = Some ?sd"
      "serving demo_rules" "sr_epoch_state demo_rules = Some ?es"
      by (simp_all add: demo_rules_def serving_def)
    show "get_public_key (es_verifier ?es) (signer_author (vs_signer_new 1 1)) = Some 11"
      using demo_power(5) by (simp add: vs_signer_new_def)
    show "\<exists>sig. bls_sign_li demo_cc (signer_private_key (vs_signer_new 1 1)) li = Some sig \<and> bls_verify_li demo_cc sig li 11" for li
      by (simp add: demo_cc_def)
    show "vp_decoupled_execution demo_proposal" by (simp add: demo_proposal_def)
  qed (simp_all add: tc_ok_def demo_rounds sd_new_def)
  then show ?thesis by simp
qed

lemma demo_first_vote:
  "\<exists>v s'. guarded_construct_and_sign_vote_two_chain demo_cc 0 demo_proposal None demo_rules = (Ok v, s') \<and> serving s'"
proof -
  let ?es = "\<lparr>es_epoch = 1, es_verifier = demo_verifier\<rparr>" and ?sd = "sd_new 1 0 0 0 None"
  have st: "stored demo_rules = Some ?sd" "serving demo_rules" "sr_epoch_state demo_rules = Some ?es"
    "sr_validator_signer demo_rules = Some (vs_signer_new 1 1)"
    by (simp_all add: demo_rules_def serving_def)
  have ok: "proposal_ok demo_cc 0 demo_proposal (es_verifier ?es) ?sd (vote_data_ordering_only demo_proposal)"
    using demo_proposal_ok by simp
  have sig: "bls_sign_li demo_cc key li = Some 5" for key li by (simp add: demo_cc_def)
  have tc: "tc_ok demo_cc None (es_verifier ?es)" by (simp add: tc_ok_def)
  have "last_voted_round ?sd < block_round (vp_block demo_proposal)" by (simp add: sd_new_def demo_rounds)
  from vote_granted [OF ok tc this _ demo_rules_wf st refl sig] show ?thesis by (simp add: demo_rounds) blast
qed

text \<open>A production configuration with a file to initialise from.\<close>

definition demo_config :: safety_rules_config where
  "demo_config =
     \<lparr>cfg_backend = OnDiskStorage, cfg_test = None, cfg_enable_cached_safety_data = True,
      cfg_initial = FromFile (Some \<lparr>ib_account_address = Some 1, ib_consensus_private_key = Some 1\<rparr>)
        (WpFromConfig (new_any demo_cc (li_new demo_genesis_info 8)))\<rparr>"

lemma demo_run:
  shows "\<exists>v s'. run demo_cc [Request (ConstructAndSignVoteTwoChain 0 demo_proposal None),
     Request (ConstructAndSignVoteTwoChain 0 demo_proposal None), Restart demo_config] demo_rules =
       ([VoteOut (Ok v), VoteOut (Ok v)], s')" (is "\<exists>v s'. run _ ?events _ = _")
    and "keeps_run demo_cc [Request (ConstructAndSignVoteTwoChain 0 demo_proposal None),
     Request (ConstructAndSignVoteTwoChain 0 demo_proposal None), Restart demo_config] demo_rules"
proof -
  let ?es = "\<lparr>es_epoch = 1, es_verifier = demo_verifier\<rparr>"
  have coh: "sr_coherent demo_rules" using demo_rules_wf by (simp add: sr_wf_def)
  obtain v s1 where s1: "guarded_construct_and_sign_vote_two_chain demo_cc 0 demo_proposal None demo_rules = (Ok v, s1)" "serving s1"
    using demo_first_vote by blast
  have "stored demo_rules = Some (sd_new 1 0 0 0 None)" "last_vote (sd_new 1 0 0 0 None) = None"
    by (simp_all add: demo_rules_def sd_new_def)
  note sd0 = this
  from vote_op [OF s1(1) coh] have "kept demo_rules s1" "\<exists>verifier sd. stored s1 = Some sd \<and>
      vote_cast demo_cc 0 demo_proposal None verifier (sd_new 1 0 0 0 None) v sd"
    using sd0 by (auto simp: vote_outcome_def)
  then obtain verifier sd where kept: "kept demo_rules s1" and sd: "stored s1 = Some sd"
    and cast: "vote_cast demo_cc 0 demo_proposal None verifier (sd_new 1 0 0 0 None) v sd" by blast
  have st: "kept demo_rules s1" "stored s1 = Some sd" "last_vote sd = Some v" "sd_epoch sd = 1"
    "vote_round v = block_round (vp_block demo_proposal)"
    using kept sd vote_cast_facts(2,4,5) [OF cast] by (simp_all add: sd_new_def)
  have ok: "proposal_ok demo_cc 0 demo_proposal (es_verifier ?es) sd (vote_data_ordering_only demo_proposal)"
    using demo_proposal_ok st(4) by (simp add: proposal_ok_def sd_new_def)
  have "sr_coherent s1" "sr_epoch_state s1 = Some ?es" "sr_validator_signer s1 = Some (vs_signer_new 1 1)"
    using st(1) by (simp_all add: kept_def demo_rules_def)
  then obtain s2 where s2: "guarded_construct_and_sign_vote_two_chain demo_cc 0 demo_proposal None s1 = (Ok v, s2)"
    "sr_same s1 s2" "serving s2"
    using vote_served [OF ok _ _ st(2) s1(2), of None] st(3,5) by (auto simp: tc_ok_def)
  have "kv_owner_account (internal_store (persistent_storage s2)) = Some 1"
    using sr_same_fields(6) [OF s2(2)] kept by (simp add: kept_def demo_rules_def)
  then have "keeps_storage demo_config s2"
    using s2(3) by (intro served_start_keeps) (simp_all add: serving_def demo_config_def)
  with s1(1) s2(1) show "\<exists>v s'. run demo_cc ?events demo_rules = ([VoteOut (Ok v), VoteOut (Ok v)], s')"
    "keeps_run demo_cc ?events demo_rules" by (simp_all add: handle_message_def)
qed

theorem no_equivocation_witness:
  "\<exists>v w s'. run demo_cc [Request (ConstructAndSignVoteTwoChain 0 demo_proposal None),
     Request (ConstructAndSignVoteTwoChain 0 demo_proposal None), Restart demo_config] demo_rules = ([VoteOut (Ok v), VoteOut (Ok w)], s') \<and> v = w"
proof -
  obtain v s' where run: "run demo_cc [Request (ConstructAndSignVoteTwoChain 0 demo_proposal None),
     Request (ConstructAndSignVoteTwoChain 0 demo_proposal None), Restart demo_config] demo_rules = ([VoteOut (Ok v), VoteOut (Ok v)], s')"
    using demo_run(1) by blast
  with no_equivocation [OF demo_rules_wf demo_run(2) run, of v v] show ?thesis by auto
qed

theorem safety_data_well_formed_witness:
  "\<exists>outs s'. run demo_cc [Request (ConstructAndSignVoteTwoChain 0 demo_proposal None),
     Request (ConstructAndSignVoteTwoChain 0 demo_proposal None), Restart demo_config] demo_rules = (outs, s') \<and> sr_wf demo_cc s' \<and>
     (\<exists>sd'. stored s' = Some sd' \<and> sd_le (sd_new 1 0 0 0 None) sd')"
proof -
  obtain v s' where run: "run demo_cc [Request (ConstructAndSignVoteTwoChain 0 demo_proposal None),
     Request (ConstructAndSignVoteTwoChain 0 demo_proposal None), Restart demo_config] demo_rules = ([VoteOut (Ok v), VoteOut (Ok v)], s')"
    using demo_run(1) by blast
  with safety_data_well_formed [OF demo_rules_wf demo_run(2) run] show ?thesis by (auto simp: demo_rules_def)
qed

theorem uncached_rules_are_stuck_witness:
  "let s = demo_rules\<lparr>persistent_storage := (persistent_storage demo_rules)\<lparr>enable_cached_safety_data := False\<rparr>\<rparr> in
     \<exists>out s'. handle_message demo_cc (ConstructAndSignVoteTwoChain 0 demo_proposal None) s = (out, s') \<and> (\<forall>v. out \<noteq> VoteOut (Ok v))"
proof -
  let ?s = "demo_rules\<lparr>persistent_storage := (persistent_storage demo_rules)\<lparr>enable_cached_safety_data := False\<rparr>\<rparr>"
  obtain out s' where h: "handle_message demo_cc (ConstructAndSignVoteTwoChain 0 demo_proposal None) ?s = (out, s')"
    by (cases "handle_message demo_cc (ConstructAndSignVoteTwoChain 0 demo_proposal None) ?s")
  have "\<not> enable_cached_safety_data (persistent_storage ?s)" by simp
  from uncached_rules_are_stuck [OF this h] h show ?thesis by (auto simp: Let_def)
qed

text \<open>The chain of one epoch change, seen by the safety rules of a validator that starts from its waypoint.\<close>

definition demo_chain_cc :: consensus_crypto where
  "demo_chain_cc = demo_cc\<lparr>bls_verify_li := bls_verify_li demo_crypto, waypoint_hash := waypoint_hash demo_crypto\<rparr>"

lemma cong_chain_view:
  "lis_verify_signatures C = lis_verify_signatures C' \<Longrightarrow> waypoint_hash C = waypoint_hash C' \<Longrightarrow>
     chain_view C canonical \<longleftrightarrow> chain_view C' canonical"
  unfolding chain_view_def by (erule ssubst, erule ssubst, rule refl)

lemma demo_chain_cc_view: "chain_view demo_chain_cc demo_canonical"
proof -
  have "bls_pk_aggregate demo_chain_cc = bls_pk_aggregate demo_crypto" "bls_verify_li demo_chain_cc = bls_verify_li demo_crypto"
    "waypoint_hash demo_chain_cc = waypoint_hash demo_crypto"
    by (simp_all add: demo_chain_cc_def demo_cc_def demo_crypto_def)
  then have "lis_verify_signatures demo_chain_cc = lis_verify_signatures demo_crypto"
    "waypoint_hash demo_chain_cc = waypoint_hash demo_crypto"
    by (simp_all add: lis_verify_signatures_def [abs_def])
  then show ?thesis by (rule ssubst [OF cong_chain_view]) (rule demo_chain_view)
qed

definition demo_boot :: safety_rules where
  "demo_boot = sr_new (ps_new
     \<lparr>kv_consensus_key = Some 1, kv_owner_account = Some 1, kv_safety_data = Some (sd_new 0 0 0 0 None),
      kv_waypoint = Some (new_any demo_chain_cc demo_genesis), kv_answers = []\<rparr> True)"

definition demo_chain_config :: safety_rules_config where
  "demo_chain_config =
     \<lparr>cfg_backend = OnDiskStorage, cfg_test = None, cfg_enable_cached_safety_data = True,
      cfg_initial = FromFile (Some \<lparr>ib_account_address = Some 1, ib_consensus_private_key = Some 1\<rparr>)
        (WpFromConfig (new_any demo_chain_cc demo_genesis))\<rparr>"

lemma demo_boot_restart: "sr_restart demo_chain_config demo_boot = demo_boot"
  by (simp add: sr_restart_def open_storage_def demo_chain_config_def demo_boot_def sr_new_def ps_new_def kv_available_def
      backend_into_def ps_author_def map_err_op_def on_store_def kv_get_def next_answer_def)

lemma demo_waypoint_trusted: "trusted demo_chain_cc demo_canonical (EpochWaypoint (new_any demo_chain_cc demo_genesis))"
  by (auto simp: trusted_def demo_canonical_def intro!: exI [of _ "converter_new demo_genesis"])

theorem epochs_stay_canonical_witness:
  "\<exists>s'. run demo_chain_cc
      [Restart demo_chain_config,
       Request (Initialize \<lparr>ledger_info_with_sigs = [lis_new demo_genesis agg_empty], more_changes = False\<rparr>)]
      demo_boot = ([UnitOut (Ok ())], s') \<and> rules_trusted demo_chain_cc demo_canonical s' \<and>
     sr_epoch_state s' = Some \<lparr>es_epoch = 1, es_verifier = demo_verifier\<rparr>"
proof -
  let ?es = "\<lparr>es_epoch = 1, es_verifier = demo_verifier\<rparr>"
  let ?ecp = "\<lparr>ledger_info_with_sigs = [lis_new demo_genesis agg_empty], more_changes = False\<rparr>"
  let ?wp = "new_any demo_chain_cc demo_genesis"
  have boot: "rules_trusted demo_chain_cc demo_canonical demo_boot" "sr_coherent demo_boot"
    using demo_waypoint_trusted
    by (auto simp: rules_trusted_def demo_boot_def sr_new_def ps_new_def sr_coherent_def ps_coherent_def)
  have verified: "ecp_verify demo_chain_cc ?ecp (waypoint_dyn demo_chain_cc ?wp) = Ok (lis_new demo_genesis agg_empty)"
    by (simp add: ecp_verify_def waypoint_dyn_def Let_def lis_new_def ensure_def new_any_def wp_verify_def demo_li_fields)
  have li: "li_next_epoch_state (lis_ledger_info (lis_new demo_genesis agg_empty)) = Some ?es"
    "new_epoch_boundary demo_chain_cc (lis_ledger_info (lis_new demo_genesis agg_empty)) = Ok ?wp"
    by (simp_all add: lis_new_def demo_li_fields new_epoch_boundary_def ends_epoch_def ensure_def)
  have key: "get_public_key demo_verifier 1 = Some (bls_public_key demo_chain_cc 1)"
    using demo_power(5) by (simp add: demo_chain_cc_def demo_cc_def)
  have "\<exists>s'. guarded_initialize demo_chain_cc ?ecp demo_boot = (Ok (), s') \<and> sr_epoch_state s' = Some ?es"
    using verified li key
    by (simp add: guarded_initialize_def bind_op_def on_storage_def ps_waypoint_def map_err_op_def on_store_def kv_get_def
        next_answer_def demo_boot_def sr_new_def ps_new_def lift_op_def ps_safety_data_eq modify_op_def sd_new_def
        ps_set_safety_data_def kv_set_def ps_author_def reconcile_key_def consensus_key_for_version_def)
  then obtain s' where "guarded_initialize demo_chain_cc ?ecp demo_boot = (Ok (), s')" "sr_epoch_state s' = Some ?es" by blast
  then have run: "run demo_chain_cc [Restart demo_chain_config, Request (Initialize ?ecp)] demo_boot = ([UnitOut (Ok ())], s')"
    by (simp add: handle_message_def demo_boot_restart)
  have "trusted_config demo_chain_cc demo_canonical demo_chain_config"
    using demo_waypoint_trusted by (simp add: trusted_config_def demo_chain_config_def wpc_waypoint_def)
  have "rules_trusted demo_chain_cc demo_canonical s'"
    by (rule epochs_stay_canonical [OF demo_chain_cc_view boot run]) (use \<open>trusted_config _ _ _\<close> in simp)
  with run \<open>sr_epoch_state s' = Some ?es\<close> show ?thesis by blast
qed

end
