(* ===== verification/Agreement.thy ===== *)
theory Agreement
  imports Voting
begin

text \<open>
  Agreement of the consensus protocol in one epoch. The validators of the epoch run the safety rules of
  \<open>consensus/safety-rules/src\<close>; the honest ones use only the operations modelled in \<open>Voting\<close>, served in any order,
  with failing storage and restarts that do not initialise the storage again. The others and the network may send
  anything, except for signatures of honest validators on messages these have not signed.

  A configuration holds, for every validator, the state of its safety rules and the messages it has signed. The steps
  state what the code around the safety rules and the cryptography contribute: the certificates that are handed to an
  honest validator are genuine; a timeout certificate is of the epoch of the proposal (\<open>SyncInfo::verify\<close> checks it);
  a commit vote keeps the consensus data hash of the ordered proof (\<open>generate_commit_ledger_info\<close> of
  \<open>consensus/src/pipeline/buffer_item.rs\<close>); an epoch is entered with its own validator set; the reply to the write
  that enters an epoch is not lost; and no restart initialises the storage again, which would erase
  what the validator has voted for (\<open>keeps_storage\<close> of \<open>Voting\<close>).
\<close>

section \<open>Configurations\<close>

record net =
  net_crypto :: consensus_crypto
  net_verifier :: validator_verifier
  net_epoch :: u64
  honest :: "account_address set"
  universe :: "vote_data set"

record node =
  rules :: safety_rules
  cast :: "vote set"
  timeouts :: "timeout_signing_repr set"
  commits :: "ledger_info set"

type_synonym configuration = "account_address \<Rightarrow> node"

definition signed_infos :: "node \<Rightarrow> ledger_info set" where
  "signed_infos n = vote_ledger_info ` cast n \<union> commits n"

text \<open>The validators whose bit is set, in order.\<close>

abbreviation "signers N sig \<equiv> map address (signers_of (net_verifier N) sig)"

definition genuine_lis :: "net \<Rightarrow> configuration \<Rightarrow> ledger_info_with_signatures \<Rightarrow> bool" where
  "genuine_lis N \<sigma> lis \<longleftrightarrow>
     (lis_verify_signatures (net_crypto N) lis (net_verifier N) = Ok () \<longrightarrow>
       (\<forall>a \<in> honest N. a \<in> set (signers N (lis_signatures lis)) \<longrightarrow> lis_ledger_info lis \<in> signed_infos (\<sigma> a)))"

definition genuine_tc :: "net \<Rightarrow> configuration \<Rightarrow> two_chain_timeout_certificate \<Rightarrow> bool" where
  "genuine_tc N \<sigma> tc \<longleftrightarrow>
     (let msgs = tc_messages tc (net_verifier N); sig = asr_sig (signatures_with_rounds tc) in
      verify_aggregate_signatures (bls_verify_timeouts (net_crypto N)) (net_verifier N) msgs sig = Ok () \<longrightarrow>
        (\<forall>i < length (signers N sig). signers N sig ! i \<in> honest N \<longrightarrow>
          i < length msgs \<and> msgs ! i \<in> timeouts (\<sigma> (signers N sig ! i))))"

text \<open>The conditions under which a request reaches an honest validator.\<close>

definition admissible :: "net \<Rightarrow> configuration \<Rightarrow> safety_rules \<Rightarrow> safety_rules_input \<Rightarrow> safety_rules \<Rightarrow> bool" where
  "admissible N \<sigma> s input s' \<longleftrightarrow>
     (case input of
        ConstructAndSignVoteTwoChain now_usecs vp maybe_tc \<Rightarrow>
          genuine_lis N \<sigma> (signed_ledger_info (block_qc (vp_block vp))) \<and>
          qc_vote_data (block_qc (vp_block vp)) \<in> universe N \<and>
          (\<forall>vd. gen_vote_data (net_crypto N) vp = Ok vd \<longrightarrow> vd \<in> universe N) \<and>
          (\<forall>tc. maybe_tc = Some tc \<longrightarrow> genuine_tc N \<sigma> tc \<and> tc_epoch tc = block_epoch (vp_block vp))
      | SignCommitVote lis new_li \<Rightarrow>
          genuine_lis N \<sigma> lis \<and> consensus_data_hash new_li = consensus_data_hash (lis_ledger_info lis) \<and>
          (\<forall>es. sr_epoch_state s = Some es \<longrightarrow> es_verifier es = net_verifier N)
      | Initialize ecp \<Rightarrow>
          \<not> may_lose_reply (persistent_storage s) \<and>
          (\<forall>es. sr_epoch_state s' = Some es \<and> es_epoch es = net_epoch N \<longrightarrow> es_verifier es = net_verifier N)
      | _ \<Rightarrow> True)"

definition new_votes :: "safety_rules \<Rightarrow> safety_rules \<Rightarrow> vote set" where
  "new_votes s s' = {v. (\<exists>sd. stored s' = Some sd \<and> last_vote sd = Some v) \<and> \<not> (\<exists>sd. stored s = Some sd \<and> last_vote sd = Some v)}"

definition new_timeouts :: "safety_rules_input \<Rightarrow> safety_rules_output \<Rightarrow> timeout_signing_repr set" where
  "new_timeouts input out =
     (case (input, out) of (SignTimeoutWithQC timeout _, TimeoutOut (Ok _)) \<Rightarrow> {signing_format timeout} | _ \<Rightarrow> {})"

definition new_commits :: "safety_rules_input \<Rightarrow> safety_rules_output \<Rightarrow> ledger_info set" where
  "new_commits input out =
     (case (input, out) of (SignCommitVote _ new_li, CommitOut (Ok _)) \<Rightarrow> {new_li} | _ \<Rightarrow> {})"

definition set_answers :: "storage_answer list \<Rightarrow> safety_rules \<Rightarrow> safety_rules" where
  "set_answers answers s =
     s\<lparr>persistent_storage := (persistent_storage s)\<lparr>internal_store :=
       (internal_store (persistent_storage s))\<lparr>kv_answers := answers\<rparr>\<rparr>\<rparr>"

text \<open>An honest validator at the start: it has not signed anything and has not entered the epoch, or just entered it.\<close>

definition initial :: "net \<Rightarrow> node \<Rightarrow> bool" where
  "initial N n \<longleftrightarrow> cast n = {} \<and> timeouts n = {} \<and> commits n = {} \<and> sr_wf (net_crypto N) (rules n) \<and>
     (\<forall>sd. stored (rules n) = Some sd \<and> sd_epoch sd = net_epoch N \<longrightarrow> last_vote sd = None \<and>
        (\<forall>es. sr_epoch_state (rules n) = Some es \<longrightarrow> es_verifier es = net_verifier N))"

inductive reachable :: "net \<Rightarrow> configuration \<Rightarrow> bool" for N where
  start: "\<forall>a \<in> honest N. initial N (\<sigma> a) \<Longrightarrow> reachable N \<sigma>"
| serve: "reachable N \<sigma> \<Longrightarrow> a \<in> honest N \<Longrightarrow> handle_message (net_crypto N) input (rules (\<sigma> a)) = (out, s') \<Longrightarrow>
    admissible N \<sigma> (rules (\<sigma> a)) input s' \<Longrightarrow>
    reachable N (\<sigma>(a := \<lparr>rules = s', cast = cast (\<sigma> a) \<union> new_votes (rules (\<sigma> a)) s',
      timeouts = timeouts (\<sigma> a) \<union> new_timeouts input out, commits = commits (\<sigma> a) \<union> new_commits input out\<rparr>))"
| restart: "reachable N \<sigma> \<Longrightarrow> a \<in> honest N \<Longrightarrow> keeps_storage cfg (rules (\<sigma> a)) \<Longrightarrow>
    reachable N (\<sigma>(a := (\<sigma> a)\<lparr>rules := sr_restart cfg (rules (\<sigma> a))\<rparr>))"
| storage: "reachable N \<sigma> \<Longrightarrow> a \<in> honest N \<Longrightarrow> reachable N (\<sigma>(a := (\<sigma> a)\<lparr>rules := set_answers answers (rules (\<sigma> a))\<rparr>))"

section \<open>Committed blocks\<close>

definition same_block :: "block_info \<Rightarrow> block_info \<Rightarrow> bool" where
  "same_block b b' \<longleftrightarrow> bi_epoch b = bi_epoch b' \<and> bi_round b = bi_round b' \<and> bi_id b = bi_id b'"

definition quorum :: "net \<Rightarrow> account_address set \<Rightarrow> bool" where
  "quorum N Q \<longleftrightarrow> Q \<subseteq> members (net_verifier N) \<and>
     unat (quorum_voting_power (net_verifier N)) \<le> sum (vpower (net_verifier N)) Q"

text \<open>Vote data for which a quorum, as far as honest, has voted.\<close>

definition certified :: "net \<Rightarrow> configuration \<Rightarrow> vote_data \<Rightarrow> bool" where
  "certified N \<sigma> vd \<longleftrightarrow>
     (\<exists>Q. quorum N Q \<and> (\<forall>a \<in> Q \<inter> honest N. \<exists>v \<in> cast (\<sigma> a). vote_vote_data v = vd))"

text \<open>A block is committed by a ledger info that carries the signatures of a quorum.\<close>

definition committed :: "net \<Rightarrow> configuration \<Rightarrow> block_info \<Rightarrow> bool" where
  "committed N \<sigma> b \<longleftrightarrow> bi_epoch b = net_epoch N \<and> 0 < bi_round b \<and>
     (\<exists>lis. lis_verify_signatures (net_crypto N) lis (net_verifier N) = Ok () \<and> genuine_lis N \<sigma> lis \<and>
       commit_info (lis_ledger_info lis) = b)"

inductive ancestor :: "(vote_data \<Rightarrow> bool) \<Rightarrow> block_info \<Rightarrow> block_info \<Rightarrow> bool" for cert where
  itself: "same_block b b' \<Longrightarrow> ancestor cert b b'"
| extends: "cert vd \<Longrightarrow> same_block (proposed vd) b' \<Longrightarrow> ancestor cert b (parent_of vd) \<Longrightarrow> ancestor cert b b'"

text \<open>Less than a third of the voting power is faulty, and the hash of vote data has no collision among those in use.\<close>

definition sound_net :: "net \<Rightarrow> bool" where
  "sound_net N \<longleftrightarrow> wf_verifier (net_verifier N) \<and>
     3 * sum (vpower (net_verifier N)) (members (net_verifier N) - honest N) < unat (total_voting_power (net_verifier N)) \<and>
     inj_on (vote_data_hash (net_crypto N)) (universe N)"

section \<open>The invariant\<close>

abbreviation "par_round v \<equiv> bi_round (parent_of (vote_vote_data v))"

definition vote_shape :: "net \<Rightarrow> vote \<Rightarrow> bool" where
  "vote_shape N v \<longleftrightarrow> vote_vote_data v \<in> universe N \<and>
     bi_epoch (parent_of (vote_vote_data v)) = vote_epoch v \<and> par_round v < vote_round v \<and>
     consensus_data_hash (vote_ledger_info v) = vote_data_hash (net_crypto N) (vote_vote_data v) \<and>
     commit_info (vote_ledger_info v) = (if par_round v + 1 = vote_round v then parent_of (vote_vote_data v) else bi_empty)"

text \<open>The stored data is past a round: of a later epoch, or of the epoch with that round voted.\<close>

definition past :: "net \<Rightarrow> safety_data \<Rightarrow> round \<Rightarrow> bool" where
  "past N sd r \<longleftrightarrow> net_epoch N < sd_epoch sd \<or> sd_epoch sd = net_epoch N \<and> r \<le> last_voted_round sd"

definition own_verifier :: "net \<Rightarrow> safety_rules \<Rightarrow> bool" where
  "own_verifier N s \<longleftrightarrow>
     (\<forall>sd es. stored s = Some sd \<and> sd_epoch sd = net_epoch N \<and> sr_epoch_state s = Some es \<longrightarrow> es_verifier es = net_verifier N)"

definition vote_past :: "net \<Rightarrow> safety_data option \<Rightarrow> vote \<Rightarrow> bool" where
  "vote_past N stored_data v \<longleftrightarrow> vote_epoch v = net_epoch N \<longrightarrow>
     (\<exists>sd. stored_data = Some sd \<and> past N sd (vote_round v) \<and> (sd_epoch sd = net_epoch N \<longrightarrow> par_round v \<le> one_chain_round sd))"

definition timeout_past :: "net \<Rightarrow> safety_data option \<Rightarrow> timeout_signing_repr \<Rightarrow> bool" where
  "timeout_past N stored_data t \<longleftrightarrow> tsr_epoch t = net_epoch N \<longrightarrow> (\<exists>sd. stored_data = Some sd \<and> past N sd (tsr_round t))"

definition votes_unique :: "net \<Rightarrow> vote set \<Rightarrow> bool" where
  "votes_unique N votes \<longleftrightarrow>
     (\<forall>v \<in> votes. \<forall>w \<in> votes. vote_epoch v = net_epoch N \<and> vote_epoch w = net_epoch N \<and> vote_round v = vote_round w \<longrightarrow> v = w)"

text \<open>A timeout reports a quorum certificate at least as high as the parents of the votes up to its round.\<close>

definition timeout_reports :: "net \<Rightarrow> timeout_signing_repr \<Rightarrow> vote \<Rightarrow> bool" where
  "timeout_reports N t v \<longleftrightarrow> tsr_epoch t = net_epoch N \<and> vote_epoch v = net_epoch N \<and> vote_round v \<le> tsr_round t \<longrightarrow>
     par_round v \<le> tsr_hqc_round t"

definition last_recorded :: "net \<Rightarrow> safety_data option \<Rightarrow> vote set \<Rightarrow> bool" where
  "last_recorded N stored_data votes \<longleftrightarrow>
     (\<forall>sd v. stored_data = Some sd \<and> sd_epoch sd = net_epoch N \<and> last_vote sd = Some v \<longrightarrow> v \<in> votes)"

definition node_inv :: "net \<Rightarrow> node \<Rightarrow> bool" where
  "node_inv N n \<longleftrightarrow> sr_wf (net_crypto N) (rules n) \<and> own_verifier N (rules n) \<and> (\<forall>v \<in> cast n. vote_shape N v) \<and>
     (\<forall>v \<in> cast n. vote_past N (stored (rules n)) v) \<and> votes_unique N (cast n) \<and>
     last_recorded N (stored (rules n)) (cast n) \<and>
     (\<forall>t \<in> timeouts n. timeout_past N (stored (rules n)) t) \<and> (\<forall>t \<in> timeouts n. \<forall>v \<in> cast n. timeout_reports N t v)"

text \<open>A quorum has timed out in the round before, with quorum certificates of no higher round.\<close>

definition tc_quorum :: "net \<Rightarrow> configuration \<Rightarrow> round \<Rightarrow> round \<Rightarrow> bool" where
  "tc_quorum N \<sigma> r q \<longleftrightarrow>
     (\<exists>Q. quorum N Q \<and> (\<forall>a \<in> Q \<inter> honest N. \<exists>t \<in> timeouts (\<sigma> a).
        tsr_epoch t = net_epoch N \<and> tsr_round t + 1 = r \<and> tsr_round t < r \<and> tsr_hqc_round t \<le> q))"

definition vote_just :: "net \<Rightarrow> configuration \<Rightarrow> vote \<Rightarrow> bool" where
  "vote_just N \<sigma> v \<longleftrightarrow>
     (par_round v = 0 \<or> (\<exists>vd. certified N \<sigma> vd \<and> proposed vd = parent_of (vote_vote_data v))) \<and>
     (vote_round v = par_round v + 1 \<or> tc_quorum N \<sigma> (vote_round v) (par_round v))"

definition commit_just :: "net \<Rightarrow> configuration \<Rightarrow> ledger_info \<Rightarrow> bool" where
  "commit_just N \<sigma> li \<longleftrightarrow>
     (\<exists>vd \<in> universe N. certified N \<sigma> vd \<and> vote_data_hash (net_crypto N) vd = consensus_data_hash li \<and>
       bi_round (parent_of vd) + 1 = bi_round (proposed vd) \<and> same_block (parent_of vd) (commit_info li))"

definition net_inv :: "net \<Rightarrow> configuration \<Rightarrow> bool" where
  "net_inv N \<sigma> \<longleftrightarrow>
     (\<forall>a \<in> honest N. node_inv N (\<sigma> a) \<and>
       (\<forall>v \<in> cast (\<sigma> a). vote_epoch v = net_epoch N \<longrightarrow> vote_just N \<sigma> v) \<and>
       (\<forall>li \<in> commits (\<sigma> a). commit_just N \<sigma> li))"

subsection \<open>Growth\<close>

definition grows :: "configuration \<Rightarrow> configuration \<Rightarrow> bool" where
  "grows \<sigma> \<sigma>' \<longleftrightarrow> (\<forall>a. cast (\<sigma> a) \<subseteq> cast (\<sigma>' a) \<and> timeouts (\<sigma> a) \<subseteq> timeouts (\<sigma>' a))"

lemma certified_mono: "certified N \<sigma> vd \<Longrightarrow> grows \<sigma> \<sigma>' \<Longrightarrow> certified N \<sigma>' vd"
  unfolding certified_def grows_def by blast

lemma tc_quorum_mono: "tc_quorum N \<sigma> r q \<Longrightarrow> grows \<sigma> \<sigma>' \<Longrightarrow> tc_quorum N \<sigma>' r q"
  unfolding tc_quorum_def grows_def by blast

lemma vote_just_mono: "vote_just N \<sigma> v \<Longrightarrow> grows \<sigma> \<sigma>' \<Longrightarrow> vote_just N \<sigma>' v"
  unfolding vote_just_def using certified_mono tc_quorum_mono by blast

lemma commit_just_mono: "commit_just N \<sigma> li \<Longrightarrow> grows \<sigma> \<sigma>' \<Longrightarrow> commit_just N \<sigma>' li"
  unfolding commit_just_def using certified_mono by blast

subsection \<open>Quorums of the epoch\<close>

lemma quorum_meet:
  assumes "sound_net N" and "quorum N Q" and "quorum N Q'"
  obtains a where "a \<in> Q" and "a \<in> Q'" and "a \<in> honest N"
proof -
  have "members (net_verifier N) \<inter> - honest N = members (net_verifier N) - honest N" by blast
  with vq.quorum_intersection [of "net_verifier N" Q Q' "- honest N"] assms that show thesis
    by (auto simp: sound_net_def quorum_def)
qed

lemma certificate_quorum:
  assumes "sound_net N" and "lis_verify_signatures (net_crypto N) lis (net_verifier N) = Ok ()"
  shows "quorum N (set (signers N (lis_signatures lis)))"
  using verify_multi_signatures_quorum(2,3) [OF assms(2) [unfolded lis_verify_signatures_def]] assms(1)
  by (simp add: quorum_def sound_net_def)

lemma certified_unique:
  assumes "sound_net N" and "net_inv N \<sigma>" and "certified N \<sigma> vd" and "certified N \<sigma> vd'"
    and "bi_epoch (proposed vd) = net_epoch N" and "bi_epoch (proposed vd') = net_epoch N"
    and "bi_round (proposed vd) = bi_round (proposed vd')"
  shows "vd = vd'"
proof -
  from assms(3,4) obtain Q Q' where Q: "quorum N Q" "\<forall>a \<in> Q \<inter> honest N. \<exists>v \<in> cast (\<sigma> a). vote_vote_data v = vd"
    and Q': "quorum N Q'" "\<forall>a \<in> Q' \<inter> honest N. \<exists>v \<in> cast (\<sigma> a). vote_vote_data v = vd'"
    unfolding certified_def by blast
  obtain a where a: "a \<in> Q" "a \<in> Q'" "a \<in> honest N" using quorum_meet [OF assms(1) Q(1) Q'(1)] .
  with Q(2) Q'(2) obtain v w where v: "v \<in> cast (\<sigma> a)" "vote_vote_data v = vd" "w \<in> cast (\<sigma> a)" "vote_vote_data w = vd'" by blast
  have "node_inv N (\<sigma> a)" using assms(2) a(3) by (simp add: net_inv_def)
  then have "v = w" using v assms(5-7) unfolding node_inv_def votes_unique_def by blast
  with v show ?thesis by simp
qed

lemma certified_voter:
  assumes "sound_net N" and "certified N \<sigma> vd"
  obtains a v where "a \<in> honest N" and "v \<in> cast (\<sigma> a)" and "vote_vote_data v = vd"
proof -
  from assms(2) obtain Q where Q: "quorum N Q" "\<forall>a \<in> Q \<inter> honest N. \<exists>v \<in> cast (\<sigma> a). vote_vote_data v = vd"
    unfolding certified_def by blast
  obtain a where "a \<in> Q" "a \<in> honest N" using quorum_meet [OF assms(1) Q(1) Q(1)] .
  with Q(2) that show thesis by blast
qed

lemma same_block_refl [simp]: "same_block b b"
  by (simp add: same_block_def)

lemma same_block_trans: "same_block a b \<Longrightarrow> same_block b c \<Longrightarrow> same_block a c"
  by (simp add: same_block_def)

text \<open>A genuine certificate stands for certified vote data, whether its signers cast votes or commit votes.\<close>

lemma certificate_certified:
  assumes "sound_net N" and "net_inv N \<sigma>" and "genuine_lis N \<sigma> lis"
    and "lis_verify_signatures (net_crypto N) lis (net_verifier N) = Ok ()"
  obtains vd where "vd \<in> universe N" and "certified N \<sigma> vd"
    and "vote_data_hash (net_crypto N) vd = consensus_data_hash (lis_ledger_info lis)"
    and "commit_info (lis_ledger_info lis) \<noteq> bi_empty \<Longrightarrow>
      bi_round (parent_of vd) + 1 = bi_round (proposed vd) \<and> same_block (parent_of vd) (commit_info (lis_ledger_info lis))"
proof -
  let ?Q = "set (signers N (lis_signatures lis))" and ?li = "lis_ledger_info lis"
  have Q: "quorum N ?Q" by (rule certificate_quorum [OF assms(1,4)])
  have signed: "?li \<in> signed_infos (\<sigma> a)" if "a \<in> ?Q" "a \<in> honest N" for a
    using assms(3,4) that by (simp add: genuine_lis_def)
  show thesis
  proof (cases "\<exists>a \<in> ?Q \<inter> honest N. ?li \<in> commits (\<sigma> a)")
    case True
    then have "commit_just N \<sigma> ?li" using assms(2) unfolding net_inv_def by blast
    with that show thesis unfolding commit_just_def by blast
  next
    case False
    have votes: "\<exists>v \<in> cast (\<sigma> a). vote_ledger_info v = ?li" if "a \<in> ?Q" "a \<in> honest N" for a
      using signed [OF that] False that by (auto simp: signed_infos_def)
    have shape: "vote_shape N v" if "a \<in> honest N" "v \<in> cast (\<sigma> a)" for a v
      using assms(2) that unfolding net_inv_def node_inv_def by blast
    obtain a where a: "a \<in> ?Q" "a \<in> honest N" using quorum_meet [OF assms(1) Q Q] .
    then obtain v where v: "v \<in> cast (\<sigma> a)" "vote_ledger_info v = ?li" using votes by blast
    note sv = shape [OF a(2) v(1)]
    have "\<exists>w \<in> cast (\<sigma> b). vote_vote_data w = vote_vote_data v" if b: "b \<in> ?Q \<inter> honest N" for b
    proof -
      obtain w where w: "w \<in> cast (\<sigma> b)" "vote_ledger_info w = ?li" using votes b by blast
      have sw: "vote_shape N w" using shape b w(1) by blast
      have "vote_vote_data w = vote_vote_data v"
        using assms(1) sv sw v(2) w(2) unfolding sound_net_def vote_shape_def by (metis inj_onD)
      with w(1) show ?thesis by blast
    qed
    with Q have cert: "certified N \<sigma> (vote_vote_data v)" unfolding certified_def by blast
    show thesis
    proof (rule that [OF _ cert])
      show "vote_vote_data v \<in> universe N"
        "vote_data_hash (net_crypto N) (vote_vote_data v) = consensus_data_hash ?li"
        using sv v(2) by (simp_all add: vote_shape_def)
      show "commit_info ?li \<noteq> bi_empty \<Longrightarrow> par_round v + 1 = vote_round v \<and> same_block (parent_of (vote_vote_data v)) (commit_info ?li)"
        using sv v(2) by (auto simp: vote_shape_def split: if_splits)
    qed
  qed
qed

subsection \<open>Why a vote is cast\<close>

lemma parent_certified:
  assumes "sound_net N" and "net_inv N \<sigma>" and "qc_verify (net_crypto N) qc (net_verifier N) = Ok ()"
    and "genuine_lis N \<sigma> (signed_ledger_info qc)" and "qc_vote_data qc \<in> universe N" and "bi_round (certified_block qc) \<noteq> 0"
  shows "certified N \<sigma> (qc_vote_data qc)"
proof -
  have lis: "lis_verify_signatures (net_crypto N) (signed_ledger_info qc) (net_verifier N) = Ok ()"
    and hash: "consensus_data_hash (qc_li qc) = vote_data_hash (net_crypto N) (qc_vote_data qc)"
    using assms(3,6) by (auto simp: qc_verify_def result_simps)
  obtain vd where vd: "vd \<in> universe N" "certified N \<sigma> vd" "vote_data_hash (net_crypto N) vd = consensus_data_hash (qc_li qc)"
    using certificate_certified [OF assms(1,2,4) lis] by blast
  then have "vd = qc_vote_data qc" using assms(1,5) hash unfolding sound_net_def by (metis inj_onD)
  with vd(2) show ?thesis by simp
qed

lemma max_round_ge:
  assumes "max_round rounds = Some m" and "r \<in> set rounds"
  shows "r \<le> m"
proof -
  from assms obtain x xs where "rounds = x # xs" "m = fold max xs x" by (auto simp: max_round_def split: list.splits)
  then have "m = Max (set rounds)" by (simp only: Max.set_eq_fold)
  with assms(2) show ?thesis by simp
qed

lemma tc_message:
  assumes "i < length (tc_messages tc verifier)"
  shows "tsr_epoch (tc_messages tc verifier ! i) = tc_epoch tc" and "tsr_round (tc_messages tc verifier ! i) = tc_round tc"
    and "tsr_hqc_round (tc_messages tc verifier ! i) \<in> set (asr_rounds (signatures_with_rounds tc))"
  using assms by (auto simp: tc_messages_def get_voters_and_rounds_def split: prod.splits dest!: nth_mem)

lemma tc_gives_quorum:
  assumes "sound_net N" and "tc_verify (net_crypto N) tc (net_verifier N) = Ok ()" and "genuine_tc N \<sigma> tc"
    and "tc_epoch tc = net_epoch N" and "r = tc_round tc + 1" and "tc_round tc < r" and "highest_hqc_round tc \<le> q"
  shows "tc_quorum N \<sigma> r q"
proof -
  let ?sig = "asr_sig (signatures_with_rounds tc)" and ?msgs = "tc_messages tc (net_verifier N)"
  have agg: "verify_aggregate_signatures (bls_verify_timeouts (net_crypto N)) (net_verifier N) ?msgs ?sig = Ok ()"
    and m: "max_round (asr_rounds (signatures_with_rounds tc)) = Some (highest_hqc_round tc)"
    using assms(2) by (auto simp: tc_verify_def result_simps)
  have Q: "quorum N (set (signers N ?sig))"
    using verify_aggregate_signatures_quorum(2,3) [OF agg] assms(1) by (simp add: quorum_def sound_net_def)
  have "\<exists>t \<in> timeouts (\<sigma> a). tsr_epoch t = net_epoch N \<and> tsr_round t + 1 = r \<and> tsr_round t < r \<and> tsr_hqc_round t \<le> q"
    if a: "a \<in> set (signers N ?sig) \<inter> honest N" for a
  proof -
    obtain i where i: "i < length (signers N ?sig)" "signers N ?sig ! i = a" using a by (metis IntD1 in_set_conv_nth)
    then have msg: "i < length ?msgs" "?msgs ! i \<in> timeouts (\<sigma> a)"
      using assms(3) agg a unfolding genuine_tc_def Let_def by auto
    note f = tc_message [OF msg(1)]
    have "tsr_hqc_round (?msgs ! i) \<le> q" using max_round_ge [OF m f(3)] assms(7) by simp
    with msg(2) f assms(4-6) show ?thesis by auto
  qed
  with Q show ?thesis unfolding tc_quorum_def by blast
qed

lemma safe_to_vote_cases:
  assumes "safe_to_vote b maybe_tc = Ok ()" and "bi_round (certified_block (block_qc b)) < block_round b"
  shows "block_round b = bi_round (certified_block (block_qc b)) + 1 \<or>
    (\<exists>tc. maybe_tc = Some tc \<and> block_round b = tc_round tc + 1 \<and> tc_round tc < block_round b \<and>
      highest_hqc_round tc \<le> bi_round (certified_block (block_qc b)))"
proof (cases maybe_tc)
  case None
  with assms(1) have "block_round b = bi_round (certified_block (block_qc b)) + 1 \<or> block_round b = 1"
    by (auto simp: safe_to_vote_def Let_def result_simps next_round_Ok split: if_splits)
  moreover have "bi_round (certified_block (block_qc b)) = 0" if "block_round b = 1"
    using assms(2) that by (simp add: word_less_nat_alt word_unat_eq_iff)
  ultimately show ?thesis by auto
next
  case (Some tc)
  with assms(1) consider "block_round b = bi_round (certified_block (block_qc b)) + 1"
    | "block_round b = tc_round tc + 1" "unat (tc_round tc) + 1 < 2 ^ 64" "highest_hqc_round tc \<le> bi_round (certified_block (block_qc b))"
    by (auto simp: safe_to_vote_def Let_def result_simps next_round_Ok split: if_splits)
  then show ?thesis
  proof cases
    case 2
    then have "tc_round tc < block_round b" by (simp add: word_less_nat_alt unat_add_if)
    with 2 Some show ?thesis by blast
  qed simp
qed

lemma vote_justified:
  assumes "sound_net N" and "net_inv N \<sigma>"
    and cast: "vote_cast (net_crypto N) now_usecs vp maybe_tc (net_verifier N) sd v sd'" and "sd_epoch sd = net_epoch N"
    and adm: "admissible N \<sigma> s (ConstructAndSignVoteTwoChain now_usecs vp maybe_tc) s'"
  shows "vote_just N \<sigma> v" and "vote_vote_data v \<in> universe N"
proof -
  note f = vote_cast_facts [OF cast]
  have ok: "proposal_ok (net_crypto N) now_usecs vp (net_verifier N) sd (vote_vote_data v)"
    using cast by (auto simp: vote_cast_def new_vote_def)
  have adm': "genuine_lis N \<sigma> (signed_ledger_info (block_qc (vp_block vp)))" "qc_vote_data (block_qc (vp_block vp)) \<in> universe N"
    "\<And>vd. gen_vote_data (net_crypto N) vp = Ok vd \<Longrightarrow> vd \<in> universe N"
    "\<And>tc. maybe_tc = Some tc \<Longrightarrow> genuine_tc N \<sigma> tc \<and> tc_epoch tc = block_epoch (vp_block vp)"
    using adm by (simp_all add: admissible_def)
  show "vote_vote_data v \<in> universe N" using adm'(3) ok by (simp add: proposal_ok_def)
  have parent: "par_round v = 0 \<or> (\<exists>vd. certified N \<sigma> vd \<and> proposed vd = parent_of (vote_vote_data v))"
  proof (cases "par_round v = 0")
    case False
    then have "certified N \<sigma> (qc_vote_data (block_qc (vp_block vp)))"
      using parent_certified [OF assms(1,2) f(12) adm'(1,2)] f(9) by simp
    with f(9) show ?thesis by metis
  qed simp
  have "vote_round v = par_round v + 1 \<or> tc_quorum N \<sigma> (vote_round v) (par_round v)"
  proof -
    have "bi_round (certified_block (block_qc (vp_block vp))) < block_round (vp_block vp)" using f(2,9,10) by simp
    from safe_to_vote_cases [OF f(14) this] show ?thesis
    proof (elim disjE exE conjE)
      fix tc assume tc: "maybe_tc = Some tc" "block_round (vp_block vp) = tc_round tc + 1" "tc_round tc < block_round (vp_block vp)"
        "highest_hqc_round tc \<le> bi_round (certified_block (block_qc (vp_block vp)))"
      have "tc_verify (net_crypto N) tc (net_verifier N) = Ok ()" using f(13) tc(1) by (simp add: tc_ok_def)
      moreover have "block_epoch (vp_block vp) = net_epoch N" using ok assms(4) by (simp add: proposal_ok_def)
      ultimately have "tc_quorum N \<sigma> (vote_round v) (par_round v)"
        using tc_gives_quorum [OF assms(1), of tc \<sigma> "vote_round v" "par_round v"] adm'(4) [OF tc(1)] tc f(2,9) by simp
      then show ?thesis ..
    qed (use f(2,9) in simp)
  qed
  with parent show "vote_just N \<sigma> v" by (simp add: vote_just_def)
qed

subsection \<open>Steps of one validator\<close>

text \<open>What one request does to the stored data, with the messages it adds.\<close>

inductive local_step :: "net \<Rightarrow> safety_rules \<Rightarrow> safety_rules_input \<Rightarrow> timeout_signing_repr set \<Rightarrow> safety_rules \<Rightarrow> bool" for N where
  quiet: "stored s' = stored s \<Longrightarrow> sr_epoch_state s' = sr_epoch_state s \<or>
      (\<exists>sd es. stored s = Some sd \<and> sr_epoch_state s' = Some es \<and> sd_epoch sd = es_epoch es \<and>
        (es_epoch es = net_epoch N \<longrightarrow> es_verifier es = net_verifier N)) \<Longrightarrow> local_step N s input {} s'"
| votes: "sr_epoch_state s = Some es \<Longrightarrow> sr_epoch_state s' = Some es \<Longrightarrow> stored s = Some sd \<Longrightarrow> stored s' = Some sd' \<Longrightarrow>
    vote_cast (net_crypto N) now_usecs vp maybe_tc (es_verifier es) sd v sd' \<Longrightarrow>
    local_step N s (ConstructAndSignVoteTwoChain now_usecs vp maybe_tc) {} s'"
| times_out: "sr_epoch_state s' = sr_epoch_state s \<Longrightarrow> stored s = Some sd \<Longrightarrow>
    stored s' = Some (sd\<lparr>last_voted_round := to_round timeout\<rparr>) \<Longrightarrow>
    timeout_ok (net_crypto N) timeout maybe_tc verifier sd \<Longrightarrow> T \<subseteq> {signing_format timeout} \<Longrightarrow>
    local_step N s (SignTimeoutWithQC timeout maybe_tc) T s'"
| enters: "stored s = Some sd \<Longrightarrow> sd_epoch sd < es_epoch es \<Longrightarrow> stored s' = Some (sd_new (es_epoch es) 0 0 0 None) \<Longrightarrow>
    sr_epoch_state s' = Some es \<Longrightarrow> (es_epoch es = net_epoch N \<longrightarrow> es_verifier es = net_verifier N) \<Longrightarrow>
    local_step N s input {} s'"

lemma local_vote:
  assumes "vote_outcome (net_crypto N) now_usecs vp maybe_tc s r s'"
  shows "local_step N s (ConstructAndSignVoteTwoChain now_usecs vp maybe_tc) {} s'"
  using assms unfolding vote_outcome_def kept_def
  by (metis local_step.quiet local_step.votes)

lemma local_timeout:
  assumes "timeout_outcome (net_crypto N) timeout maybe_tc s r s'" and "T = (if is_ok r then {signing_format timeout} else {})"
  shows "local_step N s (SignTimeoutWithQC timeout maybe_tc) T s'"
  using assms unfolding timeout_outcome_def kept_def
  by (auto intro: local_step.quiet local_step.times_out)

lemma local_init:
  assumes "init_outcome (net_crypto N) ecp s s'" and "admissible N \<sigma> s (Initialize ecp) s'"
  shows "local_step N s (Initialize ecp) {} s'"
proof -
  have lost: "\<not> may_lose_reply (persistent_storage s)"
    and own: "\<And>es. sr_epoch_state s' = Some es \<Longrightarrow> es_epoch es = net_epoch N \<Longrightarrow> es_verifier es = net_verifier N"
    using assms(2) by (simp_all add: admissible_def)
  consider "stored s' = stored s" "sr_epoch_state s' = sr_epoch_state s" | es where "epoch_entered s es s'"
    using assms(1) unfolding init_outcome_def by blast
  then show ?thesis
  proof cases
    case 1
    then show ?thesis by (auto intro: local_step.quiet)
  next
    case 2
    then show ?thesis
      using lost own [of es] unfolding epoch_entered_def epoch_reset_def
      by (auto intro: local_step.quiet local_step.enters)
  qed
qed

lemma handle_local:
  assumes "handle_message (net_crypto N) input s = (out, s')" and "sr_coherent s" and "admissible N \<sigma> s input s'"
  shows "local_step N s input (new_timeouts input out) s'"
proof (cases input)
  case (ConsensusState trace_enabled)
  obtain r where "guarded_consensus_state trace_enabled s = (r, s')" "new_timeouts input out = {}"
    using assms(1) ConsensusState by (cases "guarded_consensus_state trace_enabled s") (auto simp: handle_message_def new_timeouts_def)
  with readingD [OF reading_consensus_state assms(2)] show ?thesis by (auto intro!: local_step.quiet simp: sr_same_fields)
next
  case (Initialize ecp)
  obtain r where "guarded_initialize (net_crypto N) ecp s = (r, s')" "new_timeouts input out = {}"
    using assms(1) Initialize by (cases "guarded_initialize (net_crypto N) ecp s") (auto simp: handle_message_def new_timeouts_def)
  with local_init [OF init_op [OF _ assms(2)]] assms(3) Initialize show ?thesis by metis
next
  case (SignProposal bd)
  obtain r where "guarded_sign_proposal (net_crypto N) bd s = (r, s')" "new_timeouts input out = {}"
    using assms(1) SignProposal by (cases "guarded_sign_proposal (net_crypto N) bd s") (auto simp: handle_message_def new_timeouts_def)
  with readingD [OF reading_sign_proposal [of "net_crypto N"] assms(2)] show ?thesis by (auto intro!: local_step.quiet simp: sr_same_fields)
next
  case (SignTimeoutWithQC timeout maybe_tc)
  obtain r where r: "guarded_sign_timeout_with_qc (net_crypto N) timeout maybe_tc s = (r, s')" "out = TimeoutOut r"
    using assms(1) SignTimeoutWithQC
    by (cases "guarded_sign_timeout_with_qc (net_crypto N) timeout maybe_tc s") (auto simp: handle_message_def)
  then have "new_timeouts input out = (if is_ok r then {signing_format timeout} else {})"
    using SignTimeoutWithQC by (cases r) (simp_all add: new_timeouts_def)
  with local_timeout [OF timeout_op [OF r(1) assms(2)]] SignTimeoutWithQC show ?thesis by simp
next
  case (ConstructAndSignVoteTwoChain now_usecs vp maybe_tc)
  obtain r where "guarded_construct_and_sign_vote_two_chain (net_crypto N) now_usecs vp maybe_tc s = (r, s')" "new_timeouts input out = {}"
    using assms(1) ConstructAndSignVoteTwoChain
    by (cases "guarded_construct_and_sign_vote_two_chain (net_crypto N) now_usecs vp maybe_tc s")
      (auto simp: handle_message_def new_timeouts_def)
  with local_vote [OF vote_op [OF _ assms(2)]] ConstructAndSignVoteTwoChain show ?thesis by metis
next
  case (SignCommitVote lis new_li)
  obtain r where "guarded_sign_commit_vote (net_crypto N) lis new_li s = (r, s')" "new_timeouts input out = {}"
    using assms(1) SignCommitVote
    by (cases "guarded_sign_commit_vote (net_crypto N) lis new_li s") (auto simp: handle_message_def new_timeouts_def)
  with readingD [OF reading_sign_commit_vote [of "net_crypto N"] assms(2)] show ?thesis by (auto intro!: local_step.quiet simp: sr_same_fields)
qed

subsection \<open>The invariant of a validator\<close>

lemma vote_shape_of:
  assumes "sd_wf C sd'" and "last_vote sd' = Some v" and "C = net_crypto N" and "vote_vote_data v \<in> universe N"
  shows "vote_shape N v"
  using assms by (simp add: sd_wf_def vote_wf_def vote_shape_def)

lemma past_step: "sd_le sd sd' \<Longrightarrow> past N sd r \<Longrightarrow> past N sd' r"
  by (auto simp: sd_le_def past_def)

lemma vote_past_step: "sd_le sd sd' \<Longrightarrow> vote_past N (Some sd) v \<Longrightarrow> vote_past N (Some sd') v"
  by (auto simp: vote_past_def past_def sd_le_def)

lemma timeout_past_step: "sd_le sd sd' \<Longrightarrow> timeout_past N (Some sd) t \<Longrightarrow> timeout_past N (Some sd') t"
  by (auto simp: timeout_past_def dest: past_step)

lemma node_inv_quiet:
  assumes "node_inv N n" and "stored s' = stored (rules n)" and "sr_wf (net_crypto N) s'"
    and "sr_epoch_state s' = sr_epoch_state (rules n) \<or>
      (\<exists>sd es. stored (rules n) = Some sd \<and> sr_epoch_state s' = Some es \<and> sd_epoch sd = es_epoch es \<and>
        (es_epoch es = net_epoch N \<longrightarrow> es_verifier es = net_verifier N))"
  shows "node_inv N (n\<lparr>rules := s'\<rparr>)"
proof -
  have "own_verifier N s'" using assms(1,2,4) by (auto simp: node_inv_def own_verifier_def)
  with assms(1-3) show ?thesis by (simp add: node_inv_def)
qed

lemma node_inv_commits: "node_inv N (n\<lparr>commits := K\<rparr>) \<longleftrightarrow> node_inv N n"
  by (simp add: node_inv_def)

lemma node_inv_enters:
  assumes "node_inv N n" and "stored (rules n) = Some sd" and "sd_epoch sd < es_epoch es"
    and "stored s' = Some (sd_new (es_epoch es) 0 0 0 None)" and "sr_epoch_state s' = Some es" and "sr_wf (net_crypto N) s'"
    and "es_epoch es = net_epoch N \<longrightarrow> es_verifier es = net_verifier N"
  shows "node_inv N (n\<lparr>rules := s'\<rparr>)"
proof -
  have le: "sd_le sd (sd_new (es_epoch es) 0 0 0 None)" using assms(3) by (simp add: sd_le_def sd_new_def)
  have "own_verifier N s'" using assms(4,5,7) by (simp add: own_verifier_def sd_new_def)
  with assms(1,2,4,6) vote_past_step [OF le] timeout_past_step [OF le] show ?thesis
    by (simp add: node_inv_def last_recorded_def) (simp add: sd_new_def)
qed

lemma node_inv_times_out:
  assumes "node_inv N n" and "stored (rules n) = Some sd" and "stored s' = Some (sd\<lparr>last_voted_round := to_round timeout\<rparr>)"
    and "sr_epoch_state s' = sr_epoch_state (rules n)" and "sr_wf (net_crypto N) s'"
    and "timeout_ok C timeout maybe_tc verifier sd" and "T \<subseteq> {signing_format timeout}"
  shows "node_inv N (n\<lparr>rules := s', timeouts := timeouts n \<union> T\<rparr>)"
proof -
  let ?sd = "sd\<lparr>last_voted_round := to_round timeout\<rparr>" and ?t = "signing_format timeout"
  have le: "sd_le sd ?sd" using assms(6) by (simp add: sd_le_def timeout_ok_def)
  have t: "tsr_epoch ?t = sd_epoch sd" "tsr_round ?t = to_round timeout" "one_chain_round sd \<le> tsr_hqc_round ?t"
    using assms(6)
    by (auto simp: signing_format_def timeout_ok_def safe_to_timeout_def Let_def result_simps split: if_splits)
  have new: "timeout_past N (Some ?sd) ?t" using t by (simp add: timeout_past_def past_def)
  have reports: "timeout_reports N ?t v" if "v \<in> cast n" for v
  proof -
    have "vote_past N (Some sd) v" using assms(1,2) that by (simp add: node_inv_def)
    with t show ?thesis by (auto simp: vote_past_def timeout_reports_def)
  qed
  have "own_verifier N s'" using assms(1-4) by (simp add: node_inv_def own_verifier_def)
  moreover have "\<forall>t \<in> timeouts n \<union> T. timeout_past N (stored s') t"
    using assms(1-3,7) new timeout_past_step [OF le] by (auto simp: node_inv_def)
  moreover have "\<forall>t \<in> timeouts n \<union> T. \<forall>v \<in> cast n. timeout_reports N t v"
    using assms(1,7) reports by (auto simp: node_inv_def)
  moreover have "last_recorded N (stored s') (cast n)" using assms(1-3) by (simp add: node_inv_def last_recorded_def)
  ultimately show ?thesis using assms(1-3,5) vote_past_step [OF le] by (simp add: node_inv_def)
qed

lemma node_inv_votes:
  assumes "node_inv N n" and "stored (rules n) = Some sd" and "stored s' = Some sd'"
    and "sr_epoch_state s' = sr_epoch_state (rules n)" and "sr_wf (net_crypto N) s'"
    and cast: "vote_cast (net_crypto N) now_usecs vp maybe_tc verifier sd v sd'" and "vote_vote_data v \<in> universe N"
  shows "node_inv N (n\<lparr>rules := s', cast := insert v (cast n)\<rparr>)"
proof -
  note f = vote_cast_facts [OF cast]
  have wf': "sd_wf (net_crypto N) sd'" using assms(3,5) by (simp add: sr_wf_def)
  have shape: "vote_shape N v" by (rule vote_shape_of [OF wf' f(4) refl assms(7)])
  have le: "sd_le sd sd'" using f by (simp add: sd_le_def)
  have new: "vote_past N (Some sd') v" using f by (simp add: vote_past_def past_def)
  have old: "vote_round w < vote_round v"
    if "w \<in> cast n" "vote_epoch w = net_epoch N" "vote_epoch v = net_epoch N" for w
  proof -
    have "vote_past N (Some sd) w" using assms(1,2) that(1) by (simp add: node_inv_def)
    with that f(1,3) show ?thesis by (auto simp: vote_past_def past_def)
  qed
  have reports: "timeout_reports N t v" if "t \<in> timeouts n" for t
  proof -
    have "timeout_past N (Some sd) t" using assms(1,2) that by (simp add: node_inv_def)
    with f(1,3) show ?thesis by (auto simp: timeout_past_def past_def timeout_reports_def)
  qed
  have "votes_unique N (insert v (cast n))"
    unfolding votes_unique_def
  proof (intro ballI impI, elim conjE)
    fix x y assume xy: "x \<in> insert v (cast n)" "y \<in> insert v (cast n)" "vote_epoch x = net_epoch N" "vote_epoch y = net_epoch N"
      "vote_round x = vote_round y"
    have "votes_unique N (cast n)" using assms(1) by (simp add: node_inv_def)
    then have "x \<in> cast n \<Longrightarrow> y \<in> cast n \<Longrightarrow> x = y" using xy(3-5) unfolding votes_unique_def by blast
    with xy old [of x] old [of y] show "x = y" by auto
  qed
  moreover have "own_verifier N s'" using assms(1-4) f(5) by (simp add: node_inv_def own_verifier_def)
  moreover have "\<forall>w \<in> insert v (cast n). vote_past N (stored s') w"
    using assms(1-3) new vote_past_step [OF le] by (simp add: node_inv_def)
  moreover have "last_recorded N (stored s') (insert v (cast n))" using assms(3) f(4) by (simp add: last_recorded_def)
  ultimately show ?thesis
    using assms(1-3,5) shape reports timeout_past_step [OF le] by (simp add: node_inv_def)
qed

subsection \<open>The invariant holds in every reachable configuration\<close>

lemma commit_justified:
  assumes "sound_net N" and "net_inv N \<sigma>" and "guarded_sign_commit_vote (net_crypto N) lis new_li s = (Ok sig, s')"
    and adm: "admissible N \<sigma> s (SignCommitVote lis new_li) s'"
  shows "commit_just N \<sigma> new_li"
proof -
  from adm have g: "genuine_lis N \<sigma> lis" "consensus_data_hash new_li = consensus_data_hash (lis_ledger_info lis)"
    "\<And>es. sr_epoch_state s = Some es \<Longrightarrow> es_verifier es = net_verifier N"
    by (simp_all add: admissible_def)
  from assms(3) obtain es where ordered: "is_ordered_only (commit_info (lis_ledger_info lis))"
    and same: "match_ordered_only (commit_info (lis_ledger_info lis)) (commit_info new_li)"
    and es: "epoch_state_of s = Ok es" and lis: "lis_verify_signatures (net_crypto N) lis (es_verifier es) = Ok ()"
    by (auto simp: guarded_sign_commit_vote_def Let_def op_simps result_simps)
  have "es_verifier es = net_verifier N" using es g(3) by (cases "sr_epoch_state s") (auto simp: epoch_state_of_def)
  with lis have "lis_verify_signatures (net_crypto N) lis (net_verifier N) = Ok ()" by simp
  then obtain vd where vd: "vd \<in> universe N" "certified N \<sigma> vd"
      "vote_data_hash (net_crypto N) vd = consensus_data_hash (lis_ledger_info lis)"
    and com: "commit_info (lis_ledger_info lis) \<noteq> bi_empty \<Longrightarrow>
      bi_round (parent_of vd) + 1 = bi_round (proposed vd) \<and> same_block (parent_of vd) (commit_info (lis_ledger_info lis))"
    using certificate_certified [OF assms(1,2) g(1)] by blast
  have "same_block (commit_info (lis_ledger_info lis)) (commit_info new_li)"
    using same by (simp add: match_ordered_only_def same_block_def)
  moreover have "commit_info (lis_ledger_info lis) \<noteq> bi_empty" using ordered by (simp add: is_ordered_only_def)
  ultimately show ?thesis using vd com g(2) same_block_trans unfolding commit_just_def by metis
qed

lemma new_commits_justified:
  assumes "sound_net N" and "net_inv N \<sigma>" and "handle_message (net_crypto N) input s = (out, s')"
    and "admissible N \<sigma> s input s'" and "li \<in> new_commits input out"
  shows "commit_just N \<sigma> li"
proof -
  obtain lis sig where "input = SignCommitVote lis li" "out = CommitOut (Ok sig)"
    using assms(5) by (auto simp: new_commits_def split: safety_rules_input.splits safety_rules_output.splits result.splits)
  with assms(3,4) commit_justified [OF assms(1,2), of lis li s sig s'] show ?thesis
    by (cases "guarded_sign_commit_vote (net_crypto N) lis li s") (simp add: handle_message_def)
qed

lemma net_inv_step:
  assumes "net_inv N \<sigma>" and "a \<in> honest N" and "node_inv N n" and "grows \<sigma> (\<sigma>(a := n))"
    and "\<And>v. v \<in> cast n \<Longrightarrow> v \<notin> cast (\<sigma> a) \<Longrightarrow> vote_epoch v = net_epoch N \<Longrightarrow> vote_just N \<sigma> v"
    and "\<And>li. li \<in> commits n \<Longrightarrow> li \<notin> commits (\<sigma> a) \<Longrightarrow> commit_just N \<sigma> li"
  shows "net_inv N (\<sigma>(a := n))"
proof -
  have "vote_just N \<sigma> v" if "v \<in> cast ((\<sigma>(a := n)) b)" "b \<in> honest N" "vote_epoch v = net_epoch N" for v b
    using that assms(1,2,5) unfolding net_inv_def by (cases "b = a"; cases "v \<in> cast (\<sigma> a)") auto
  moreover have "commit_just N \<sigma> li" if "li \<in> commits ((\<sigma>(a := n)) b)" "b \<in> honest N" for li b
    using that assms(1,2,6) unfolding net_inv_def by (cases "b = a"; cases "li \<in> commits (\<sigma> a)") auto
  moreover have "node_inv N ((\<sigma>(a := n)) b)" if "b \<in> honest N" for b
    using that assms(1,3) unfolding net_inv_def by auto
  ultimately show ?thesis
    using vote_just_mono [OF _ assms(4)] commit_just_mono [OF _ assms(4)] unfolding net_inv_def by blast
qed

lemma no_new_votes:
  "stored s' = stored s \<Longrightarrow> new_votes s s' = {}"
  "stored s' = Some (sd_new e 0 0 0 None) \<Longrightarrow> new_votes s s' = {}"
  "stored s = Some sd \<Longrightarrow> stored s' = Some (sd\<lparr>last_voted_round := r\<rparr>) \<Longrightarrow> new_votes s s' = {}"
  by (auto simp: new_votes_def sd_new_def)

lemma one_new_vote:
  assumes "vote_cast C now_usecs vp maybe_tc verifier sd v sd'" and "sd_wf C sd" and "stored s = Some sd" and "stored s' = Some sd'"
  shows "new_votes s s' = {v}"
proof -
  note f = vote_cast_facts [OF assms(1)]
  have "last_vote sd \<noteq> Some v" using assms(2) f(3) by (auto simp: sd_wf_def vote_wf_def)
  with f(4) assms(3,4) show ?thesis by (auto simp: new_votes_def)
qed

lemma serve_node:
  assumes "sound_net N" and "net_inv N \<sigma>" and "a \<in> honest N"
    and h: "handle_message (net_crypto N) input (rules (\<sigma> a)) = (out, s')" and adm: "admissible N \<sigma> (rules (\<sigma> a)) input s'"
  shows "node_inv N ((\<sigma> a)\<lparr>rules := s', cast := cast (\<sigma> a) \<union> new_votes (rules (\<sigma> a)) s', timeouts := timeouts (\<sigma> a) \<union> new_timeouts input out\<rparr>)
    \<and> (\<forall>v \<in> new_votes (rules (\<sigma> a)) s'. vote_epoch v = net_epoch N \<longrightarrow> vote_just N \<sigma> v)"
proof -
  let ?s = "rules (\<sigma> a)"
  have inv: "node_inv N (\<sigma> a)" using assms(2,3) by (simp add: net_inv_def)
  then have wf: "sr_wf (net_crypto N) ?s" by (simp add: node_inv_def)
  then have coh: "sr_coherent ?s" by (simp add: sr_wf_def)
  have wf': "sr_wf (net_crypto N) s'" using refines_wf [OF handle_refines [OF h coh] wf] .
  from handle_local [OF h coh adm] show ?thesis
  proof (cases rule: local_step.cases)
    case quiet
    then show ?thesis using node_inv_quiet [OF inv quiet(2) wf' quiet(3)] no_new_votes(1) [OF quiet(2)] by simp
  next
    case (votes es sd sd' now_usecs vp maybe_tc v)
    have sdwf: "sd_wf (net_crypto N) sd" using wf votes(5) by (simp add: sr_wf_def)
    have new: "new_votes ?s s' = {v}" by (rule one_new_vote [OF votes(7) sdwf votes(5,6)])
    have univ: "vote_vote_data v \<in> universe N"
      using adm votes(1,7) by (auto simp: admissible_def vote_cast_def new_vote_def proposal_ok_def)
    have "vote_just N \<sigma> v" if "vote_epoch v = net_epoch N"
    proof -
      have ep: "sd_epoch sd = net_epoch N" using that vote_cast_facts(1) [OF votes(7)] by simp
      have "es_verifier es = net_verifier N"
        using inv votes(3,5) ep by (simp add: node_inv_def own_verifier_def)
      with vote_justified(1) [OF assms(1,2) _ ep] votes(1,7) adm show ?thesis by simp
    qed
    moreover have "node_inv N ((\<sigma> a)\<lparr>rules := s', cast := insert v (cast (\<sigma> a))\<rparr>)"
      using node_inv_votes [OF inv votes(5,6) _ wf' votes(7) univ] votes(3,4) by simp
    ultimately show ?thesis using new votes(2) by simp
  next
    case (times_out sd timeout maybe_tc verifier)
    note none = no_new_votes(3) [OF times_out(3,4)]
    show ?thesis using node_inv_times_out [OF inv times_out(3,4,2) wf' times_out(5,6)] none by simp
  next
    case (enters sd es)
    note none = no_new_votes(2) [OF enters(4)]
    show ?thesis using node_inv_enters [OF inv enters(2-5) wf' enters(6)] none enters(1) by simp
  qed
qed

lemma serve_inv:
  assumes "sound_net N" and "net_inv N \<sigma>" and "a \<in> honest N"
    and h: "handle_message (net_crypto N) input (rules (\<sigma> a)) = (out, s')" and adm: "admissible N \<sigma> (rules (\<sigma> a)) input s'"
  shows "net_inv N (\<sigma>(a := \<lparr>rules = s', cast = cast (\<sigma> a) \<union> new_votes (rules (\<sigma> a)) s',
      timeouts = timeouts (\<sigma> a) \<union> new_timeouts input out, commits = commits (\<sigma> a) \<union> new_commits input out\<rparr>))"
proof -
  let ?n = "(\<sigma> a)\<lparr>rules := s', cast := cast (\<sigma> a) \<union> new_votes (rules (\<sigma> a)) s', timeouts := timeouts (\<sigma> a) \<union> new_timeouts input out\<rparr>"
  let ?m = "\<lparr>rules = s', cast = cast (\<sigma> a) \<union> new_votes (rules (\<sigma> a)) s',
      timeouts = timeouts (\<sigma> a) \<union> new_timeouts input out, commits = commits (\<sigma> a) \<union> new_commits input out\<rparr>"
  note step = serve_node [OF assms]
  have "?m = ?n\<lparr>commits := commits (\<sigma> a) \<union> new_commits input out\<rparr>" by simp
  then have node: "node_inv N ?m" using step node_inv_commits by metis
  show ?thesis
  proof (rule net_inv_step [OF assms(2,3) node])
    show "grows \<sigma> (\<sigma>(a := ?m))" by (auto simp: grows_def)
  next
    fix v assume "v \<in> cast ?m" "v \<notin> cast (\<sigma> a)" "vote_epoch v = net_epoch N"
    then show "vote_just N \<sigma> v" using step by simp
  next
    fix li assume "li \<in> commits ?m" "li \<notin> commits (\<sigma> a)"
    then show "commit_just N \<sigma> li" using new_commits_justified [OF assms(1,2) h adm, of li] by simp
  qed
qed

lemma silent_inv:
  assumes "net_inv N \<sigma>" and "a \<in> honest N" and "refines_step (net_crypto N) (rules (\<sigma> a)) s'"
    and "stored s' = stored (rules (\<sigma> a))" and "sr_epoch_state s' \<in> {None, sr_epoch_state (rules (\<sigma> a))}"
  shows "net_inv N (\<sigma>(a := (\<sigma> a)\<lparr>rules := s'\<rparr>))"
proof (rule net_inv_step [OF assms(1,2)])
  have inv: "node_inv N (\<sigma> a)" using assms(1,2) by (simp add: net_inv_def)
  then have "sr_wf (net_crypto N) s'" using refines_wf [OF assms(3)] by (simp add: node_inv_def)
  moreover have "own_verifier N s'" using inv assms(4,5) by (auto simp: node_inv_def own_verifier_def)
  ultimately show "node_inv N ((\<sigma> a)\<lparr>rules := s'\<rparr>)" using inv assms(4) by (simp add: node_inv_def)
  show "grows \<sigma> (\<sigma>(a := (\<sigma> a)\<lparr>rules := s'\<rparr>))" by (simp add: grows_def)
qed simp_all

lemma restart_fields:
  assumes "keeps_storage cfg s"
  shows "stored (sr_restart cfg s) = stored s" and "sr_epoch_state (sr_restart cfg s) = None"
proof -
  obtain ps where "sr_restart cfg s = sr_new ps"
    "same_store (ps_new (internal_store (persistent_storage s)) (cfg_enable_cached_safety_data cfg)) ps"
    using restart_kept [OF assms] .
  then show "stored (sr_restart cfg s) = stored s" "sr_epoch_state (sr_restart cfg s) = None"
    by (simp_all add: sr_new_def same_store_def ps_new_def)
qed

lemma reachable_inv:
  assumes "sound_net N" and "reachable N \<sigma>"
  shows "net_inv N \<sigma>"
  using assms(2)
proof induction
  case (start \<sigma>)
  then show ?case
    by (auto simp: net_inv_def initial_def node_inv_def own_verifier_def votes_unique_def last_recorded_def)
next
  case (serve \<sigma> a input out s')
  then show ?case using serve_inv [OF assms(1)] by blast
next
  case (restart \<sigma> a cfg)
  show ?case
    by (rule silent_inv [OF restart(4,2) restart_refines [OF restart(3)] restart_fields(1) [OF restart(3)]])
      (simp add: restart_fields(2) [OF restart(3)])
next
  case (storage \<sigma> a answers)
  have "sr_coherent (rules (\<sigma> a))" using storage by (simp add: net_inv_def node_inv_def sr_wf_def)
  then have "refines_step (net_crypto N) (rules (\<sigma> a)) (set_answers answers (rules (\<sigma> a)))"
    by (simp add: refines_step_def set_answers_def sr_coherent_def ps_coherent_def)
  then show ?case by (rule silent_inv [OF storage(3,2)]) (simp_all add: set_answers_def)
qed

section \<open>Agreement\<close>

text \<open>Every vote is for a child of a certified block or of a block of round 0.\<close>

lemma certified_facts:
  assumes "sound_net N" and "net_inv N \<sigma>" and "certified N \<sigma> vd" and "bi_epoch (proposed vd) = net_epoch N"
  shows "bi_epoch (parent_of vd) = net_epoch N" and "bi_round (parent_of vd) < bi_round (proposed vd)"
    and "bi_round (parent_of vd) = 0 \<or> (\<exists>vd'. certified N \<sigma> vd' \<and> proposed vd' = parent_of vd)"
    and "bi_round (proposed vd) = bi_round (parent_of vd) + 1 \<or> tc_quorum N \<sigma> (bi_round (proposed vd)) (bi_round (parent_of vd))"
proof -
  obtain a v where v: "a \<in> honest N" "v \<in> cast (\<sigma> a)" "vote_vote_data v = vd" using certified_voter [OF assms(1,3)] .
  have "vote_shape N v" "vote_just N \<sigma> v"
    using assms(2,4) v unfolding net_inv_def node_inv_def by auto
  with v(3) assms(4) show "bi_epoch (parent_of vd) = net_epoch N" "bi_round (parent_of vd) < bi_round (proposed vd)"
    "bi_round (parent_of vd) = 0 \<or> (\<exists>vd'. certified N \<sigma> vd' \<and> proposed vd' = parent_of vd)"
    "bi_round (proposed vd) = bi_round (parent_of vd) + 1 \<or> tc_quorum N \<sigma> (bi_round (proposed vd)) (bi_round (parent_of vd))"
    by (auto simp: vote_shape_def vote_just_def)
qed

lemma below_successor: "p < p + 1 \<Longrightarrow> x < p + 1 \<Longrightarrow> x \<le> p" for p x :: "'a::len word"
  by (metis inc_le leD not_le_imp_less order_le_less_trans)

text \<open>
  The heart of two-chain safety: if the children of a certified block are certified in the next round, later certified
  blocks have a parent of at least its round.
\<close>

lemma parent_not_below:
  assumes "sound_net N" and "net_inv N \<sigma>" and vd1: "certified N \<sigma> vd1" "bi_epoch (proposed vd1) = net_epoch N"
    and vd: "certified N \<sigma> vd" "bi_epoch (proposed vd) = net_epoch N" and later: "bi_round (proposed vd1) < bi_round (proposed vd)"
  shows "bi_round (parent_of vd1) \<le> bi_round (parent_of vd)"
  using certified_facts(4) [OF assms(1,2) vd]
proof
  assume "bi_round (proposed vd) = bi_round (parent_of vd) + 1"
  with later certified_facts(2) [OF assms(1,2) vd] have "bi_round (proposed vd1) \<le> bi_round (parent_of vd)"
    by (metis below_successor)
  with certified_facts(2) [OF assms(1,2) vd1] show ?thesis by simp
next
  assume "tc_quorum N \<sigma> (bi_round (proposed vd)) (bi_round (parent_of vd))"
  then obtain Q where Q: "quorum N Q" "\<forall>a \<in> Q \<inter> honest N. \<exists>t \<in> timeouts (\<sigma> a). tsr_epoch t = net_epoch N \<and>
      tsr_round t + 1 = bi_round (proposed vd) \<and> tsr_round t < bi_round (proposed vd) \<and> tsr_hqc_round t \<le> bi_round (parent_of vd)"
    unfolding tc_quorum_def by blast
  obtain Q1 where Q1: "quorum N Q1" "\<forall>a \<in> Q1 \<inter> honest N. \<exists>v \<in> cast (\<sigma> a). vote_vote_data v = vd1"
    using vd1(1) unfolding certified_def by blast
  obtain a where a: "a \<in> Q" "a \<in> Q1" "a \<in> honest N" using quorum_meet [OF assms(1) Q(1) Q1(1)] .
  with Q(2) obtain t where t: "t \<in> timeouts (\<sigma> a)" "tsr_epoch t = net_epoch N" "tsr_round t + 1 = bi_round (proposed vd)"
    "tsr_round t < bi_round (proposed vd)" "tsr_hqc_round t \<le> bi_round (parent_of vd)" by blast
  from a Q1(2) obtain v where v: "v \<in> cast (\<sigma> a)" "vote_vote_data v = vd1" by blast
  have "timeout_reports N t v" using assms(2) a(3) t(1) v(1) unfolding net_inv_def node_inv_def by blast
  moreover have "vote_round v \<le> tsr_round t" using later t(3,4) v(2) by (metis below_successor)
  ultimately have "bi_round (parent_of vd1) \<le> tsr_hqc_round t" using t(2) v(2) vd1(2) by (simp add: timeout_reports_def)
  with t(5) show ?thesis by simp
qed

lemma committed_child:
  assumes "sound_net N" and "net_inv N \<sigma>" and "committed N \<sigma> b"
  obtains vd1 where "certified N \<sigma> vd1" and "bi_epoch (proposed vd1) = net_epoch N"
    and "bi_round (parent_of vd1) + 1 = bi_round (proposed vd1)" and "same_block (parent_of vd1) b"
proof -
  from assms(3) obtain lis where b: "bi_epoch b = net_epoch N" "0 < bi_round b"
    and lis: "lis_verify_signatures (net_crypto N) lis (net_verifier N) = Ok ()" "genuine_lis N \<sigma> lis"
      "commit_info (lis_ledger_info lis) = b"
    unfolding committed_def by blast
  have "b \<noteq> bi_empty" using b(2) by (auto simp: bi_empty_def bi_new_def)
  with certificate_certified [OF assms(1,2) lis(2,1)] lis(3) obtain vd1 where vd1: "certified N \<sigma> vd1"
    "bi_round (parent_of vd1) + 1 = bi_round (proposed vd1)" "same_block (parent_of vd1) b" by metis
  obtain a v where v: "a \<in> honest N" "v \<in> cast (\<sigma> a)" "vote_vote_data v = vd1" using certified_voter [OF assms(1) vd1(1)] .
  have "vote_shape N v" using assms(2) v unfolding net_inv_def node_inv_def by blast
  then have "bi_epoch (proposed vd1) = net_epoch N"
    using v(3) vd1(3) b(1) by (simp add: vote_shape_def same_block_def)
  with vd1 that show thesis by blast
qed

lemma ancestor_same: "ancestor cert b b' \<Longrightarrow> same_block a b \<Longrightarrow> ancestor cert a b'"
  by (induction rule: ancestor.induct) (auto intro: ancestor.intros same_block_trans)

lemma ancestor_same_right: "ancestor cert b b' \<Longrightarrow> same_block b' c \<Longrightarrow> ancestor cert b c"
  by (erule ancestor.cases) (auto intro: ancestor.intros same_block_trans)

lemma same_block_sym: "same_block a b \<Longrightarrow> same_block b a"
  by (simp add: same_block_def)

lemma committed_is_ancestor:
  assumes "sound_net N" and "net_inv N \<sigma>"
    and vd1: "certified N \<sigma> vd1" "bi_epoch (proposed vd1) = net_epoch N"
      "bi_round (parent_of vd1) + 1 = bi_round (proposed vd1)" "0 < bi_round (parent_of vd1)"
    and "certified N \<sigma> vd" and "bi_epoch (proposed vd) = net_epoch N"
    and "bi_round (parent_of vd1) \<le> bi_round (proposed vd)"
  shows "ancestor (certified N \<sigma>) (parent_of vd1) (proposed vd)"
  using assms(7-9)
proof (induction "unat (bi_round (proposed vd))" arbitrary: vd rule: less_induct)
  case less
  let ?r = "bi_round (parent_of vd1)" and ?k = "bi_round (proposed vd)"
  note c1 = certified_facts [OF assms(1,2) vd1(1,2)] and c = certified_facts [OF assms(1,2) less.prems(1,2)]
  show ?case
  proof (cases "?k = ?r")
    case True
    from c1(3) vd1(4) obtain vd0 where vd0: "certified N \<sigma> vd0" "proposed vd0 = parent_of vd1" by auto
    have "vd0 = vd"
      by (rule certified_unique [OF assms(1,2) vd0(1) less.prems(1)]) (use vd0(2) c1(1) less.prems(2) True in simp_all)
    then show ?thesis using vd0(2) by (simp add: ancestor.itself)
  next
    case False
    have qr: "?r \<le> bi_round (parent_of vd)"
    proof (cases "?k = bi_round (proposed vd1)")
      case True
      then have "vd1 = vd" by (intro certified_unique [OF assms(1,2) vd1(1) less.prems(1) vd1(2) less.prems(2)]) simp
      then show ?thesis by simp
    next
      case k: False
      have "?r < ?k" using False less.prems(3) by simp
      then have "bi_round (proposed vd1) < ?k" using k vd1(3) inc_le [of ?r ?k] by simp
      from parent_not_below [OF assms(1,2) vd1(1,2) less.prems(1,2) this] show ?thesis .
    qed
    with vd1(4) c(3) obtain vd' where vd': "certified N \<sigma> vd'" "proposed vd' = parent_of vd" by auto
    have "ancestor (certified N \<sigma>) (parent_of vd1) (proposed vd')"
      by (rule less.hyps) (use vd' c(1,2) qr in \<open>simp_all add: word_less_nat_alt\<close>)
    with vd'(2) less.prems(1) show ?thesis by (auto intro: ancestor.extends)
  qed
qed

text \<open>
  \<^bold>\<open>C1.\<close> Agreement: the committed blocks of an epoch form one chain. Whatever less than a third of the voting power does,
  in whatever order requests reach the honest validators, whichever of their storage calls fail, and however often they
  restart, of two blocks that are committed in an epoch the one of the lower round is an ancestor of the other, and two
  blocks committed in the same round are the same block. Two things are excluded: a restart that initialises the
  storage again over what was voted (a failed read of the owner account does that under an initial configuration), and
  a lost reply to the write with which \<open>initialize\<close> enters an epoch.
\<close>

theorem agreement:
  assumes "sound_net N" and "reachable N \<sigma>" and "committed N \<sigma> b" and "committed N \<sigma> b'" and "bi_round b \<le> bi_round b'"
  shows "ancestor (certified N \<sigma>) b b' \<and> (bi_round b = bi_round b' \<longrightarrow> same_block b b')"
proof -
  have inv: "net_inv N \<sigma>" by (rule reachable_inv [OF assms(1,2)])
  obtain vd1 where vd1: "certified N \<sigma> vd1" "bi_epoch (proposed vd1) = net_epoch N"
    "bi_round (parent_of vd1) + 1 = bi_round (proposed vd1)" "same_block (parent_of vd1) b"
    using committed_child [OF assms(1) inv assms(3)] .
  obtain vd2 where vd2: "certified N \<sigma> vd2" "bi_epoch (proposed vd2) = net_epoch N"
    "bi_round (parent_of vd2) + 1 = bi_round (proposed vd2)" "same_block (parent_of vd2) b'"
    using committed_child [OF assms(1) inv assms(4)] .
  have pos: "0 < bi_round (parent_of vd1)" "0 < bi_round (parent_of vd2)"
    using assms(3,4) vd1(4) vd2(4) by (simp_all add: committed_def same_block_def)
  obtain vd0 where vd0: "certified N \<sigma> vd0" "proposed vd0 = parent_of vd2"
    using certified_facts(3) [OF assms(1) inv vd2(1,2)] pos(2) by auto
  have ep: "bi_epoch (proposed vd0) = net_epoch N" using vd0(2) certified_facts(1) [OF assms(1) inv vd2(1,2)] by simp
  have anc: "ancestor (certified N \<sigma>) (parent_of vd1) (proposed vd0)"
    by (rule committed_is_ancestor [OF assms(1) inv vd1(1-3) pos(1) vd0(1) ep])
      (use assms(5) vd1(4) vd2(4) vd0(2) in \<open>simp add: same_block_def\<close>)
  then have "ancestor (certified N \<sigma>) b b'"
    using vd0(2) vd1(4) vd2(4) ancestor_same ancestor_same_right same_block_sym by metis
  moreover have "same_block b b'" if "bi_round b = bi_round b'"
  proof -
    obtain vd0' where vd0': "certified N \<sigma> vd0'" "proposed vd0' = parent_of vd1"
      using certified_facts(3) [OF assms(1) inv vd1(1,2)] pos(1) by auto
    have "vd0 = vd0'"
      by (rule certified_unique [OF assms(1) inv vd0(1) vd0'(1) ep])
        (use vd0'(2) vd0(2) certified_facts(1) [OF assms(1) inv vd1(1,2)] that vd1(4) vd2(4) in \<open>simp_all add: same_block_def\<close>)
    with vd0(2) vd0'(2) vd1(4) vd2(4) show ?thesis by (metis same_block_sym same_block_trans)
  qed
  ultimately show ?thesis by blast
qed

section \<open>A committed block\<close>

text \<open>
  Four validators, of which the fourth is faulty: the first two vote for the empty blocks of rounds 1 and 2, and with
  the faulty one they form the quorum that commits the block of round 1.
\<close>

definition demo_qc :: quorum_cert where
  "demo_qc = qc_new (vote_data_ordering_only demo_proposal)
     (lis_new (li_new demo_genesis_info 101) (agg_new \<lparr>inner = [208]\<rparr> (Some 5)))"

definition demo_child :: vote_proposal where
  "demo_child = demo_proposal\<lparr>vp_block := block_new_nil demo_cc 2 demo_qc []\<rparr>"

definition demo_net :: net where
  "demo_net = \<lparr>net_crypto = demo_cc, net_verifier = demo_verifier, net_epoch = 1, honest = {1, 2, 3},
     universe = {qc_vote_data demo_genesis_qc, vote_data_ordering_only demo_proposal, vote_data_ordering_only demo_child}\<rparr>"

definition demo_start :: configuration where
  "demo_start = (\<lambda>a. \<lparr>rules = demo_rules\<lparr>sr_validator_signer := Some (vs_signer_new a 1)\<rparr>, cast = {}, timeouts = {}, commits = {}\<rparr>)"

lemmas demo_blocks = demo_proposal_def demo_child_def demo_qc_def demo_genesis_qc_def demo_genesis_info_def block_new_nil_def
  bd_new_nil_def Let_def qc_new_def vd_new_def lis_new_def li_new_def bi_new_def vote_data_ordering_only_def gen_block_info_def

definition demo_granted :: "vote_proposal \<Rightarrow> ledger_info \<Rightarrow> bool" where
  "demo_granted vp li \<longleftrightarrow>
     (\<forall>sd. sd_epoch sd = 1 \<longrightarrow> proposal_ok demo_cc 0 vp demo_verifier sd (vote_data_ordering_only vp)) \<and>
     block_round (vp_block vp) = bi_round (certified_block (block_qc (vp_block vp))) + 1 \<and>
     li = li_new (certified_block (block_qc (vp_block vp))) (vote_data_hash demo_cc (vote_data_ordering_only vp))"

text \<open>The validator follows the epoch, has voted up to a round, and its storage answers.\<close>

definition demo_voter :: "account_address \<Rightarrow> round \<Rightarrow> safety_rules \<Rightarrow> bool" where
  "demo_voter a r s \<longleftrightarrow> sr_wf demo_cc s \<and> serving s \<and> sr_validator_signer s = Some (vs_signer_new a 1) \<and>
     sr_epoch_state s = Some \<lparr>es_epoch = 1, es_verifier = demo_verifier\<rparr> \<and>
     (\<exists>sd. stored s = Some sd \<and> sd_epoch sd = 1 \<and> last_voted_round sd = r)"

lemma demo_cast:
  assumes "demo_voter a r s" and "demo_granted vp li" and "r < block_round (vp_block vp)"
  shows "\<exists>v s'. handle_message demo_cc (ConstructAndSignVoteTwoChain 0 vp None) s = (VoteOut (Ok v), s') \<and>
    new_votes s s' = {v} \<and> vote_ledger_info v = li \<and> demo_voter a (block_round (vp_block vp)) s'"
proof -
  let ?es = "\<lparr>es_epoch = 1, es_verifier = demo_verifier\<rparr>"
  obtain sd where sd: "stored s = Some sd" "sd_epoch sd = 1" "last_voted_round sd = r"
    and s: "sr_wf demo_cc s" "serving s" "sr_validator_signer s = Some (vs_signer_new a 1)" "sr_epoch_state s = Some ?es"
    using assms(1) by (auto simp: demo_voter_def)
  have ok: "proposal_ok demo_cc 0 vp (es_verifier ?es) sd (vote_data_ordering_only vp)"
    using assms(2) sd(2) by (simp add: demo_granted_def)
  have sig: "bls_sign_li demo_cc (signer_private_key (vs_signer_new a 1)) li = Some 5" by (simp add: demo_cc_def)
  have tc: "tc_ok demo_cc None (es_verifier ?es)" by (simp add: tc_ok_def)
  let ?v = "vote_new_with_signature (vote_data_ordering_only vp) (signer_author (vs_signer_new a 1)) li 5"
  obtain s' where s': "guarded_construct_and_sign_vote_two_chain demo_cc 0 vp None s = (Ok ?v, s')" "serving s'"
    using vote_granted [OF ok tc _ _ s(1) sd(1) s(2,4,3) _ sig] assms(2,3) sd(3) by (auto simp: demo_granted_def)
  have wf: "sd_wf demo_cc sd" "sr_coherent s" using s(1) sd(1) by (simp_all add: sr_wf_def)
  then have "\<not> (last_vote sd = Some v \<and> vote_round v = block_round (vp_block vp))" for v
    using assms(3) sd(3) by (auto simp: sd_wf_def vote_wf_def)
  then obtain verifier sd' where cast: "vote_cast demo_cc 0 vp None verifier sd ?v sd'" and st: "stored s' = Some sd'" "kept s s'"
    using vote_op [OF s'(1) wf(2)] sd(1) by (auto simp: vote_outcome_def)
  note f = vote_cast_facts [OF cast]
  have "sr_wf demo_cc s'" by (rule refines_wf [OF refines_vote [OF vote_op [OF s'(1) wf(2)]] s(1)])
  then have "demo_voter a (block_round (vp_block vp)) s'"
    using s s'(2) st f(2,5,6) sd by (auto simp: demo_voter_def kept_def)
  moreover have "new_votes s s' = {?v}" by (rule one_new_vote [OF cast wf(1) sd(1) st(1)])
  moreover have "vote_ledger_info ?v = li" by (simp add: vote_new_with_signature_def)
  ultimately show ?thesis using s'(1) by (auto simp: handle_message_def)
qed

text \<open>One honest validator votes; the others do not move.\<close>

lemma demo_serve:
  assumes "reachable demo_net \<sigma>" and "a \<in> honest demo_net" and "demo_voter a r (rules (\<sigma> a))" and "demo_granted vp li"
    and "r < block_round (vp_block vp)" and "genuine_lis demo_net \<sigma> (signed_ledger_info (block_qc (vp_block vp)))"
    and "qc_vote_data (block_qc (vp_block vp)) \<in> universe demo_net" and "vp_decoupled_execution vp"
    and "vote_data_ordering_only vp \<in> universe demo_net"
  shows "\<exists>n. reachable demo_net (\<sigma>(a := n)) \<and> signed_infos (\<sigma> a) \<union> {li} \<subseteq> signed_infos n \<and>
    demo_voter a (block_round (vp_block vp)) (rules n)"
proof -
  let ?req = "ConstructAndSignVoteTwoChain 0 vp None"
  obtain v s' where v: "handle_message demo_cc ?req (rules (\<sigma> a)) = (VoteOut (Ok v), s')"
    "new_votes (rules (\<sigma> a)) s' = {v}" "vote_ledger_info v = li" "demo_voter a (block_round (vp_block vp)) s'"
    using demo_cast [OF assms(3-5)] by blast
  have "admissible demo_net \<sigma> (rules (\<sigma> a)) ?req s'"
    using assms(6-9) by (simp add: admissible_def gen_vote_data_def)
  from reachable.serve [OF assms(1,2) _ this] v(1)
  have "reachable demo_net (\<sigma>(a := \<lparr>rules = s', cast = cast (\<sigma> a) \<union> {v},
    timeouts = timeouts (\<sigma> a) \<union> new_timeouts ?req (VoteOut (Ok v)), commits = commits (\<sigma> a) \<union> new_commits ?req (VoteOut (Ok v))\<rparr>))"
    (is "reachable _ (\<sigma>(a := ?n))") using v(2) by (simp add: demo_net_def)
  moreover have "signed_infos (\<sigma> a) \<union> {li} \<subseteq> signed_infos ?n" using v(3) by (auto simp: signed_infos_def)
  ultimately show ?thesis using v(4) by (intro exI [of _ ?n]) simp
qed

lemma demo_rounds_child:
  "block_round (vp_block demo_child) = 2" "bi_round (certified_block (block_qc (vp_block demo_child))) = 1"
  "block_round (vp_block demo_proposal) = 1" "bi_round (certified_block (block_qc (vp_block demo_proposal))) = 0"
  by (simp_all add: demo_blocks)

lemma demo_certificate:
  "lis_verify_signatures demo_cc (lis_new li (agg_new \<lparr>inner = [208]\<rparr> (Some 5))) demo_verifier = Ok ()"
  using demo_quorum [of "bls_verify_li demo_cc" li 5]
  by (simp add: lis_verify_signatures_def lis_new_def demo_cc_def)

lemma demo_signers: "map address (signers_of demo_verifier (agg_new \<lparr>inner = [208]\<rparr> sig)) = [1, 2, 4]"
  by (simp add: signers_of_def agg_new_def demo_masks demo_fields demo_infos_def vci_new_def)

lemma demo_genuine:
  "li \<in> signed_infos (\<sigma> 1) \<Longrightarrow> li \<in> signed_infos (\<sigma> 2) \<Longrightarrow>
     genuine_lis demo_net \<sigma> (lis_new li (agg_new \<lparr>inner = [208]\<rparr> (Some 5)))"
  by (simp add: genuine_lis_def demo_net_def lis_new_def demo_signers)

lemma demo_granted_first: "demo_granted demo_proposal (li_new demo_genesis_info 101)"
  using demo_proposal_ok
  by (simp add: demo_granted_def proposal_ok_def demo_rounds sd_new_def) (simp add: demo_blocks demo_cc_def)

lemma demo_granted_child:
  "demo_granted demo_child (li_new (proposed (vote_data_ordering_only demo_proposal)) 102)"
proof -
  have "qc_verify demo_cc demo_qc demo_verifier = Ok ()"
    using demo_certificate [of "li_new demo_genesis_info 101"]
    by (simp add: qc_verify_def demo_qc_def qc_new_def)
      (simp add: demo_blocks demo_cc_def vd_verify_def ensure_def)
  moreover have "verify_well_formed 0 (vp_block demo_child) = Ok ()"
    by (simp add: verify_well_formed_def ensure_def demo_blocks
      bd_is_genesis_block_def has_reconfiguration_def
      check_failed_authors_def bd_failed_authors_def bd_is_nil_block_def add_p_def checked_add_def checked_sub_def
      check_timestamp_def qc_ends_epoch_def ends_epoch_def)
  ultimately show ?thesis
    by (simp add: demo_granted_def proposal_ok_def demo_rounds_child gen_vote_data_def validate_signature_def)
      (simp add: demo_blocks demo_cc_def)
qed

lemma demo_sound: "sound_net demo_net"
proof -
  have "wf_verifier demo_verifier" by (rule vv_new_wf [OF demo_new demo_distinct(1,2)])
  moreover have "members demo_verifier - {1, 2, 3} = {4}"
    by (auto simp: members_def get_ordered_account_addresses_def demo_verifier_def build_index_def demo_infos_def vci_new_def)
  moreover have "unat (total_voting_power demo_verifier) = 40" by (simp add: demo_verifier_def build_index_def)
  moreover have "inj_on (vote_data_hash demo_cc) (universe demo_net)"
    by (simp add: demo_net_def) (simp add: demo_blocks demo_cc_def)
  ultimately show ?thesis by (simp add: sound_net_def demo_net_def vpower_def demo_power)
qed

lemma demo_start_ok: "reachable demo_net demo_start" "demo_voter a 0 (rules (demo_start a))"
proof -
  have "sr_wf demo_cc (rules (demo_start a))" for a
    using demo_rules_wf by (simp add: demo_start_def sr_wf_def sr_coherent_def)
  then show "reachable demo_net demo_start" "demo_voter a 0 (rules (demo_start a))"
    by (auto intro!: reachable.start simp: initial_def demo_voter_def)
      (auto simp: demo_start_def demo_net_def demo_rules_def sd_new_def serving_def)
qed

lemma demo_commit:
  "\<exists>\<sigma>. reachable demo_net \<sigma> \<and> committed demo_net \<sigma> (proposed (vote_data_ordering_only demo_proposal))"
proof -
  define li1 where "li1 = li_new demo_genesis_info 101"
  define li2 where "li2 = li_new (proposed (vote_data_ordering_only demo_proposal)) 102"
  have honest: "1 \<in> honest demo_net" "2 \<in> honest demo_net" by (simp_all add: demo_net_def)
  have univ: "qc_vote_data (block_qc (vp_block demo_proposal)) \<in> universe demo_net" "vote_data_ordering_only demo_proposal \<in> universe demo_net"
    "qc_vote_data (block_qc (vp_block demo_child)) \<in> universe demo_net" "vote_data_ordering_only demo_child \<in> universe demo_net"
    by (simp_all add: demo_net_def) (simp_all add: demo_blocks)
  have dec: "vp_decoupled_execution demo_proposal" "vp_decoupled_execution demo_child" by (simp_all add: demo_blocks)
  have genesis: "genuine_lis demo_net \<sigma> (signed_ledger_info (block_qc (vp_block demo_proposal)))" for \<sigma>
  proof -
    have "iter_ones \<lparr>inner = [0]\<rparr> = []" by (simp add: iter_ones_def is_set_def BUCKET_SIZE_def upt_rec)
    then show ?thesis by (simp add: genuine_lis_def demo_blocks signers_of_def agg_new_def)
  qed
  have qc: "signed_ledger_info (block_qc (vp_block demo_child)) = lis_new li1 (agg_new \<lparr>inner = [208]\<rparr> (Some 5))"
    by (simp add: li1_def) (simp add: demo_blocks)
  note first = demo_serve [OF _ _ _ demo_granted_first [folded li1_def] _ genesis univ(1) dec(1) univ(2), unfolded demo_rounds]
  note child = demo_serve [OF _ _ _ demo_granted_child [folded li2_def] _ _ univ(3) dec(2) univ(4), unfolded qc demo_rounds_child]
  obtain n1 where n1: "reachable demo_net (demo_start(1 := n1))" "li1 \<in> signed_infos n1" "demo_voter 1 1 (rules n1)"
    using first [OF demo_start_ok(1) honest(1) demo_start_ok(2)] by auto
  have "demo_voter 2 0 (rules ((demo_start(1 := n1)) 2))" using demo_start_ok(2) by simp
  then obtain n2 where n2: "reachable demo_net (demo_start(1 := n1, 2 := n2))" "li1 \<in> signed_infos n2" "demo_voter 2 1 (rules n2)"
    using first [OF n1(1) honest(2)] by auto
  let ?s2 = "demo_start(1 := n1, 2 := n2)"
  have g: "genuine_lis demo_net ?s2 (lis_new li1 (agg_new \<lparr>inner = [208]\<rparr> (Some 5)))"
    by (rule demo_genuine) (use n1(2) n2(2) in simp_all)
  have "demo_voter 1 1 (rules (?s2 1))" using n1(3) by simp
  then obtain m1 where m1: "reachable demo_net (?s2(1 := m1))" "{li1, li2} \<subseteq> signed_infos m1"
    using child [OF n2(1) honest(1) _ _ g, of 1] n1(2) by auto
  let ?s3 = "?s2(1 := m1)"
  have g: "genuine_lis demo_net ?s3 (lis_new li1 (agg_new \<lparr>inner = [208]\<rparr> (Some 5)))"
    by (rule demo_genuine) (use m1(2) n2(2) in simp_all)
  have "demo_voter 2 1 (rules (?s3 2))" using n2(3) by simp
  then obtain m2 where m2: "reachable demo_net (?s3(2 := m2))" "li2 \<in> signed_infos m2"
    using child [OF m1(1) honest(2) _ _ g, of 1] by auto
  let ?lis = "lis_new li2 (agg_new \<lparr>inner = [208]\<rparr> (Some 5))"
  have "genuine_lis demo_net (?s3(2 := m2)) ?lis" by (rule demo_genuine) (use m1(2) m2(2) in simp_all)
  then have "committed demo_net (?s3(2 := m2)) (proposed (vote_data_ordering_only demo_proposal))"
    unfolding committed_def using demo_certificate [of li2]
    by (intro conjI exI [of _ ?lis]) (simp_all add: demo_net_def li2_def demo_blocks)
  with m2(1) show ?thesis by blast
qed

theorem agreement_witness:
  "\<exists>\<sigma> b. sound_net demo_net \<and> reachable demo_net \<sigma> \<and> committed demo_net \<sigma> b \<and> bi_round b = 1 \<and>
     ancestor (certified demo_net \<sigma>) b b \<and> same_block b b"
proof -
  obtain \<sigma> where \<sigma>: "reachable demo_net \<sigma>" "committed demo_net \<sigma> (proposed (vote_data_ordering_only demo_proposal))"
    using demo_commit by blast
  have "bi_round (proposed (vote_data_ordering_only demo_proposal)) = 1" by (simp add: demo_blocks)
  with agreement [OF demo_sound \<sigma>(1,2,2)] \<sigma> demo_sound show ?thesis by blast
qed

end
