(* ===== verification/Pending_Votes.thy ===== *)
theory Pending_Votes
  imports Consensus_Types
begin

text \<open>
  \<open>src/consensus/src/pending_votes.rs\<close> and \<open>src/consensus/src/qc_aggregator.rs\<close>: a validator collects the votes of a
  round until they make a quorum certificate or a timeout certificate.

  The index that \<open>li_digest_to_votes\<close> keeps for the labels of metrics is left out. Durations are natural numbers of
  nanoseconds; the current time is an argument, and the messages that the delayed aggregator schedules are collected in
  \<open>delayed_qc_tx\<close>. \<open>ledger_info_hash\<close> is the hash of a ledger info.
\<close>

section \<open>Model\<close>

record pending_crypto = consensus_crypto +
  ledger_info_hash :: "ledger_info \<Rightarrow> hash_value"

datatype vote_reception_result =
  VoteAdded u128 | VoteAddedQCDelayed u128 | DuplicateVote | EquivocateVote | NewQuorumCertificate quorum_cert |
  New2ChainTimeoutCertificate two_chain_timeout_certificate | ErrorAddingVote verify_error |
  ErrorAggregatingSignature verify_error | ErrorAggregatingTimeoutCertificate verify_error |
  UnexpectedRound u64 u64 | EchoTimeout u128

record delayed_qc_aggregator =
  round_start_time :: nat
  max_delay_after_round_start :: nat
  aggregated_voting_power_pct_to_wait :: u64
  pct_delay_after_qc_aggregated :: u64
  qc_aggregation_delayed :: bool
  delayed_qc_tx :: "(vote \<times> nat) list"

datatype qc_aggregator = NoDelayQcAggregator | DelayedQcAggregator delayed_qc_aggregator

datatype qc_aggregator_type = NoDelay | Delayed u64 u64 u64

definition create_qc_aggregator :: "qc_aggregator_type \<Rightarrow> nat \<Rightarrow> qc_aggregator" where
  "create_qc_aggregator ty now =
     (case ty of
        NoDelay \<Rightarrow> NoDelayQcAggregator
      | Delayed max_delay_ms pct_to_wait pct_delay \<Rightarrow>
          DelayedQcAggregator
            \<lparr>round_start_time = now, max_delay_after_round_start = unat max_delay_ms * 1000000,
             aggregated_voting_power_pct_to_wait = pct_to_wait, pct_delay_after_qc_aggregated = pct_delay,
             qc_aggregation_delayed = False, delayed_qc_tx = []\<rparr>)"

record pending_votes =
  li_digest_to_votes :: "hash_value \<rightharpoonup> ledger_info_with_partial_signatures"
  maybe_partial_2chain_tc :: "two_chain_timeout_with_partial_signatures option"
  author_to_vote :: "author \<rightharpoonup> vote \<times> hash_value"
  echo_timeout :: bool
  pv_qc_aggregator :: qc_aggregator

definition pv_new :: "qc_aggregator_type \<Rightarrow> nat \<Rightarrow> pending_votes" where
  "pv_new ty now =
     \<lparr>li_digest_to_votes = Map.empty, maybe_partial_2chain_tc = None, author_to_vote = Map.empty,
      echo_timeout = False, pv_qc_aggregator = create_qc_aggregator ty now\<rparr>"

definition aggregate_qc_now ::
  "'c ledger_crypto_scheme \<Rightarrow> validator_verifier \<Rightarrow> ledger_info_with_partial_signatures \<Rightarrow> vote_data \<Rightarrow>
   (vote_reception_result, unit) result" where
  "aggregate_qc_now C verifier li_with_sig vd =
     (case lips_aggregate_signatures C li_with_sig verifier of
        Ok lis \<Rightarrow> Ok (NewQuorumCertificate (qc_new vd lis))
      | Err e \<Rightarrow> Ok (ErrorAggregatingSignature e)
      | Panic \<Rightarrow> Panic)"

text \<open>The range of \<open>Duration\<close>, in nanoseconds.\<close>

definition DURATION_LIMIT :: nat where
  "DURATION_LIMIT = 2 ^ 64 * 1000000000"

definition delayed_handle_aggregated_qc ::
  "'c ledger_crypto_scheme \<Rightarrow> nat \<Rightarrow> delayed_qc_aggregator \<Rightarrow> validator_verifier \<Rightarrow> u128 \<Rightarrow> vote \<Rightarrow>
   ledger_info_with_partial_signatures \<Rightarrow> (vote_reception_result \<times> delayed_qc_aggregator, unit) result" where
  "delayed_handle_aggregated_qc C now self verifier aggregated_voting_power vote li_with_sig =
     and_then (assert_p (aggregated_voting_power \<ge> quorum_voting_power verifier)) (\<lambda>_.
     and_then (mul_p (ucast (aggregated_voting_power_pct_to_wait self)) (total_voting_power verifier)) (\<lambda>scaled.
     if aggregated_voting_power \<ge> scaled div 100 then
       map_ok (\<lambda>r. (r, self)) (aggregate_qc_now C verifier li_with_sig (vote_vote_data vote))
     else if qc_aggregation_delayed self then Ok (VoteAddedQCDelayed aggregated_voting_power, self)
     else
       and_then (assert_p (round_start_time self \<le> now)) (\<lambda>_.
       let time_since_round_start = now - round_start_time self in
       if time_since_round_start \<ge> max_delay_after_round_start self then
         map_ok (\<lambda>r. (r, self)) (aggregate_qc_now C verifier li_with_sig (vote_vote_data vote))
       else
         let scaled_time = time_since_round_start * unat (ucast (pct_delay_after_qc_aggregated self) :: u32) in
         and_then (assert_p (scaled_time < DURATION_LIMIT)) (\<lambda>_.
         let wait_time = min (max_delay_after_round_start self - time_since_round_start) (scaled_time div 100) in
         Ok (VoteAddedQCDelayed aggregated_voting_power,
             self\<lparr>qc_aggregation_delayed := True, delayed_qc_tx := delayed_qc_tx self @ [(vote, wait_time)]\<rparr>)))))"

definition handle_aggregated_qc ::
  "'c ledger_crypto_scheme \<Rightarrow> nat \<Rightarrow> qc_aggregator \<Rightarrow> validator_verifier \<Rightarrow> u128 \<Rightarrow> vote \<Rightarrow>
   ledger_info_with_partial_signatures \<Rightarrow> (vote_reception_result \<times> qc_aggregator, unit) result" where
  "handle_aggregated_qc C now self verifier aggregated_voting_power vote li_with_sig =
     (case self of
        NoDelayQcAggregator \<Rightarrow>
          and_then (assert_p (aggregated_voting_power \<ge> quorum_voting_power verifier)) (\<lambda>_.
          map_ok (\<lambda>r. (r, self)) (aggregate_qc_now C verifier li_with_sig (vote_vote_data vote)))
      | DelayedQcAggregator d \<Rightarrow>
          map_ok (\<lambda>(r, d). (r, DelayedQcAggregator d))
            (delayed_handle_aggregated_qc C now d verifier aggregated_voting_power vote li_with_sig))"

text \<open>The fourth step of \<open>insert_vote\<close>: the timeout a vote carries. \<open>vote_power\<close> is the voting power for the ledger info.\<close>

definition insert_timeout ::
  "'c consensus_crypto_scheme \<Rightarrow> pending_votes \<Rightarrow> vote \<Rightarrow> two_chain_timeout \<Rightarrow> signature \<Rightarrow> validator_verifier \<Rightarrow> u128 \<Rightarrow>
   (vote_reception_result \<times> pending_votes, unit) result" where
  "insert_timeout C self vote timeout sig verifier vote_power =
     (let partial_tc = (case maybe_partial_2chain_tc self of Some tc \<Rightarrow> tc | None \<Rightarrow> tps_new timeout);
          partial_tc = tps_add partial_tc (vote_author vote) timeout sig;
          self = self\<lparr>maybe_partial_2chain_tc := Some partial_tc\<rparr>
      in case check_voting_power verifier (tps_signers partial_tc) True of
           Ok _ \<Rightarrow>
             (case tps_aggregate_signatures C partial_tc verifier of
                Ok tc \<Rightarrow> Ok (New2ChainTimeoutCertificate tc, self)
              | Err e \<Rightarrow> Ok (ErrorAggregatingTimeoutCertificate e, self)
              | Panic \<Rightarrow> Panic)
         | Err (TooLittleVotingPower tc_voting_power _) \<Rightarrow>
             if echo_timeout self then Ok (VoteAdded vote_power, self)
             else
               and_then (sub_p (total_voting_power verifier) (quorum_voting_power verifier)) (\<lambda>f.
               and_then (add_p f 1) (\<lambda>f_plus_one.
               if tc_voting_power \<ge> f_plus_one
               then Ok (EchoTimeout tc_voting_power, self\<lparr>echo_timeout := True\<rparr>)
               else Ok (VoteAdded vote_power, self)))
         | Err e \<Rightarrow> Ok (ErrorAddingVote e, self)
         | Panic \<Rightarrow> Panic)"

text \<open>The entry of the vote's ledger info with the vote added, and the state that holds it.\<close>

definition counted :: "'c pending_crypto_scheme \<Rightarrow> pending_votes \<Rightarrow> vote \<Rightarrow> ledger_info_with_partial_signatures" where
  "counted C pv v =
     lips_add_signature (case li_digest_to_votes pv (ledger_info_hash C (vote_ledger_info v)) of
         Some lips \<Rightarrow> lips
       | None \<Rightarrow> lips_new (vote_ledger_info v) [])
       (vote_author v) (vote_signature v)"

definition with_vote :: "'c pending_crypto_scheme \<Rightarrow> pending_votes \<Rightarrow> vote \<Rightarrow> pending_votes" where
  "with_vote C pv v =
     pv\<lparr>author_to_vote := (author_to_vote pv)(vote_author v \<mapsto> (v, ledger_info_hash C (vote_ledger_info v))),
        li_digest_to_votes := (li_digest_to_votes pv)(ledger_info_hash C (vote_ledger_info v) \<mapsto> counted C pv v)\<rparr>"

text \<open>The second to fifth step of \<open>insert_vote\<close>.\<close>

definition store_vote ::
  "'c pending_crypto_scheme \<Rightarrow> nat \<Rightarrow> pending_votes \<Rightarrow> vote \<Rightarrow> validator_verifier \<Rightarrow>
   (vote_reception_result \<times> pending_votes, unit) result" where
  "store_vote C now pv v verifier =
     (case check_voting_power verifier (map fst (partial_sigs (counted C pv v))) True of
        Ok p \<Rightarrow> map_ok (\<lambda>(r, agg). (r, (with_vote C pv v)\<lparr>pv_qc_aggregator := agg\<rparr>))
          (handle_aggregated_qc C now (pv_qc_aggregator pv) verifier p v (counted C pv v))
      | Err (TooLittleVotingPower p _) \<Rightarrow>
          (case vote_two_chain_timeout v of
             Some (timeout, sig) \<Rightarrow> insert_timeout C (with_vote C pv v) v timeout sig verifier p
           | None \<Rightarrow> Ok (VoteAdded p, with_vote C pv v))
      | Err e \<Rightarrow> Ok (ErrorAddingVote e, with_vote C pv v)
      | Panic \<Rightarrow> Panic)"

definition insert_vote ::
  "'c pending_crypto_scheme \<Rightarrow> nat \<Rightarrow> pending_votes \<Rightarrow> vote \<Rightarrow> validator_verifier \<Rightarrow>
   (vote_reception_result \<times> pending_votes, unit) result" where
  "insert_vote C now self vote verifier =
     (let li_digest = ledger_info_hash C (vote_ledger_info vote) in
      case author_to_vote self (vote_author vote) of
        Some (previously_seen_vote, previous_li_digest) \<Rightarrow>
          if li_digest = previous_li_digest then
            (if is_timeout vote \<and> \<not> is_timeout previously_seen_vote then store_vote C now self vote verifier
             else Ok (DuplicateVote, self))
          else Ok (EquivocateVote, self)
      | None \<Rightarrow> store_vote C now self vote verifier)"

definition process_delayed_qc ::
  "'c pending_crypto_scheme \<Rightarrow> pending_votes \<Rightarrow> validator_verifier \<Rightarrow> vote \<Rightarrow> (vote_reception_result, unit) result" where
  "process_delayed_qc C self verifier vote =
     and_then (unwrap_some (li_digest_to_votes self (ledger_info_hash C (vote_ledger_info vote)))) (\<lambda>li_with_sig.
     (case check_voting_power verifier (map fst (partial_sigs li_with_sig)) True of
        Ok _ \<Rightarrow> aggregate_qc_now C verifier li_with_sig (vote_vote_data vote)
      | Err (TooLittleVotingPower _ _) \<Rightarrow> Panic
      | Err e \<Rightarrow> Ok (ErrorAddingVote e)
      | Panic \<Rightarrow> Panic))"

definition drain_votes ::
  "pending_votes \<Rightarrow> ((hash_value \<rightharpoonup> ledger_info_with_partial_signatures) \<times>
     two_chain_timeout_with_partial_signatures option) \<times> pending_votes" where
  "drain_votes self =
     ((li_digest_to_votes self, maybe_partial_2chain_tc self),
      self\<lparr>li_digest_to_votes := Map.empty, maybe_partial_2chain_tc := None\<rparr>)"

text \<open>The votes of a round in the order of their arrival, each with the time of its arrival.\<close>

fun insert_votes ::
  "'c pending_crypto_scheme \<Rightarrow> validator_verifier \<Rightarrow> pending_votes \<Rightarrow> (nat \<times> vote) list \<Rightarrow>
   (vote_reception_result list \<times> pending_votes, unit) result" where
  "insert_votes C verifier pv [] = Ok ([], pv)"
| "insert_votes C verifier pv ((now, v) # evs) =
     and_then (insert_vote C now pv v verifier) (\<lambda>(r, pv).
     map_ok (\<lambda>(rs, pv). (r # rs, pv)) (insert_votes C verifier pv evs))"

section \<open>Ordered maps of signatures\<close>

lemma ps_add_signature_insert:
  "btree m \<Longrightarrow> ps_add_signature m a s = (if a \<in> fst ` set m then m else btree_insert a s m)"
proof (induction m a s rule: ps_add_signature.induct)
  case (2 a s rest validator sig)
  then have "btree rest" "\<forall>x \<in> fst ` set rest. a < x" by (auto simp: btree_def)
  with 2 show ?case by auto
qed simp

lemma psr_add_signature_insert:
  "btree m \<Longrightarrow> psr_add_signature m a r s = (if a \<in> fst ` set m then m else btree_insert a (r, s) m)"
proof (induction m a r s rule: psr_add_signature.induct)
  case (2 a x rest validator round sig)
  then have "btree rest" "\<forall>x \<in> fst ` set rest. a < x" by (auto simp: btree_def)
  with 2 show ?case by auto
qed simp

lemma set_btree_insert_new: "k \<notin> fst ` set m \<Longrightarrow> set (btree_insert k v m) = insert (k, v) (set m)"
  by (induction k v m rule: btree_insert.induct) auto

lemma btree_insert_last: "\<forall>x \<in> fst ` set m. x < k \<Longrightarrow> btree_insert k v m = m @ [(k, v)]"
  by (induction k v m rule: btree_insert.induct) auto

lemma btree_snoc: "btree (m @ [(k, v)]) \<longleftrightarrow> btree m \<and> (\<forall>x \<in> fst ` set m. x < k)"
  by (auto simp: btree_def sorted_wrt_append)

text \<open>The signatures in the order of the addresses, and the rounds in the order of the validators.\<close>

lemma partial_sig_with_rounds:
  assumes "btree m" and "fst ` set m \<subseteq> dom index_of" and "inj_on index_of (fst ` set m)"
  obtains rounds where "get_partial_sig_with_rounds m index_of = (map (\<lambda>(a, (r, s)). (a, s)) m, map snd rounds)"
    and "btree rounds" and "set rounds = (\<lambda>(a, (r, s)). (the (index_of a), r)) ` set m"
proof -
  define step where "step = (\<lambda>(address, (round, sig)) (partial, rounds).
    case index_of address of
      Some index \<Rightarrow> (ps_add_signature partial address sig, btree_insert index round rounds)
    | None \<Rightarrow> (partial :: partial_signatures, rounds :: (nat \<times> round) list))"
  have "\<exists>rounds. fold step m ([], []) = (map (\<lambda>(a, (r, s)). (a, s)) m, rounds) \<and> btree rounds \<and>
    set rounds = (\<lambda>(a, (r, s)). (the (index_of a), r)) ` set m"
    using assms
  proof (induction m rule: rev_induct)
    case (snoc x m)
    obtain a r s where x: "x = (a, (r, s))" by (cases x) auto
    have m: "btree m" "\<forall>b \<in> fst ` set m. b < a" using snoc.prems(1) by (auto simp: x btree_snoc)
    obtain i where i: "index_of a = Some i" using snoc.prems(2) by (auto simp: x)
    from snoc.IH m(1) snoc.prems(2,3) obtain rounds where
      rounds: "fold step m ([], []) = (map (\<lambda>(a, (r, s)). (a, s)) m, rounds)" "btree rounds"
        "set rounds = (\<lambda>(a, (r, s)). (the (index_of a), r)) ` set m" by (auto simp: inj_on_def)
    have keys: "fst ` set (map (\<lambda>(a, (r, s)). (a, s)) m) = fst ` set m" by force
    have "btree (map (\<lambda>(a, (r, s)). (a, s)) m)" using m(1) by (simp add: btree_def comp_def case_prod_unfold)
    moreover have last: "\<forall>b \<in> fst ` set (map (\<lambda>(a, (r, s)). (a, s)) m). b < a" unfolding keys by (rule m(2))
    ultimately have "ps_add_signature (map (\<lambda>(a, (r, s)). (a, s)) m) a s = map (\<lambda>(a, (r, s)). (a, s)) m @ [(a, s)]"
      using btree_insert_last [OF last] by (subst ps_add_signature_insert) auto
    moreover have "i \<notin> fst ` set rounds"
    proof
      assume "i \<in> fst ` set rounds"
      then obtain b where b: "b \<in> fst ` set m" "the (index_of b) = i" unfolding rounds(3) by force
      then have "index_of b = index_of a" using i snoc.prems(2) by (auto simp: x)
      with b(1) m(2) snoc.prems(3) show False by (auto simp: x inj_on_def)
    qed
    ultimately show ?case
      using rounds i by (intro exI [of _ "btree_insert i r rounds"]) (simp add: x step_def set_btree_insert_new)
  qed simp
  then obtain rounds where "fold step m ([], []) = (map (\<lambda>(a, (r, s)). (a, s)) m, rounds)" "btree rounds"
    "set rounds = (\<lambda>(a, (r, s)). (the (index_of a), r)) ` set m" by blast
  then show thesis
    by (intro that [of rounds]) (simp_all add: get_partial_sig_with_rounds_def step_def)
qed

lemma max_round_eq:
  "r \<in> set rounds \<Longrightarrow> \<forall>x \<in> set rounds. x \<le> r \<Longrightarrow> max_round rounds = Some r"
proof (cases rounds)
  case (Cons x xs)
  assume r: "r \<in> set rounds" "\<forall>x \<in> set rounds. x \<le> r"
  have "fold max xs x = Max (set (x # xs))" by (rule Max.set_eq_fold [symmetric])
  also have "\<dots> = r" using r Cons by (intro Max_eqI) auto
  finally show ?thesis using Cons by (simp add: max_round_def)
qed simp

section \<open>Aggregation of timeouts\<close>

text \<open>
  Correctness of BLS aggregation over several messages: signatures that verify for their messages under their keys
  aggregate, in any order, to a signature that verifies for the lists of messages and keys.
\<close>

definition bls_multi_correct ::
  "(signature list \<Rightarrow> signature option) \<Rightarrow> (signature \<Rightarrow> 'm \<Rightarrow> public_key \<Rightarrow> bool) \<Rightarrow>
   (signature \<Rightarrow> 'm list \<Rightarrow> public_key list \<Rightarrow> bool) \<Rightarrow> bool" where
  "bls_multi_correct sig_aggregate sig_verify agg_verify \<longleftrightarrow>
     (\<forall>triples sigs. triples \<noteq> [] \<and> (\<forall>(m, k, s) \<in> set triples. sig_verify s m k) \<and>
        mset sigs = mset (map (\<lambda>(m, k, s). s) triples) \<longrightarrow>
       (\<exists>sig. sig_aggregate sigs = Some sig \<and>
          agg_verify sig (map (\<lambda>(m, k, s). m) triples) (map (\<lambda>(m, k, s). k) triples)))"

lemma verified_key:
  assumes "vv_verify sig_verify v a m s = Ok ()"
  shows "sig_verify s m (public_key (info_of v a))" and "wf_verifier v \<Longrightarrow> a \<in> members v"
  using assms by (auto simp: vv_verify_def get_public_key_def info_of_def wf_verifier_def split: option.splits if_splits)

text \<open>The order of the validators in an aggregate: strictly ascending by index.\<close>

lemma sorted_indices:
  assumes wf: "wf_verifier v" and known: "fst ` set m \<subseteq> members v" and distinct: "distinct (map fst m)"
    and signers: "mset (signers_of v agg) = mset (map (info_of v) (map fst m))"
    and collected: "collect_signers v (iter_ones (validator_bitmask agg)) = Ok (signers_of v agg)"
    and rounds: "btree rounds" "fst ` set rounds = (\<lambda>a. the (address_to_validator_index v a)) ` fst ` set m"
  shows "map fst rounds = iter_ones (validator_bitmask agg)"
proof (rule strict_sorted_equal)
  let ?ones = "iter_ones (validator_bitmask agg)"
  let ?idx = "\<lambda>a. the (address_to_validator_index v a)"
  show "sorted_wrt (<) (map fst rounds)" using rounds(1) by (simp add: btree_def)
  show "sorted_wrt (<) ?ones" using iter_ones_order by (simp add: strict_sorted_iff)
  have small: "\<forall>i \<in> set ?ones. i < length (validator_infos v)" using collected by (simp add: collect_signers_Ok)
  have idx: "?idx (address (validator_infos v ! i)) = i" if "i < length (validator_infos v)" for i
    using wf that by (simp add: wf_verifier_def)
  have "map (address \<circ> info_of v) (map fst m) = map fst m"
    using wf_index [OF wf] known by (auto simp: info_of_def) (metis fst_conv imageI option.sel subsetD)
  then have "set (map address (signers_of v agg)) = set (map fst m)"
    using mset_eq_setD [OF signers] by (metis list.map_comp list.set_map)
  then have "set (map (\<lambda>i. address (validator_infos v ! i)) ?ones) = fst ` set m" by (simp add: signers_of_def image_image)
  then have "?idx ` fst ` set m = ?idx ` set (map (\<lambda>i. address (validator_infos v ! i)) ?ones)" by simp
  also have "\<dots> = set ?ones" using small idx by (force simp: image_image)
  finally show "set (map fst rounds) = set ?ones" using rounds(2) by simp
qed

lemma filter_enumerate: "filter (\<lambda>(i, a). P i) (enumerate 0 xs) = map (\<lambda>i. (i, xs ! i)) (filter P [0..<length xs])"
proof (induction xs rule: rev_induct)
  case (snoc x xs)
  have "map (\<lambda>i. (i, (xs @ [x]) ! i)) (filter P [0..<length xs]) = map (\<lambda>i. (i, xs ! i)) (filter P [0..<length xs])"
    by (rule map_cong) (auto simp: nth_append)
  with snoc show ?case by (simp add: enumerate_append_eq)
qed simp

lemma signers_addresses:
  assumes "wf_bv (validator_bitmask agg)" and "\<forall>i \<in> set (iter_ones (validator_bitmask agg)). i < length addrs"
    and "length addrs < 65536"
  shows "get_signers_addresses agg addrs = map (nth addrs) (iter_ones (validator_bitmask agg))"
proof -
  let ?P = "\<lambda>i. is_set (validator_bitmask agg) (of_nat i)"
  have "filter ?P [0..<length addrs] = iter_ones (validator_bitmask agg)"
  proof (rule strict_sorted_equal)
    show "sorted_wrt (<) (filter ?P [0..<length addrs])" by (simp add: sorted_wrt_filter)
    show "sorted_wrt (<) (iter_ones (validator_bitmask agg))" using iter_ones_order by (simp add: strict_sorted_iff)
    show "set (filter ?P [0..<length addrs]) = set (iter_ones (validator_bitmask agg))"
      using assms by (auto simp: set_iter_ones_is_set)
  qed
  moreover have "filter (\<lambda>(i, a). ?P i) (enumerate 0 addrs) = map (\<lambda>i. (i, addrs ! i)) (filter ?P [0..<length addrs])"
    by (rule filter_enumerate)
  ultimately show ?thesis by (simp add: get_signers_addresses_def)
qed

text \<open>The triples of message, key and signature in the order of the validators.\<close>

lemma timeout_triples:
  assumes wf: "wf_verifier v" and m: "btree m" "fst ` set m \<subseteq> members v"
    and rounds: "btree rounds" "set rounds = (\<lambda>(a, (r, s)). (the (address_to_validator_index v a), r)) ` set m"
    and valid: "\<forall>(a, (r, s)) \<in> set m. sig_verify s (repr r) (public_key (info_of v a))"
  obtains triples where "map (\<lambda>(m, k, s). m) triples = map repr (map snd rounds)"
    and "map (\<lambda>(m, k, s). k) triples = map (\<lambda>i. public_key (validator_infos v ! i)) (map fst rounds)"
    and "\<forall>(m, k, s) \<in> set triples. sig_verify s m k"
    and "mset (map (\<lambda>(a, (r, s)). s) m) = mset (map (\<lambda>(m, k, s). s) triples)"
proof -
  let ?idx = "\<lambda>a. the (address_to_validator_index v a)"
  define sig_at where "sig_at i = snd (the (map_of m (address (validator_infos v ! i))))" for i
  have idx: "address (validator_infos v ! ?idx a) = a" if "a \<in> fst ` set m" for a
  proof -
    have "a \<in> members v" using that m(2) by blast
    from wf_index [OF wf this] show ?thesis by auto
  qed
  have sig: "sig_at (?idx a) = s" if "(a, (r, s)) \<in> set m" for a r s
  proof -
    have "map_of m a = Some (r, s)" using that btree_map_of [OF m(1)] by simp
    with idx [of a] that show ?thesis by (force simp: sig_at_def)
  qed
  let ?triples = "map (\<lambda>(i, r). (repr r, public_key (validator_infos v ! i), sig_at i)) rounds"
  have "inj_on ?idx (fst ` set m)" using idx by (rule inj_on_inverseI)
  then have "distinct (map ?idx (map fst m))" using distinct_btree [OF m(1)] by (simp only: distinct_map set_map)
  moreover have "set (map fst rounds) = set (map ?idx (map fst m))" by (simp add: rounds(2) image_image case_prod_unfold)
  ultimately have perm: "mset (map fst rounds) = mset (map ?idx (map fst m))"
    using set_eq_iff_mset_eq_distinct [OF distinct_btree [OF rounds(1)]] by blast
  have "map sig_at (map ?idx (map fst m)) = map (\<lambda>(a, (r, s)). s) m" using sig by auto
  then have sigs: "mset (map (\<lambda>(a, (r, s)). s) m) = mset (map sig_at (map fst rounds))" using perm by (metis mset_map)
  have "\<forall>(m, k, s) \<in> set ?triples. sig_verify s m k"
    using valid sig by (auto simp: rounds(2) info_of_def)
  moreover have "map (\<lambda>(m, k, s). s) ?triples = map sig_at (map fst rounds)"
    by (simp add: case_prod_unfold)
  then have "mset (map (\<lambda>(a, (r, s)). s) m) = mset (map (\<lambda>(m, k, s). s) ?triples)" using sigs by (simp only:)
  ultimately show thesis
    by (intro that [of ?triples]) (simp_all only: map_map comp_def case_prod_unfold fst_conv snd_conv)
qed

lemma signers_permute:
  assumes "wf_verifier v" and "fst ` set partial \<subseteq> members v"
    and "mset (signers_of v agg) = mset (map (info_of v) (map fst partial))"
  shows "mset (map address (signers_of v agg)) = mset (map fst partial)"
proof -
  have "address (info_of v a) = a" if "a \<in> fst ` set partial" for a
  proof -
    have "a \<in> members v" using that assms(2) by blast
    from wf_index [OF assms(1) this] show ?thesis by (auto simp: info_of_def)
  qed
  then have "map address (map (info_of v) (map fst partial)) = map fst partial" by (auto simp: comp_def)
  then show ?thesis using arg_cong [OF assms(3), of "image_mset address"] by (simp only: mset_map [symmetric])
qed

lemma timeout_certificate_verifies:
  fixes C :: "'c consensus_crypto_scheme"
  assumes wf: "wf_verifier v" and len: "vv_len v < 65536"
    and bls: "bls_multi_correct (bls_sig_aggregate C) (bls_verify_timeout C) (bls_verify_timeouts C)"
    and m: "btree (tps_signatures tps)" and to: "to_verify C (tps_timeout tps) v = Ok ()"
    and valid: "\<forall>(a, (r, s)) \<in> set (tps_signatures tps). r \<le> hqc_round (tps_timeout tps) \<and> vv_verify (bls_verify_timeout C) v a
      \<lparr>tsr_epoch = to_epoch (tps_timeout tps), tsr_round = to_round (tps_timeout tps), tsr_hqc_round = r\<rparr> s = Ok ()"
    and top: "\<exists>a s. (a, (hqc_round (tps_timeout tps), s)) \<in> set (tps_signatures tps)"
    and quorum: "check_voting_power v (tps_signers tps) True = Ok p"
  shows "\<exists>tc. tps_aggregate_signatures C tps v = Ok tc \<and> tc_timeout tc = tps_timeout tps \<and> tc_verify C tc v = Ok ()"
proof -
  let ?m = "tps_signatures tps" and ?idx = "\<lambda>a. the (address_to_validator_index v a)"
  let ?repr = "\<lambda>r. \<lparr>tsr_epoch = to_epoch (tps_timeout tps), tsr_round = to_round (tps_timeout tps), tsr_hqc_round = r\<rparr>"
  let ?partial = "map (\<lambda>(a, (r, s)). (a, s)) ?m"
  have authors: "map fst ?partial = map fst ?m" by (simp add: comp_def case_prod_unfold)
  have distinct: "distinct (map fst ?m)" by (rule distinct_btree [OF m])
  have known: "fst ` set ?m \<subseteq> members v"
    using check_voting_power_quorum(1) [OF quorum wf] distinct by (simp add: tps_signers_def)
  have inj: "inj_on (address_to_validator_index v) (fst ` set ?m)"
  proof (rule inj_onI)
    fix a b
    assume "a \<in> fst ` set ?m" "b \<in> fst ` set ?m" and eq: "address_to_validator_index v a = address_to_validator_index v b"
    then have "a \<in> members v" "b \<in> members v" using known by blast+
    then show "a = b" using wf_index [OF wf, of a] wf_index [OF wf, of b] eq by auto
  qed
  have dom: "fst ` set ?m \<subseteq> dom (address_to_validator_index v)" using known wf by (simp add: wf_verifier_def)
  obtain rounds where split: "get_partial_sig_with_rounds ?m (address_to_validator_index v) = (?partial, map snd rounds)"
    and rounds: "btree rounds" "set rounds = (\<lambda>(a, (r, s)). (?idx a, r)) ` set ?m"
    by (rule partial_sig_with_rounds [OF m dom inj])
  have "\<forall>(a, (r, s)) \<in> set ?m. bls_verify_timeout C s (?repr r) (public_key (info_of v a))"
  proof (clarify)
    fix a r s
    assume "(a, (r, s)) \<in> set ?m"
    with valid have "vv_verify (bls_verify_timeout C) v a (?repr r) s = Ok ()" by blast
    then show "bls_verify_timeout C s (?repr r) (public_key (info_of v a))" by (rule verified_key(1))
  qed
  then obtain triples where triples: "map (\<lambda>(m, k, s). m) triples = map ?repr (map snd rounds)"
    "map (\<lambda>(m, k, s). k) triples = map (\<lambda>i. public_key (validator_infos v ! i)) (map fst rounds)"
    "\<forall>(m, k, s) \<in> set triples. bls_verify_timeout C s m k"
    and sigs: "mset (map (\<lambda>(a, (r, s)). s) ?m) = mset (map (\<lambda>(m, k, s). s) triples)"
    by (rule timeout_triples [OF wf m known rounds])
  have "triples \<noteq> []" using triples(1) rounds(2) top by (cases rounds) auto
  then obtain sig where sig: "bls_sig_aggregate C (map snd ?partial) = Some sig"
    "bls_verify_timeouts C sig (map (\<lambda>(m, k, s). m) triples) (map (\<lambda>(m, k, s). k) triples)"
    using bls [unfolded bls_multi_correct_def, rule_format, of triples "map snd ?partial"] triples(3) sigs
    by (auto simp: comp_def case_prod_unfold)
  have distinct': "distinct (map fst ?partial)" unfolding authors by (rule distinct)
  have known': "fst ` set ?partial \<subseteq> members v" using known authors by (metis set_map)
  obtain agg where agg: "aggregate_signatures (bls_sig_aggregate C) v ?partial = Ok agg" "agg_sig agg = Some sig"
    "check_num_of_voters (of_nat (vv_len v)) (validator_bitmask agg) = Ok ()"
    "collect_signers v (iter_ones (validator_bitmask agg)) = Ok (signers_of v agg)"
    and signers: "mset (signers_of v agg) = mset (map (info_of v) (map fst ?partial))" and bv: "wf_bv (validator_bitmask agg)"
    by (rule aggregate_signatures_Ok [of v ?partial "bls_sig_aggregate C" sig, OF wf len distinct' known' sig(1)])
  have order: "map fst rounds = iter_ones (validator_bitmask agg)"
    by (rule sorted_indices [OF wf known distinct signers [unfolded authors] agg(4) rounds(1)])
      (simp add: rounds(2) image_image case_prod_unfold)
  have voters: "get_num_voters agg = length rounds"
    using count_ones_length [OF bv] arg_cong [OF order, of length] by (simp add: get_num_voters_def)
  define tc where "tc = \<lparr>tc_timeout = tps_timeout tps, signatures_with_rounds = \<lparr>asr_sig = agg, asr_rounds = map snd rounds\<rparr>\<rparr>"
  have "tps_aggregate_signatures C tps v = Ok tc"
    using split agg(1) voters by (simp add: tps_aggregate_signatures_def asr_new_def assert_p_def tc_def)
  moreover have "tc_messages tc v = map (\<lambda>(m, k, s). m) triples"
  proof -
    have "length (get_signers_addresses agg (get_ordered_account_addresses v)) = length rounds"
      using signers_addresses [OF bv, of "get_ordered_account_addresses v"] agg(4) len arg_cong [OF order, of length]
      by (simp add: collect_signers_Ok get_ordered_account_addresses_def vv_len_def)
    then show ?thesis unfolding triples(1)
      by (intro nth_equalityI) (simp_all add: tc_messages_def tc_def get_voters_and_rounds_def case_prod_unfold)
  qed
  moreover have "map public_key (signers_of v agg) = map (\<lambda>(m, k, s). k) triples"
    unfolding triples(2) order signers_of_def by simp
  moreover have "check_voting_power v (map address (signers_of v agg)) True = Ok p"
    by (rule sum_voting_power_perm [OF quorum])
      (use signers_permute [OF wf known' signers] in \<open>simp only: authors tps_signers_def\<close>)
  moreover have "max_round (map snd rounds) = Some (hqc_round (tps_timeout tps))"
  proof (rule max_round_eq)
    have set: "set (map snd rounds) = (\<lambda>x. fst (snd x)) ` set ?m" by (simp add: rounds(2) image_image case_prod_unfold)
    show "hqc_round (tps_timeout tps) \<in> set (map snd rounds)" unfolding set using top by force
    show "\<forall>r \<in> set (map snd rounds). r \<le> hqc_round (tps_timeout tps)" unfolding set using valid by fastforce
  qed
  ultimately show ?thesis
    using agg(2-4) sig(2) to
    by (intro exI [of _ tc]) (simp add: tc_verify_def tc_def verify_aggregate_signatures_def)
qed

section \<open>The tally\<close>

text \<open>The first vote of an author counts, for the ledger info it names.\<close>

definition tally :: "vote list \<Rightarrow> author \<rightharpoonup> ledger_info" where
  "tally vs a = map_option vote_ledger_info (find (\<lambda>v. vote_author v = a) vs)"

definition supporters :: "vote list \<Rightarrow> ledger_info \<Rightarrow> author set" where
  "supporters vs li = {a. tally vs a = Some li}"

lemma tally_Nil [simp]: "tally [] = Map.empty"
  by (simp add: tally_def fun_eq_iff)

lemma tally_snoc:
  "tally (vs @ [v]) a = (if tally vs a = None \<and> vote_author v = a then Some (vote_ledger_info v) else tally vs a)"
  by (induction vs) (auto simp: tally_def)

lemma tally_in: "tally vs a = Some li \<Longrightarrow> li \<in> vote_ledger_info ` set vs"
  by (induction vs) (auto simp: tally_def split: if_splits)

definition vote_ok :: "'c consensus_crypto_scheme \<Rightarrow> validator_verifier \<Rightarrow> u64 \<Rightarrow> round \<Rightarrow> vote \<Rightarrow> bool" where
  "vote_ok C verifier epoch round v \<longleftrightarrow> vote_verify C v verifier = Ok () \<and> vote_epoch v = epoch \<and> vote_round v = round"

section \<open>The collected votes follow the tally\<close>

definition li_tracked ::
  "'c pending_crypto_scheme \<Rightarrow> validator_verifier \<Rightarrow> vote list \<Rightarrow> ledger_info_with_partial_signatures \<Rightarrow> bool" where
  "li_tracked C verifier vs lips \<longleftrightarrow> btree (partial_sigs lips) \<and>
     fst ` set (partial_sigs lips) = supporters vs (lips_ledger_info lips) \<and>
     (\<forall>(a, s) \<in> set (partial_sigs lips). vv_verify (bls_verify_li C) verifier a (lips_ledger_info lips) s = Ok ())"

definition votes_tracked :: "'c pending_crypto_scheme \<Rightarrow> validator_verifier \<Rightarrow> vote list \<Rightarrow> pending_votes \<Rightarrow> bool" where
  "votes_tracked C verifier vs pv \<longleftrightarrow>
     (\<forall>li \<in> ran (tally vs). \<exists>lips. li_digest_to_votes pv (ledger_info_hash C li) = Some lips \<and>
        lips_ledger_info lips = li \<and> li_tracked C verifier vs lips) \<and>
     (\<forall>d. li_digest_to_votes pv d \<noteq> None \<longrightarrow> d \<in> ledger_info_hash C ` ran (tally vs))"

definition authors_tracked :: "'c pending_crypto_scheme \<Rightarrow> vote list \<Rightarrow> pending_votes \<Rightarrow> bool" where
  "authors_tracked C vs pv \<longleftrightarrow>
     (\<forall>a. map_option snd (author_to_vote pv a) = map_option (ledger_info_hash C) (tally vs a))"

definition tc_tracked :: "'c pending_crypto_scheme \<Rightarrow> validator_verifier \<Rightarrow> u64 \<Rightarrow> round \<Rightarrow> pending_votes \<Rightarrow> bool" where
  "tc_tracked C verifier epoch round pv \<longleftrightarrow>
     (\<forall>tps. maybe_partial_2chain_tc pv = Some tps \<longrightarrow>
        btree (tps_signatures tps) \<and> to_epoch (tps_timeout tps) = epoch \<and> to_round (tps_timeout tps) = round \<and>
        to_verify C (tps_timeout tps) verifier = Ok () \<and>
        (\<forall>(a, (r, s)) \<in> set (tps_signatures tps). r \<le> hqc_round (tps_timeout tps) \<and>
           vv_verify (bls_verify_timeout C) verifier a \<lparr>tsr_epoch = epoch, tsr_round = round, tsr_hqc_round = r\<rparr> s = Ok ()) \<and>
        (\<exists>a s. (a, (hqc_round (tps_timeout tps), s)) \<in> set (tps_signatures tps)) \<and>
        (\<forall>a \<in> fst ` set (tps_signatures tps). \<exists>v d. author_to_vote pv a = Some (v, d) \<and> is_timeout v))"

definition pv_inv ::
  "'c pending_crypto_scheme \<Rightarrow> validator_verifier \<Rightarrow> u64 \<Rightarrow> round \<Rightarrow> vote list \<Rightarrow> pending_votes \<Rightarrow> bool" where
  "pv_inv C verifier epoch round vs pv \<longleftrightarrow>
     votes_tracked C verifier vs pv \<and> authors_tracked C vs pv \<and> tc_tracked C verifier epoch round pv"

lemma pv_new_inv: "pv_inv C verifier epoch round [] (pv_new ty now)"
  by (simp add: pv_inv_def votes_tracked_def authors_tracked_def tc_tracked_def pv_new_def)

lemma same_tally: "tally vs' = tally vs \<Longrightarrow> pv_inv C verifier epoch round vs' pv = pv_inv C verifier epoch round vs pv"
  by (simp add: pv_inv_def votes_tracked_def authors_tracked_def li_tracked_def supporters_def)

text \<open>What the certificates rely on: the verifier of the epoch, and the correctness of the signature scheme.\<close>

definition pending_env :: "'c pending_crypto_scheme \<Rightarrow> validator_verifier \<Rightarrow> bool" where
  "pending_env C verifier \<longleftrightarrow> wf_verifier verifier \<and> vv_len verifier < 65536 \<and> 0 < total_voting_power verifier \<and>
     (\<forall>li. bls_correct (bls_sig_aggregate C) (bls_pk_aggregate C) (bls_verify_li C) li) \<and>
     bls_multi_correct (bls_sig_aggregate C) (bls_verify_timeout C) (bls_verify_timeouts C)"

definition has_quorum :: "validator_verifier \<Rightarrow> author set \<Rightarrow> bool" where
  "has_quorum verifier A \<longleftrightarrow> unat (quorum_voting_power verifier) \<le> sum (vpower verifier) A"

lemma check_power_cases:
  assumes "wf_verifier v" and "set authors \<subseteq> members v" and "distinct authors"
  obtains p where "check_voting_power v authors True =
    (if has_quorum v (set authors) then Ok p else Err (TooLittleVotingPower p (quorum_voting_power v)))"
    and "has_quorum v (set authors) \<Longrightarrow> quorum_voting_power v \<le> p"
proof -
  have sum: "sum_list (map (vpower v) authors) = sum (vpower v) (set authors)"
    using assms(3) by (simp add: sum_list_distinct_conv_sum_set)
  have "finite (members v)" by (simp add: members_def)
  then have "sum (vpower v) (set authors) \<le> sum (vpower v) (members v)" using assms(2) by (intro sum_mono2) auto
  also have "\<dots> = unat (total_voting_power v)" by (rule sum_power_members [OF assms(1)])
  also have "\<dots> < 2 ^ 128" using unsigned_less [of "total_voting_power v"] by simp
  finally obtain p where "sum_voting_power_loop v authors 0 = Ok p" "unat p = sum (vpower v) (set authors)"
    using sum_voting_power_loop_total [of authors v 0] assms(1,2) sum by (auto simp: wf_verifier_def)
  then show thesis
    by (intro that [of p])
      (auto simp: check_voting_power_def sum_voting_power_def check_aggregated_voting_power_def has_quorum_def
        word_less_nat_alt word_le_nat_alt)
qed

lemma vote_ok_facts:
  assumes "vote_ok C verifier epoch round v"
  shows "vv_verify (bls_verify_li C) verifier (vote_author v) (vote_ledger_info v) (vote_signature v) = Ok ()"
    and "consensus_data_hash (vote_ledger_info v) = vote_data_hash C (vote_vote_data v)"
    and "vd_verify (vote_vote_data v) = Ok ()" and "vote_round v \<noteq> 0"
    and "vote_two_chain_timeout v = Some (timeout, sig) \<Longrightarrow> to_epoch timeout = epoch \<and> to_round timeout = round \<and>
      to_verify C timeout verifier = Ok () \<and>
      vv_verify (bls_verify_timeout C) verifier (vote_author v) (signing_format timeout) sig = Ok ()"
proof -
  have ok: "vote_verify C v verifier = Ok ()" "vote_epoch v = epoch" "vote_round v = round"
    using assms by (simp_all add: vote_ok_def)
  show vd: "vd_verify (vote_vote_data v) = Ok ()" using ok(1) by (auto simp: vote_verify_def result_simps)
  show "vote_round v \<noteq> 0" using vd by (auto simp: vd_verify_def result_simps)
  show "vv_verify (bls_verify_li C) verifier (vote_author v) (vote_ledger_info v) (vote_signature v) = Ok ()"
    "consensus_data_hash (vote_ledger_info v) = vote_data_hash C (vote_vote_data v)"
    using ok(1) by (auto simp: vote_verify_def result_simps)
  show "to_epoch timeout = epoch \<and> to_round timeout = round \<and> to_verify C timeout verifier = Ok () \<and>
      vv_verify (bls_verify_timeout C) verifier (vote_author v) (signing_format timeout) sig = Ok ()"
    if "vote_two_chain_timeout v = Some (timeout, sig)"
    using ok that by (auto simp: vote_verify_def result_simps)
qed

lemma tracked_members:
  assumes "wf_verifier verifier" and "li_tracked C verifier vs lips"
  shows "set (map fst (partial_sigs lips)) \<subseteq> members verifier" and "distinct (map fst (partial_sigs lips))"
  using assms verified_key(2) [OF _ assms(1)] distinct_btree by (fastforce simp: li_tracked_def)+

lemma certificate_verifies:
  assumes "pending_env C verifier" and "vote_ok C verifier epoch round v" and "li_tracked C verifier vs lips"
    and "lips_ledger_info lips = vote_ledger_info v" and "has_quorum verifier (set (map fst (partial_sigs lips)))"
  shows "\<exists>qc. aggregate_qc_now C verifier lips (vote_vote_data v) = Ok (NewQuorumCertificate qc) \<and>
    qc_verify C qc verifier = Ok () \<and> qc_vote_data qc = vote_vote_data v"
proof -
  have env: "wf_verifier verifier" "vv_len verifier < 65536"
    "bls_correct (bls_sig_aggregate C) (bls_pk_aggregate C) (bls_verify_li C) (lips_ledger_info lips)"
    using assms(1) by (simp_all add: pending_env_def)
  note keys = tracked_members [OF env(1) assms(3)]
  obtain p where p: "check_voting_power verifier (map fst (partial_sigs lips)) True = Ok p"
    using check_power_cases [OF env(1) keys] assms(5) by metis
  have valid: "\<forall>(a, s) \<in> set (partial_sigs lips). vv_verify (bls_verify_li C) verifier a (lips_ledger_info lips) s = Ok ()"
    using assms(3) by (simp add: li_tracked_def)
  obtain agg where agg: "aggregate_signatures (bls_sig_aggregate C) verifier (partial_sigs lips) = Ok agg"
    "verify_multi_signatures (bls_pk_aggregate C) (bls_verify_li C) verifier (lips_ledger_info lips) agg = Ok ()"
    using aggregation_verifies [OF env keys(2) valid p] by blast
  define qc where "qc = qc_new (vote_vote_data v) (lis_new (lips_ledger_info lips) agg)"
  have "aggregate_qc_now C verifier lips (vote_vote_data v) = Ok (NewQuorumCertificate qc)"
    using agg(1) by (simp add: aggregate_qc_now_def lips_aggregate_signatures_def qc_def)
  moreover have "qc_verify C qc verifier = Ok ()"
    using vote_ok_facts(2-4) [OF assms(2)] agg(2) assms(4)
    by (simp add: qc_verify_def qc_def qc_new_def lis_verify_signatures_def lis_new_def)
  ultimately show ?thesis by (auto simp: qc_def qc_new_def)
qed

definition outcome_ok ::
  "'c pending_crypto_scheme \<Rightarrow> validator_verifier \<Rightarrow> u64 \<Rightarrow> round \<Rightarrow> vote \<Rightarrow> vote_reception_result \<Rightarrow> bool" where
  "outcome_ok C verifier epoch round v res \<longleftrightarrow>
     (case res of
        NewQuorumCertificate qc \<Rightarrow> qc_verify C qc verifier = Ok () \<and> qc_vote_data qc = vote_vote_data v
      | New2ChainTimeoutCertificate tc \<Rightarrow> tc_verify C tc verifier = Ok () \<and> tc_epoch tc = epoch \<and> tc_round tc = round
      | ErrorAddingVote _ \<Rightarrow> False
      | ErrorAggregatingSignature _ \<Rightarrow> False
      | ErrorAggregatingTimeoutCertificate _ \<Rightarrow> False
      | UnexpectedRound _ _ \<Rightarrow> False
      | _ \<Rightarrow> True)"

lemma handle_aggregated_qc_ok:
  assumes "pending_env C verifier" and "vote_ok C verifier epoch round v" and "li_tracked C verifier vs lips"
    and "lips_ledger_info lips = vote_ledger_info v" and "has_quorum verifier (set (map fst (partial_sigs lips)))"
    and "quorum_voting_power verifier \<le> p"
  shows "handle_aggregated_qc C now agg verifier p v lips = Ok (res, agg') \<Longrightarrow> outcome_ok C verifier epoch round v res"
    and "\<exists>qc. handle_aggregated_qc C now NoDelayQcAggregator verifier p v lips = Ok (NewQuorumCertificate qc, NoDelayQcAggregator)"
proof -
  obtain qc where qc: "aggregate_qc_now C verifier lips (vote_vote_data v) = Ok (NewQuorumCertificate qc)"
    "qc_verify C qc verifier = Ok ()" "qc_vote_data qc = vote_vote_data v"
    using certificate_verifies [OF assms(1-5)] by blast
  show "outcome_ok C verifier epoch round v res" if "handle_aggregated_qc C now agg verifier p v lips = Ok (res, agg')"
    using that qc
    by (cases agg) (auto simp: handle_aggregated_qc_def delayed_handle_aggregated_qc_def result_simps Let_def outcome_ok_def split: if_splits)
  show "\<exists>qc. handle_aggregated_qc C now NoDelayQcAggregator verifier p v lips = Ok (NewQuorumCertificate qc, NoDelayQcAggregator)"
    using qc(1) assms(6) by (simp add: handle_aggregated_qc_def assert_p_def)
qed

text \<open>A vote is counted unless its author has voted for another ledger info.\<close>

definition countable :: "vote list \<Rightarrow> vote \<Rightarrow> bool" where
  "countable vs v \<longleftrightarrow> tally vs (vote_author v) = None \<or> tally vs (vote_author v) = Some (vote_ledger_info v)"

lemma tally_counted: "countable vs v \<Longrightarrow> tally (vs @ [v]) = (tally vs)(vote_author v \<mapsto> vote_ledger_info v)"
  by (auto simp: countable_def tally_snoc fun_eq_iff)

lemma ran_counted: "countable vs v \<Longrightarrow> ran (tally (vs @ [v])) = insert (vote_ledger_info v) (ran (tally vs))"
proof -
  assume c: "countable vs v"
  let ?t = "(tally vs)(vote_author v \<mapsto> vote_ledger_info v)"
  have "li \<in> ran ?t" if "tally vs a = Some li" for a li
    by (rule ranI [of _ a]) (use that c in \<open>auto simp: countable_def\<close>)
  then have "ran (tally vs) \<subseteq> ran ?t" by (auto simp: ran_def [of "tally vs"])
  moreover have "ran ?t \<subseteq> insert (vote_ledger_info v) (ran (tally vs))" by (auto simp: ran_def split: if_splits)
  moreover have "vote_ledger_info v \<in> ran ?t" by (rule ranI [of _ "vote_author v"]) simp
  ultimately show ?thesis unfolding tally_counted [OF c] by blast
qed

lemma supporters_counted:
  "countable vs v \<Longrightarrow> supporters (vs @ [v]) li =
     (if li = vote_ledger_info v then insert (vote_author v) (supporters vs li) else supporters vs li)"
  by (auto simp: supporters_def tally_counted countable_def)

lemma counted_tracked:
  assumes "votes_tracked C verifier vs pv" and "countable vs v" and "vote_ok C verifier epoch round v"
    and "inj_on (ledger_info_hash C) (vote_ledger_info ` set (vs @ [v]))"
  shows "lips_ledger_info (counted C pv v) = vote_ledger_info v" and "li_tracked C verifier (vs @ [v]) (counted C pv v)"
proof -
  let ?d = "ledger_info_hash C (vote_ledger_info v)" and ?li = "vote_ledger_info v"
  define lips where "lips = (case li_digest_to_votes pv ?d of Some lips \<Rightarrow> lips | None \<Rightarrow> lips_new ?li [])"
  have lips: "lips_ledger_info lips = ?li \<and> li_tracked C verifier vs lips"
  proof (cases "?li \<in> ran (tally vs)")
    case True
    with assms(1) show ?thesis by (auto simp: votes_tracked_def lips_def)
  next
    case False
    have "?d \<notin> ledger_info_hash C ` ran (tally vs)"
    proof
      assume "?d \<in> ledger_info_hash C ` ran (tally vs)"
      then obtain a li where li: "tally vs a = Some li" "ledger_info_hash C li = ?d" by (auto simp: ran_def)
      with assms(4) tally_in [OF li(1)] have "li = ?li" by (auto simp: inj_on_def)
      with li(1) False show False by (auto simp: ran_def)
    qed
    with assms(1) have "li_digest_to_votes pv ?d = None" by (auto simp: votes_tracked_def)
    with False show ?thesis by (auto simp: lips_def lips_new_def li_tracked_def supporters_def ran_def)
  qed
  have c: "counted C pv v = lips\<lparr>partial_sigs := ps_add_signature (partial_sigs lips) (vote_author v) (vote_signature v)\<rparr>"
    by (simp add: counted_def lips_def lips_add_signature_def)
  show "lips_ledger_info (counted C pv v) = ?li" using lips by (simp add: c)
  have "btree (partial_sigs lips)" using lips by (simp add: li_tracked_def)
  note add = ps_add_signature_insert [OF this]
  show "li_tracked C verifier (vs @ [v]) (counted C pv v)"
    using lips supporters_counted [OF assms(2)] vote_ok_facts(1) [OF assms(3)]
    by (auto simp: li_tracked_def c add set_btree_insert_new)
qed

text \<open>The author of the vote has not timed out yet.\<close>

definition no_timeout_yet :: "pending_votes \<Rightarrow> author \<Rightarrow> bool" where
  "no_timeout_yet pv a \<longleftrightarrow> (\<forall>v d. author_to_vote pv a = Some (v, d) \<longrightarrow> \<not> is_timeout v)"

definition tc_signers :: "pending_votes \<Rightarrow> author set" where
  "tc_signers pv = (case maybe_partial_2chain_tc pv of Some tps \<Rightarrow> fst ` set (tps_signatures tps) | None \<Rightarrow> {})"

lemma no_timeout_no_signer: "tc_tracked C verifier epoch round pv \<Longrightarrow> no_timeout_yet pv a \<Longrightarrow> a \<notin> tc_signers pv"
  by (fastforce simp: tc_tracked_def no_timeout_yet_def tc_signers_def split: option.splits)

lemma with_vote_inv:
  assumes "pv_inv C verifier epoch round vs pv" and "countable vs v" and "vote_ok C verifier epoch round v"
    and "inj_on (ledger_info_hash C) (vote_ledger_info ` set (vs @ [v]))" and "no_timeout_yet pv (vote_author v)"
  shows "pv_inv C verifier epoch round (vs @ [v]) (with_vote C pv v)"
proof -
  have inv: "votes_tracked C verifier vs pv" "authors_tracked C vs pv" "tc_tracked C verifier epoch round pv"
    using assms(1) by (simp_all add: pv_inv_def)
  note counted = counted_tracked [OF inv(1) assms(2-4)]
  let ?h = "ledger_info_hash C" and ?li = "vote_ledger_info v"
  have "votes_tracked C verifier (vs @ [v]) (with_vote C pv v)"
    unfolding votes_tracked_def
  proof (intro conjI ballI allI impI)
    fix li
    assume "li \<in> ran (tally (vs @ [v]))"
    then have li: "li \<in> vote_ledger_info ` set (vs @ [v])" using tally_in by (fastforce simp: ran_def)
    show "\<exists>lips. li_digest_to_votes (with_vote C pv v) (?h li) = Some lips \<and> lips_ledger_info lips = li \<and>
      li_tracked C verifier (vs @ [v]) lips"
    proof (cases "li = ?li")
      case True
      with counted show ?thesis by (simp add: with_vote_def)
    next
      case False
      with \<open>li \<in> ran (tally (vs @ [v]))\<close> have "li \<in> ran (tally vs)"
        by (auto simp: tally_counted [OF assms(2)] ran_def split: if_splits)
      moreover have "?h li \<noteq> ?h ?li" using False li assms(4) by (auto simp: inj_on_def)
      ultimately show ?thesis
        using inv(1) False by (auto simp: votes_tracked_def with_vote_def li_tracked_def supporters_counted [OF assms(2)])
    qed
  next
    fix d
    assume "li_digest_to_votes (with_vote C pv v) d \<noteq> None"
    then have "d = ?h ?li \<or> d \<in> ?h ` ran (tally vs)" using inv(1) by (auto simp: with_vote_def votes_tracked_def split: if_splits)
    moreover have "ran (tally vs) \<subseteq> ran (tally (vs @ [v]))" "?li \<in> ran (tally (vs @ [v]))"
      using ran_counted [OF assms(2)] by auto
    ultimately show "d \<in> ?h ` ran (tally (vs @ [v]))" by blast
  qed
  moreover have "authors_tracked C (vs @ [v]) (with_vote C pv v)"
    using inv(2) by (simp add: authors_tracked_def with_vote_def tally_counted [OF assms(2)])
  moreover have "tc_tracked C verifier epoch round (with_vote C pv v)"
  proof -
    have "\<forall>tps. maybe_partial_2chain_tc pv = Some tps \<longrightarrow> (\<forall>x \<in> set (tps_signatures tps). fst x \<noteq> vote_author v)"
      using no_timeout_no_signer [OF inv(3) assms(5)] by (force simp: tc_signers_def)
    with inv(3) show ?thesis by (fastforce simp: tc_tracked_def with_vote_def)
  qed
  ultimately show ?thesis by (simp add: pv_inv_def)
qed

lemma tc_tracked_timeout:
  assumes "tc_tracked C verifier epoch round pv" and "vote_ok C verifier epoch round v"
    and "vote_two_chain_timeout v = Some (timeout, sig)" and "vote_author v \<notin> tc_signers pv"
    and "author_to_vote pv (vote_author v) = Some (v, d)"
    and "tps = tps_add (case maybe_partial_2chain_tc pv of Some tps \<Rightarrow> tps | None \<Rightarrow> tps_new timeout) (vote_author v) timeout sig"
  shows "tc_tracked C verifier epoch round (pv\<lparr>maybe_partial_2chain_tc := Some tps\<rparr>)"
proof -
  define old where "old = (case maybe_partial_2chain_tc pv of Some tps \<Rightarrow> tps | None \<Rightarrow> tps_new timeout)"
  note to = vote_ok_facts(5) [OF assms(2,3)]
  have btree: "btree (tps_signatures old)" using assms(1) by (auto simp: old_def tc_tracked_def tps_new_def split: option.splits)
  have fresh: "vote_author v \<notin> fst ` set (tps_signatures old)"
    using assms(4) by (auto simp: old_def tc_signers_def tps_new_def split: option.splits)
  have sigs: "set (tps_signatures tps) = insert (vote_author v, (hqc_round timeout, sig)) (set (tps_signatures old))"
    "btree (tps_signatures tps)"
    using btree fresh by (simp_all add: assms(6) tps_add_def old_def [symmetric] psr_add_signature_insert set_btree_insert_new)
  have timed: "is_timeout v" using assms(3) by (simp add: is_timeout_def)
  have new: "tps_timeout tps = (if hqc_round timeout > hqc_round (tps_timeout old) then timeout else tps_timeout old)"
    by (simp add: assms(6) tps_add_def old_def [symmetric])
  show ?thesis
  proof (cases "maybe_partial_2chain_tc pv")
    case None
    then have "tps_timeout tps = timeout" "set (tps_signatures old) = {}" using new by (simp_all add: old_def tps_new_def)
    with to sigs timed assms(5) show ?thesis by (auto simp: tc_tracked_def signing_format_def)
  next
    case (Some tps0)
    then have old: "old = tps0" by (simp add: old_def)
    from assms(1) Some have 0: "to_epoch (tps_timeout tps0) = epoch" "to_round (tps_timeout tps0) = round"
      "to_verify C (tps_timeout tps0) verifier = Ok ()"
      "\<forall>(a, (r, s)) \<in> set (tps_signatures tps0). r \<le> hqc_round (tps_timeout tps0) \<and>
         vv_verify (bls_verify_timeout C) verifier a \<lparr>tsr_epoch = epoch, tsr_round = round, tsr_hqc_round = r\<rparr> s = Ok ()"
      "\<exists>a s. (a, (hqc_round (tps_timeout tps0), s)) \<in> set (tps_signatures tps0)"
      "\<forall>a \<in> fst ` set (tps_signatures tps0). \<exists>v d. author_to_vote pv a = Some (v, d) \<and> is_timeout v"
      by (simp_all add: tc_tracked_def)
    have "\<forall>(a, (r, s)) \<in> set (tps_signatures tps). r \<le> hqc_round (tps_timeout tps) \<and>
      vv_verify (bls_verify_timeout C) verifier a \<lparr>tsr_epoch = epoch, tsr_round = round, tsr_hqc_round = r\<rparr> s = Ok ()"
      using 0(4) to by (auto simp: sigs(1) old new signing_format_def)
    moreover have "\<exists>a s. (a, (hqc_round (tps_timeout tps), s)) \<in> set (tps_signatures tps)"
      using 0(5) by (auto simp: sigs(1) old new)
    moreover have "\<forall>a \<in> fst ` set (tps_signatures tps). \<exists>v d. author_to_vote pv a = Some (v, d) \<and> is_timeout v"
      using 0(6) assms(5) timed by (auto simp: sigs(1) old)
    moreover have "to_epoch (tps_timeout tps) = epoch" "to_round (tps_timeout tps) = round"
      "to_verify C (tps_timeout tps) verifier = Ok ()"
      using 0(1-3) to by (simp_all add: new old)
    ultimately show ?thesis using sigs(2) by (simp add: tc_tracked_def)
  qed
qed

lemma f_plus_one:
  fixes total :: u128
  assumes "quorum \<le> total" and "0 < quorum"
  shows "and_then (sub_p total quorum) (\<lambda>f. and_then (add_p f 1) g) = g (total - quorum + 1)"
proof -
  have "unat (total - quorum) = unat total - unat quorum" using assms(1) by (rule unat_sub)
  moreover have "unat total < 2 ^ 128" using unsigned_less [of total] by simp
  moreover have "0 < unat quorum" using assms(2) by (simp add: word_less_nat_alt)
  ultimately have "unat (total - quorum) + 1 < 2 ^ 128" using assms(1) by (simp add: word_le_nat_alt)
  then show ?thesis using assms(1) by (simp add: sub_p_def checked_sub_def add_p_def checked_add_def)
qed

lemma insert_timeout_step:
  assumes env: "pending_env C verifier" and inv: "pv_inv C verifier epoch round vs pv" and "vote_ok C verifier epoch round v"
    and "vote_two_chain_timeout v = Some (timeout, sig)" and "vote_author v \<notin> tc_signers pv"
    and "author_to_vote pv (vote_author v) = Some (v, d)"
  shows "\<exists>res pv'. insert_timeout C pv v timeout sig verifier p = Ok (res, pv') \<and> pv_inv C verifier epoch round vs pv' \<and>
    outcome_ok C verifier epoch round v res \<and> (\<forall>qc. res \<noteq> NewQuorumCertificate qc) \<and> res \<noteq> EquivocateVote \<and>
    pv_qc_aggregator pv' = pv_qc_aggregator pv"
proof -
  define tps where "tps = tps_add (case maybe_partial_2chain_tc pv of Some tps \<Rightarrow> tps | None \<Rightarrow> tps_new timeout) (vote_author v) timeout sig"
  define pv1 where "pv1 = pv\<lparr>maybe_partial_2chain_tc := Some tps\<rparr>"
  have inv3: "tc_tracked C verifier epoch round pv" using inv by (simp add: pv_inv_def)
  have tc: "tc_tracked C verifier epoch round pv1"
    unfolding pv1_def by (rule tc_tracked_timeout [OF inv3 assms(3-6) tps_def])
  then have facts: "btree (tps_signatures tps)" "to_epoch (tps_timeout tps) = epoch" "to_round (tps_timeout tps) = round"
    "to_verify C (tps_timeout tps) verifier = Ok ()"
    "\<forall>(a, (r, s)) \<in> set (tps_signatures tps). r \<le> hqc_round (tps_timeout tps) \<and>
       vv_verify (bls_verify_timeout C) verifier a \<lparr>tsr_epoch = epoch, tsr_round = round, tsr_hqc_round = r\<rparr> s = Ok ()"
    "\<exists>a s. (a, (hqc_round (tps_timeout tps), s)) \<in> set (tps_signatures tps)"
    by (simp_all add: tc_tracked_def pv1_def)
  have inv1: "pv_inv C verifier epoch round vs pv1"
    using inv tc by (simp add: pv_inv_def votes_tracked_def authors_tracked_def pv1_def)
  have echo: "pv_inv C verifier epoch round vs (pv1\<lparr>echo_timeout := True\<rparr>)"
    using inv1 by (simp add: pv_inv_def votes_tracked_def authors_tracked_def tc_tracked_def)
  have wf: "wf_verifier verifier" "vv_len verifier < 65536" "0 < total_voting_power verifier"
    "bls_multi_correct (bls_sig_aggregate C) (bls_verify_timeout C) (bls_verify_timeouts C)"
    using env by (simp_all add: pending_env_def)
  have keys: "set (tps_signers tps) \<subseteq> members verifier" "distinct (tps_signers tps)"
    using facts(5) verified_key(2) [OF _ wf(1)] distinct_btree [OF facts(1)] by (fastforce simp: tps_signers_def)+
  obtain q where q: "check_voting_power verifier (tps_signers tps) True =
    (if has_quorum verifier (set (tps_signers tps)) then Ok q else Err (TooLittleVotingPower q (quorum_voting_power verifier)))"
    using check_power_cases [OF wf(1) keys] by metis
  note run = insert_timeout_def Let_def tps_def [symmetric] pv1_def [symmetric]
  have agg: "pv_qc_aggregator pv1 = pv_qc_aggregator pv" by (simp add: pv1_def)
  show ?thesis
  proof (cases "has_quorum verifier (set (tps_signers tps))")
    case True
    with q have Ok: "check_voting_power verifier (tps_signers tps) True = Ok q" by simp
    have "\<exists>tc. tps_aggregate_signatures C tps verifier = Ok tc \<and> tc_timeout tc = tps_timeout tps \<and> tc_verify C tc verifier = Ok ()"
      by (rule timeout_certificate_verifies [OF wf(1,2,4) facts(1,4) _ facts(6) Ok]) (use facts(2,3,5) in simp)
    then obtain tc where tc: "tps_aggregate_signatures C tps verifier = Ok tc" "tc_timeout tc = tps_timeout tps"
      "tc_verify C tc verifier = Ok ()" by blast
    then show ?thesis using Ok inv1 facts(2,3) agg by (simp add: run outcome_ok_def)
  next
    case False
    have quorum: "quorum_voting_power verifier \<le> total_voting_power verifier" "0 < quorum_voting_power verifier"
      using wf(1,3) by (auto simp: wf_verifier_def word_le_nat_alt word_less_nat_alt)
    then have room: "(and_then (sub_p (total_voting_power verifier) (quorum_voting_power verifier)) (\<lambda>f. and_then (add_p f 1) g)) =
      g (total_voting_power verifier - quorum_voting_power verifier + 1)" for g :: "u128 \<Rightarrow> (vote_reception_result \<times> pending_votes, unit) result"
      by (rule f_plus_one)
    from False q have Err: "check_voting_power verifier (tps_signers tps) True = Err (TooLittleVotingPower q (quorum_voting_power verifier))"
      by simp
    show ?thesis using Err inv1 echo agg by (auto simp: run room outcome_ok_def)
  qed
qed

lemma store_vote_step:
  assumes env: "pending_env C verifier" and inv: "pv_inv C verifier epoch round vs pv" and "countable vs v"
    and ok: "vote_ok C verifier epoch round v" and inj: "inj_on (ledger_info_hash C) (vote_ledger_info ` set (vs @ [v]))"
    and fresh: "no_timeout_yet pv (vote_author v)"
  shows "store_vote C now pv v verifier = Ok (res, pv') \<Longrightarrow>
      pv_inv C verifier epoch round (vs @ [v]) pv' \<and> outcome_ok C verifier epoch round v res"
    and "pv_qc_aggregator pv = NoDelayQcAggregator \<Longrightarrow> \<exists>res pv'. store_vote C now pv v verifier = Ok (res, pv') \<and>
      pv_qc_aggregator pv' = NoDelayQcAggregator \<and> res \<noteq> EquivocateVote \<and>
      ((\<exists>qc. res = NewQuorumCertificate qc) \<longleftrightarrow> has_quorum verifier (supporters (vs @ [v]) (vote_ledger_info v)))"
proof -
  have inv': "pv_inv C verifier epoch round (vs @ [v]) (with_vote C pv v)" by (rule with_vote_inv [OF inv assms(3) ok inj fresh])
  have agg_irrelevant: "pv_inv C verifier epoch round (vs @ [v]) ((with_vote C pv v)\<lparr>pv_qc_aggregator := agg\<rparr>)" for agg
    using inv' by (simp add: pv_inv_def votes_tracked_def authors_tracked_def tc_tracked_def)
  have parts: "votes_tracked C verifier vs pv" "tc_tracked C verifier epoch round pv" using inv by (simp_all add: pv_inv_def)
  have wf: "wf_verifier verifier" using env by (simp add: pending_env_def)
  let ?lips = "counted C pv v"
  note tracked = counted_tracked [OF parts(1) assms(3) ok inj]
  note keys = tracked_members [OF wf tracked(2)]
  have supp: "set (map fst (partial_sigs ?lips)) = supporters (vs @ [v]) (vote_ledger_info v)"
    using tracked by (simp add: li_tracked_def)
  obtain p where p: "check_voting_power verifier (map fst (partial_sigs ?lips)) True =
    (if has_quorum verifier (set (map fst (partial_sigs ?lips))) then Ok p else Err (TooLittleVotingPower p (quorum_voting_power verifier)))"
    "has_quorum verifier (set (map fst (partial_sigs ?lips))) \<longrightarrow> quorum_voting_power verifier \<le> p"
    using check_power_cases [OF wf keys] by blast
  have signer: "vote_author v \<notin> tc_signers (with_vote C pv v)"
    using no_timeout_no_signer [OF parts(2) fresh] by (simp add: tc_signers_def with_vote_def)
  have stored: "author_to_vote (with_vote C pv v) (vote_author v) = Some (v, ledger_info_hash C (vote_ledger_info v))"
    "pv_qc_aggregator (with_vote C pv v) = pv_qc_aggregator pv" by (simp_all add: with_vote_def)
  have timeout: "\<exists>res pv'. insert_timeout C (with_vote C pv v) v timeout sig verifier p = Ok (res, pv') \<and>
      pv_inv C verifier epoch round (vs @ [v]) pv' \<and> outcome_ok C verifier epoch round v res \<and>
      (\<forall>qc. res \<noteq> NewQuorumCertificate qc) \<and> res \<noteq> EquivocateVote \<and> pv_qc_aggregator pv' = pv_qc_aggregator pv"
    if "vote_two_chain_timeout v = Some (timeout, sig)" for timeout sig
    using insert_timeout_step [OF env inv' ok that signer stored(1)] stored(2) by simp
  note handled = handle_aggregated_qc_ok [OF env ok tracked(2,1)]
  show "pv_inv C verifier epoch round (vs @ [v]) pv' \<and> outcome_ok C verifier epoch round v res"
    if run: "store_vote C now pv v verifier = Ok (res, pv')"
  proof (cases "has_quorum verifier (set (map fst (partial_sigs ?lips)))")
    case True
    with run p(1) show ?thesis
      using handled(1) [OF True p(2) [rule_format, OF True]] agg_irrelevant by (auto simp: store_vote_def result_simps)
  next
    case False
    show ?thesis
    proof (cases "vote_two_chain_timeout v")
      case None
      with False run p(1) inv' show ?thesis by (auto simp: store_vote_def outcome_ok_def)
    next
      case (Some t)
      obtain timeout sig where t: "t = (timeout, sig)" by (cases t)
      with False Some run p(1) timeout [of timeout sig] show ?thesis by (auto simp: store_vote_def)
    qed
  qed
  show "\<exists>res pv'. store_vote C now pv v verifier = Ok (res, pv') \<and>
      pv_qc_aggregator pv' = NoDelayQcAggregator \<and> res \<noteq> EquivocateVote \<and>
      ((\<exists>qc. res = NewQuorumCertificate qc) \<longleftrightarrow> has_quorum verifier (supporters (vs @ [v]) (vote_ledger_info v)))"
    if nodelay: "pv_qc_aggregator pv = NoDelayQcAggregator"
  proof (cases "has_quorum verifier (set (map fst (partial_sigs ?lips)))")
    case True
    obtain qc where "handle_aggregated_qc C now NoDelayQcAggregator verifier p v ?lips = Ok (NewQuorumCertificate qc, NoDelayQcAggregator)"
      using handled(2) [OF True p(2) [rule_format, OF True]] by blast
    with True p(1) nodelay supp show ?thesis by (simp add: store_vote_def)
  next
    case False
    show ?thesis
    proof (cases "vote_two_chain_timeout v")
      case None
      with False p(1) nodelay supp stored(2) show ?thesis by (simp add: store_vote_def)
    next
      case (Some t)
      obtain timeout sig where t: "t = (timeout, sig)" by (cases t)
      with False Some p(1) nodelay supp timeout [of timeout sig] show ?thesis by (auto simp: store_vote_def)
    qed
  qed
qed

section \<open>Sequences of votes\<close>

lemma insert_vote_cases:
  assumes "pv_inv C verifier epoch round vs pv" and inj: "inj_on (ledger_info_hash C) (vote_ledger_info ` set (vs @ [v]))"
  obtains (equivocate) "\<not> countable vs v" and "tally (vs @ [v]) = tally vs" and "insert_vote C now pv v verifier = Ok (EquivocateVote, pv)"
  | (duplicate) "countable vs v" and "tally vs (vote_author v) \<noteq> None" and "tally (vs @ [v]) = tally vs"
      and "insert_vote C now pv v verifier = Ok (DuplicateVote, pv)"
  | (store) "countable vs v" and "no_timeout_yet pv (vote_author v)"
      and "insert_vote C now pv v verifier = store_vote C now pv v verifier"
proof (cases "author_to_vote pv (vote_author v)")
  case None
  have "map_option snd (author_to_vote pv (vote_author v)) = map_option (ledger_info_hash C) (tally vs (vote_author v))"
    using assms(1) by (simp add: pv_inv_def authors_tracked_def)
  with None have "countable vs v" by (simp add: countable_def)
  moreover have "no_timeout_yet pv (vote_author v)" using None by (simp add: no_timeout_yet_def)
  moreover have "insert_vote C now pv v verifier = store_vote C now pv v verifier" using None by (simp add: insert_vote_def)
  ultimately show thesis by (rule store)
next
  case (Some x)
  obtain w d where x: "x = (w, d)" by (cases x)
  have "map_option snd (author_to_vote pv (vote_author v)) = map_option (ledger_info_hash C) (tally vs (vote_author v))"
    using assms(1) by (simp add: pv_inv_def authors_tracked_def)
  then obtain li where li: "tally vs (vote_author v) = Some li" "ledger_info_hash C li = d" using Some x by (cases "tally vs (vote_author v)") auto
  have same: "ledger_info_hash C (vote_ledger_info v) = d \<longleftrightarrow> countable vs v"
  proof -
    have "ledger_info_hash C (vote_ledger_info v) = ledger_info_hash C li \<longleftrightarrow> vote_ledger_info v = li"
      by (rule inj_on_eq_iff [OF inj]) (use tally_in [OF li(1)] in auto)
    with li show ?thesis by (auto simp: countable_def)
  qed
  have unchanged: "tally (vs @ [v]) = tally vs" using li(1) by (intro ext) (auto simp: tally_snoc)
  have run: "insert_vote C now pv v verifier = (if countable vs v then
      if is_timeout v \<and> \<not> is_timeout w then store_vote C now pv v verifier else Ok (DuplicateVote, pv)
    else Ok (EquivocateVote, pv))"
    unfolding insert_vote_def Let_def Some x by (simp add: same)
  show thesis
  proof (cases "countable vs v")
    case True
    show thesis
    proof (cases "is_timeout v \<and> \<not> is_timeout w")
      case later: True
      have "no_timeout_yet pv (vote_author v)" using later Some x by (simp add: no_timeout_yet_def)
      with True later run show thesis by (intro store) simp_all
    next
      case False
      with True li(1) unchanged run show thesis by (intro duplicate) simp_all
    qed
  next
    case False
    with unchanged run show thesis by (intro equivocate) simp_all
  qed
qed

lemma insert_vote_step:
  assumes env: "pending_env C verifier" and inv: "pv_inv C verifier epoch round vs pv"
    and ok: "vote_ok C verifier epoch round v" and inj: "inj_on (ledger_info_hash C) (vote_ledger_info ` set (vs @ [v]))"
  shows "insert_vote C now pv v verifier = Ok (res, pv') \<Longrightarrow>
      pv_inv C verifier epoch round (vs @ [v]) pv' \<and> outcome_ok C verifier epoch round v res"
    and "pv_qc_aggregator pv = NoDelayQcAggregator \<Longrightarrow> \<exists>res pv'. insert_vote C now pv v verifier = Ok (res, pv') \<and>
      pv_qc_aggregator pv' = NoDelayQcAggregator \<and> (res = EquivocateVote \<longleftrightarrow> \<not> countable vs v) \<and>
      (tally vs (vote_author v) = None \<longrightarrow>
         ((\<exists>qc. res = NewQuorumCertificate qc) \<longleftrightarrow> has_quorum verifier (supporters (vs @ [v]) (vote_ledger_info v))))"
proof -
  show "pv_inv C verifier epoch round (vs @ [v]) pv' \<and> outcome_ok C verifier epoch round v res"
    if "insert_vote C now pv v verifier = Ok (res, pv')"
  proof (rule insert_vote_cases [OF inv inj, where now = now], goal_cases)
    case 1
    with that inv show ?case by (simp add: same_tally [OF 1(2)] outcome_ok_def)
  next
    case 2
    with that inv show ?case by (simp add: same_tally [OF 2(3)] outcome_ok_def)
  next
    case 3
    with that show ?case by (intro store_vote_step(1) [OF env inv _ ok inj]) simp_all
  qed
  show "\<exists>res pv'. insert_vote C now pv v verifier = Ok (res, pv') \<and>
      pv_qc_aggregator pv' = NoDelayQcAggregator \<and> (res = EquivocateVote \<longleftrightarrow> \<not> countable vs v) \<and>
      (tally vs (vote_author v) = None \<longrightarrow>
         ((\<exists>qc. res = NewQuorumCertificate qc) \<longleftrightarrow> has_quorum verifier (supporters (vs @ [v]) (vote_ledger_info v))))"
    if "pv_qc_aggregator pv = NoDelayQcAggregator"
  proof (rule insert_vote_cases [OF inv inj, where now = now], goal_cases)
    case 1
    with that show ?case by (auto simp: countable_def)
  next
    case 2
    with that show ?case by auto
  next
    case 3
    with store_vote_step(2) [OF env inv 3(1) ok inj 3(2) that, of now] show ?case by auto
  qed
qed

lemma insert_votes_inv:
  assumes "pending_env C verifier" and "pv_inv C verifier epoch round vs pv"
    and "\<forall>v \<in> set (map snd evs). vote_ok C verifier epoch round v"
    and "inj_on (ledger_info_hash C) (vote_ledger_info ` set (vs @ map snd evs))"
    and "insert_votes C verifier pv evs = Ok (rs, pv')"
  shows "pv_inv C verifier epoch round (vs @ map snd evs) pv' \<and> list_all2 (outcome_ok C verifier epoch round) (map snd evs) rs"
  using assms(2-)
proof (induction evs arbitrary: vs pv rs)
  case (Cons e evs)
  obtain now v where e: "e = (now, v)" by (cases e)
  have inj: "inj_on (ledger_info_hash C) (vote_ledger_info ` set (vs @ [v]))"
    "inj_on (ledger_info_hash C) (vote_ledger_info ` set ((vs @ [v]) @ map snd evs))"
    using Cons.prems(3) by (auto simp: e inj_on_def)
  have ok: "vote_ok C verifier epoch round v" "\<forall>v \<in> set (map snd evs). vote_ok C verifier epoch round v"
    using Cons.prems(2) by (auto simp: e)
  from Cons.prems(4) obtain r pv1 rs' where run: "insert_vote C now pv v verifier = Ok (r, pv1)"
    "insert_votes C verifier pv1 evs = Ok (rs', pv')" "rs = r # rs'" by (auto simp: e result_simps)
  have "pv_inv C verifier epoch round (vs @ [v]) pv1 \<and> outcome_ok C verifier epoch round v r"
    by (rule insert_vote_step(1) [OF assms(1) Cons.prems(1) ok(1) inj(1) run(1)])
  with Cons.IH [OF _ ok(2) inj(2) run(2)] run(3) show ?case by (simp add: e)
qed simp

lemma insert_votes_total:
  assumes "pending_env C verifier" and "pv_inv C verifier epoch round vs pv" and "pv_qc_aggregator pv = NoDelayQcAggregator"
    and "\<forall>v \<in> set (map snd evs). vote_ok C verifier epoch round v"
    and "inj_on (ledger_info_hash C) (vote_ledger_info ` set (vs @ map snd evs))"
  shows "\<exists>rs pv'. insert_votes C verifier pv evs = Ok (rs, pv') \<and> pv_qc_aggregator pv' = NoDelayQcAggregator"
  using assms(2-)
proof (induction evs arbitrary: vs pv)
  case (Cons e evs)
  obtain now v where e: "e = (now, v)" by (cases e)
  have inj: "inj_on (ledger_info_hash C) (vote_ledger_info ` set (vs @ [v]))"
    "inj_on (ledger_info_hash C) (vote_ledger_info ` set ((vs @ [v]) @ map snd evs))"
    using Cons.prems(4) by (auto simp: e inj_on_def)
  have ok: "vote_ok C verifier epoch round v" "\<forall>v \<in> set (map snd evs). vote_ok C verifier epoch round v"
    using Cons.prems(3) by (auto simp: e)
  note step = insert_vote_step [OF assms(1) Cons.prems(1) ok(1) inj(1)]
  obtain r pv1 where run: "insert_vote C now pv v verifier = Ok (r, pv1)" "pv_qc_aggregator pv1 = NoDelayQcAggregator"
    using step(2) [OF Cons.prems(2), of now] by blast
  have "pv_inv C verifier epoch round (vs @ [v]) pv1" using step(1) [OF run(1)] by blast
  from Cons.IH [OF this run(2) ok(2) inj(2)] run(1) show ?case by (auto simp: e)
qed simp

lemma delayed_certificate:
  assumes env: "pending_env C verifier" and inv: "pv_inv C verifier epoch round vs pv"
    and ok: "vote_ok C verifier epoch round v" and quorum: "has_quorum verifier (supporters vs (vote_ledger_info v))"
  shows "\<exists>qc. process_delayed_qc C pv verifier v = Ok (NewQuorumCertificate qc) \<and> qc_verify C qc verifier = Ok () \<and>
    qc_vote_data qc = vote_vote_data v"
proof -
  have wf: "wf_verifier verifier" "0 < total_voting_power verifier" using env by (simp_all add: pending_env_def)
  then have "0 < unat (quorum_voting_power verifier)" by (auto simp: wf_verifier_def word_less_nat_alt)
  with quorum have "supporters vs (vote_ledger_info v) \<noteq> {}" by (auto simp: has_quorum_def)
  then have "vote_ledger_info v \<in> ran (tally vs)" by (auto simp: supporters_def ran_def)
  with inv obtain lips where lips: "li_digest_to_votes pv (ledger_info_hash C (vote_ledger_info v)) = Some lips"
    "lips_ledger_info lips = vote_ledger_info v" "li_tracked C verifier vs lips"
    by (auto simp: pv_inv_def votes_tracked_def)
  have supp: "set (map fst (partial_sigs lips)) = supporters vs (vote_ledger_info v)" using lips by (simp add: li_tracked_def)
  note keys = tracked_members [OF wf(1) lips(3)]
  obtain p where "check_voting_power verifier (map fst (partial_sigs lips)) True = Ok p"
    using check_power_cases [OF wf(1) keys] quorum supp by metis
  with lips(1) certificate_verifies [OF env ok lips(3,2)] quorum supp show ?thesis
    by (auto simp: process_delayed_qc_def unwrap_some_def)
qed

section \<open>Properties\<close>

text \<open>
  \<^bold>\<open>C35.\<close> Every certificate that the collected votes of a round produce verifies. The votes may arrive in any order, with
  repetitions, equivocations and timeouts, under either aggregation policy, as long as each of them passed verification
  for the epoch and the round. A new quorum certificate verifies and certifies the vote data of the vote that completed
  it; a new timeout certificate verifies and is of the epoch and the round; aggregation and the count of the voting power
  never report an error. A certificate whose aggregation was delayed can be made later for every ledger info whose
  supporters, the authors that voted for it first, have a quorum of the voting power.
\<close>

theorem collected_certificates_verify:
  assumes "pending_env C verifier" and "\<forall>v \<in> set (map snd evs). vote_ok C verifier epoch round v"
    and "inj_on (ledger_info_hash C) (vote_ledger_info ` set (map snd evs))"
    and "insert_votes C verifier (pv_new ty start) evs = Ok (rs, pv)"
  shows "list_all2 (\<lambda>v r. outcome_ok C verifier epoch round v r) (map snd evs) rs \<and>
    (\<forall>v \<in> set (map snd evs). has_quorum verifier (supporters (map snd evs) (vote_ledger_info v)) \<longrightarrow>
      (\<exists>qc. process_delayed_qc C pv verifier v = Ok (NewQuorumCertificate qc) \<and> qc_verify C qc verifier = Ok () \<and>
         qc_vote_data qc = vote_vote_data v))"
proof -
  have inv: "pv_inv C verifier epoch round (map snd evs) pv \<and> list_all2 (outcome_ok C verifier epoch round) (map snd evs) rs"
    using insert_votes_inv [OF assms(1) pv_new_inv assms(2) _ assms(4)] assms(3) by simp
  then show ?thesis using delayed_certificate [OF assms(1)] assms(2) by blast
qed

text \<open>
  \<^bold>\<open>C36.\<close> Without delay, the votes of a round are counted exactly. The insertion of verified votes never panics. The
  first vote of an author returns a quorum certificate if and only if the authors whose first vote is for the same ledger
  info, this author included, have a quorum of the voting power. A vote is reported as an equivocation if and only if
  its author has voted for another ledger info before.
\<close>

theorem votes_counted_exactly:
  assumes "pending_env C verifier" and "\<forall>v \<in> set (map snd evs @ [v]). vote_ok C verifier epoch round v"
    and "inj_on (ledger_info_hash C) (vote_ledger_info ` set (map snd evs @ [v]))"
  shows "\<exists>rs pv res pv'. insert_votes C verifier (pv_new NoDelay start) evs = Ok (rs, pv) \<and>
    insert_vote C now pv v verifier = Ok (res, pv') \<and>
    (tally (map snd evs) (vote_author v) = None \<longrightarrow>
       ((\<exists>qc. res = NewQuorumCertificate qc) \<longleftrightarrow> has_quorum verifier (supporters (map snd evs @ [v]) (vote_ledger_info v)))) \<and>
    (res = EquivocateVote \<longleftrightarrow> (\<exists>li. tally (map snd evs) (vote_author v) = Some li \<and> li \<noteq> vote_ledger_info v))"
proof -
  have nodelay: "pv_qc_aggregator (pv_new NoDelay start) = NoDelayQcAggregator" by (simp add: pv_new_def create_qc_aggregator_def)
  have ok: "\<forall>v \<in> set (map snd evs). vote_ok C verifier epoch round v" "vote_ok C verifier epoch round v" using assms(2) by auto
  have inj: "inj_on (ledger_info_hash C) (vote_ledger_info ` set ([] @ map snd evs))" using assms(3) by (auto simp: inj_on_def)
  obtain rs pv where run: "insert_votes C verifier (pv_new NoDelay start) evs = Ok (rs, pv)" "pv_qc_aggregator pv = NoDelayQcAggregator"
    using insert_votes_total [OF assms(1) pv_new_inv nodelay ok(1) inj] by blast
  have "pv_inv C verifier epoch round (map snd evs) pv"
    using insert_votes_inv [OF assms(1) pv_new_inv ok(1) inj run(1)] by simp
  from insert_vote_step(2) [OF assms(1) this ok(2) assms(3) run(2), of now] run(1) show ?thesis
    by (auto simp: countable_def)
qed

section \<open>Witnesses\<close>

definition ballot_crypto :: pending_crypto where
  "ballot_crypto =
     \<lparr>bls_pk_aggregate = (\<lambda>_. Some 0), bls_sig_aggregate = (\<lambda>_. Some 5), bls_verify_li = (\<lambda>s _ _. s = 5),
      waypoint_hash = (\<lambda>_. 0), bls_verify_batch = (\<lambda>_ _ _. False), bls_sign_batch = (\<lambda>_ _. None),
      batch_payload_hash = (\<lambda>_ _. 0), vote_data_hash = (\<lambda>vd. bi_id (proposed vd)), block_data_hash = (\<lambda>_. 0),
      transaction_node_hash = (\<lambda>_ _. 0), bls_public_key = (\<lambda>_. 0), bls_sign_li = (\<lambda>_ _. None),
      bls_verify_block = (\<lambda>_ _ _. False), bls_sign_block = (\<lambda>_ _. None), bls_verify_timeout = (\<lambda>s _ _. s = 5),
      bls_verify_timeouts = (\<lambda>s _ _. s = 5), bls_sign_timeout = (\<lambda>_ _. None), ledger_info_hash = consensus_data_hash\<rparr>"

definition ballot :: "author \<Rightarrow> hash_value \<Rightarrow> vote" where
  "ballot a block_id =
     vote_new_with_signature
       (vd_new (bi_new 1 1 block_id 0 0 1 None) (bi_new 1 0 0 0 0 0 None)) a (li_new (bi_new 0 0 0 0 0 0 None) block_id) 5"

lemmas ballot_defs = ballot_def vote_new_with_signature_def vd_new_def bi_new_def li_new_def

lemma ballot_env: "pending_env ballot_crypto demo_verifier"
proof -
  have "bls_correct (bls_sig_aggregate ballot_crypto) (bls_pk_aggregate ballot_crypto) (bls_verify_li ballot_crypto) li" for li
    by (auto simp: bls_correct_def ballot_crypto_def)
  moreover have "bls_multi_correct (bls_sig_aggregate ballot_crypto) (bls_verify_timeout ballot_crypto) (bls_verify_timeouts ballot_crypto)"
    by (auto simp: bls_multi_correct_def ballot_crypto_def)
  ultimately show ?thesis
    using vv_new_wf(1) [OF demo_new demo_distinct(1,2)] demo_distinct(3) by (simp add: pending_env_def demo_fields vv_len_def)
qed

lemma ballot_ok: "a \<in> {1, 2, 3, 4} \<Longrightarrow> vote_ok ballot_crypto demo_verifier 1 1 (ballot a block_id)"
  by (auto simp: vote_ok_def vote_verify_def ballot_defs ballot_crypto_def vv_verify_def demo_power vd_verify_def ensure_def)

lemma ballot_inj: "inj_on (ledger_info_hash ballot_crypto) (vote_ledger_info ` (\<lambda>(a, b). ballot a b) ` A)"
  by (auto simp: inj_on_def ballot_crypto_def ballot_defs)

lemma ballot_fields [simp]: "vote_author (ballot a b) = a"
  "vote_ledger_info (ballot a b) = vote_ledger_info (ballot a' b') \<longleftrightarrow> b = b'"
  by (simp_all add: ballot_defs)

text \<open>Validators 1, 2 and 4 vote for block 7, validator 3 for block 8; the second vote of validator 1 is for block 8.\<close>

definition ballots :: "(nat \<times> vote) list" where
  "ballots = [(10, ballot 1 7), (20, ballot 3 8), (30, ballot 1 8), (40, ballot 2 7)]"

lemma ballots_supporters: "supporters (map snd ballots @ [ballot 4 7]) (vote_ledger_info (ballot 4 7)) = {1, 2, 4}"
  by (auto simp: supporters_def tally_def ballots_def split: if_splits)

lemma ballots_hyps:
  "\<forall>v \<in> set (map snd ballots @ [ballot 4 7]). vote_ok ballot_crypto demo_verifier 1 1 v"
  "inj_on (ledger_info_hash ballot_crypto) (vote_ledger_info ` set (map snd ballots @ [ballot 4 7]))"
  "has_quorum demo_verifier {1, 2, 4}"
proof -
  show "\<forall>v \<in> set (map snd ballots @ [ballot 4 7]). vote_ok ballot_crypto demo_verifier 1 1 v" by (simp add: ballots_def ballot_ok)
  show "inj_on (ledger_info_hash ballot_crypto) (vote_ledger_info ` set (map snd ballots @ [ballot 4 7]))"
    using ballot_inj [of "{(1, 7), (3, 8), (1, 8), (2, 7), (4, 7)}"] by (simp add: ballots_def insert_commute)
  show "has_quorum demo_verifier {1, 2, 4}" by (simp add: has_quorum_def vpower_def demo_power demo_fields)
qed

theorem collected_certificates_verify_witness:
  "\<exists>rs pv. insert_votes ballot_crypto demo_verifier (pv_new NoDelay 0) (ballots @ [(50, ballot 4 7)]) = Ok (rs, pv) \<and>
     list_all2 (\<lambda>v r. outcome_ok ballot_crypto demo_verifier 1 1 v r) (map snd ballots @ [ballot 4 7]) rs \<and>
     (\<exists>qc. process_delayed_qc ballot_crypto pv demo_verifier (ballot 4 7) = Ok (NewQuorumCertificate qc) \<and>
        qc_verify ballot_crypto qc demo_verifier = Ok () \<and> qc_vote_data qc = vote_vote_data (ballot 4 7))"
proof -
  let ?evs = "ballots @ [(50, ballot 4 7)]"
  have evs: "map snd ?evs = map snd ballots @ [ballot 4 7]" by simp
  obtain rs pv where run: "insert_votes ballot_crypto demo_verifier (pv_new NoDelay 0) ?evs = Ok (rs, pv)"
    using insert_votes_total [OF ballot_env pv_new_inv, of NoDelay 0 ?evs 1 1] ballots_hyps(1,2)
    by (auto simp: pv_new_def create_qc_aggregator_def)
  have "list_all2 (\<lambda>v r. outcome_ok ballot_crypto demo_verifier 1 1 v r) (map snd ?evs) rs \<and>
    (\<forall>v \<in> set (map snd ?evs). has_quorum demo_verifier (supporters (map snd ?evs) (vote_ledger_info v)) \<longrightarrow>
      (\<exists>qc. process_delayed_qc ballot_crypto pv demo_verifier v = Ok (NewQuorumCertificate qc) \<and>
         qc_verify ballot_crypto qc demo_verifier = Ok () \<and> qc_vote_data qc = vote_vote_data v))"
    by (rule collected_certificates_verify [OF ballot_env _ _ run]) (use ballots_hyps evs in simp_all)
  then show ?thesis using run ballots_supporters ballots_hyps(3) by auto
qed

theorem votes_counted_exactly_witness:
  "\<exists>rs pv qc pv'. insert_votes ballot_crypto demo_verifier (pv_new NoDelay 0) ballots = Ok (rs, pv) \<and>
     insert_vote ballot_crypto 50 pv (ballot 4 7) demo_verifier = Ok (NewQuorumCertificate qc, pv')"
proof -
  have "tally (map snd ballots) (vote_author (ballot 4 7)) = None" by (simp add: tally_def ballots_def)
  with votes_counted_exactly [OF ballot_env ballots_hyps(1,2), of 0 50] show ?thesis
    using ballots_supporters ballots_hyps(3) by auto
qed

end
