(* ===== verification/Block_Tree.thy ===== *)
theory Block_Tree
  imports Blocks
begin

text \<open>
  The tree of pending blocks of a validator: \<open>BlockTree\<close> (\<open>src/consensus/src/block_storage/block_tree.rs\<close>), the operations
  of \<open>BlockStore\<close> that change it (\<open>block_store.rs\<close>), and the blocks and execution results it holds
  (\<open>pipelined_block.rs\<close>, \<open>executor-types/src/lib.rs\<close>).

  The children of a block are a \<open>HashSet\<close>, whose iteration order is not specified: \<open>iter\<close> stands for it and is arbitrary.
  Loops that follow links of the tree return \<open>None\<close> when they do not end. The outcome of a write to storage is an
  argument. Transaction statuses and events are held as byte strings.
\<close>

section \<open>Blocks with execution results\<close>

record state_compute_result =
  scr_root_hash :: hash_value
  scr_frozen_subtree_roots :: "hash_value list"
  scr_parent_frozen_subtree_roots :: "hash_value list"
  scr_num_leaves :: u64
  scr_parent_num_leaves :: u64
  scr_epoch_state :: "epoch_state option"
  compute_status_for_input_txns :: "u8 list list"
  scr_transaction_info_hashes :: "hash_value list"
  scr_subscribable_events :: "u8 list list"

definition scr_new ::
  "hash_value \<Rightarrow> hash_value list \<Rightarrow> u64 \<Rightarrow> hash_value list \<Rightarrow> u64 \<Rightarrow> epoch_state option \<Rightarrow> u8 list list \<Rightarrow>
   hash_value list \<Rightarrow> u8 list list \<Rightarrow> state_compute_result" where
  "scr_new state_id frozen_roots leaves parent_frozen_roots parent_leaves next_epoch statuses
     txn_info_hashes events =
     \<lparr>scr_root_hash = state_id, scr_frozen_subtree_roots = frozen_roots,
      scr_parent_frozen_subtree_roots = parent_frozen_roots, scr_num_leaves = leaves,
      scr_parent_num_leaves = parent_leaves, scr_epoch_state = next_epoch, compute_status_for_input_txns = statuses,
      scr_transaction_info_hashes = txn_info_hashes, scr_subscribable_events = events\<rparr>"

definition new_dummy_with_root_hash :: "hash_value \<Rightarrow> state_compute_result" where
  "new_dummy_with_root_hash state_id =
     \<lparr>scr_root_hash = state_id, scr_frozen_subtree_roots = [], scr_parent_frozen_subtree_roots = [], scr_num_leaves = 0,
      scr_parent_num_leaves = 0, scr_epoch_state = None, compute_status_for_input_txns = [],
      scr_transaction_info_hashes = [], scr_subscribable_events = []\<rparr>"

definition scr_new_dummy :: state_compute_result where
  "scr_new_dummy = new_dummy_with_root_hash ACCUMULATOR_PLACEHOLDER_HASH"

definition scr_version :: "state_compute_result \<Rightarrow> (version, 'e) result" where
  "scr_version self = unwrap_some (checked_sub (max (scr_num_leaves self) 1) 1)"

definition scr_has_reconfiguration :: "state_compute_result \<Rightarrow> bool" where
  "scr_has_reconfiguration self \<longleftrightarrow> scr_epoch_state self \<noteq> None"

record pipelined_block =
  pb_block :: block
  pb_input_transactions :: "signed_transaction list"
  compute_result :: state_compute_result

abbreviation "pb_id b \<equiv> block_id (pb_block b)"
abbreviation "pb_round b \<equiv> block_round (pb_block b)"
abbreviation "pb_parent_id b \<equiv> bd_parent_id (block_data_of (pb_block b))"

definition pb_new :: "block \<Rightarrow> signed_transaction list \<Rightarrow> state_compute_result \<Rightarrow> pipelined_block" where
  "pb_new b txns res = \<lparr>pb_block = b, pb_input_transactions = txns, compute_result = res\<rparr>"

definition pb_new_ordered :: "block \<Rightarrow> pipelined_block" where
  "pb_new_ordered b = \<lparr>pb_block = b, pb_input_transactions = [], compute_result = scr_new_dummy\<rparr>"

definition set_execution_result :: "pipelined_block \<Rightarrow> signed_transaction list \<Rightarrow> state_compute_result \<Rightarrow> pipelined_block" where
  "set_execution_result self txns res = self\<lparr>compute_result := res, pb_input_transactions := txns\<rparr>"

definition pb_block_info :: "pipelined_block \<Rightarrow> (block_info, 'e) result" where
  "pb_block_info self =
     and_then (scr_version (compute_result self)) (\<lambda>ver.
     Ok (gen_block_info (pb_block self) (scr_root_hash (compute_result self)) ver (scr_epoch_state (compute_result self))))"

definition pb_is_reconfiguration_suffix :: "pipelined_block \<Rightarrow> bool" where
  "pb_is_reconfiguration_suffix self \<longleftrightarrow>
     scr_has_reconfiguration (compute_result self) \<and> compute_status_for_input_txns (compute_result self) = []"

definition pb_subscribable_events :: "pipelined_block \<Rightarrow> u8 list list" where
  "pb_subscribable_events self =
     (if pb_is_reconfiguration_suffix self then [] else scr_subscribable_events (compute_result self))"

section \<open>The tree\<close>

record linkable_block =
  executed_block :: pipelined_block
  lb_children :: "hash_value set"

definition lb_new :: "pipelined_block \<Rightarrow> linkable_block" where
  "lb_new b = \<lparr>executed_block = b, lb_children = {}\<rparr>"

definition add_child :: "linkable_block \<Rightarrow> hash_value \<Rightarrow> (linkable_block, 'e) result" where
  "add_child self child_id =
     and_then (assert_p (child_id \<notin> lb_children self)) (\<lambda>_.
     Ok (self\<lparr>lb_children := insert child_id (lb_children self)\<rparr>))"

abbreviation "lb_id b \<equiv> pb_id (executed_block b)"

record block_tree =
  id_to_block :: "hash_value \<rightharpoonup> linkable_block"
  ordered_root_id :: hash_value
  commit_root_id :: hash_value
  highest_certified_block_id :: hash_value
  bt_highest_quorum_cert :: quorum_cert
  bt_highest_2chain_timeout_cert :: "two_chain_timeout_certificate option"
  bt_highest_ordered_cert :: quorum_cert
  bt_highest_commit_cert :: quorum_cert
  id_to_quorum_cert :: "hash_value \<rightharpoonup> quorum_cert"
  pruned_block_ids :: "hash_value list"
  max_pruned_blocks_in_mem :: nat

definition bt_new ::
  "pipelined_block \<Rightarrow> quorum_cert \<Rightarrow> quorum_cert \<Rightarrow> quorum_cert \<Rightarrow> nat \<Rightarrow> two_chain_timeout_certificate option \<Rightarrow>
   (block_tree, 'e) result" where
  "bt_new root root_quorum_cert root_ordered_cert root_commit_cert max_pruned highest_tc =
     and_then (assert_p (pb_id root = bi_id (qc_commit_info root_ordered_cert))) (\<lambda>_.
     Ok \<lparr>id_to_block = [pb_id root \<mapsto> lb_new root], ordered_root_id = pb_id root, commit_root_id = pb_id root,
         highest_certified_block_id = pb_id root, bt_highest_quorum_cert = root_quorum_cert,
         bt_highest_2chain_timeout_cert = highest_tc, bt_highest_ordered_cert = root_ordered_cert,
         bt_highest_commit_cert = root_commit_cert,
         id_to_quorum_cert = [bi_id (certified_block root_quorum_cert) \<mapsto> root_quorum_cert], pruned_block_ids = [],
         max_pruned_blocks_in_mem = max_pruned\<rparr>)"

definition block_exists :: "block_tree \<Rightarrow> hash_value \<Rightarrow> bool" where
  "block_exists self i \<longleftrightarrow> id_to_block self i \<noteq> None"

definition get_block :: "block_tree \<Rightarrow> hash_value \<Rightarrow> pipelined_block option" where
  "get_block self i = map_option executed_block (id_to_block self i)"

definition linkable_root :: "block_tree \<Rightarrow> (linkable_block, 'e) result" where
  "linkable_root self = unwrap_some (id_to_block self (commit_root_id self))"

definition ordered_root :: "block_tree \<Rightarrow> (pipelined_block, 'e) result" where
  "ordered_root self = unwrap_some (get_block self (ordered_root_id self))"

definition commit_root :: "block_tree \<Rightarrow> (pipelined_block, 'e) result" where
  "commit_root self = unwrap_some (get_block self (commit_root_id self))"

definition highest_certified_block :: "block_tree \<Rightarrow> (pipelined_block, 'e) result" where
  "highest_certified_block self = unwrap_some (get_block self (highest_certified_block_id self))"

definition get_quorum_cert_for_block :: "block_tree \<Rightarrow> hash_value \<Rightarrow> quorum_cert option" where
  "get_quorum_cert_for_block self i = id_to_quorum_cert self i"

definition get_all_quorum_certs_with_commit_info :: "block_tree \<Rightarrow> quorum_cert set" where
  "get_all_quorum_certs_with_commit_info self = {qc \<in> ran (id_to_quorum_cert self). qc_commit_info qc \<noteq> bi_empty}"

definition replace_2chain_timeout_cert :: "block_tree \<Rightarrow> two_chain_timeout_certificate \<Rightarrow> block_tree" where
  "replace_2chain_timeout_cert self tc = self\<lparr>bt_highest_2chain_timeout_cert := Some tc\<rparr>"

definition remove_block :: "block_tree \<Rightarrow> hash_value \<Rightarrow> block_tree" where
  "remove_block self i =
     self\<lparr>id_to_block := (id_to_block self)(i := None), id_to_quorum_cert := (id_to_quorum_cert self)(i := None)\<rparr>"

definition insert_block :: "block_tree \<Rightarrow> pipelined_block \<Rightarrow> (pipelined_block \<times> block_tree, anyhow) result" where
  "insert_block self b =
     (case get_block self (pb_id b) of
        Some existing \<Rightarrow>
          and_then (assert_p (compute_result existing = compute_result b)) (\<lambda>_. Ok (existing, self))
      | None \<Rightarrow>
          (case id_to_block self (pb_parent_id b) of
             None \<Rightarrow> Err (Msg ''Parent block not found'')
           | Some par \<Rightarrow>
               and_then (add_child par (pb_id b)) (\<lambda>par.
               let blocks = (id_to_block self)(pb_parent_id b \<mapsto> par) in
               and_then (assert_p (blocks (pb_id b) = None)) (\<lambda>_.
               Ok (b, self\<lparr>id_to_block := blocks(pb_id b \<mapsto> lb_new b)\<rparr>)))))"

definition update_ordered_root :: "block_tree \<Rightarrow> hash_value \<Rightarrow> (block_tree, 'e) result" where
  "update_ordered_root self i =
     and_then (assert_p (block_exists self i)) (\<lambda>_. Ok (self\<lparr>ordered_root_id := i\<rparr>))"

definition update_commit_root :: "block_tree \<Rightarrow> hash_value \<Rightarrow> (block_tree, 'e) result" where
  "update_commit_root self i =
     and_then (assert_p (block_exists self i)) (\<lambda>_. Ok (self\<lparr>commit_root_id := i\<rparr>))"

definition update_highest_commit_cert :: "block_tree \<Rightarrow> quorum_cert \<Rightarrow> (block_tree, 'e) result" where
  "update_highest_commit_cert self qc =
     (if bi_round (qc_commit_info qc) > bi_round (qc_commit_info (bt_highest_commit_cert self))
      then update_commit_root (self\<lparr>bt_highest_commit_cert := qc\<rparr>) (bi_id (qc_commit_info qc))
      else Ok self)"

definition insert_quorum_cert :: "block_tree \<Rightarrow> quorum_cert \<Rightarrow> (block_tree, anyhow) result" where
  "insert_quorum_cert self qc =
     (let i = bi_id (certified_block qc) in
      and_then
        (case get_block self i of
           Some b \<Rightarrow>
             and_then (highest_certified_block self) (\<lambda>highest.
             if pb_round b > pb_round highest
             then Ok (self\<lparr>highest_certified_block_id := pb_id b, bt_highest_quorum_cert := qc\<rparr>)
             else Ok self)
         | None \<Rightarrow> Err (Msg ''Block not found'')) (\<lambda>self.
      let self = (case id_to_quorum_cert self i of
            Some _ \<Rightarrow> self
          | None \<Rightarrow> self\<lparr>id_to_quorum_cert := (id_to_quorum_cert self)(i \<mapsto> qc)\<rparr>) in
      if bi_round (qc_commit_info (bt_highest_ordered_cert self)) < bi_round (qc_commit_info qc)
      then Ok (self\<lparr>bt_highest_ordered_cert := qc\<rparr>)
      else Ok self))"

section \<open>Pruning\<close>

text \<open>The stack of blocks to be pruned has its top at the head of the list.\<close>

fun push_children ::
  "block_tree \<Rightarrow> hash_value \<Rightarrow> hash_value list \<Rightarrow> linkable_block list \<Rightarrow> (linkable_block list, unit) result" where
  "push_children self next_root_id [] stack = Ok stack"
| "push_children self next_root_id (child_id # children) stack =
     (if next_root_id = child_id then push_children self next_root_id children stack
      else and_then (unwrap_some (id_to_block self child_id)) (\<lambda>child.
           push_children self next_root_id children (child # stack)))"

partial_function (option) prune_loop ::
  "(hash_value set \<Rightarrow> hash_value list) \<Rightarrow> block_tree \<Rightarrow> hash_value \<Rightarrow> linkable_block list \<Rightarrow> hash_value list \<Rightarrow>
   (hash_value list, unit) result option" where
  "prune_loop iter self next_root_id stack blocks_pruned =
     (case stack of
        [] \<Rightarrow> Some (Ok blocks_pruned)
      | block_to_remove # stack \<Rightarrow>
          (case push_children self next_root_id (iter (lb_children block_to_remove)) stack of
             Ok stack \<Rightarrow> prune_loop iter self next_root_id stack (blocks_pruned @ [lb_id block_to_remove])
           | Err e \<Rightarrow> Some (Err e)
           | Panic \<Rightarrow> Some Panic))"

definition find_blocks_to_prune ::
  "(hash_value set \<Rightarrow> hash_value list) \<Rightarrow> block_tree \<Rightarrow> hash_value \<Rightarrow> (hash_value list, unit) result option" where
  "find_blocks_to_prune iter self next_root_id =
     (if next_root_id = commit_root_id self then Some (Ok [])
      else case linkable_root self of
             Ok root \<Rightarrow> prune_loop iter self next_root_id [root] []
           | Err e \<Rightarrow> Some (Err e)
           | Panic \<Rightarrow> Some Panic)"

definition process_pruned_blocks :: "block_tree \<Rightarrow> hash_value list \<Rightarrow> block_tree" where
  "process_pruned_blocks self newly_pruned_blocks =
     (let ids = pruned_block_ids self @ newly_pruned_blocks in
      if length ids > max_pruned_blocks_in_mem self then
        let num_blocks_to_remove = length ids - max_pruned_blocks_in_mem self in
        fold (\<lambda>i self. remove_block self i) (take num_blocks_to_remove ids)
          (self\<lparr>pruned_block_ids := drop num_blocks_to_remove ids\<rparr>)
      else self\<lparr>pruned_block_ids := ids\<rparr>)"

definition commit_callback ::
  "(hash_value set \<Rightarrow> hash_value list) \<Rightarrow> block_tree \<Rightarrow> pipelined_block list \<Rightarrow> quorum_cert \<Rightarrow>
   ledger_info_with_signatures \<Rightarrow> (block_tree, unit) result option" where
  "commit_callback iter self blocks_to_commit finality_proof commit_decision =
     (case create_merged_with_executed_state finality_proof commit_decision of
        Ok commit_proof \<Rightarrow>
          if blocks_to_commit = [] then Some Panic
          else
            (case (commit_root self :: (pipelined_block, unit) result) of
               Ok _ \<Rightarrow>
                 (case find_blocks_to_prune iter self (pb_id (last blocks_to_commit)) of
                    None \<Rightarrow> None
                  | Some (Ok ids) \<Rightarrow> Some (update_highest_commit_cert (process_pruned_blocks self ids) commit_proof)
                  | Some (Err e) \<Rightarrow> Some (Err e)
                  | Some Panic \<Rightarrow> Some Panic)
             | Err e \<Rightarrow> Some (Err e)
             | Panic \<Rightarrow> Some Panic)
      | Err _ \<Rightarrow> Some Panic
      | Panic \<Rightarrow> Some Panic)"

section \<open>Paths\<close>

text \<open>The block at which the walk towards the root stops, with the blocks passed before it; \<open>Some None\<close> when a parent is missing.\<close>

partial_function (option) path_loop ::
  "block_tree \<Rightarrow> round \<Rightarrow> hash_value \<Rightarrow> pipelined_block list \<Rightarrow> (hash_value \<times> pipelined_block list) option option" where
  "path_loop self root_round cur_block_id res =
     (case get_block self cur_block_id of
        Some b \<Rightarrow>
          if pb_round b \<le> root_round then Some (Some (cur_block_id, res))
          else path_loop self root_round (pb_parent_id b) (res @ [b])
      | None \<Rightarrow> Some None)"

definition path_from_root_to_block ::
  "block_tree \<Rightarrow> hash_value \<Rightarrow> hash_value \<Rightarrow> round \<Rightarrow> pipelined_block list option option" where
  "path_from_root_to_block self i root_id root_round =
     map_option (\<lambda>walk. case walk of
         None \<Rightarrow> None
       | Some (cur_block_id, res) \<Rightarrow> if cur_block_id \<noteq> root_id then None else Some (rev res))
       (path_loop self root_round i [])"

definition path_from_ordered_root :: "block_tree \<Rightarrow> hash_value \<Rightarrow> (pipelined_block list option, 'e) result option" where
  "path_from_ordered_root self i =
     (case ordered_root self of
        Ok root \<Rightarrow> map_option Ok (path_from_root_to_block self i (ordered_root_id self) (pb_round root))
      | Err e \<Rightarrow> Some (Err e)
      | Panic \<Rightarrow> Some Panic)"

definition path_from_commit_root :: "block_tree \<Rightarrow> hash_value \<Rightarrow> (pipelined_block list option, 'e) result option" where
  "path_from_commit_root self i =
     (case commit_root self of
        Ok root \<Rightarrow> map_option Ok (path_from_root_to_block self i (commit_root_id self) (pb_round root))
      | Err e \<Rightarrow> Some (Err e)
      | Panic \<Rightarrow> Some Panic)"

section \<open>The block store\<close>

definition insert_ordered_block ::
  "(unit, anyhow) result \<Rightarrow> block_tree \<Rightarrow> block \<Rightarrow> (pipelined_block \<times> block_tree, anyhow) result" where
  "insert_ordered_block saved self b =
     (case get_block self (block_id b) of
        Some existing \<Rightarrow> Ok (existing, self)
      | None \<Rightarrow>
          and_then (ordered_root self) (\<lambda>root.
          and_then (ensure (pb_round root < block_round b) (Msg ''Block with old round'')) (\<lambda>_.
          and_then (map_err (Context ''Insert block failed when saving block'') saved) (\<lambda>_.
          insert_block self (pb_new_ordered b)))))"

definition insert_single_quorum_cert ::
  "(unit, anyhow) result \<Rightarrow> block_tree \<Rightarrow> quorum_cert \<Rightarrow> (block_tree, anyhow) result" where
  "insert_single_quorum_cert saved self qc =
     and_then
       (case get_block self (bi_id (certified_block qc)) of
          Some b \<Rightarrow>
            and_then (pb_block_info b) (\<lambda>info.
            ensure (match_ordered_only info (certified_block qc)) (Msg ''QC for block has different info than local''))
        | None \<Rightarrow> Err (Msg ''Insert without having the block in store first'')) (\<lambda>_.
     and_then (map_err (Context ''Insert block failed when saving quorum'') saved) (\<lambda>_.
     insert_quorum_cert self qc))"

definition insert_2chain_timeout_certificate ::
  "(unit, anyhow) result \<Rightarrow> block_tree \<Rightarrow> two_chain_timeout_certificate \<Rightarrow> (block_tree, anyhow) result" where
  "insert_2chain_timeout_certificate saved self tc =
     (let cur_tc_round = (case bt_highest_2chain_timeout_cert self of None \<Rightarrow> 0 | Some tc \<Rightarrow> tc_round tc) in
      if tc_round tc \<le> cur_tc_round then Ok self
      else
        and_then (map_err (Context ''Timeout certificate insert failed when persisting to DB'') saved) (\<lambda>_.
        Ok (replace_2chain_timeout_cert self tc)))"

text \<open>
  \<open>send_for_execution\<close>: the blocks that are handed to execution, and the tree with its new ordered root. The execution
  client answers later, by the commit callback; its \<open>finalize_order\<close> (\<open>consensus/src/pipeline/execution_client.rs\<close>) returns
  \<open>Ok\<close> on every path, so that the \<open>expect\<close> on it has no effect. The time at which a block was handed over is not part of
  the model.
\<close>

definition send_for_execution ::
  "block_tree \<Rightarrow> quorum_cert \<Rightarrow> (pipelined_block list \<times> block_tree, anyhow) result option" where
  "send_for_execution self finality_proof =
     (let i = bi_id (qc_commit_info finality_proof) in
      case and_then (ok_or (Msg ''Committed block id not found'') (get_block self i)) (\<lambda>b.
           and_then (ordered_root self) (\<lambda>root.
           and_then (ensure (pb_round b > pb_round root) (Msg ''Committed block round lower than root'')) (\<lambda>_. Ok b))) of
        Ok b \<Rightarrow>
          (case path_from_ordered_root self i of
             None \<Rightarrow> None
           | Some (Ok path) \<Rightarrow>
               let blocks_to_commit = (case path of Some blocks \<Rightarrow> blocks | None \<Rightarrow> []) in
               Some (and_then (assert_p (blocks_to_commit \<noteq> [])) (\<lambda>_.
                     map_ok (\<lambda>self. (blocks_to_commit, self)) (update_ordered_root self (pb_id b))))
           | Some (Err e) \<Rightarrow> Some (Err e)
           | Some Panic \<Rightarrow> Some Panic)
      | Err e \<Rightarrow> Some (Err e)
      | Panic \<Rightarrow> Some Panic)"

record root_metadata =
  accu_hash :: hash_value
  frozen_root_hashes :: "hash_value list"
  rm_num_leaves :: version

definition rm_version :: "root_metadata \<Rightarrow> version" where
  "rm_version self = max (rm_num_leaves self) 1 - 1"

fun insert_blocks :: "block_tree \<Rightarrow> ((unit, anyhow) result \<times> block) list \<Rightarrow> (block_tree, anyhow) result" where
  "insert_blocks tree [] = Ok tree"
| "insert_blocks tree ((saved, b) # rest) =
     (case insert_ordered_block saved tree b of Ok (_, tree) \<Rightarrow> insert_blocks tree rest | _ \<Rightarrow> Panic)"

fun insert_certs :: "block_tree \<Rightarrow> ((unit, anyhow) result \<times> quorum_cert) list \<Rightarrow> (block_tree, anyhow) result" where
  "insert_certs tree [] = Ok tree"
| "insert_certs tree ((saved, qc) # rest) =
     (case insert_single_quorum_cert saved tree qc of Ok tree \<Rightarrow> insert_certs tree rest | _ \<Rightarrow> Panic)"

definition store_build ::
  "block \<Rightarrow> quorum_cert \<Rightarrow> quorum_cert \<Rightarrow> quorum_cert \<Rightarrow> root_metadata \<Rightarrow> ((unit, anyhow) result \<times> block) list \<Rightarrow>
   ((unit, anyhow) result \<times> quorum_cert) list \<Rightarrow> two_chain_timeout_certificate option \<Rightarrow> nat \<Rightarrow> (block_tree, anyhow) result" where
  "store_build root_block root_qc root_ordered_cert root_commit_cert meta blocks quorum_certs highest_tc max_pruned =
     and_then (assert_p (bi_version (certified_block root_qc) = 0 \<or> bi_version (certified_block root_qc) = rm_version meta)) (\<lambda>_.
     and_then (assert_p (bi_executed_state_id (certified_block root_qc) = ACCUMULATOR_PLACEHOLDER_HASH \<or>
       bi_executed_state_id (certified_block root_qc) = accu_hash meta)) (\<lambda>_.
     let res = scr_new (accu_hash meta) (frozen_root_hashes meta) (rm_num_leaves meta) [] 0 None [] [] [] in
     and_then (bt_new (pb_new root_block [] res) root_qc root_ordered_cert root_commit_cert max_pruned highest_tc) (\<lambda>tree.
     and_then (insert_blocks tree blocks) (\<lambda>tree.
     insert_certs tree quorum_certs))))"

section \<open>The steps of a block store\<close>

text \<open>
  Identifiers name blocks: \<open>data\<close> is the block data that the hash of an identifier stands for. A block descends from
  another when a chain of parent links leads to it.
\<close>

definition par :: "(hash_value \<Rightarrow> block_data) \<Rightarrow> hash_value \<Rightarrow> hash_value" where
  "par data i = bd_parent_id (data i)"

abbreviation rnd :: "(hash_value \<Rightarrow> block_data) \<Rightarrow> hash_value \<Rightarrow> round" where
  "rnd data i \<equiv> bd_round (data i)"

definition descends :: "(hash_value \<Rightarrow> block_data) \<Rightarrow> hash_value \<Rightarrow> hash_value \<Rightarrow> bool" where
  "descends data r i \<longleftrightarrow> (\<exists>n. (par data ^^ n) i = r)"

abbreviation ids :: "block_tree \<Rightarrow> hash_value set" where
  "ids T \<equiv> dom (id_to_block T)"

definition iterates :: "(hash_value set \<Rightarrow> hash_value list) \<Rightarrow> bool" where
  "iterates iter \<longleftrightarrow> (\<forall>A. finite A \<longrightarrow> set (iter A) = A \<and> distinct (iter A))"

text \<open>The root that a tree is built from: its certificate certifies it, and no later block is committed.\<close>

definition root_ok :: "(hash_value \<Rightarrow> block_data) \<Rightarrow> pipelined_block \<Rightarrow> quorum_cert \<Rightarrow> quorum_cert \<Rightarrow> bool" where
  "root_ok data root root_quorum_cert root_commit_cert \<longleftrightarrow>
     block_data_of (pb_block root) = data (pb_id root) \<and> (\<forall>n. (par data ^^ Suc n) (pb_id root) \<noteq> pb_id root) \<and>
     bi_id (certified_block root_quorum_cert) = pb_id root \<and> bi_round (qc_commit_info root_commit_cert) \<le> pb_round root"

text \<open>
  What the pipeline promises when it calls back: the blocks to commit end with a block that the decision commits. It descends from the commit root, and the ordered root
  and the certified block of the highest round descend from it.
\<close>

definition commit_ready ::
  "(hash_value \<Rightarrow> block_data) \<Rightarrow> block_tree \<Rightarrow> pipelined_block list \<Rightarrow> ledger_info_with_signatures \<Rightarrow> bool" where
  "commit_ready data T blocks_to_commit commit_decision \<longleftrightarrow> blocks_to_commit \<noteq> [] \<and>
     (let i = pb_id (last blocks_to_commit); info = commit_info (lis_ledger_info commit_decision) in
      i \<in> ids T \<and> i \<noteq> commit_root_id T \<and> descends data (commit_root_id T) i \<and> descends data i (ordered_root_id T) \<and>
      descends data i (highest_certified_block_id T) \<and> bi_id info = i \<and> bi_round info = rnd data i)"

inductive store_step :: "(hash_value \<Rightarrow> block_data) \<Rightarrow> (hash_value set \<Rightarrow> hash_value list) \<Rightarrow> block_tree \<Rightarrow> block_tree \<Rightarrow> bool"
  for data iter where
  block: "block_data_of b = data (block_id b) \<Longrightarrow> rnd data (par data (block_id b)) < block_round b \<Longrightarrow>
    insert_ordered_block saved T b = Ok (stored, T') \<Longrightarrow> store_step data iter T T'"
| cert: "insert_single_quorum_cert saved T qc = Ok T' \<Longrightarrow> store_step data iter T T'"
| timeout: "insert_2chain_timeout_certificate saved T tc = Ok T' \<Longrightarrow> store_step data iter T T'"
| order: "send_for_execution T finality_proof = Some (Ok (blocks_to_commit, T')) \<Longrightarrow> store_step data iter T T'"
| commit: "commit_ready data T blocks_to_commit commit_decision \<Longrightarrow>
    commit_callback iter T blocks_to_commit finality_proof commit_decision = Some (Ok T') \<Longrightarrow> store_step data iter T T'"

inductive store_reachable :: "(hash_value \<Rightarrow> block_data) \<Rightarrow> (hash_value set \<Rightarrow> hash_value list) \<Rightarrow> block_tree \<Rightarrow> bool"
  for data iter where
  init: "root_ok data root root_quorum_cert root_commit_cert \<Longrightarrow>
    (bt_new root root_quorum_cert root_ordered_cert root_commit_cert max_pruned highest_tc :: (block_tree, unit) result) = Ok T \<Longrightarrow>
    store_reachable data iter T"
| step: "store_reachable data iter T \<Longrightarrow> store_step data iter T T' \<Longrightarrow> store_reachable data iter T'"

section \<open>Invariants\<close>

definition links_inv :: "(hash_value \<Rightarrow> block_data) \<Rightarrow> block_tree \<Rightarrow> bool" where
  "links_inv data T \<longleftrightarrow> finite (ids T) \<and>
     (\<forall>i lb. id_to_block T i = Some lb \<longrightarrow> lb_id lb = i \<and> block_data_of (pb_block (executed_block lb)) = data i \<and>
        lb_children lb = {c \<in> ids T. par data c = i}) \<and>
     (\<forall>i \<in> ids T. par data i \<in> ids T \<longrightarrow> rnd data (par data i) < rnd data i) \<and>
     (\<forall>i \<in> ids T. par data i \<notin> ids T \<longrightarrow> (\<forall>n. (par data ^^ Suc n) i \<notin> ids T))"

definition roots_inv :: "(hash_value \<Rightarrow> block_data) \<Rightarrow> block_tree \<Rightarrow> bool" where
  "roots_inv data T \<longleftrightarrow> commit_root_id T \<in> ids T \<and> ordered_root_id T \<in> ids T \<and> highest_certified_block_id T \<in> ids T \<and>
     descends data (commit_root_id T) (ordered_root_id T)"

text \<open>In a list of pruned blocks, the parent of a block is removed before the block.\<close>

fun parents_first :: "(hash_value \<Rightarrow> block_data) \<Rightarrow> hash_value set \<Rightarrow> hash_value list \<Rightarrow> bool" where
  "parents_first data D [] \<longleftrightarrow> True"
| "parents_first data D (i # is) \<longleftrightarrow> par data i \<notin> D \<and> parents_first data (D - {i}) is"

definition pruned_inv :: "(hash_value \<Rightarrow> block_data) \<Rightarrow> block_tree \<Rightarrow> bool" where
  "pruned_inv data T \<longleftrightarrow> distinct (pruned_block_ids T) \<and> set (pruned_block_ids T) \<subseteq> ids T \<and>
     length (pruned_block_ids T) \<le> max_pruned_blocks_in_mem T \<and>
     (\<forall>i \<in> set (pruned_block_ids T). \<not> descends data (commit_root_id T) i) \<and>
     parents_first data (ids T) (pruned_block_ids T) \<and>
     par data (commit_root_id T) \<notin> ids T - set (pruned_block_ids T)"

definition certs_inv :: "(hash_value \<Rightarrow> block_data) \<Rightarrow> block_tree \<Rightarrow> bool" where
  "certs_inv data T \<longleftrightarrow> bi_id (certified_block (bt_highest_quorum_cert T)) = highest_certified_block_id T \<and>
     (\<forall>i qc. id_to_quorum_cert T i = Some qc \<longrightarrow> i \<in> ids T \<and> bi_id (certified_block qc) = i \<and>
        rnd data i \<le> rnd data (highest_certified_block_id T)) \<and>
     bi_round (qc_commit_info (bt_highest_commit_cert T)) \<le> rnd data (commit_root_id T)"

definition tree_inv :: "(hash_value \<Rightarrow> block_data) \<Rightarrow> block_tree \<Rightarrow> bool" where
  "tree_inv data T \<longleftrightarrow> links_inv data T \<and> roots_inv data T \<and> pruned_inv data T \<and> certs_inv data T"

subsection \<open>Descent\<close>

lemma descends_refl [simp]: "descends data i i"
  unfolding descends_def by (rule exI [of _ 0]) simp

lemma descends_trans: "descends data a b \<Longrightarrow> descends data b c \<Longrightarrow> descends data a c"
  unfolding descends_def by (metis comp_apply funpow_add)

lemma descends_parent: "descends data (par data i) i"
  unfolding descends_def by (rule exI [of _ 1]) simp

lemma descends_step: "descends data a i \<Longrightarrow> a \<noteq> i \<Longrightarrow> descends data a (par data i)"
proof -
  assume "descends data a i" "a \<noteq> i"
  then obtain n where "(par data ^^ Suc n) i = a" unfolding descends_def by (metis funpow_0 not0_implies_Suc)
  then have "(par data ^^ n) (par data i) = a" by (simp add: funpow_swap1)
  then show ?thesis unfolding descends_def by blast
qed

lemma descends_linear: "descends data a i \<Longrightarrow> descends data b i \<Longrightarrow> descends data a b \<or> descends data b a"
proof -
  assume "descends data a i" "descends data b i"
  then obtain n m where nm: "(par data ^^ n) i = a" "(par data ^^ m) i = b" unfolding descends_def by blast
  have reach: "(par data ^^ (l - k)) ((par data ^^ k) i) = (par data ^^ l) i" if "k \<le> l" for k l
    using that funpow_add [of "l - k" k "par data"] by (simp add: fun_eq_iff)
  show ?thesis
  proof (cases "n \<le> m")
    case True
    with reach [of n m] nm show ?thesis by (auto simp: descends_def)
  next
    case False
    with reach [of m n] nm show ?thesis by (auto simp: descends_def)
  qed
qed

lemma links_facts:
  assumes "links_inv data T"
  shows "finite (ids T)"
    and "id_to_block T i = Some lb \<Longrightarrow> lb_id lb = i \<and> block_data_of (pb_block (executed_block lb)) = data i \<and>
      lb_children lb = {c \<in> ids T. par data c = i}"
    and "i \<in> ids T \<Longrightarrow> par data i \<in> ids T \<Longrightarrow> rnd data (par data i) < rnd data i"
    and "i \<in> ids T \<Longrightarrow> par data i \<notin> ids T \<Longrightarrow> (par data ^^ Suc n) i \<notin> ids T"
  using assms unfolding links_inv_def by blast+

lemma parent_present:
  assumes "links_inv data T" and "i \<in> ids T" and "a \<in> ids T" and "descends data a i" and "a \<noteq> i"
  shows "par data i \<in> ids T"
proof (rule ccontr)
  assume "par data i \<notin> ids T"
  obtain n where n: "(par data ^^ n) i = a" using assms(4) by (auto simp: descends_def)
  with assms(5) obtain m where "n = Suc m" by (cases n) auto
  with n links_facts(4) [OF assms(1,2) \<open>par data i \<notin> ids T\<close>, of m] assms(3) show False by simp
qed

lemma descends_induct [consumes 4, case_names self child]:
  assumes "links_inv data T" and "i \<in> ids T" and "a \<in> ids T" and "descends data a i"
    and "P a" and child: "\<And>i. i \<in> ids T \<Longrightarrow> par data i \<in> ids T \<Longrightarrow> descends data a (par data i) \<Longrightarrow> P (par data i) \<Longrightarrow> P i"
  shows "P i"
proof -
  obtain n where "(par data ^^ n) i = a" using assms(4) by (auto simp: descends_def)
  then show ?thesis using assms(2)
  proof (induction n arbitrary: i)
    case 0
    then show ?case using assms(5) by simp
  next
    case (Suc n)
    have anc: "(par data ^^ n) (par data i) = a" using Suc.prems(1) by (simp add: funpow_swap1)
    then have d: "descends data a (par data i)" by (auto simp: descends_def)
    show ?case
    proof (cases "a = i")
      case False
      have "descends data a i" by (rule descends_trans [OF d descends_parent])
      then have "par data i \<in> ids T" by (rule parent_present [OF assms(1) Suc.prems(2) assms(3) _ False])
      then show ?thesis using child [OF Suc.prems(2) _ d] Suc.IH [OF anc] by blast
    qed (use assms(5) in simp)
  qed
qed

lemma descends_round:
  assumes "links_inv data T" and "i \<in> ids T" and "a \<in> ids T" and "descends data a i"
  shows "a = i \<or> rnd data a < rnd data i"
  using assms
proof (induction rule: descends_induct)
  case (child i)
  with links_facts(3) [OF assms(1) child(1,2)] show ?case by auto
qed simp

lemma descends_antisym:
  assumes "links_inv data T" and "i \<in> ids T" and "a \<in> ids T" and "descends data a i" and "descends data i a"
  shows "a = i"
  using descends_round [OF assms(1-4)] descends_round [OF assms(1,3,2,5)] by auto

subsection \<open>Insertion and removal of blocks\<close>

lemma links_insert:
  assumes inv: "links_inv data T" and new: "i \<notin> ids T" and par: "id_to_block T (par data i) = Some lp"
    and round: "rnd data (par data i) < rnd data i" and b: "pb_id b = i" "block_data_of (pb_block b) = data i"
  shows "links_inv data (T\<lparr>id_to_block := (id_to_block T)(par data i \<mapsto> lp\<lparr>lb_children := insert i (lb_children lp)\<rparr>, i \<mapsto> lb_new b)\<rparr>)"
    (is "links_inv data ?T")
proof -
  have pT: "par data i \<in> ids T" using par by blast
  have ids: "ids ?T = insert i (ids T)" using pT by auto
  have not_anc: "(par data ^^ Suc n) c \<noteq> i" if "c \<in> ids T" "par data c \<notin> ids T" for c n
  proof
    assume "(par data ^^ Suc n) c = i"
    then have "(par data ^^ Suc (Suc n)) c \<in> ids T" using pT by simp
    with links_facts(4) [OF inv that, of "Suc n"] show False by blast
  qed
  have no_child: "par data c \<noteq> i" if "c \<in> insert i (ids T)" for c
    using not_anc [of c 0] that new pT by auto
  show ?thesis
    unfolding links_inv_def ids
  proof (intro conjI allI ballI impI)
    show "finite (insert i (ids T))" using links_facts(1) [OF inv] by simp
  next
    fix j lb
    assume "id_to_block ?T j = Some lb"
    then consider "j = i" "lb = lb_new b" | "j = par data i" "j \<noteq> i" "lb = lp\<lparr>lb_children := insert i (lb_children lp)\<rparr>"
      | "j \<noteq> i" "j \<noteq> par data i" "id_to_block T j = Some lb" by (auto split: if_splits)
    then have "lb_id lb = j \<and> block_data_of (pb_block (executed_block lb)) = data j \<and>
      lb_children lb = {c \<in> insert i (ids T). par data c = j}"
    proof cases
      case 1
      then show ?thesis using b no_child by (auto simp: lb_new_def)
    next
      case 2
      then show ?thesis using links_facts(2) [OF inv par] by auto
    next
      case 3
      then show ?thesis using links_facts(2) [OF inv 3(3)] by auto
    qed
    then show "lb_id lb = j" "block_data_of (pb_block (executed_block lb)) = data j"
      "lb_children lb = {c \<in> insert i (ids T). par data c = j}" by blast+
  next
    fix j
    assume j: "j \<in> insert i (ids T)" "par data j \<in> insert i (ids T)"
    then show "rnd data (par data j) < rnd data j"
      using round no_child links_facts(3) [OF inv] by (cases "j = i") auto
  next
    fix j n
    assume j: "j \<in> insert i (ids T)" "par data j \<notin> insert i (ids T)"
    then have "j \<in> ids T" "par data j \<notin> ids T" using pT by auto
    with not_anc links_facts(4) [OF inv] show "(par data ^^ Suc n) j \<notin> insert i (ids T)" by blast
  qed
qed

lemma ids_remove [simp]: "ids (remove_block T i) = ids T - {i}"
  by (auto simp: remove_block_def)

lemma links_remove:
  assumes inv: "links_inv data T" and top: "par data i \<notin> ids T"
  shows "links_inv data (remove_block T i)"
  unfolding links_inv_def ids_remove
proof (intro conjI allI ballI impI)
  show "finite (ids T - {i})" using links_facts(1) [OF inv] by simp
next
  fix j lb
  assume "id_to_block (remove_block T i) j = Some lb"
  then have j: "id_to_block T j = Some lb" "j \<noteq> i" by (auto simp: remove_block_def split: if_splits)
  then show "lb_id lb = j" "block_data_of (pb_block (executed_block lb)) = data j" using links_facts(2) [OF inv] by blast+
  have "par data i \<noteq> j" using j(1) top by auto
  then show "lb_children lb = {c \<in> ids T - {i}. par data c = j}" using links_facts(2) [OF inv j(1)] by auto
next
  fix j
  assume "j \<in> ids T - {i}" "par data j \<in> ids T - {i}"
  then show "rnd data (par data j) < rnd data j" using links_facts(3) [OF inv] by blast
next
  fix j n
  assume j: "j \<in> ids T - {i}" "par data j \<notin> ids T - {i}"
  show "(par data ^^ Suc n) j \<notin> ids T - {i}"
  proof (cases "par data j \<in> ids T")
    case True
    with j(2) have i: "par data j = i" "i \<in> ids T" by auto
    then have "(par data ^^ Suc n) j = (par data ^^ n) i" by (simp only: funpow_Suc_right comp_apply)
    then show ?thesis using links_facts(4) [OF inv i(2) top] by (cases n) auto
  next
    case False
    with j links_facts(4) [OF inv] show ?thesis by blast
  qed
qed

lemma fold_remove:
  "fold (\<lambda>i self. remove_block self i) xs T =
     T\<lparr>id_to_block := id_to_block T |` (- set xs), id_to_quorum_cert := id_to_quorum_cert T |` (- set xs)\<rparr>"
  by (induction xs arbitrary: T) (auto simp: remove_block_def restrict_map_def fun_eq_iff)

lemma links_fold_remove:
  "links_inv data T \<Longrightarrow> parents_first data (ids T) xs \<Longrightarrow> links_inv data (fold (\<lambda>i self. remove_block self i) xs T)"
  by (induction xs arbitrary: T) (simp_all add: links_remove)

lemma parents_first_append:
  "parents_first data D (xs @ ys) \<longleftrightarrow> parents_first data D xs \<and> parents_first data (D - set xs) ys"
  by (induction xs arbitrary: D) (simp_all add: Diff_insert [symmetric] Diff_insert2 [symmetric])

lemma parents_first_insert:
  "parents_first data D xs \<Longrightarrow> \<forall>x \<in> set xs. par data x \<noteq> i \<and> x \<noteq> i \<Longrightarrow> parents_first data (insert i D) xs"
  by (induction xs arbitrary: D) (auto simp: insert_Diff_if)

subsection \<open>Pruning visits each block of the old branches once\<close>

definition subtree :: "(hash_value \<Rightarrow> block_data) \<Rightarrow> block_tree \<Rightarrow> hash_value \<Rightarrow> hash_value \<Rightarrow> hash_value set" where
  "subtree data T next_root x = {i \<in> ids T. descends data x i \<and> \<not> descends data next_root i}"

abbreviation kids :: "(hash_value \<Rightarrow> block_data) \<Rightarrow> block_tree \<Rightarrow> hash_value \<Rightarrow> hash_value \<Rightarrow> hash_value set" where
  "kids data T next_root x \<equiv> {c \<in> ids T. par data c = x \<and> c \<noteq> next_root}"

lemma push_children_eq:
  "set cs \<subseteq> ids T \<Longrightarrow> push_children T next_root cs stack =
     Ok (rev (map (\<lambda>c. the (id_to_block T c)) (filter (\<lambda>c. c \<noteq> next_root) cs)) @ stack)"
  by (induction T next_root cs stack rule: push_children.induct) (auto simp: unwrap_some_def)

lemma kid_facts:
  assumes "links_inv data T" and "x \<in> ids T" and "\<not> descends data next_root x" and "c \<in> kids data T next_root x"
  shows "\<not> descends data next_root c" and "\<not> descends data c x" and "subtree data T next_root c \<subseteq> subtree data T next_root x"
proof -
  show "\<not> descends data next_root c" using descends_step [of data next_root c] assms(3,4) by auto
  show "\<not> descends data c x"
  proof
    assume "descends data c x"
    moreover have "descends data x c" using descends_parent [of data c] assms(4) by simp
    ultimately have "c = x" using descends_antisym [OF assms(1,2)] assms(4) by auto
    then show False using links_facts(3) [OF assms(1), of c] assms(2,4) by auto
  qed
  show "subtree data T next_root c \<subseteq> subtree data T next_root x"
    using descends_trans descends_parent [of data c] assms(4) by (auto simp: subtree_def)
qed

lemma kids_disjoint:
  assumes "links_inv data T" and "x \<in> ids T" and "\<not> descends data next_root x"
    and "c \<in> kids data T next_root x" and "d \<in> kids data T next_root x" and "c \<noteq> d"
  shows "subtree data T next_root c \<inter> subtree data T next_root d = {}"
proof -
  have "False" if "descends data c i" "descends data d i" for i
  proof -
    from descends_linear [OF that] descends_step assms(4-6)
    have "descends data c x \<or> descends data d x" by fastforce
    with kid_facts(2) [OF assms(1-3)] assms(4,5) show False by blast
  qed
  then show ?thesis by (auto simp: subtree_def)
qed

lemma subtree_split:
  assumes "links_inv data T" and "x \<in> ids T" and "\<not> descends data next_root x"
  shows "subtree data T next_root x = insert x (\<Union>c \<in> kids data T next_root x. subtree data T next_root c)"
proof (intro subset_antisym subsetI)
  fix i
  assume "i \<in> subtree data T next_root x"
  then have i: "i \<in> ids T" "descends data x i" "\<not> descends data next_root i" by (auto simp: subtree_def)
  have "i = x \<or> (\<exists>c \<in> ids T. par data c = x \<and> descends data c i)"
    using assms(1) i(1) assms(2) i(2)
  proof (induction rule: descends_induct)
    case (child i)
    then show ?case using descends_trans [OF _ descends_parent [of data i]] by auto
  qed simp
  then show "i \<in> insert x (\<Union>c \<in> kids data T next_root x. subtree data T next_root c)" using i by (auto simp: subtree_def)
next
  fix i
  assume "i \<in> insert x (\<Union>c \<in> kids data T next_root x. subtree data T next_root c)"
  then show "i \<in> subtree data T next_root x" using kid_facts(3) [OF assms] assms(2,3) by (auto simp: subtree_def)
qed

definition prune_ready :: "(hash_value \<Rightarrow> block_data) \<Rightarrow> block_tree \<Rightarrow> hash_value \<Rightarrow> hash_value list \<Rightarrow> bool" where
  "prune_ready data T next_root xs \<longleftrightarrow> distinct xs \<and> set xs \<subseteq> ids T \<and> (\<forall>x \<in> set xs. \<not> descends data next_root x) \<and>
     (\<forall>x \<in> set xs. \<forall>y \<in> set xs. x \<noteq> y \<longrightarrow> subtree data T next_root x \<inter> subtree data T next_root y = {})"

lemma self_in_subtree: "prune_ready data T next_root xs \<Longrightarrow> x \<in> set xs \<Longrightarrow> x \<in> subtree data T next_root x"
  by (auto simp: prune_ready_def subtree_def)

lemma prune_ready_step:
  assumes inv: "links_inv data T" and ready: "prune_ready data T next_root (x # ys)"
    and cs: "distinct cs" "set cs = kids data T next_root x"
  shows "prune_ready data T next_root (cs @ ys)"
    and "x \<notin> (\<Union>y \<in> set (cs @ ys). subtree data T next_root y)"
    and "(\<Union>y \<in> set (x # ys). subtree data T next_root y) = insert x (\<Union>y \<in> set (cs @ ys). subtree data T next_root y)"
proof -
  have x: "x \<in> ids T" "\<not> descends data next_root x" using ready by (auto simp: prune_ready_def)
  note kid = kid_facts [OF inv x] and split = subtree_split [OF inv x] and siblings = kids_disjoint [OF inv x]
  have apart: "subtree data T next_root x \<inter> subtree data T next_root y = {}" if "y \<in> set ys" for y
    using ready that by (auto simp: prune_ready_def)
  have apart_kids: "subtree data T next_root c \<inter> subtree data T next_root y = {}" if "c \<in> set cs" "y \<in> set ys" for c y
    using kid(3) apart [OF that(2)] that(1) cs(2) by blast
  have kid_in: "c \<in> subtree data T next_root c" if "c \<in> set cs" for c using kid(1) that cs(2) by (auto simp: subtree_def)
  have y_in: "y \<in> subtree data T next_root y" if "y \<in> set ys" for y using self_in_subtree [OF ready] that by simp
  have "set cs \<inter> set ys = {}" using apart_kids kid_in y_in by blast
  then have distinct: "distinct (cs @ ys)" using cs(1) ready by (simp add: prune_ready_def)
  have apart_ys: "subtree data T next_root a \<inter> subtree data T next_root b = {}" if "a \<in> set ys" "b \<in> set ys" "a \<noteq> b" for a b
    using ready that by (simp add: prune_ready_def)
  have "subtree data T next_root a \<inter> subtree data T next_root b = {}" if "a \<in> set (cs @ ys)" "b \<in> set (cs @ ys)" "a \<noteq> b" for a b
  proof -
    consider "a \<in> set cs" "b \<in> set cs" | "a \<in> set cs" "b \<in> set ys" | "b \<in> set cs" "a \<in> set ys" | "a \<in> set ys" "b \<in> set ys"
      using \<open>a \<in> set (cs @ ys)\<close> \<open>b \<in> set (cs @ ys)\<close> by auto
    then show ?thesis
    proof cases
      case 1
      then show ?thesis using siblings [of a b] that(3) unfolding cs(2) by blast
    next
      case 2
      then show ?thesis by (rule apart_kids)
    next
      case 3
      then show ?thesis using apart_kids [of b a] by blast
    next
      case 4
      then show ?thesis using that(3) by (rule apart_ys)
    qed
  qed
  moreover have "set (cs @ ys) \<subseteq> ids T" using cs(2) ready by (auto simp: prune_ready_def)
  moreover have "\<not> descends data next_root y" if "y \<in> set (cs @ ys)" for y
    using that kid(1) [of y] ready unfolding prune_ready_def set_append cs(2) by auto
  ultimately show "prune_ready data T next_root (cs @ ys)" using distinct unfolding prune_ready_def by blast
  show "x \<notin> (\<Union>y \<in> set (cs @ ys). subtree data T next_root y)"
  proof -
    have "x \<notin> subtree data T next_root c" if "c \<in> set cs" for c using kid(2) [of c] that cs(2) by (auto simp: subtree_def)
    moreover have "x \<notin> subtree data T next_root y" if "y \<in> set ys" for y
      using apart [OF that] self_in_subtree [OF ready, of x] by auto
    ultimately show ?thesis by auto
  qed
  show "(\<Union>y \<in> set (x # ys). subtree data T next_root y) = insert x (\<Union>y \<in> set (cs @ ys). subtree data T next_root y)"
    using split cs(2) by auto
qed

lemma prune_loop_exact:
  assumes inv: "links_inv data T" and iter: "iterates iter" and "prune_ready data T next_root xs"
  shows "\<exists>res. prune_loop iter T next_root (map (\<lambda>i. the (id_to_block T i)) xs) acc = Some (Ok (acc @ res)) \<and>
    distinct res \<and> set res = (\<Union>x \<in> set xs. subtree data T next_root x) \<and>
    (\<forall>D. (\<forall>x \<in> set xs. par data x \<notin> D) \<longrightarrow> parents_first data D res)"
  using assms(3)
proof (induction "card (\<Union>x \<in> set xs. subtree data T next_root x)" arbitrary: xs acc rule: less_induct)
  case less
  show ?case
  proof (cases xs)
    case Nil
    then show ?thesis by (simp add: prune_loop.simps)
  next
    case (Cons x ys)
    let ?blk = "\<lambda>i. the (id_to_block T i)"
    have ready: "prune_ready data T next_root (x # ys)" using less.prems Cons by simp
    then obtain lb where lb: "id_to_block T x = Some lb" by (auto simp: prune_ready_def)
    note links = links_facts(2) [OF inv lb]
    have order: "set (iter (lb_children lb)) = lb_children lb" "distinct (iter (lb_children lb))"
      using iter links links_facts(1) [OF inv] by (auto simp: iterates_def)
    define cs where "cs = rev (filter (\<lambda>c. c \<noteq> next_root) (iter (lb_children lb)))"
    have cs: "distinct cs" "set cs = kids data T next_root x" using order links by (auto simp: cs_def)
    note step = prune_ready_step [OF inv ready cs]
    have "push_children T next_root (iter (lb_children lb)) (map ?blk ys) = Ok (map ?blk (cs @ ys))"
      using order(1) links by (subst push_children_eq) (auto simp: cs_def rev_map)
    then have run: "prune_loop iter T next_root (map ?blk xs) acc = prune_loop iter T next_root (map ?blk (cs @ ys)) (acc @ [x])"
      using lb links by (simp add: Cons prune_loop.simps [of iter T next_root "lb # _"])
    have "finite (\<Union>y \<in> set (cs @ ys). subtree data T next_root y)" using links_facts(1) [OF inv] by (auto simp: subtree_def)
    then have "card (\<Union>y \<in> set (cs @ ys). subtree data T next_root y) < card (\<Union>x \<in> set xs. subtree data T next_root x)"
      unfolding Cons step(3) using step(2) by simp
    from less.hyps [OF this step(1), of "acc @ [x]"] obtain res where
      res: "prune_loop iter T next_root (map ?blk (cs @ ys)) (acc @ [x]) = Some (Ok ((acc @ [x]) @ res))" "distinct res"
        "set res = (\<Union>y \<in> set (cs @ ys). subtree data T next_root y)"
        "\<forall>D. (\<forall>y \<in> set (cs @ ys). par data y \<notin> D) \<longrightarrow> parents_first data D res" by blast
    have "parents_first data D (x # res)" if "\<forall>y \<in> set xs. par data y \<notin> D" for D
      using res(4) [rule_format, of "D - {x}"] that cs(2) by (auto simp: Cons)
    moreover have "distinct (x # res)" using res(2,3) step(2) by simp
    moreover have "set (x # res) = (\<Union>x \<in> set xs. subtree data T next_root x)" unfolding Cons step(3) by (simp add: res(3))
    moreover have "prune_loop iter T next_root (map ?blk xs) acc = Some (Ok (acc @ (x # res)))" using run res(1) by simp
    ultimately show ?thesis by blast
  qed
qed

lemma find_blocks_to_prune_exact:
  assumes inv: "links_inv data T" and "iterates iter" and "commit_root_id T \<in> ids T" and "next_root \<in> ids T"
    and "descends data (commit_root_id T) next_root"
  obtains res where "find_blocks_to_prune iter T next_root = Some (Ok res)" and "distinct res"
    and "set res = subtree data T next_root (commit_root_id T)"
    and "\<And>D. par data (commit_root_id T) \<notin> D \<Longrightarrow> parents_first data D res"
proof (cases "next_root = commit_root_id T")
  case True
  then show thesis by (intro that [of "[]"]) (auto simp: find_blocks_to_prune_def subtree_def)
next
  case False
  let ?root = "commit_root_id T"
  have "\<not> descends data next_root ?root" using descends_antisym [OF inv assms(4,3,5)] False by auto
  then have "prune_ready data T next_root [?root]" using assms(3) by (auto simp: prune_ready_def)
  from prune_loop_exact [OF inv assms(2) this, of "[]"] obtain res where
    res: "prune_loop iter T next_root [the (id_to_block T ?root)] [] = Some (Ok res)" "distinct res"
      "set res = subtree data T next_root ?root" "\<forall>D. par data ?root \<notin> D \<longrightarrow> parents_first data D res" by auto
  have "find_blocks_to_prune iter T next_root = Some (Ok res)"
    using res(1) False assms(3) by (auto simp: find_blocks_to_prune_def linkable_root_def unwrap_some_def)
  with res(2-4) show thesis by (intro that [of res]) simp_all
qed

lemma process_pruned_blocks_eq:
  assumes "all = pruned_block_ids T @ new" and "n = length all - max_pruned_blocks_in_mem T"
  shows "process_pruned_blocks T new =
    fold (\<lambda>i self. remove_block self i) (take n all) (T\<lparr>pruned_block_ids := drop n all\<rparr>)"
  using assms by (auto simp: process_pruned_blocks_def Let_def)

lemma set_drop_distinct: "distinct xs \<Longrightarrow> set (drop n xs) = set xs - set (take n xs)"
proof -
  assume d: "distinct xs"
  have "set xs = set (take n xs) \<union> set (drop n xs)" by (simp flip: set_append)
  with set_take_disj_set_drop_if_distinct [OF d, of n n] show ?thesis by blast
qed

subsection \<open>The commit of a block\<close>

lemma inv_parts:
  "tree_inv data T \<Longrightarrow> links_inv data T" "tree_inv data T \<Longrightarrow> roots_inv data T"
  "tree_inv data T \<Longrightarrow> pruned_inv data T" "tree_inv data T \<Longrightarrow> certs_inv data T"
  by (simp_all add: tree_inv_def)

lemma commit_facts:
  assumes "commit_ready data T bs decision" and "i = pb_id (last bs)"
  shows "bs \<noteq> []" "i \<in> ids T" "i \<noteq> commit_root_id T" "descends data (commit_root_id T) i" "descends data i (ordered_root_id T)"
    "descends data i (highest_certified_block_id T)" "bi_id (commit_info (lis_ledger_info decision)) = i"
    "bi_round (commit_info (lis_ledger_info decision)) = rnd data i"
  using assms by (simp_all add: commit_ready_def Let_def)

lemma commit_callback_run:
  assumes inv: "tree_inv data T" and iter: "iterates iter" and ready: "commit_ready data T bs decision"
    and match: "match_ordered_only (qc_commit_info proof) (commit_info (lis_ledger_info decision))"
    and i: "i = pb_id (last bs)"
  obtains res all n where "all = pruned_block_ids T @ res" and "n = length all - max_pruned_blocks_in_mem T"
    and "distinct res" and "set res = subtree data T i (commit_root_id T)"
    and "parents_first data (ids T) all"
    and "commit_callback iter T bs proof decision = Some (Ok
      ((fold (\<lambda>i self. remove_block self i) (take n all) (T\<lparr>pruned_block_ids := drop n all\<rparr>))
        \<lparr>bt_highest_commit_cert := qc_new (qc_vote_data proof) decision, commit_root_id := i\<rparr>))"
proof -
  note ready = commit_facts [OF ready i]
  note links = inv_parts(1) [OF inv]
  have root: "commit_root_id T \<in> ids T" using inv_parts(2) [OF inv] by (simp add: roots_inv_def)
  obtain res where res: "find_blocks_to_prune iter T i = Some (Ok res)" "distinct res" "set res = subtree data T i (commit_root_id T)"
    "\<And>D. par data (commit_root_id T) \<notin> D \<Longrightarrow> parents_first data D res"
    using find_blocks_to_prune_exact [OF links iter root ready(2,4)] by blast
  define all where "all = pruned_block_ids T @ res"
  define n where "n = length all - max_pruned_blocks_in_mem T"
  have pruned: "parents_first data (ids T) (pruned_block_ids T)" "par data (commit_root_id T) \<notin> ids T - set (pruned_block_ids T)"
    "\<forall>j \<in> set (pruned_block_ids T). \<not> descends data (commit_root_id T) j"
    using inv_parts(3) [OF inv] by (simp_all add: pruned_inv_def)
  have first: "parents_first data (ids T) all" using pruned(1) res(4) [OF pruned(2)] by (simp add: all_def parents_first_append)
  have kept: "i \<notin> set all"
    using pruned(3) ready(4) res(3) by (auto simp: all_def subtree_def)
  have "rnd data (commit_root_id T) < rnd data i" using descends_round [OF links ready(2) root ready(4)] ready(3) by auto
  then have newer: "bi_round (qc_commit_info (bt_highest_commit_cert T)) < bi_round (commit_info (lis_ledger_info decision))"
    using inv_parts(4) [OF inv] ready(8) by (auto simp: certs_inv_def intro: le_less_trans)
  have "commit_callback iter T bs proof decision = Some (Ok
      ((fold (\<lambda>i self. remove_block self i) (take n all) (T\<lparr>pruned_block_ids := drop n all\<rparr>))
        \<lparr>bt_highest_commit_cert := qc_new (qc_vote_data proof) decision, commit_root_id := i\<rparr>))"
    using match ready(1,2,7) root newer res(1) kept i in_set_takeD [of i n all]
    by (auto simp: commit_callback_def create_merged_with_executed_state_def ensure_def commit_root_def get_block_def
        unwrap_some_def process_pruned_blocks_eq [OF all_def n_def] update_highest_commit_cert_def update_commit_root_def
        fold_remove qc_new_def block_exists_def restrict_map_def assert_p_def)
  then show thesis by (rule that [OF all_def n_def res(2,3) first])
qed

lemma commit_keeps_inv:
  assumes inv: "tree_inv data T" and iter: "iterates iter" and ready: "commit_ready data T bs decision"
    and match: "match_ordered_only (qc_commit_info proof) (commit_info (lis_ledger_info decision))"
    and i: "i = pb_id (last bs)"
  obtains T' where "commit_callback iter T bs proof decision = Some (Ok T')" and "tree_inv data T'" and "commit_root_id T' = i"
    and "{j \<in> ids T'. descends data i j} = {j \<in> ids T. descends data i j}"
    and "ids T' \<subseteq> ids T" and "set (pruned_block_ids T') = {j \<in> ids T'. j \<in> set (pruned_block_ids T) \<or> j \<in> subtree data T i (commit_root_id T)}"
proof -
  note r = commit_facts [OF ready i]
  have links: "links_inv data T" and roots: "roots_inv data T" and pruned: "pruned_inv data T" and certs: "certs_inv data T"
    using inv by (simp_all add: tree_inv_def)
  obtain res all n where run: "all = pruned_block_ids T @ res" "n = length all - max_pruned_blocks_in_mem T" "distinct res"
    "set res = subtree data T i (commit_root_id T)" "parents_first data (ids T) all"
    "commit_callback iter T bs proof decision = Some (Ok
      ((fold (\<lambda>i self. remove_block self i) (take n all) (T\<lparr>pruned_block_ids := drop n all\<rparr>))
        \<lparr>bt_highest_commit_cert := qc_new (qc_vote_data proof) decision, commit_root_id := i\<rparr>))"
    by (rule commit_callback_run [OF inv iter ready match i])
  define T1 where "T1 = fold (\<lambda>i self. remove_block self i) (take n all) (T\<lparr>pruned_block_ids := drop n all\<rparr>)"
  define T' where "T' = T1\<lparr>bt_highest_commit_cert := qc_new (qc_vote_data proof) decision, commit_root_id := i\<rparr>"
  have ids: "ids T' = ids T - set (take n all)" by (auto simp: T'_def T1_def fold_remove restrict_map_def split: if_splits)
  have split: "parents_first data (ids T) (take n all)" "parents_first data (ids T - set (take n all)) (drop n all)"
    using run(5) parents_first_append [of data "ids T" "take n all" "drop n all"] by simp_all
  have links1: "links_inv data (T\<lparr>pruned_block_ids := drop n all\<rparr>)" using links by (simp add: links_inv_def)
  have "links_inv data T1" unfolding T1_def by (rule links_fold_remove [OF links1]) (use split(1) in simp)
  then have links': "links_inv data T'" by (simp add: links_inv_def T'_def)
  have old: "\<not> descends data i j" if "j \<in> set all" for j
    using that pruned descends_trans [OF r(4)] by (auto simp: run(1,4) pruned_inv_def subtree_def)
  have all: "distinct all" "set all \<subseteq> ids T"
    using pruned run(3) by (auto simp: run(1,4) pruned_inv_def subtree_def)
  have kept: "j \<in> ids T'" if "descends data i j" "j \<in> ids T" for j
    using old that in_set_takeD [of j n all] by (auto simp: ids)
  have roots': "roots_inv data T'"
    using kept r(2,5,6) roots by (auto simp: roots_inv_def T'_def T1_def fold_remove)
  have "par data i \<in> ids T" using parent_present [OF links r(2) _ r(4)] r(3) roots by (auto simp: roots_inv_def)
  moreover have "descends data (commit_root_id T) (par data i)" using descends_step [OF r(4)] r(3) by auto
  moreover have "\<not> descends data i (par data i)"
    using descends_antisym [OF links r(2) \<open>par data i \<in> ids T\<close> descends_parent] links_facts(3) [OF links r(2) \<open>par data i \<in> ids T\<close>] by auto
  ultimately have parent: "par data i \<in> set all" by (simp add: run(1,4) subtree_def)
  have dropped: "set (drop n all) = set all - set (take n all)" by (rule set_drop_distinct [OF all(1)])
  have pruned': "pruned_inv data T'"
  proof -
    have T': "pruned_block_ids T' = drop n all" "max_pruned_blocks_in_mem T' = max_pruned_blocks_in_mem T" "commit_root_id T' = i"
      by (simp_all add: T'_def T1_def fold_remove)
    have "length (drop n all) \<le> max_pruned_blocks_in_mem T" using run(2) by simp
    moreover have "\<forall>j \<in> set (drop n all). \<not> descends data i j" using old by (auto dest: in_set_dropD)
    moreover have "set (drop n all) \<subseteq> ids T - set (take n all)" "par data i \<notin> ids T - set (take n all) - set (drop n all)"
      using dropped all(2) parent by auto
    ultimately show ?thesis using all(1) split(2) unfolding pruned_inv_def ids T' by simp
  qed
  have certs': "certs_inv data T'"
  proof -
    have T': "bt_highest_quorum_cert T' = bt_highest_quorum_cert T" "highest_certified_block_id T' = highest_certified_block_id T"
      "bt_highest_commit_cert T' = qc_new (qc_vote_data proof) decision" "commit_root_id T' = i"
      by (simp_all add: T'_def T1_def fold_remove)
    have "j \<in> ids T'" "id_to_quorum_cert T j = Some qc" if "id_to_quorum_cert T' j = Some qc" for j qc
      using that certs ids by (auto simp: certs_inv_def T'_def T1_def fold_remove restrict_map_def split: if_splits)
    with certs r(8) show ?thesis unfolding certs_inv_def T' by (simp add: qc_new_def)
  qed
  have "set (pruned_block_ids T') = {j \<in> ids T'. j \<in> set (pruned_block_ids T) \<or> j \<in> subtree data T i (commit_root_id T)}"
    using all(2) dropped unfolding ids by (auto simp: T'_def T1_def fold_remove run(1,4))
  moreover have "{j \<in> ids T'. descends data i j} = {j \<in> ids T. descends data i j}" using kept ids by auto
  ultimately show thesis
    using that [of T'] run(6) links' roots' pruned' certs' ids by (auto simp: T'_def T1_def tree_inv_def)
qed

subsection \<open>Paths\<close>

fun walk :: "block_tree \<Rightarrow> hash_value \<Rightarrow> pipelined_block list \<Rightarrow> hash_value \<Rightarrow> bool" where
  "walk T i [] stop \<longleftrightarrow> i = stop"
| "walk T i (p # ps) stop \<longleftrightarrow> get_block T i = Some p \<and> walk T (pb_parent_id p) ps stop"

lemma links_block:
  assumes "links_inv data T" and "get_block T i = Some b"
  shows "i \<in> ids T" "pb_id b = i" "pb_parent_id b = par data i" "pb_round b = rnd data i"
  using assms(2) links_facts(2) [OF assms(1), of i] by (auto simp: get_block_def par_def)

lemma links_get_block: "i \<in> ids T \<Longrightarrow> \<exists>b. get_block T i = Some b"
  by (auto simp: get_block_def)

lemma path_loop_total:
  assumes inv: "links_inv data T"
  shows "\<exists>w. path_loop T R i acc = Some w \<and>
    (\<forall>stop bs. w = Some (stop, bs) \<longrightarrow> stop \<in> ids T \<and> (\<exists>ps. bs = acc @ ps \<and> walk T i ps stop))"
proof (induction "unat (rnd data i)" arbitrary: i acc rule: less_induct)
  case less
  show ?case
  proof (cases "get_block T i")
    case None
    then show ?thesis by (simp add: path_loop.simps)
  next
    case (Some b)
    note b = links_block [OF inv Some]
    show ?thesis
    proof (cases "pb_round b \<le> R")
      case True
      with Some b(1) show ?thesis by (simp add: path_loop.simps)
    next
      case False
      with Some have run: "path_loop T R i acc = path_loop T R (par data i) (acc @ [b])" by (simp add: path_loop.simps [of T R i] b(3))
      show ?thesis
      proof (cases "par data i \<in> ids T")
        case True
        have "unat (rnd data (par data i)) < unat (rnd data i)"
          using links_facts(3) [OF inv b(1) True] by (simp add: word_less_nat_alt)
        from less.hyps [OF this, of "acc @ [b]"] obtain w where
          w: "path_loop T R (par data i) (acc @ [b]) = Some w"
            "\<forall>stop bs. w = Some (stop, bs) \<longrightarrow> stop \<in> ids T \<and> (\<exists>ps. bs = (acc @ [b]) @ ps \<and> walk T (par data i) ps stop)" by blast
        have "stop \<in> ids T \<and> (\<exists>ps. bs = acc @ ps \<and> walk T i ps stop)" if "w = Some (stop, bs)" for stop bs
        proof -
          from w(2) that obtain ps where "stop \<in> ids T" "bs = acc @ b # ps" "walk T (par data i) ps stop" by auto
          then show ?thesis using Some b(3) by (intro conjI exI [of _ "b # ps"]) simp_all
        qed
        with w(1) run show ?thesis by auto
      next
        case False
        then have "get_block T (par data i) = None" by (auto simp: get_block_def)
        with run show ?thesis by (simp add: path_loop.simps [of T R "par data i"])
      qed
    qed
  qed
qed

lemma walk_descends: "links_inv data T \<Longrightarrow> walk T i ps stop \<Longrightarrow> stop \<in> ids T \<Longrightarrow> i \<in> ids T \<and> descends data stop i"
proof (induction T i ps stop rule: walk.induct)
  case (2 T i p ps stop)
  then have get: "get_block T i = Some p" and rest: "walk T (pb_parent_id p) ps stop" by simp_all
  note b = links_block [OF 2(2) get]
  have "descends data stop (par data i)" using 2(1) [OF 2(2) rest 2(4)] b(3) by simp
  then show ?case using b(1) descends_trans [OF _ descends_parent] by blast
qed simp

lemma path_loop_found:
  assumes inv: "links_inv data T" and "i \<in> ids T" and "r \<in> ids T" and "descends data r i"
  shows "\<exists>ps. path_loop T (rnd data r) i acc = Some (Some (r, acc @ ps)) \<and> walk T i ps r"
  using inv assms(2-4)
proof (induction arbitrary: acc rule: descends_induct)
  case self
  obtain b where b: "get_block T r = Some b" using links_get_block [OF assms(3)] by blast
  with links_block(4) [OF inv b] show ?case by (simp add: path_loop.simps)
next
  case (child i)
  obtain b where b: "get_block T i = Some b" using links_get_block [OF child(1)] by blast
  have "rnd data r \<le> rnd data (par data i)" using descends_round [OF inv child(2) assms(3) child(3)] by auto
  also have "\<dots> < rnd data i" by (rule links_facts(3) [OF inv child(1,2)])
  finally have "path_loop T (rnd data r) i acc = path_loop T (rnd data r) (par data i) (acc @ [b])"
    using b links_block [OF inv b] by (auto simp: path_loop.simps [of T _ i])
  moreover obtain ps where "path_loop T (rnd data r) (par data i) (acc @ [b]) = Some (Some (r, (acc @ [b]) @ ps))"
    "walk T (par data i) ps r" using child(4) by blast
  ultimately show ?case using b links_block(3) [OF inv b] by (intro exI [of _ "b # ps"]) simp
qed

text \<open>A chain of blocks from a root, exclusive, to a block, inclusive.\<close>

definition chain :: "block_tree \<Rightarrow> hash_value \<Rightarrow> pipelined_block list \<Rightarrow> hash_value \<Rightarrow> bool" where
  "chain T r bs i \<longleftrightarrow> (\<forall>b \<in> set bs. get_block T (pb_id b) = Some b) \<and>
     map pb_parent_id bs = butlast (r # map pb_id bs) \<and> last (r # map pb_id bs) = i"

lemma walk_chain: "links_inv data T \<Longrightarrow> walk T i ps r \<Longrightarrow> chain T r (rev ps) i"
proof (induction T i ps r rule: walk.induct)
  case (1 T i stop)
  then show ?case by (simp add: chain_def)
next
  case (2 T i p ps stop)
  then have get: "get_block T i = Some p" and rest: "walk T (pb_parent_id p) ps stop" by simp_all
  from 2(1) [OF 2(2) rest] have IH: "\<forall>b \<in> set ps. get_block T (pb_id b) = Some b"
    "map pb_parent_id (rev ps) = butlast (stop # map pb_id (rev ps))" "last (stop # map pb_id (rev ps)) = pb_parent_id p"
    by (simp_all add: chain_def)
  have "map pb_parent_id (rev ps @ [p]) = butlast (stop # map pb_id (rev ps)) @ [last (stop # map pb_id (rev ps))]"
    using IH(2,3) by (simp del: butlast.simps last.simps)
  also have "\<dots> = stop # map pb_id (rev ps)" by (rule append_butlast_last_id) simp
  also have "\<dots> = butlast (stop # map pb_id (rev ps @ [p]))" by (simp add: butlast_append)
  finally show ?case using IH(1) get links_block(2) [OF 2(2) get] by (simp add: chain_def)
qed

lemma path_exact_links:
  assumes inv: "links_inv data T" and r: "r \<in> ids T"
  shows "\<exists>p. path_from_root_to_block T i r (rnd data r) = Some p \<and>
    (p \<noteq> None \<longleftrightarrow> i \<in> ids T \<and> descends data r i) \<and> (\<forall>bs. p = Some bs \<longrightarrow> chain T r bs i)"
proof -
  obtain w where w: "path_loop T (rnd data r) i [] = Some w"
    "\<forall>stop bs. w = Some (stop, bs) \<longrightarrow> stop \<in> ids T \<and> walk T i bs stop"
    using path_loop_total [OF inv, of "rnd data r" i "[]"] by auto
  show ?thesis
  proof (cases "i \<in> ids T \<and> descends data r i")
    case True
    then obtain ps where "path_loop T (rnd data r) i [] = Some (Some (r, ps))" "walk T i ps r"
      using path_loop_found [OF inv _ r, of i "[]"] by auto
    then show ?thesis using True walk_chain [OF inv] by (simp add: path_from_root_to_block_def)
  next
    case False
    have "stop \<noteq> r" if "w = Some (stop, bs)" for stop bs
      using w(2) that walk_descends [OF inv] False by blast
    with w(1) False show ?thesis by (cases w) (auto simp: path_from_root_to_block_def)
  qed
qed

subsection \<open>The other steps\<close>

lemma init_inv:
  assumes "root_ok data root root_quorum_cert root_commit_cert"
    and "bt_new root root_quorum_cert root_ordered_cert root_commit_cert max_pruned highest_tc = Ok T"
  shows "tree_inv data T"
proof -
  have root: "block_data_of (pb_block root) = data (pb_id root)" "(par data ^^ Suc n) (pb_id root) \<noteq> pb_id root"
    "bi_id (certified_block root_quorum_cert) = pb_id root" "bi_round (qc_commit_info root_commit_cert) \<le> pb_round root" for n
    using assms(1) unfolding root_ok_def by blast+
  have "par data (pb_id root) \<noteq> pb_id root" using root(2) [of 0] by simp
  moreover have "par data ((par data ^^ n) (pb_id root)) \<noteq> pb_id root" for n using root(2) [of n] by simp
  ultimately show ?thesis
    using assms(2) root(1,3,4)
    by (auto simp: bt_new_def result_simps tree_inv_def links_inv_def roots_inv_def pruned_inv_def certs_inv_def lb_new_def
        split: if_splits)
qed

lemma insert_block_inv:
  assumes inv: "tree_inv data T" and new: "get_block T (pb_id b) = None"
    and b: "block_data_of (pb_block b) = data (pb_id b)" "rnd data (par data (pb_id b)) < pb_round b"
  shows "insert_block T b \<noteq> Panic" and "insert_block T b = Ok (stored, T') \<Longrightarrow> tree_inv data T'"
proof -
  let ?i = "pb_id b"
  have links: "links_inv data T" using inv by (simp add: tree_inv_def)
  have i: "?i \<notin> ids T" "id_to_block T ?i = None" using new by (auto simp: get_block_def)
  have p: "pb_parent_id b = par data ?i" using b(1) by (simp add: par_def)
  have fresh: "?i \<notin> lb_children lp" if "id_to_block T (par data ?i) = Some lp" for lp
    using links_facts(2) [OF links that] i(1) by auto
  define T1 where "T1 lp = T\<lparr>id_to_block := (id_to_block T)(par data ?i \<mapsto> lp\<lparr>lb_children := insert ?i (lb_children lp)\<rparr>, ?i \<mapsto> lb_new b)\<rparr>" for lp
  have run: "insert_block T b = (case id_to_block T (par data ?i) of None \<Rightarrow> Err (Msg ''Parent block not found'') | Some lp \<Rightarrow> Ok (b, T1 lp))"
  proof (cases "id_to_block T (par data ?i)")
    case (Some lp)
    have "par data ?i \<noteq> ?i" using Some i(2) by auto
    then show ?thesis using fresh [OF Some] Some new i(2) by (simp add: insert_block_def p add_child_def assert_p_def Let_def T1_def)
  qed (simp add: insert_block_def new p)
  then show "insert_block T b \<noteq> Panic" by (simp split: option.splits)
  show "tree_inv data T'" if "insert_block T b = Ok (stored, T')"
  proof -
    from that run obtain lp where lp: "id_to_block T (par data ?i) = Some lp" "T' = T1 lp" by (auto split: option.splits)
    have "links_inv data T'"
      unfolding lp(2) T1_def by (rule links_insert [OF links i(1) lp(1)]) (use b in simp_all)
    moreover have ids: "ids T' = insert ?i (ids T)" using lp(1) by (auto simp: lp(2) T1_def)
    have same: "commit_root_id T' = commit_root_id T" "ordered_root_id T' = ordered_root_id T" "highest_certified_block_id T' = highest_certified_block_id T"
      "pruned_block_ids T' = pruned_block_ids T" "max_pruned_blocks_in_mem T' = max_pruned_blocks_in_mem T"
      "bt_highest_quorum_cert T' = bt_highest_quorum_cert T" "id_to_quorum_cert T' = id_to_quorum_cert T"
      "bt_highest_commit_cert T' = bt_highest_commit_cert T" by (simp_all add: lp(2) T1_def)
    have childless: "par data j \<noteq> ?i" if "j \<in> ids T" for j
    proof
      assume "par data j = ?i"
      then show False using links_facts(4) [OF links that, of 1] i(1) lp(1) by auto
    qed
    have "roots_inv data T'" "certs_inv data T'" using inv by (auto simp: tree_inv_def roots_inv_def certs_inv_def ids same)
    moreover have "pruned_inv data T'"
    proof -
      have old: "pruned_inv data T" "commit_root_id T \<in> ids T" using inv by (simp_all add: tree_inv_def roots_inv_def)
      then have "\<forall>x \<in> set (pruned_block_ids T). par data x \<noteq> ?i \<and> x \<noteq> ?i"
        using childless i(1) unfolding pruned_inv_def by blast
      then show ?thesis using old childless parents_first_insert unfolding pruned_inv_def ids same by auto
    qed
    ultimately show ?thesis by (simp add: tree_inv_def)
  qed
qed

lemma insert_quorum_cert_inv:
  assumes inv: "tree_inv data T" and ok: "insert_quorum_cert T qc = Ok T'"
  shows "tree_inv data T'"
proof -
  let ?i = "bi_id (certified_block qc)"
  have links: "links_inv data T" using inv by (simp add: tree_inv_def)
  obtain h where h: "get_block T (highest_certified_block_id T) = Some h"
    using inv links_get_block by (auto simp: tree_inv_def roots_inv_def)
  obtain b where b: "get_block T ?i = Some b" using ok by (cases "get_block T ?i") (auto simp: insert_quorum_cert_def Let_def)
  note facts = links_block [OF links b] links_block [OF links h]
  note run = insert_quorum_cert_def Let_def highest_certified_block_def unwrap_some_def
  have same: "id_to_block T' = id_to_block T" "commit_root_id T' = commit_root_id T" "ordered_root_id T' = ordered_root_id T"
    "pruned_block_ids T' = pruned_block_ids T" "max_pruned_blocks_in_mem T' = max_pruned_blocks_in_mem T"
    "bt_highest_commit_cert T' = bt_highest_commit_cert T"
    using ok b h by (auto simp: run split: if_splits option.splits)
  consider (higher) "highest_certified_block_id T' = ?i" "bt_highest_quorum_cert T' = qc" "rnd data (highest_certified_block_id T) < rnd data ?i"
    | (lower) "highest_certified_block_id T' = highest_certified_block_id T" "bt_highest_quorum_cert T' = bt_highest_quorum_cert T"
      "rnd data ?i \<le> rnd data (highest_certified_block_id T)"
    using ok b h facts by (auto simp: run split: if_splits option.splits)
  then have highest: "highest_certified_block_id T' \<in> ids T" "bi_id (certified_block (bt_highest_quorum_cert T')) = highest_certified_block_id T'"
    "rnd data ?i \<le> rnd data (highest_certified_block_id T')" "rnd data (highest_certified_block_id T) \<le> rnd data (highest_certified_block_id T')"
    using inv facts(1) by (cases; simp add: tree_inv_def roots_inv_def certs_inv_def)+
  have certs: "id_to_quorum_cert T j = Some q \<or> j = ?i \<and> q = qc" if "id_to_quorum_cert T' j = Some q" for j q
    using that ok b h by (auto simp: run split: if_splits option.splits)
  have "links_inv data T'" "pruned_inv data T'" using inv by (simp_all add: tree_inv_def links_inv_def pruned_inv_def same)
  moreover have "roots_inv data T'" using inv highest(1) by (simp add: tree_inv_def roots_inv_def same)
  moreover have "certs_inv data T'"
  proof -
    have old: "certs_inv data T" using inv by (simp add: tree_inv_def)
    have "j \<in> ids T \<and> bi_id (certified_block q) = j \<and> rnd data j \<le> rnd data (highest_certified_block_id T')"
      if "id_to_quorum_cert T' j = Some q" for j q
      using certs [OF that]
    proof
      assume "id_to_quorum_cert T j = Some q"
      then have "j \<in> ids T" "bi_id (certified_block q) = j" "rnd data j \<le> rnd data (highest_certified_block_id T)"
        using old unfolding certs_inv_def by blast+
      then show ?thesis using highest(4) by simp
    next
      assume "j = ?i \<and> q = qc"
      then show ?thesis using facts(1) highest(3) by simp
    qed
    then show ?thesis using old highest(2) unfolding certs_inv_def same by blast
  qed
  ultimately show ?thesis by (simp add: tree_inv_def)
qed

lemma send_for_execution_inv:
  assumes inv: "tree_inv data T" and ok: "send_for_execution T qc = Some (Ok (bs, T'))"
  shows "tree_inv data T'"
proof -
  let ?i = "bi_id (qc_commit_info qc)"
  have links: "links_inv data T" and root: "ordered_root_id T \<in> ids T" using inv by (simp_all add: tree_inv_def roots_inv_def)
  obtain r where r: "get_block T (ordered_root_id T) = Some r" using links_get_block [OF root] by blast
  obtain p where p: "path_from_root_to_block T ?i (ordered_root_id T) (pb_round r) = Some p"
    "p \<noteq> None \<longleftrightarrow> ?i \<in> ids T \<and> descends data (ordered_root_id T) ?i"
    using path_exact_links [OF links root, of ?i] links_block(4) [OF links r] by auto
  obtain b where get: "get_block T ?i = Some b" using ok by (cases "get_block T ?i") (auto simp: send_for_execution_def Let_def)
  have b: "p \<noteq> None" "T' = T\<lparr>ordered_root_id := pb_id b\<rparr>"
    using ok get r p(1)
    by (auto simp: send_for_execution_def path_from_ordered_root_def ordered_root_def update_ordered_root_def unwrap_some_def
        ensure_def Let_def result_simps split: option.splits if_splits)
  have "descends data (commit_root_id T) ?i" "?i \<in> ids T"
    using inv b(1) p(2) descends_trans by (auto simp: tree_inv_def roots_inv_def)
  then show ?thesis using inv b(2) links_block(2) [OF links get]
    by (simp add: tree_inv_def links_inv_def roots_inv_def pruned_inv_def certs_inv_def)
qed

lemma step_inv:
  assumes "iterates iter" and "store_step data iter T T'" and inv: "tree_inv data T"
  shows "tree_inv data T'"
  using assms(2)
proof cases
  case (block b saved stored)
  show ?thesis
  proof (cases "get_block T (block_id b)")
    case None
    with block(3) have "insert_block T (pb_new_ordered b) = Ok (stored, T')" by (auto simp: insert_ordered_block_def result_simps)
    then show ?thesis using insert_block_inv(2) [OF inv, of "pb_new_ordered b"] block(1,2) None by (simp add: pb_new_ordered_def)
  qed (use block(3) inv in \<open>simp add: insert_ordered_block_def\<close>)
next
  case (cert saved qc)
  then show ?thesis using insert_quorum_cert_inv [OF inv] by (auto simp: insert_single_quorum_cert_def result_simps)
next
  case (timeout saved tc)
  then have "T' = T \<or> (\<exists>tc. T' = T\<lparr>bt_highest_2chain_timeout_cert := Some tc\<rparr>)"
    by (auto simp: insert_2chain_timeout_certificate_def replace_2chain_timeout_cert_def Let_def result_simps split: if_splits)
  then show ?thesis using inv by (elim disjE exE) (simp_all add: tree_inv_def links_inv_def roots_inv_def pruned_inv_def certs_inv_def)
next
  case (order qc bs)
  then show ?thesis by (intro send_for_execution_inv [OF inv])
next
  case (commit bs decision fin)
  have match: "match_ordered_only (qc_commit_info fin) (commit_info (lis_ledger_info decision))"
    using commit(2) by (rule contrapos_pp) (simp add: commit_callback_def create_merged_with_executed_state_def ensure_def)
  obtain T1 where "commit_callback iter T bs fin decision = Some (Ok T1)" "tree_inv data T1"
    by (rule commit_keeps_inv [OF inv assms(1) commit(1) match refl])
  with commit(2) show ?thesis by simp
qed

lemma store_reachable_inv: "store_reachable data iter T \<Longrightarrow> iterates iter \<Longrightarrow> tree_inv data T"
proof (induction rule: store_reachable.induct)
  case (init root root_quorum_cert root_commit_cert root_ordered_cert max_pruned highest_tc T)
  then show ?case by (intro init_inv)
next
  case (step T T')
  then show ?case using step_inv by blast
qed

lemma root_Ok: "i \<in> ids T \<Longrightarrow> \<exists>b. (unwrap_some (get_block T i) :: (pipelined_block, 'e) result) = Ok b \<and> get_block T i = Some b"
  by (auto simp: get_block_def unwrap_some_def)

lemma children_consistent:
  assumes inv: "links_inv data T" and lb: "id_to_block T i = Some lb"
  shows "lb_id lb = i" and "lb_children lb = {c. \<exists>b. get_block T c = Some b \<and> pb_parent_id b = i}"
    and "get_block T c = Some b \<Longrightarrow> pb_parent_id b = i \<Longrightarrow> pb_round (executed_block lb) < pb_round b"
proof -
  note facts = links_facts(2) [OF inv lb]
  show "lb_id lb = i" using facts by blast
  have "c \<in> ids T \<and> par data c = i \<longleftrightarrow> (\<exists>b. get_block T c = Some b \<and> pb_parent_id b = i)" for c
    using links_block(1,3) [OF inv, of c] links_get_block [of c T] by auto
  with facts show "lb_children lb = {c. \<exists>b. get_block T c = Some b \<and> pb_parent_id b = i}" by simp
  show "pb_round (executed_block lb) < pb_round b" if b: "get_block T c = Some b" "pb_parent_id b = i"
  proof -
    note cb = links_block [OF inv b(1)]
    have "rnd data (par data c) < rnd data c" using links_facts(3) [OF inv cb(1)] cb(3) b(2) lb by auto
    then show ?thesis using facts cb(3,4) b(2) by simp
  qed
qed

lemma roots_consistent:
  assumes inv: "tree_inv data T"
  shows "\<exists>c r h. commit_root T = (Ok c :: (_, unit) result) \<and> ordered_root T = (Ok r :: (_, unit) result) \<and>
    highest_certified_block T = (Ok h :: (_, unit) result) \<and> descends data (pb_id c) (pb_id r) \<and>
    bi_id (certified_block (bt_highest_quorum_cert T)) = pb_id h \<and>
    (\<forall>i qc. get_quorum_cert_for_block T i = Some qc \<longrightarrow> (\<exists>b. get_block T i = Some b \<and> pb_round b \<le> pb_round h))"
proof -
  have parts: "links_inv data T" "roots_inv data T" "certs_inv data T" using inv by (simp_all add: tree_inv_def)
  then obtain c r h where get: "get_block T (commit_root_id T) = Some c" "get_block T (ordered_root_id T) = Some r"
    "get_block T (highest_certified_block_id T) = Some h" using links_get_block unfolding roots_inv_def by metis
  note facts = links_block [OF parts(1) get(1)] links_block [OF parts(1) get(2)] links_block [OF parts(1) get(3)]
  have "\<exists>b. get_block T i = Some b \<and> pb_round b \<le> pb_round h" if "id_to_quorum_cert T i = Some qc" for i qc
  proof -
    have i: "i \<in> ids T" "rnd data i \<le> rnd data (highest_certified_block_id T)" using parts(3) that unfolding certs_inv_def by blast+
    then obtain b where "get_block T i = Some b" using links_get_block by blast
    with i(2) links_block(4) [OF parts(1) this] facts(12) show ?thesis by auto
  qed
  then show ?thesis
    using parts(2,3) get facts
    by (intro exI [of _ c] exI [of _ r] exI [of _ h])
      (simp add: commit_root_def ordered_root_def highest_certified_block_def unwrap_some_def roots_inv_def certs_inv_def
        get_quorum_cert_for_block_def)
qed

lemma insertion_total:
  assumes inv: "tree_inv data T"
  shows "saved \<noteq> Panic \<Longrightarrow> block_data_of b = data (block_id b) \<Longrightarrow> rnd data (par data (block_id b)) < block_round b \<Longrightarrow>
      insert_ordered_block saved T b \<noteq> Panic"
    and "saved \<noteq> Panic \<Longrightarrow> insert_single_quorum_cert saved T qc \<noteq> Panic"
proof -
  have parts: "links_inv data T" "roots_inv data T" using inv by (simp_all add: tree_inv_def)
  then obtain r h where get: "get_block T (ordered_root_id T) = Some r" "get_block T (highest_certified_block_id T) = Some h"
    using links_get_block unfolding roots_inv_def by metis
  show "insert_ordered_block saved T b \<noteq> Panic"
    if "saved \<noteq> Panic" "block_data_of b = data (block_id b)" "rnd data (par data (block_id b)) < block_round b"
  proof (cases "get_block T (block_id b)")
    case None
    then have "insert_block T (pb_new_ordered b) \<noteq> Panic" using insert_block_inv(1) [OF inv, of "pb_new_ordered b"] that(2,3)
      by (simp add: pb_new_ordered_def)
    then show ?thesis using None get(1) that(1)
      by (cases saved) (simp_all add: insert_ordered_block_def ordered_root_def unwrap_some_def ensure_def)
  qed (simp add: insert_ordered_block_def)
  have "insert_quorum_cert T qc \<noteq> Panic"
    using get(2) by (auto simp: insert_quorum_cert_def Let_def highest_certified_block_def unwrap_some_def split: option.splits)
  moreover have "(scr_version res :: (version, anyhow) result) \<noteq> Panic" for res
    by (simp add: scr_version_def unwrap_some_def checked_sub_def)
  ultimately show "insert_single_quorum_cert saved T qc \<noteq> Panic" if "saved \<noteq> Panic"
    using that by (cases saved)
      (auto simp: insert_single_quorum_cert_def pb_block_info_def ensure_def and_then_eq_Panic split: option.splits)
qed

section \<open>Properties\<close>

text \<open>
  \<^bold>\<open>C37.\<close> The tree of pending blocks stays consistent, in whatever order blocks whose round exceeds that of their
  parent, certificates, orders, and commits that are ready (\<open>commit_ready\<close>) reach the store. The children of every block are exactly the blocks whose parent it is, and have higher rounds. The commit root, the
  ordered root and the certified block of the highest round are in the tree, so no lookup of them panics; the ordered root
  descends from the commit root. The highest quorum certificate certifies a block whose round is at least that of every
  block with a certificate. At most the configured number of pruned blocks stays in memory. The insertion of a block
  whose round exceeds that of its parent, or of a certificate, does not panic.
\<close>

theorem block_tree_consistent:
  assumes "iterates iter" and "store_reachable data iter T"
  shows "(\<forall>i lb. id_to_block T i = Some lb \<longrightarrow> lb_id lb = i \<and>
       lb_children lb = {c. \<exists>b. get_block T c = Some b \<and> pb_parent_id b = i} \<and>
       (\<forall>c b. get_block T c = Some b \<and> pb_parent_id b = i \<longrightarrow> pb_round (executed_block lb) < pb_round b)) \<and>
    (\<exists>c r h. commit_root T = (Ok c :: (_, unit) result) \<and> ordered_root T = (Ok r :: (_, unit) result) \<and>
       highest_certified_block T = (Ok h :: (_, unit) result) \<and> descends data (pb_id c) (pb_id r) \<and>
       bi_id (certified_block (bt_highest_quorum_cert T)) = pb_id h \<and>
       (\<forall>i qc. get_quorum_cert_for_block T i = Some qc \<longrightarrow> (\<exists>b. get_block T i = Some b \<and> pb_round b \<le> pb_round h))) \<and>
    length (pruned_block_ids T) \<le> max_pruned_blocks_in_mem T \<and>
    (\<forall>saved b. saved \<noteq> Panic \<and> block_data_of b = data (block_id b) \<and> rnd data (par data (block_id b)) < block_round b \<longrightarrow>
       insert_ordered_block saved T b \<noteq> Panic) \<and>
    (\<forall>saved qc. saved \<noteq> Panic \<longrightarrow> insert_single_quorum_cert saved T qc \<noteq> Panic)"
proof (intro conjI)
  have inv: "tree_inv data T" by (rule store_reachable_inv [OF assms(2,1)])
  note links = inv_parts(1) [OF inv]
  show "\<forall>i lb. id_to_block T i = Some lb \<longrightarrow> lb_id lb = i \<and>
       lb_children lb = {c. \<exists>b. get_block T c = Some b \<and> pb_parent_id b = i} \<and>
       (\<forall>c b. get_block T c = Some b \<and> pb_parent_id b = i \<longrightarrow> pb_round (executed_block lb) < pb_round b)"
    using children_consistent [OF links] by blast
  show "\<exists>c r h. commit_root T = (Ok c :: (_, unit) result) \<and> ordered_root T = (Ok r :: (_, unit) result) \<and>
       highest_certified_block T = (Ok h :: (_, unit) result) \<and> descends data (pb_id c) (pb_id r) \<and>
       bi_id (certified_block (bt_highest_quorum_cert T)) = pb_id h \<and>
       (\<forall>i qc. get_quorum_cert_for_block T i = Some qc \<longrightarrow> (\<exists>b. get_block T i = Some b \<and> pb_round b \<le> pb_round h))"
    by (rule roots_consistent [OF inv])
  show "length (pruned_block_ids T) \<le> max_pruned_blocks_in_mem T" using inv_parts(3) [OF inv] by (simp add: pruned_inv_def)
  show "\<forall>saved b. saved \<noteq> Panic \<and> block_data_of b = data (block_id b) \<and> rnd data (par data (block_id b)) < block_round b \<longrightarrow>
       insert_ordered_block saved T b \<noteq> Panic"
    using insertion_total(1) [OF inv] by blast
  show "\<forall>saved qc. saved \<noteq> Panic \<longrightarrow> insert_single_quorum_cert saved T qc \<noteq> Panic" using insertion_total(2) [OF inv] by blast
qed

text \<open>
  \<^bold>\<open>C38.\<close> Pruning is exact: for a new root that descends from the commit root, the search for blocks to prune ends and
  returns, each once, the blocks that descend from the commit root but not from the new root, in whatever order the sets
  of children are traversed.
\<close>

theorem prune_exact:
  assumes "iterates iter" and "store_reachable data iter T" and "next_root \<in> ids T"
    and "descends data (commit_root_id T) next_root"
  shows "\<exists>pruned. find_blocks_to_prune iter T next_root = Some (Ok pruned) \<and> distinct pruned \<and>
    set pruned = {i \<in> ids T. descends data (commit_root_id T) i \<and> \<not> descends data next_root i}"
proof -
  have inv: "links_inv data T" "commit_root_id T \<in> ids T"
    using store_reachable_inv [OF assms(2,1)] by (simp_all add: tree_inv_def roots_inv_def)
  obtain pruned where "find_blocks_to_prune iter T next_root = Some (Ok pruned)" "distinct pruned"
    "set pruned = subtree data T next_root (commit_root_id T)"
    by (rule find_blocks_to_prune_exact [OF inv(1) assms(1) inv(2) assms(3,4)])
  then show ?thesis by (intro exI [of _ pruned]) (simp add: subtree_def)
qed

text \<open>
  \<^bold>\<open>C39.\<close> The path from the ordered or the commit root to a block is found if and only if the block is in the tree and
  descends from the root. The search always ends. The path has the blocks after the root up to the block, each the
  child of the one before.
\<close>

theorem path_exact:
  assumes "iterates iter" and "store_reachable data iter T"
  shows "\<exists>p q. path_from_ordered_root T i = Some (Ok p :: (_, unit) result) \<and>
    path_from_commit_root T i = Some (Ok q :: (_, unit) result) \<and>
    (p \<noteq> None \<longleftrightarrow> i \<in> ids T \<and> descends data (ordered_root_id T) i) \<and>
    (q \<noteq> None \<longleftrightarrow> i \<in> ids T \<and> descends data (commit_root_id T) i) \<and>
    (\<forall>bs. p = Some bs \<longrightarrow> chain T (ordered_root_id T) bs i) \<and> (\<forall>bs. q = Some bs \<longrightarrow> chain T (commit_root_id T) bs i)"
proof -
  have inv: "links_inv data T" "commit_root_id T \<in> ids T" "ordered_root_id T \<in> ids T"
    using store_reachable_inv [OF assms(2,1)] by (simp_all add: tree_inv_def roots_inv_def)
  obtain c r where c: "(commit_root T :: (_, unit) result) = Ok c" "get_block T (commit_root_id T) = Some c"
    and r: "(ordered_root T :: (_, unit) result) = Ok r" "get_block T (ordered_root_id T) = Some r"
    using root_Ok [OF inv(2)] root_Ok [OF inv(3)] by (auto simp: commit_root_def ordered_root_def)
  note rounds = links_block(4) [OF inv(1) c(2)] links_block(4) [OF inv(1) r(2)]
  obtain p where p: "path_from_root_to_block T i (ordered_root_id T) (pb_round r) = Some p"
    "p \<noteq> None \<longleftrightarrow> i \<in> ids T \<and> descends data (ordered_root_id T) i" "\<forall>bs. p = Some bs \<longrightarrow> chain T (ordered_root_id T) bs i"
    using path_exact_links [OF inv(1,3), of i] unfolding rounds by blast
  obtain q where q: "path_from_root_to_block T i (commit_root_id T) (pb_round c) = Some q"
    "q \<noteq> None \<longleftrightarrow> i \<in> ids T \<and> descends data (commit_root_id T) i" "\<forall>bs. q = Some bs \<longrightarrow> chain T (commit_root_id T) bs i"
    using path_exact_links [OF inv(1,2), of i] unfolding rounds by blast
  have "path_from_ordered_root T i = Some (Ok p :: (_, unit) result)" "path_from_commit_root T i = Some (Ok q :: (_, unit) result)"
    by (simp_all add: path_from_ordered_root_def path_from_commit_root_def c(1) r(1) p(1) q(1))
  with p(2,3) q(2,3) show ?thesis by blast
qed

text \<open>
  \<^bold>\<open>C40.\<close> The commit of a block that is ready ends without panic and makes the block the commit root. Every block that
  descends from it stays. The other blocks of the old tree join the list of pruned blocks, from which the oldest are
  removed so that at most the configured number is kept.
\<close>

theorem commit_advances:
  assumes "iterates iter" and "store_reachable data iter T" and "commit_ready data T bs decision"
    and "match_ordered_only (qc_commit_info finality_proof) (commit_info (lis_ledger_info decision))"
  shows "\<exists>T'. commit_callback iter T bs finality_proof decision = Some (Ok T') \<and> commit_root_id T' = pb_id (last bs) \<and>
    {j \<in> ids T'. descends data (pb_id (last bs)) j} = {j \<in> ids T. descends data (pb_id (last bs)) j} \<and> ids T' \<subseteq> ids T \<and>
    set (pruned_block_ids T') = {j \<in> ids T'. j \<in> set (pruned_block_ids T) \<or>
       descends data (commit_root_id T) j \<and> \<not> descends data (pb_id (last bs)) j} \<and>
    length (pruned_block_ids T') \<le> max_pruned_blocks_in_mem T'"
proof -
  obtain T' where T': "commit_callback iter T bs finality_proof decision = Some (Ok T')" "tree_inv data T'"
    "commit_root_id T' = pb_id (last bs)"
    "{j \<in> ids T'. descends data (pb_id (last bs)) j} = {j \<in> ids T. descends data (pb_id (last bs)) j}" "ids T' \<subseteq> ids T"
    "set (pruned_block_ids T') = {j \<in> ids T'. j \<in> set (pruned_block_ids T) \<or> j \<in> subtree data T (pb_id (last bs)) (commit_root_id T)}"
    by (rule commit_keeps_inv [OF store_reachable_inv [OF assms(2,1)] assms(1,3,4) refl])
  have "length (pruned_block_ids T') \<le> max_pruned_blocks_in_mem T'" using T'(2) by (simp add: tree_inv_def pruned_inv_def)
  moreover have "set (pruned_block_ids T') = {j \<in> ids T'. j \<in> set (pruned_block_ids T) \<or>
      descends data (commit_root_id T) j \<and> \<not> descends data (pb_id (last bs)) j}"
    using T'(5) unfolding T'(6) by (auto simp: subtree_def)
  ultimately show ?thesis using T'(1,3,4,5) by blast
qed

section \<open>Witnesses\<close>

text \<open>A numbering of blocks in which block \<open>i\<close> has round \<open>i\<close> and parent \<open>i div 2\<close>.\<close>

definition heap_info :: "hash_value \<Rightarrow> block_info" where
  "heap_info i = bi_new 1 (ucast i) i 0 0 0 None"

definition heap_qc :: "hash_value \<Rightarrow> hash_value \<Rightarrow> quorum_cert" where
  "heap_qc certified committed = qc_new (vd_new (heap_info certified) (heap_info 0)) (lis_new (li_new (heap_info committed) 0) agg_empty)"

definition heap_data :: "hash_value \<Rightarrow> block_data" where
  "heap_data i = \<lparr>bd_epoch = 1, bd_round = ucast i, bd_timestamp_usecs = 0, bd_quorum_cert = heap_qc (i div 2) 0, bd_block_type = NilBlock []\<rparr>"

definition heap_block :: "hash_value \<Rightarrow> block" where
  "heap_block i = \<lparr>block_id = i, block_data_of = heap_data i, block_signature = None\<rparr>"

definition heap_node :: "hash_value \<Rightarrow> hash_value set \<Rightarrow> linkable_block" where
  "heap_node i C = \<lparr>executed_block = pb_new_ordered (heap_block i), lb_children = C\<rparr>"

text \<open>The tree of the blocks 1, 2, 3 and 6, with block 3 certified and ordered.\<close>

definition heap_root :: block_tree where
  "heap_root =
     \<lparr>id_to_block = [1 \<mapsto> heap_node 1 {}], ordered_root_id = 1, commit_root_id = 1, highest_certified_block_id = 1,
      bt_highest_quorum_cert = heap_qc 1 0, bt_highest_2chain_timeout_cert = None, bt_highest_ordered_cert = heap_qc 1 1,
      bt_highest_commit_cert = heap_qc 1 1, id_to_quorum_cert = [1 \<mapsto> heap_qc 1 0], pruned_block_ids = [],
      max_pruned_blocks_in_mem = 1\<rparr>"

definition heap_tree :: block_tree where
  "heap_tree =
     heap_root\<lparr>id_to_block := [1 \<mapsto> heap_node 1 {2, 3}, 2 \<mapsto> heap_node 2 {}, 3 \<mapsto> heap_node 3 {6}, 6 \<mapsto> heap_node 6 {}],
       ordered_root_id := 3, highest_certified_block_id := 3, bt_highest_quorum_cert := heap_qc 3 3,
       id_to_quorum_cert := [1 \<mapsto> heap_qc 1 0, 3 \<mapsto> heap_qc 3 3], bt_highest_ordered_cert := heap_qc 3 3\<rparr>"

lemma heap_par [simp]: "par heap_data i = i div 2"
  by (simp add: par_def heap_data_def bd_parent_id_def heap_qc_def qc_new_def vd_new_def heap_info_def bi_new_def)

lemma heap_rnd [simp]: "rnd heap_data i = ucast i"
  by (simp add: heap_data_def)

lemma heap_fields [simp]:
  "pb_id (pb_new_ordered (heap_block i)) = i" "block_data_of (heap_block i) = heap_data i" "block_id (heap_block i) = i"
  "block_data_of (pb_block (pb_new_ordered (heap_block i))) = heap_data i" "bd_parent_id (heap_data i) = i div 2"
  "executed_block (heap_node i C) = pb_new_ordered (heap_block i)" "lb_children (heap_node i C) = C"
  "heap_node i C\<lparr>lb_children := D\<rparr> = heap_node i D" "lb_new (pb_new_ordered (heap_block i)) = heap_node i {}"
  "certified_block (heap_qc a b) = heap_info a" "qc_commit_info (heap_qc a b) = heap_info b"
  "bi_id (heap_info i) = i" "bi_round (heap_info i) = ucast i"
  using heap_par [of i]
  by (simp_all add: pb_new_ordered_def heap_block_def heap_node_def lb_new_def heap_qc_def qc_new_def vd_new_def lis_new_def
      li_new_def heap_info_def bi_new_def par_def)

lemma heap_insert:
  assumes "i \<notin> ids T" and "id_to_block T (i div 2) = Some (heap_node (i div 2) C)" and "i \<notin> C"
    and "get_block T (ordered_root_id T) = Some r" and "pb_round r < ucast i"
  shows "insert_ordered_block (Ok ()) T (heap_block i) = Ok (pb_new_ordered (heap_block i),
    T\<lparr>id_to_block := (id_to_block T)(i div 2 \<mapsto> heap_node (i div 2) (insert i C), i \<mapsto> heap_node i {})\<rparr>)"
proof -
  have "i \<noteq> i div 2" "id_to_block T i = None" using assms(1,2) by auto
  then show ?thesis using assms
    by (auto simp: insert_ordered_block_def insert_block_def get_block_def ordered_root_def ensure_def add_child_def assert_p_def Let_def)
qed

lemma heap_step:
  assumes "store_reachable heap_data iter T" and "ucast (i div 2) < (ucast i :: round)"
    and "i \<notin> ids T" and "id_to_block T (i div 2) = Some (heap_node (i div 2) C)" and "i \<notin> C"
    and "get_block T (ordered_root_id T) = Some r" and "pb_round r < ucast i"
  shows "store_reachable heap_data iter
    (T\<lparr>id_to_block := (id_to_block T)(i div 2 \<mapsto> heap_node (i div 2) (insert i C), i \<mapsto> heap_node i {})\<rparr>)"
  using store_reachable.step [OF assms(1) store_step.block [OF _ _ heap_insert [OF assms(3-7)]]] assms(2) by simp

lemma heap_root_reachable: "store_reachable heap_data iter heap_root"
proof (rule store_reachable.init)
  have "(par heap_data ^^ Suc n) 1 = 0" for n by (induction n) simp_all
  then show "root_ok heap_data (pb_new_ordered (heap_block 1)) (heap_qc 1 0) (heap_qc 1 1)" by (simp add: root_ok_def)
  show "bt_new (pb_new_ordered (heap_block 1)) (heap_qc 1 0) (heap_qc 1 1) (heap_qc 1 1) 1 None = Ok heap_root"
    by (simp add: bt_new_def heap_root_def assert_p_def)
qed

lemma heap_tree_reachable: "store_reachable heap_data iter heap_tree"
proof -
  have 2: "store_reachable heap_data iter (heap_root\<lparr>id_to_block := [1 \<mapsto> heap_node 1 {2}, 2 \<mapsto> heap_node 2 {}]\<rparr>)"
    using heap_step [OF heap_root_reachable, of 2 "{}" "pb_new_ordered (heap_block 1)"] by (simp add: heap_root_def get_block_def)
  have 3: "store_reachable heap_data iter
    (heap_root\<lparr>id_to_block := [1 \<mapsto> heap_node 1 {2, 3}, 2 \<mapsto> heap_node 2 {}, 3 \<mapsto> heap_node 3 {}]\<rparr>)"
    using heap_step [OF 2, of 3 "{2}" "pb_new_ordered (heap_block 1)"]
    by (simp add: heap_root_def get_block_def fun_upd_twist insert_commute)
  define T where "T = heap_root\<lparr>id_to_block := [1 \<mapsto> heap_node 1 {2, 3}, 2 \<mapsto> heap_node 2 {}, 3 \<mapsto> heap_node 3 {6}, 6 \<mapsto> heap_node 6 {}]\<rparr>"
  have T: "store_reachable heap_data iter T"
    using heap_step [OF 3, of 6 "{}" "pb_new_ordered (heap_block 1)"]
    by (simp add: heap_root_def get_block_def fun_upd_twist T_def)
  define T' where "T' = heap_tree\<lparr>ordered_root_id := 1\<rparr>"
  have info: "(pb_block_info (pb_new_ordered (heap_block 3)) :: (block_info, anyhow) result) =
    Ok (gen_block_info (heap_block 3) ACCUMULATOR_PLACEHOLDER_HASH 0 None)"
    by (simp add: pb_block_info_def pb_new_ordered_def scr_version_def scr_new_dummy_def new_dummy_with_root_hash_def checked_sub_def)
  have "insert_single_quorum_cert (Ok ()) T (heap_qc 3 3) = Ok T'"
    by (simp add: insert_single_quorum_cert_def insert_quorum_cert_def T_def T'_def heap_tree_def heap_root_def get_block_def
        info gen_block_info_def match_ordered_only_def heap_info_def bi_new_def ensure_def Let_def highest_certified_block_def heap_data_def)
  from store_reachable.step [OF T store_step.cert [OF this]] have T': "store_reachable heap_data iter T'" .
  have "send_for_execution T' (heap_qc 3 3) = Some (Ok ([pb_new_ordered (heap_block 3)], heap_tree))"
    by (simp add: send_for_execution_def path_from_ordered_root_def path_from_root_to_block_def ordered_root_def get_block_def
        T'_def heap_tree_def heap_root_def path_loop.simps ensure_def assert_p_def update_ordered_root_def block_exists_def Let_def not_le)
  from store_reachable.step [OF T' store_step.order [OF this]] show ?thesis .
qed

lemma sorted_iterates: "iterates sorted_list_of_set"
  by (simp add: iterates_def)

lemma heap_ids: "ids heap_tree = {1, 2, 3, 6}"
  by (auto simp: heap_tree_def)

lemma heap_descends:
  "descends heap_data 1 3" "descends heap_data 3 6" "descends heap_data 1 2" "descends heap_data 1 6"
  "\<not> descends heap_data 3 1" "\<not> descends heap_data 3 2"
proof -
  show "descends heap_data 1 3" "descends heap_data 3 6" "descends heap_data 1 2"
    using descends_parent [of heap_data 3] descends_parent [of heap_data 6] descends_parent [of heap_data 2] by simp_all
  show "descends heap_data 1 6" by (rule descends_trans [OF \<open>descends heap_data 1 3\<close> \<open>descends heap_data 3 6\<close>])
  have 0: "(par heap_data ^^ n) 0 = 0" for n by (induction n) simp_all
  have 1: "(par heap_data ^^ n) 1 \<noteq> 3" for n by (cases n) (simp_all add: funpow_Suc_right 0 del: funpow.simps)
  then show "\<not> descends heap_data 3 1" by (simp add: descends_def)
  have "(par heap_data ^^ n) 2 \<noteq> 3" for n using 1 by (cases n) (simp_all add: funpow_Suc_right del: funpow.simps)
  then show "\<not> descends heap_data 3 2" by (simp add: descends_def)
qed

theorem block_tree_consistent_witness:
  "lb_children (heap_node 1 {2, 3}) = {c. \<exists>b. get_block heap_tree c = Some b \<and> pb_parent_id b = 1} \<and>
   insert_ordered_block (Ok ()) heap_tree (heap_block 5) \<noteq> Panic"
proof -
  have "id_to_block heap_tree 1 = Some (heap_node 1 {2, 3})" by (simp add: heap_tree_def)
  with block_tree_consistent [OF sorted_iterates heap_tree_reachable]
  have "lb_children (heap_node 1 {2, 3}) = {c. \<exists>b. get_block heap_tree c = Some b \<and> pb_parent_id b = 1}" by blast
  moreover have "insert_ordered_block (Ok ()) heap_tree (heap_block 5) \<noteq> Panic"
    using block_tree_consistent [OF sorted_iterates heap_tree_reachable] by simp
  ultimately show ?thesis by blast
qed

theorem prune_exact_witness:
  "\<exists>pruned. find_blocks_to_prune sorted_list_of_set heap_tree 3 = Some (Ok pruned) \<and> distinct pruned \<and> set pruned = {1, 2}"
proof -
  have root: "commit_root_id heap_tree = 1" by (simp add: heap_tree_def heap_root_def)
  then have "\<exists>pruned. find_blocks_to_prune sorted_list_of_set heap_tree 3 = Some (Ok pruned) \<and> distinct pruned \<and>
    set pruned = {i \<in> ids heap_tree. descends heap_data (commit_root_id heap_tree) i \<and> \<not> descends heap_data 3 i}"
    by (intro prune_exact [OF sorted_iterates heap_tree_reachable]) (simp_all add: heap_ids heap_descends)
  moreover have "{i \<in> ids heap_tree. descends heap_data (commit_root_id heap_tree) i \<and> \<not> descends heap_data 3 i} = {1, 2}"
    unfolding heap_ids root using heap_descends by auto
  ultimately show ?thesis by simp
qed

theorem path_exact_witness:
  "\<exists>bs. path_from_commit_root heap_tree 6 = Some (Ok (Some bs) :: (_, unit) result) \<and> chain heap_tree 1 bs 6 \<and>
     path_from_ordered_root heap_tree 2 = Some (Ok None :: (_, unit) result)"
proof -
  have roots: "commit_root_id heap_tree = 1" "ordered_root_id heap_tree = 3" by (simp_all add: heap_tree_def heap_root_def)
  from path_exact [OF sorted_iterates heap_tree_reachable, of 6] obtain bs where
    "path_from_commit_root heap_tree 6 = Some (Ok (Some bs) :: (_, unit) result)" "chain heap_tree 1 bs 6"
    unfolding heap_ids roots using heap_descends(4) by auto
  moreover from path_exact [OF sorted_iterates heap_tree_reachable, of 2]
  have "path_from_ordered_root heap_tree 2 = Some (Ok None :: (_, unit) result)"
    unfolding heap_ids roots using heap_descends(6) by auto
  ultimately show ?thesis by blast
qed

theorem commit_advances_witness:
  "\<exists>T'. commit_callback sorted_list_of_set heap_tree [pb_new_ordered (heap_block 3)] (heap_qc 3 3)
       (lis_new (li_new (heap_info 3) 0) agg_empty) = Some (Ok T') \<and> commit_root_id T' = 3 \<and> {3, 6} \<subseteq> ids T' \<and>
     length (pruned_block_ids T') \<le> max_pruned_blocks_in_mem T'"
proof -
  let ?decision = "lis_new (li_new (heap_info 3) 0) agg_empty"
  have decision: "commit_info (lis_ledger_info ?decision) = heap_info 3" by (simp add: lis_new_def li_new_def)
  have roots: "commit_root_id heap_tree = 1" "ordered_root_id heap_tree = 3" "highest_certified_block_id heap_tree = 3"
    by (simp_all add: heap_tree_def heap_root_def)
  have "commit_ready heap_data heap_tree [pb_new_ordered (heap_block 3)] ?decision"
    using heap_descends(1) by (simp add: commit_ready_def Let_def decision roots heap_ids)
  from commit_advances [OF sorted_iterates heap_tree_reachable this, of "heap_qc 3 3"] obtain T' where
    T': "commit_callback sorted_list_of_set heap_tree [pb_new_ordered (heap_block 3)] (heap_qc 3 3) ?decision = Some (Ok T')"
      "commit_root_id T' = 3" "{j \<in> ids T'. descends heap_data 3 j} = {j \<in> ids heap_tree. descends heap_data 3 j}"
      "length (pruned_block_ids T') \<le> max_pruned_blocks_in_mem T'"
    unfolding decision by (auto simp: match_ordered_only_def)
  have "{3, 6} \<subseteq> {j \<in> ids heap_tree. descends heap_data 3 j}" using heap_descends(2) by (simp add: heap_ids)
  then have "{3, 6} \<subseteq> ids T'" unfolding T'(3) [symmetric] by blast
  with T' show ?thesis by blast
qed

end
