(* ===== verification/Spec2Isabelle.thy ===== *)
theory Spec2Isabelle
  imports Versioned_Data Delayed_Fields Range_Proofs Sparse_Merkle Epoch_Change Agreement Pending_Votes Block_Tree
begin

text \<open>
  A verification library for the validator node of a blockchain under \<open>src/\<close> (a fork of aptos-core).

  \<^bold>\<open>The program.\<close> Validators agree on a chain of blocks. In each round a leader proposes a block; a validator's safety
  rules (\<open>consensus/safety-rules\<close>), the only code that holds its key, decide whether to vote for it, and record the vote
  in a storage that survives restarts. The votes of a round are collected into a quorum certificate
  (\<open>consensus/src/pending_votes.rs\<close>), certificates extend the tree of pending blocks (\<open>consensus/src/block_storage\<close>), and
  two certified blocks in consecutive rounds commit the first. Ordered blocks are executed in parallel on a multi-version
  memory (\<open>aptos-move/mvhashmap\<close>), with counters that several transactions may change at once
  (\<open>aptos-move/aptos-aggregator\<close>). The results are committed to by Merkle accumulators and a sparse Merkle tree
  (\<open>types/src/proof\<close>); light clients and state sync follow the chain by proofs against ledger infos that a quorum of
  validators signed (\<open>types/src\<close>).

  \<^bold>\<open>Conventions.\<close> A struct is a record, an enum a datatype, a fallible function returns \<open>Ok\<close>, \<open>Err\<close> or \<open>Panic\<close>
  (\<open>Rust_Prelude\<close>), a method that updates its object returns the new object, and the stateful code of the safety rules
  is a function from a state to a result and the next state, also after an error. Machine integers are words; \<open>+\<close>, \<open>-\<close>
  and \<open>*\<close> panic on overflow, as \<open>overflow-checks\<close> in \<open>src/Cargo.toml\<close> says. Lengths of vectors are natural numbers.
  Definitions have the names of the code, with a prefix for the type where two types share a name.

  \<^bold>\<open>Aggregators and parallel execution.\<close>

  \<^item> \<open>Bounded_Math\<close>, \<open>Agg_Types\<close>, \<open>Delta_Math\<close>, \<open>Delta_Change_Set\<close>, \<open>Delayed_Changes\<close>: \<open>bounded_math.rs\<close>, \<open>types.rs\<close>,
    \<open>delta_math.rs\<close>, \<open>delta_change_set.rs\<close> and \<open>delayed_change.rs\<close> of \<open>aptos-aggregator/src\<close>. A history of deltas means a
    set of base values; validation decides it and merging composes it, and merged or squashed changes act like the
    changes in sequence. The locales \<open>delta_algebra\<close> and \<open>exact_delta\<close> hold the contract of the two kinds of deltas.
  \<^item> \<open>Delayed_Reads\<close>, \<open>Delayed_Fields\<close>: \<open>captured_reads.rs\<close> and \<open>view.rs\<close> of \<open>block-executor/src\<close>, as far as they concern
    delayed fields, and \<open>delayed_field_extension.rs\<close>. The locales \<open>delayed_view\<close> and \<open>speculative_view\<close> hold what the
    sequential and the parallel view promise; a speculative run whose reads validate has the outcomes of the sequential
    run. Loops that wait for other transactions take the list of answers they get and return \<open>None\<close> when it ends.
  \<^item> \<open>Versioned_Data\<close>: \<open>mvhashmap/src/versioned_data.rs\<close>. A read returns what the entries below the reader leave when they
    take effect one by one.

  \<^bold>\<open>Certificates and proofs.\<close>

  \<^item> \<open>Bit_Vec\<close>, \<open>Validator_Verifier\<close>, \<open>Ledger_Types\<close>: \<open>aptos-bitvec\<close>, \<open>validator_verifier.rs\<close>, \<open>ledger_info.rs\<close>,
    \<open>block_info.rs\<close> and the on-chain validator set. Quorums intersect in an honest validator (locale \<open>weighted_quorum\<close>),
    and aggregation is complete for verification.
  \<^item> \<open>Position\<close>, \<open>Merkle_Accumulator\<close>, \<open>Accumulator_Consistency\<close>, \<open>Range_Proofs\<close>, \<open>Sparse_Merkle\<close>: \<open>types/src/proof\<close>. The
    specification is the tree of all leaves, built level by level, and a binary trie. Proofs are complete and, with hash
    functions free of collisions, sound; the panics that data from a peer can cause are characterised.
  \<^item> \<open>Epoch_Change\<close>: \<open>epoch_change.rs\<close>, \<open>waypoint.rs\<close>, \<open>trusted_state.rs\<close>, \<open>state_proof.rs\<close>. The three verifiers of epoch
    changes implement one contract (locale \<open>verifier_iface\<close>), and a trusted state never leaves the signed chain.

  \<^bold>\<open>Consensus.\<close>

  \<^item> \<open>Proof_Of_Store\<close>, \<open>Consensus_Types\<close>, \<open>Blocks\<close>: \<open>consensus/consensus-types/src\<close>, the messages and every check that their
    verification makes.
  \<^item> \<open>Safety_Storage\<close>, \<open>Safety_Rules\<close>, \<open>Voting\<close>: \<open>consensus/safety-rules/src\<close> with the start-up configuration in \<open>config/src\<close>.
    The store carries the answers of its backend to the calls to come: served, failed, or written with a reply that is
    lost. Requests refine the step relation \<open>sd_step\<close> on the stored safety data. The results are that no two votes of one
    round are handed out, that the data stays well formed and never goes back, that epochs are those of the signed chain,
    and that a safe proposal gets its vote. Those on votes hold for runs in which no restart initialises the storage
    again (\<open>keeps_run\<close>); a failed read at start-up does that under an initial configuration, which is shown as a defect, as
    is the setting without a cache, in which the rules grant nothing.
  \<^item> \<open>Agreement\<close>: the validators of an epoch as a step relation \<open>reachable\<close> on the states of their safety rules and the
    messages they signed; committed blocks form one chain.
  \<^item> \<open>Pending_Votes\<close>: \<open>pending_votes.rs\<close> and \<open>qc_aggregator.rs\<close>. Certificates that are collected verify, and without delayed
    aggregation votes are counted exactly.
  \<^item> \<open>Block_Tree\<close>: \<open>block_tree.rs\<close> and the operations of \<open>block_store.rs\<close> that change the tree. The links and roots stay
    consistent over \<open>store_reachable\<close>, and pruning, paths and commits do what they should and end.

  \<^bold>\<open>Parameters and assumptions.\<close> Hash functions and signature schemes are fields of records; that hashes do not collide
  and that signatures of honest validators are not forged are named hypotheses, and every property that uses them has an
  instance where they hold. The clock, the outcome of database writes, the iteration order of hash maps and files named
  in a configuration are arguments. \<open>commit_ready\<close> is what the execution pipeline promises to the block tree, and
  \<open>admissible\<close> what the code around the safety rules and the signature schemes contribute to agreement.

  \<^bold>\<open>Fuel.\<close> There is none. Loops without a structural measure are functions with a termination proof, or return \<open>None\<close> when
  they do not end; the properties then show that they end.

  \<^bold>\<open>Not modelled.\<close> The event loops of consensus (round manager, proposal generation, leader election, execution
  pipeline), DAG consensus and randomness, the quorum store beyond its proofs, the scheduler of the block executor, the
  Move virtual machine, the databases, state sync, networking, mempool and the interfaces to users: they are asynchronous
  code on channels and tasks, input and output, or systems of their own. Calls that the modelled code makes at the same
  time are taken one after the other, in the order of their locks. Logging and metrics have no effect here.
\<close>

end
